(* ===== verification/Nachos_Prelude.thy ===== *)
theory Nachos_Prelude
  imports Main "HOL-Library.Word" "HOL-Library.Signed_Division"
begin

text \<open>
  Shared vocabulary of the development: the ways a Nachos routine can fail, the sequencing of
  fallible routines, the arithmetic macros of \<^verbatim>\<open>threads/utility.h\<close>, the sizes of
  \<^verbatim>\<open>machine/disk.h\<close> and \<^verbatim>\<open>machine/machine.h\<close>, and the generic lemmas on lists
  that several components use.
\<close>

section \<open>Collections of facts\<close>

named_theorems nachos_defs \<open>definitions of straight-line routines, unfolded together\<close>
named_theorems nachos_frame \<open>which fields an operation leaves alone\<close>
named_theorems nachos_inv \<open>preservation of a component's invariant\<close>

section \<open>Failure as a value\<close>

text \<open>
  \<^verbatim>\<open>ASSERT\<close> aborts the program (\<open>AssertionFailed\<close>); a dereference of \<open>NULL\<close>,
  an access outside an array and a division whose result does not fit are undefined behaviour in
  C++ and get error values of their own, so that a theorem that a routine succeeds also says that it does neither.
  \<open>WouldBlock\<close> is the outcome of a routine whose thread goes to sleep on a lock that another thread holds:
  the call does not return in the state the model describes. \<open>Halted\<close> is the end of the simulation by
  \<open>interrupt->Halt()\<close>, \<open>BadAlloc\<close> the exception of a \<^verbatim>\<open>new\<close> with a negative size, which nobody catches.
\<close>

datatype nachos_error =
    AssertionFailed | NullDereference | OutOfRange | UndefinedArithmetic | WouldBlock | Halted | BadAlloc

type_synonym 'a res = "nachos_error + 'a"

definition bindE :: "'a res \<Rightarrow> ('a \<Rightarrow> 'b res) \<Rightarrow> 'b res" where
  "bindE m f = (case m of Inl e \<Rightarrow> Inl e | Inr x \<Rightarrow> f x)"

definition ASSERT :: "bool \<Rightarrow> unit res" where
  "ASSERT condition = (if condition then Inr () else Inl AssertionFailed)"

lemma bindE_simps [simp]:
  "bindE (Inl e) f = Inl e"
  "bindE (Inr x) f = f x"
  by (simp_all add: bindE_def)

lemma bindE_Inr_iff: "bindE m f = Inr y \<longleftrightarrow> (\<exists>x. m = Inr x \<and> f x = Inr y)"
  by (simp add: bindE_def split: sum.splits)

lemma bindE_InrE [elim]:
  assumes "bindE m f = Inr y"
  obtains x where "m = Inr x" and "f x = Inr y"
  using assms by (auto simp: bindE_Inr_iff)

lemma bindE_assoc: "bindE (bindE m f) g = bindE m (\<lambda>x. bindE (f x) g)"
  by (simp add: bindE_def split: sum.splits)

lemma ASSERT_simps [simp]:
  "ASSERT True = Inr ()"
  "ASSERT False = Inl AssertionFailed"
  "ASSERT c = Inr u \<longleftrightarrow> c"
  "ASSERT c = Inl e \<longleftrightarrow> \<not> c \<and> e = AssertionFailed"
  by (auto simp: ASSERT_def)

text \<open>A \<^verbatim>\<open>for\<close> loop over a known sequence of values, whose body may fail.\<close>

primrec foldE :: "('b \<Rightarrow> 's \<Rightarrow> 's res) \<Rightarrow> 'b list \<Rightarrow> 's \<Rightarrow> 's res" where
  "foldE f [] s = Inr s"
| "foldE f (x # xs) s = bindE (f x s) (foldE f xs)"

lemma foldE_append: "foldE f (xs @ ys) s = bindE (foldE f xs s) (foldE f ys)"
  by (induction xs arbitrary: s) (simp_all add: bindE_def split: sum.splits)

text \<open>The rule for such a loop: the invariant speaks about the values already processed.\<close>

lemma foldE_rule:
  assumes "I [] s"
    and "\<And>done x rest s. xs = done @ x # rest \<Longrightarrow> I done s \<Longrightarrow>
      \<exists>s'. f x s = Inr s' \<and> I (done @ [x]) s'"
  shows "\<exists>s'. foldE f xs s = Inr s' \<and> I xs s'"
proof -
  have "\<exists>s'. foldE f ys s = Inr s' \<and> I ys s'" if "xs = ys @ zs" for ys zs
    using that
  proof (induction ys arbitrary: zs rule: rev_induct)
    case Nil
    then show ?case using assms(1) by simp
  next
    case (snoc y ys)
    then obtain s1 where "foldE f ys s = Inr s1" "I ys s1" by auto
    moreover obtain s2 where "f y s1 = Inr s2" "I (ys @ [y]) s2"
      using assms(2) [of ys y zs s1] snoc.prems calculation(2) by auto
    ultimately show ?case by (auto simp: foldE_append)
  qed
  from this [of xs "[]"] show ?thesis by simp
qed

text \<open>
  The loop \<^verbatim>\<open>for (; i < n; i++) if (P(i)) return i; return -1;\<close>
\<close>

function search_from :: "(int \<Rightarrow> bool res) \<Rightarrow> int \<Rightarrow> int \<Rightarrow> int res" where
  "search_from P n i =
     (if i < n then bindE (P i) (\<lambda>found. if found then Inr i else search_from P n (i + 1)) else Inr (-1))"
  by pat_completeness auto
termination by (relation "measure (\<lambda>(P, n, i). nat (n - i))") auto

lemmas [simp del] = search_from.simps

lemma search_from_spec:
  assumes "\<forall>k. i \<le> k \<and> k < n \<longrightarrow> P k = Inr (p k)"
  shows "(\<exists>k. search_from P n i = Inr k \<and> i \<le> k \<and> k < n \<and> p k \<and> (\<forall>j. i \<le> j \<and> j < k \<longrightarrow> \<not> p j)) \<or>
    search_from P n i = Inr (-1) \<and> (\<forall>j. i \<le> j \<and> j < n \<longrightarrow> \<not> p j)"
  using assms
proof (induction P n i rule: search_from.induct)
  case (1 P n i)
  show ?case
  proof (cases "i < n \<and> \<not> p i")
    case True
    then have Pi: "P i = Inr False" using "1.prems" by simp
    then have step: "search_from P n i = search_from P n (i + 1)" using True by (subst search_from.simps) simp
    have more: "\<not> p j" if "\<forall>j. i + 1 \<le> j \<and> j < m \<longrightarrow> \<not> p j" "i \<le> j" "j < m" for j m
      using that True by (cases "j = i") auto
    have "(\<exists>k. search_from P n (i + 1) = Inr k \<and> i + 1 \<le> k \<and> k < n \<and> p k \<and> (\<forall>j. i + 1 \<le> j \<and> j < k \<longrightarrow> \<not> p j)) \<or>
      search_from P n (i + 1) = Inr (-1) \<and> (\<forall>j. i + 1 \<le> j \<and> j < n \<longrightarrow> \<not> p j)"
      using "1.IH" [of False] True "1.prems" by auto
    then show ?thesis unfolding step using more by (metis add1_zle_eq order_less_imp_le)
  next
    case False
    then show ?thesis using "1.prems" by (subst (1 2) search_from.simps) auto
  qed
qed

text \<open>Array access: outside the array the access is an error of its own.\<close>

definition array_get :: "'a list \<Rightarrow> int \<Rightarrow> 'a res" where
  "array_get xs i = (if 0 \<le> i \<and> i < int (length xs) then Inr (xs ! nat i) else Inl OutOfRange)"

definition array_set :: "'a list \<Rightarrow> int \<Rightarrow> 'a \<Rightarrow> 'a list res" where
  "array_set xs i v = (if 0 \<le> i \<and> i < int (length xs) then Inr (xs[nat i := v]) else Inl OutOfRange)"

lemma array_get_Inr_iff: "array_get xs i = Inr v \<longleftrightarrow> 0 \<le> i \<and> i < int (length xs) \<and> v = xs ! nat i"
  by (auto simp: array_get_def)

lemma array_set_Inr_iff:
  "array_set xs i v = Inr ys \<longleftrightarrow> 0 \<le> i \<and> i < int (length xs) \<and> ys = xs[nat i := v]"
  by (auto simp: array_set_def)

text \<open>Whether the simulated processor takes interrupts, and what it is doing.\<close>

datatype IntStatus = IntOff | IntOn

datatype MachineStatus = IdleMode | SystemMode | UserMode

section \<open>Arithmetic macros and sizes\<close>

text \<open>
  \<open>divRoundDown\<close> and \<open>divRoundUp\<close> use C++ division, which truncates towards zero:
  \<open>sdiv\<close> and \<open>smod\<close> of the library.
\<close>

definition divRoundDown :: "int \<Rightarrow> int \<Rightarrow> int" where
  "divRoundDown n s = n sdiv s"

definition divRoundUp :: "int \<Rightarrow> int \<Rightarrow> int" where
  "divRoundUp n s = (n sdiv s) + (if n smod s > 0 then 1 else 0)"

abbreviation SectorSize :: int where "SectorSize \<equiv> 128"
abbreviation SectorsPerTrack :: int where "SectorsPerTrack \<equiv> 32"
abbreviation NumTracks :: int where "NumTracks \<equiv> 32"
abbreviation NumSectors :: int where "NumSectors \<equiv> 1024"
abbreviation PageSize :: int where "PageSize \<equiv> 128"
abbreviation NumPhysPages :: int where "NumPhysPages \<equiv> 4096"
abbreviation MemorySize :: int where "MemorySize \<equiv> 524288"
abbreviation TLBSize :: int where "TLBSize \<equiv> 4"

lemma sdiv_nonneg_eq:
  fixes n s :: int
  assumes "0 \<le> n" and "0 < s"
  shows "n sdiv s = n div s"
  using assms by (cases "n = 0") (simp_all add: signed_divide_int_def)

lemma smod_nonneg_eq:
  fixes n s :: int
  assumes "0 \<le> n" and "0 < s"
  shows "n smod s = n mod s"
  using assms by (cases "n = 0") (simp_all add: signed_modulo_int_def)

lemma divRoundUp_bounds:
  assumes "0 \<le> n" and "0 < s"
  shows "n \<le> divRoundUp n s * s" and "divRoundUp n s * s < n + s"
proof -
  define r where "r = n mod s"
  have rest: "0 \<le> r" "r < s" using assms by (simp_all add: r_def)
  have whole: "divRoundUp n s * s = n - r + (if 0 < r then s else 0)"
    using assms
    by (simp add: r_def divRoundUp_def sdiv_nonneg_eq smod_nonneg_eq distrib_right
        minus_mod_eq_div_mult)
  show "n \<le> divRoundUp n s * s" using whole rest by (auto split: if_splits)
  show "divRoundUp n s * s < n + s" using whole rest assms by (auto split: if_splits)
qed

section \<open>Lists\<close>

lemma sorted_wrt_insort_middle:
  assumes "sorted_wrt R (xs @ ys)" and "\<forall>x\<in>set xs. R x a" and "\<forall>y\<in>set ys. R a y"
  shows "sorted_wrt R (xs @ a # ys)"
  using assms by (auto simp: sorted_wrt_append)

lemma nth_append_snd: "length xs \<le> i \<Longrightarrow> (xs @ ys) ! i = ys ! (i - length xs)"
  by (simp add: nth_append)

lemma take_drop_update_outside:
  assumes "i < a \<or> a + n \<le> i"
  shows "take n (drop a (xs[i := v])) = take n (drop a xs)"
proof (rule nth_equalityI)
  fix k assume "k < length (take n (drop a (xs[i := v])))"
  then show "take n (drop a (xs[i := v])) ! k = take n (drop a xs) ! k"
    using assms by auto
qed simp

end
