(* ===== verification/Nachos_Bitmap.thy ===== *)
theory Nachos_Bitmap
  imports Nachos_Prelude
begin

unbundle bit_operations_syntax

text \<open>
  The bitmap of \<^verbatim>\<open>userprog/bitmap.cc\<close>: an array of 32-bit words in which bit \<open>i mod 32\<close>
  of word \<open>i div 32\<close> says whether slot \<open>i\<close> is in use. It manages disk sectors, memory pages,
  swap pages and table slots. The abstract object is the set of the used slots; the interface
  its clients rely on is the locale \<open>slot_allocator\<close>.
\<close>

section \<open>State and operations\<close>

abbreviation BitsInWord :: int where "BitsInWord \<equiv> 32"

record BitMap =
  numBits :: int
  numWords :: int
  bmap :: "32 word list"

definition Test :: "BitMap \<Rightarrow> int \<Rightarrow> bool res" where
  "Test b which =
     bindE (ASSERT (which \<ge> 0 \<and> which < numBits b)) (\<lambda>_.
     bindE (array_get (bmap b) (which sdiv BitsInWord)) (\<lambda>w.
       Inr (w AND push_bit (nat (which smod BitsInWord)) 1 \<noteq> 0)))"

definition Mark :: "BitMap \<Rightarrow> int \<Rightarrow> BitMap res" where
  "Mark b which =
     bindE (ASSERT (which \<ge> 0 \<and> which < numBits b)) (\<lambda>_.
     bindE (array_get (bmap b) (which sdiv BitsInWord)) (\<lambda>w.
     bindE (array_set (bmap b) (which sdiv BitsInWord)
              (w OR push_bit (nat (which smod BitsInWord)) 1)) (\<lambda>m.
       Inr (b\<lparr>bmap := m\<rparr>))))"

definition Clear :: "BitMap \<Rightarrow> int \<Rightarrow> BitMap res" where
  "Clear b which =
     bindE (ASSERT (which \<ge> 0 \<and> which < numBits b)) (\<lambda>_.
     bindE (array_get (bmap b) (which sdiv BitsInWord)) (\<lambda>w.
     bindE (array_set (bmap b) (which sdiv BitsInWord)
              (w AND NOT (push_bit (nat (which smod BitsInWord)) 1))) (\<lambda>m.
       Inr (b\<lparr>bmap := m\<rparr>))))"

text \<open>
  The constructor. \<^verbatim>\<open>new unsigned int[numWords]\<close> does not initialise the storage, so its
  old contents are the parameter \<open>garbage\<close>.
\<close>

definition BitMap_new :: "(nat \<Rightarrow> 32 word) \<Rightarrow> int \<Rightarrow> BitMap res" where
  "BitMap_new garbage nitems =
     (let nw = divRoundUp nitems BitsInWord;
          b = \<lparr>numBits = nitems, numWords = nw, bmap = map garbage [0..<nat nw]\<rparr>
      in foldE (\<lambda>i b. Clear b i) [0..nitems - 1] b)"

text \<open>The two loops, from index \<open>i\<close> on; \<open>Find\<close> returns \<open>-1\<close> when no bit is clear.\<close>

function Find_from :: "BitMap \<Rightarrow> int \<Rightarrow> (int \<times> BitMap) res" where
  "Find_from b i =
     (if i < numBits b then
        bindE (Test b i) (\<lambda>t.
          if \<not> t then bindE (Mark b i) (\<lambda>b'. Inr (i, b')) else Find_from b (i + 1))
      else Inr (-1, b))"
  by pat_completeness auto
termination by (relation "measure (\<lambda>(b, i). nat (numBits b - i))") auto

definition Find :: "BitMap \<Rightarrow> (int \<times> BitMap) res" where
  "Find b = Find_from b 0"

definition NumClear :: "BitMap \<Rightarrow> int res" where
  "NumClear b =
     foldE (\<lambda>i count. bindE (Test b i) (\<lambda>t. Inr (if \<not> t then count + 1 else count)))
       [0..numBits b - 1] 0"

text \<open>\<open>Print\<close>: the numbers it prints, in order.\<close>

definition BitMap_Print :: "BitMap \<Rightarrow> int list res" where
  "BitMap_Print b =
     foldE (\<lambda>i out. bindE (Test b i) (\<lambda>t. Inr (if t then out @ [i] else out))) [0..numBits b - 1] []"

text \<open>
  \<open>FetchFrom\<close> and \<open>WriteBack\<close>: the words as the bytes of a little-endian machine, the
  representation that goes to the file.
\<close>

definition word_bytes :: "32 word \<Rightarrow> 8 word list" where
  "word_bytes w = map (\<lambda>k. ucast (drop_bit (8 * k) w)) [0..<4]"

definition bytes_word :: "8 word list \<Rightarrow> 32 word" where
  "bytes_word bs = foldr (\<lambda>b w. ucast b OR push_bit 8 w) bs 0"

fun bytes_words :: "8 word list \<Rightarrow> 32 word list" where
  "bytes_words (a # b # c # d # rest) = bytes_word [a, b, c, d] # bytes_words rest"
| "bytes_words _ = []"

definition BitMap_WriteBack :: "BitMap \<Rightarrow> 8 word list" where
  "BitMap_WriteBack b = concat (map word_bytes (bmap b))"

definition BitMap_FetchFrom :: "BitMap \<Rightarrow> 8 word list \<Rightarrow> BitMap" where
  "BitMap_FetchFrom b bytes =
     b\<lparr>bmap := bytes_words (take (nat (numWords b) * 4) bytes)\<rparr>"

section \<open>Invariant and abstraction\<close>

definition bm_wf :: "BitMap \<Rightarrow> bool" where
  "bm_wf b \<longleftrightarrow> 0 \<le> numBits b \<and> numWords b = divRoundUp (numBits b) BitsInWord \<and>
     length (bmap b) = nat (numWords b)"

definition used :: "BitMap \<Rightarrow> int set" where
  "used b = {i. 0 \<le> i \<and> i < numBits b \<and> bit (bmap b ! nat (i div 32)) (nat (i mod 32))}"

lemma bm_wf_index:
  assumes "bm_wf b" "0 \<le> i" "i < numBits b"
  shows "i sdiv 32 = i div 32" "i smod 32 = i mod 32" "0 \<le> i div 32"
    "i div 32 < int (length (bmap b))"
proof -
  have "numBits b \<le> int (length (bmap b)) * 32"
    using assms divRoundUp_bounds(1) [of "numBits b" 32] by (auto simp: bm_wf_def)
  then show "i div 32 < int (length (bmap b))" using assms by linarith
qed (use assms in \<open>simp_all add: sdiv_nonneg_eq smod_nonneg_eq\<close>)

lemma nat_div_mod_eq_iff:
  fixes i j :: int
  assumes "0 \<le> i" "0 \<le> j"
  shows "nat (i div 32) = nat (j div 32) \<and> nat (i mod 32) = nat (j mod 32) \<longleftrightarrow> i = j"
proof -
  have "i div 32 = j div 32 \<and> i mod 32 = j mod 32 \<longleftrightarrow> i = j"
    by (metis div_mult_mod_eq)
  moreover have "0 \<le> i div 32" "0 \<le> j div 32" using assms by simp_all
  ultimately show ?thesis by (simp add: nat_eq_iff)
qed

lemma and_exp_word: "(w :: 32 word) AND 2 ^ n \<noteq> 0 \<longleftrightarrow> bit w n"
  by (simp add: and_exp_eq_0_iff_not_bit)

lemma bit_word_mark: "n < 32 \<Longrightarrow> bit ((w :: 32 word) OR 2 ^ n) k \<longleftrightarrow> bit w k \<or> k = n"
  by (auto simp: bit_or_iff bit_exp_iff)

lemma bit_word_clear: "n < 32 \<Longrightarrow> bit ((w :: 32 word) AND NOT (2 ^ n)) k \<longleftrightarrow> bit w k \<and> k \<noteq> n"
  by (auto simp: bit_and_iff bit_not_iff bit_exp_iff dest: bit_imp_possible_bit)

section \<open>What each operation does to the set of used slots\<close>

lemma Test_used:
  assumes "bm_wf b" "0 \<le> i" "i < numBits b"
  shows "Test b i = Inr (i \<in> used b)"
  using assms bm_wf_index [OF assms]
  by (simp add: Test_def array_get_def and_exp_word used_def)

lemma Test_error: "\<not> (0 \<le> i \<and> i < numBits b) \<Longrightarrow> Test b i = Inl AssertionFailed"
  by (auto simp: Test_def ASSERT_def)

lemma word_update_used:
  assumes b: "bm_wf b" and i: "0 \<le> i" "i < numBits b"
    and w: "\<And>k. bit w k \<longleftrightarrow> (if k = nat (i mod 32) then P else bit (bmap b ! nat (i div 32)) k)"
  defines "b' \<equiv> b\<lparr>bmap := (bmap b)[nat (i div 32) := w]\<rparr>"
  shows "bm_wf b'" "used b' = (if P then insert i (used b) else used b - {i})"
proof -
  show "bm_wf b'" using b by (simp add: b'_def bm_wf_def)
  have len: "nat (i div 32) < length (bmap b)" using bm_wf_index(3,4) [OF b i] by (simp add: nat_less_iff)
  have "j \<in> used b' \<longleftrightarrow> (if j = i then P else j \<in> used b)" for j
  proof (cases "0 \<le> j \<and> j < numBits b \<and> nat (i div 32) = nat (j div 32)")
    case True
    then have "nat (j mod 32) = nat (i mod 32) \<longleftrightarrow> j = i"
      using nat_div_mod_eq_iff [of i j] i by auto
    moreover have "bmap b' ! nat (j div 32) = w" using True len by (simp add: b'_def)
    moreover have "numBits b' = numBits b" by (simp add: b'_def)
    ultimately have "j \<in> used b' \<longleftrightarrow> bit w (nat (j mod 32))" using True by (simp add: used_def)
    also have "\<dots> \<longleftrightarrow> (if j = i then P else bit (bmap b ! nat (j div 32)) (nat (j mod 32)))"
      unfolding w using \<open>nat (j mod 32) = nat (i mod 32) \<longleftrightarrow> j = i\<close> True by simp
    finally show ?thesis using True by (simp add: used_def)
  next
    case False
    then have "j \<noteq> i" using i by auto
    then show ?thesis using False by (auto simp: used_def b'_def)
  qed
  then show "used b' = (if P then insert i (used b) else used b - {i})"
    unfolding set_eq_iff by (cases P) simp_all
qed

lemma Mark_used:
  assumes "bm_wf b" "0 \<le> i" "i < numBits b"
  obtains b' where "Mark b i = Inr b'" "bm_wf b'" "numBits b' = numBits b" "used b' = insert i (used b)"
proof -
  let ?w = "bmap b ! nat (i div 32) OR push_bit (nat (i mod 32)) 1"
  have "nat (i mod 32) < 32" by linarith
  then have "bit ?w k \<longleftrightarrow> (if k = nat (i mod 32) then True else bit (bmap b ! nat (i div 32)) k)" for k
    by (auto simp: bit_word_mark)
  from word_update_used [OF assms this] show ?thesis
    using that [of "b\<lparr>bmap := (bmap b)[nat (i div 32) := ?w]\<rparr>"] bm_wf_index [OF assms] assms(2,3)
    by (simp add: Mark_def array_get_def array_set_def)
qed

lemma Clear_used:
  assumes "bm_wf b" "0 \<le> i" "i < numBits b"
  obtains b' where "Clear b i = Inr b'" "bm_wf b'" "numBits b' = numBits b" "used b' = used b - {i}"
proof -
  let ?w = "bmap b ! nat (i div 32) AND NOT (push_bit (nat (i mod 32)) 1)"
  have "nat (i mod 32) < 32" by linarith
  then have "bit ?w k \<longleftrightarrow> (if k = nat (i mod 32) then False else bit (bmap b ! nat (i div 32)) k)" for k
    by (auto simp: bit_word_clear)
  from word_update_used [OF assms this] show ?thesis
    using that [of "b\<lparr>bmap := (bmap b)[nat (i div 32) := ?w]\<rparr>"] bm_wf_index [OF assms] assms(2,3)
    by (simp add: Clear_def array_get_def array_set_def)
qed

lemma Mark_error: "\<not> (0 \<le> i \<and> i < numBits b) \<Longrightarrow> Mark b i = Inl AssertionFailed"
  and Clear_error: "\<not> (0 \<le> i \<and> i < numBits b) \<Longrightarrow> Clear b i = Inl AssertionFailed"
  by (auto simp: Mark_def Clear_def ASSERT_def)

lemma BitMap_new_used:
  assumes "0 \<le> n"
  obtains b where "BitMap_new garbage n = Inr b" "bm_wf b" "numBits b = n" "used b = {}"
proof -
  define b0 where "b0 = \<lparr>numBits = n, numWords = divRoundUp n 32,
    bmap = map garbage [0..<nat (divRoundUp n 32)]\<rparr>"
  have "\<exists>b. foldE (\<lambda>i b. Clear b i) [0..n - 1] b0 = Inr b \<and>
    (bm_wf b \<and> numBits b = n \<and> used b \<inter> set [0..n - 1] = {})"
  proof (rule foldE_rule [where I = "\<lambda>xs b. bm_wf b \<and> numBits b = n \<and> used b \<inter> set xs = {}"])
    show "bm_wf b0 \<and> numBits b0 = n \<and> used b0 \<inter> set [] = {}"
      using assms by (simp add: b0_def bm_wf_def)
  next
    fix xs i rest b
    assume split: "[0..n - 1] = xs @ i # rest" and I: "bm_wf b \<and> numBits b = n \<and> used b \<inter> set xs = {}"
    have "i \<in> set [0..n - 1]" unfolding split by simp
    then have "0 \<le> i" "i < n" by simp_all
    then obtain b' where "Clear b i = Inr b'" "bm_wf b'" "numBits b' = n" "used b' = used b - {i}"
      using Clear_used [of b i] I by metis
    then show "\<exists>b'. Clear b i = Inr b' \<and> bm_wf b' \<and> numBits b' = n \<and> used b' \<inter> set (xs @ [i]) = {}"
      using I by auto
  qed
  then obtain b where b: "BitMap_new garbage n = Inr b" "bm_wf b" "numBits b = n"
    "used b \<inter> {0..n - 1} = {}"
    by (auto simp: BitMap_new_def b0_def)
  moreover have "used b \<subseteq> {0..n - 1}" using b(3) by (auto simp: used_def)
  ultimately show ?thesis using that by auto
qed

lemmas [simp del] = Find_from.simps

lemma Find_from_used:
  assumes "bm_wf b" "0 \<le> i" "\<forall>j. 0 \<le> j \<and> j < i \<longrightarrow> j \<in> used b"
  shows "\<exists>r b'. Find_from b i = Inr (r, b') \<and> bm_wf b' \<and> numBits b' = numBits b \<and>
    (if {0..<numBits b} \<subseteq> used b then r = -1 \<and> b' = b
     else 0 \<le> r \<and> r < numBits b \<and> r \<notin> used b \<and> (\<forall>j. 0 \<le> j \<and> j < r \<longrightarrow> j \<in> used b) \<and>
       used b' = insert r (used b))"
  using assms
proof (induction b i rule: Find_from.induct)
  case (1 b i)
  show ?case
  proof (cases "i < numBits b")
    case False
    then have "{0..<numBits b} \<subseteq> used b" using "1.prems"(3) by auto
    then show ?thesis using False "1.prems" by (subst Find_from.simps) simp
  next
    case True
    then have test: "Test b i = Inr (i \<in> used b)" using Test_used "1.prems" by simp
    show ?thesis
    proof (cases "i \<in> used b")
      case False
      obtain b' where "Mark b i = Inr b'" "bm_wf b'" "numBits b' = numBits b" "used b' = insert i (used b)"
        using Mark_used [of b i] "1.prems" True by metis
      moreover from this have "Find_from b i = Inr (i, b')"
        using True test False by (subst Find_from.simps) simp
      moreover have "\<not> {0..<numBits b} \<subseteq> used b" using False True "1.prems"(2) by auto
      ultimately show ?thesis using False True "1.prems" by simp
    next
      case inn: True
      then have "Find_from b i = Find_from b (i + 1)"
        using True test by (subst Find_from.simps) simp
      moreover have "\<forall>j. 0 \<le> j \<and> j < i + 1 \<longrightarrow> j \<in> used b"
        using inn "1.prems"(3) by (metis zle_add1_eq_le order_le_less)
      ultimately show ?thesis using "1.IH" [OF True, of True] "1.prems" by simp
    qed
  qed
qed

lemma Find_full:
  assumes "bm_wf b" "{0..<numBits b} \<subseteq> used b"
  shows "Find b = Inr (-1, b)"
  using Find_from_used [OF assms(1) order_refl] assms(2) by (force simp: Find_def)

lemma Find_free:
  assumes "bm_wf b" "\<not> {0..<numBits b} \<subseteq> used b"
  obtains i b' where "Find b = Inr (i, b')" "bm_wf b'" "numBits b' = numBits b" "0 \<le> i"
    "i < numBits b" "i \<notin> used b" "\<forall>j. 0 \<le> j \<and> j < i \<longrightarrow> j \<in> used b" "used b' = insert i (used b)"
proof -
  have "\<forall>j. 0 \<le> j \<and> j < 0 \<longrightarrow> j \<in> used b" by auto
  from Find_from_used [OF assms(1) order_refl this] show ?thesis
    using that unfolding Find_def if_not_P [OF assms(2)] by blast
qed

lemma used_subset: "used b \<subseteq> {0..<numBits b}"
  by (auto simp: used_def)

lemma finite_used [simp]: "finite (used b)"
  using used_subset finite_subset by blast

lemma NumClear_used:
  assumes "bm_wf b"
  shows "NumClear b = Inr (numBits b - int (card (used b)))"
proof -
  let ?f = "\<lambda>i count. bindE (Test b i) (\<lambda>t. Inr (if \<not> t then count + 1 else count))"
  have "\<exists>c. foldE ?f [0..numBits b - 1] 0 = Inr c \<and>
     c = int (length (filter (\<lambda>i. i \<notin> used b) [0..numBits b - 1]))"
  proof (rule foldE_rule [where I = "\<lambda>xs c. c = int (length (filter (\<lambda>i. i \<notin> used b) xs))"])
    fix xs i rest c
    assume split: "[0..numBits b - 1] = xs @ i # rest" and I: "c = int (length (filter (\<lambda>i. i \<notin> used b) xs))"
    have "i \<in> set [0..numBits b - 1]" unfolding split by simp
    then have "Test b i = Inr (i \<in> used b)" using Test_used assms by simp
    then show "\<exists>c'. ?f i c = Inr c' \<and> c' = int (length (filter (\<lambda>i. i \<notin> used b) (xs @ [i])))"
      using I by auto
  qed simp
  moreover have "length (filter (\<lambda>i. i \<notin> used b) [0..numBits b - 1]) = card ({0..numBits b - 1} - used b)"
    by (simp flip: distinct_card add: set_diff_eq)
  moreover have "card ({0..numBits b - 1} - used b) = nat (numBits b) - card (used b)"
    using used_subset [of b] by (simp add: card_Diff_subset atLeastLessThan_def atMost_def subset_iff)
  moreover have "card (used b) \<le> nat (numBits b)"
    using card_mono [OF _ used_subset [of b]] by simp
  moreover have "0 \<le> numBits b" using assms by (simp add: bm_wf_def)
  ultimately show ?thesis by (simp add: NumClear_def)
qed

section \<open>The words in a file\<close>

lemma bytes_word_bytes: "bytes_word (word_bytes w) = w"
proof (rule bit_eqI)
  fix n assume "possible_bit TYPE(32 word) n"
  then have "n < 32" by simp
  then consider "n < 8" | "8 \<le> n" "n < 16" | "16 \<le> n" "n < 24" | "24 \<le> n" "n < 32" by linarith
  then show "bit (bytes_word (word_bytes w)) n = bit w n"
    by cases (auto simp: bytes_word_def word_bytes_def upt_rec bit_simps)
qed

lemma length_word_bytes [simp]: "length (word_bytes w) = 4"
  by (simp add: word_bytes_def)

lemma bytes_words_concat: "bytes_words (concat (map word_bytes ws)) = ws"
proof (induction ws)
  case (Cons w ws)
  obtain a b c d where abcd: "word_bytes w = [a, b, c, d]"
    by (simp add: word_bytes_def upt_rec)
  then show ?case using Cons bytes_word_bytes [of w] by simp
qed simp

section \<open>The contract of a slot allocator\<close>

text \<open>\<open>n\<close> allocations in a row, as a client does that needs \<open>n\<close> slots.\<close>

primrec find_many :: "('b \<Rightarrow> (int \<times> 'b) res) \<Rightarrow> nat \<Rightarrow> 'b \<Rightarrow> (int list \<times> 'b) res" where
  "find_many alloc 0 b = Inr ([], b)"
| "find_many alloc (Suc n) b =
     bindE (alloc b) (\<lambda>(i, b1). bindE (find_many alloc n b1) (\<lambda>(is, b2). Inr (i # is, b2)))"

locale slot_allocator =
  fixes wf :: "'b \<Rightarrow> bool"
    and slots :: "'b \<Rightarrow> int"
    and taken :: "'b \<Rightarrow> int set"
    and alloc :: "'b \<Rightarrow> (int \<times> 'b) res"
    and clear :: "'b \<Rightarrow> int \<Rightarrow> 'b res"
    and test :: "'b \<Rightarrow> int \<Rightarrow> bool res"
  assumes taken_bound: "wf b \<Longrightarrow> taken b \<subseteq> {0..<slots b}"
    and find_full: "wf b \<Longrightarrow> {0..<slots b} \<subseteq> taken b \<Longrightarrow> alloc b = Inr (-1, b)"
    and find_free: "wf b \<Longrightarrow> \<not> {0..<slots b} \<subseteq> taken b \<Longrightarrow>
      \<exists>i b'. alloc b = Inr (i, b') \<and> wf b' \<and> slots b' = slots b \<and> i \<in> {0..<slots b} - taken b \<and>
        taken b' = insert i (taken b)"
    and clear_ok: "wf b \<Longrightarrow> i \<in> {0..<slots b} \<Longrightarrow>
      \<exists>b'. clear b i = Inr b' \<and> wf b' \<and> slots b' = slots b \<and> taken b' = taken b - {i}"
    and test_ok: "wf b \<Longrightarrow> i \<in> {0..<slots b} \<Longrightarrow> test b i = Inr (i \<in> taken b)"
begin

lemma find_never_fails:
  assumes "wf b"
  obtains i b' where "alloc b = Inr (i, b')" "wf b'" "slots b' = slots b"
    "i = -1 \<and> b' = b \<or> i \<in> {0..<slots b} - taken b \<and> taken b' = insert i (taken b)"
  using assms find_full find_free by (metis (no_types, lifting))

lemma find_clear:
  assumes "wf b" "alloc b = Inr (i, b1)" "i \<noteq> -1"
  shows "\<exists>b2. clear b1 i = Inr b2 \<and> wf b2 \<and> taken b2 = taken b"
proof -
  have f: "wf b1" "slots b1 = slots b" "i \<in> {0..<slots b} - taken b" "taken b1 = insert i (taken b)"
    using find_never_fails [OF assms(1)] assms(2,3) by (metis Inr_inject Pair_inject)+
  then obtain b2 where "clear b1 i = Inr b2" "wf b2" "taken b2 = taken b1 - {i}"
    using clear_ok [of b1 i] by auto
  then show ?thesis using f by auto
qed

lemma card_taken: "wf b \<Longrightarrow> int (card (taken b)) \<le> max 0 (slots b)"
  using card_mono [OF _ taken_bound, of b] by auto

lemma room_not_full:
  assumes "wf b" "int (card (taken b)) + int n \<le> slots b" "0 < n"
  shows "\<not> {0..<slots b} \<subseteq> taken b"
proof
  assume "{0..<slots b} \<subseteq> taken b"
  then have "taken b = {0..<slots b}" using taken_bound [OF assms(1)] by auto
  then show False using assms(2,3) by (auto split: if_splits)
qed

text \<open>With room for \<open>n\<close> slots, \<open>n\<close> allocations return \<open>n\<close> different free slots.\<close>

lemma find_many_room:
  assumes "wf b" "int (card (taken b)) + int n \<le> slots b"
  shows "\<exists>is b'. find_many alloc n b = Inr (is, b') \<and> wf b' \<and> slots b' = slots b \<and>
    length is = n \<and> distinct is \<and> set is \<subseteq> {0..<slots b} - taken b \<and> taken b' = taken b \<union> set is"
  using assms
proof (induction n arbitrary: b)
  case (Suc n)
  then obtain i b1 where f: "alloc b = Inr (i, b1)" "wf b1" "slots b1 = slots b"
    "i \<in> {0..<slots b} - taken b" "taken b1 = insert i (taken b)"
    using find_free [OF Suc.prems(1) room_not_full [OF Suc.prems]] by auto
  have "finite (taken b)" using taken_bound [OF Suc.prems(1)] finite_subset by blast
  then have "int (card (taken b1)) + int n \<le> slots b1" using Suc.prems(2) f by simp
  from Suc.IH [OF f(2) this] obtain "is" b2 where r: "find_many alloc n b1 = Inr (is, b2)" "wf b2"
    "slots b2 = slots b" "length is = n" "distinct is" "set is \<subseteq> {0..<slots b} - taken b1"
    "taken b2 = taken b1 \<union> set is"
    using f(3) by auto
  have "find_many alloc (Suc n) b = Inr (i # is, b2)" using f(1) r(1) by simp
  moreover have "distinct (i # is)" "set (i # is) \<subseteq> {0..<slots b} - taken b"
    "taken b2 = taken b \<union> set (i # is)" "length (i # is) = Suc n"
    using r(4-7) f(4,5) by auto
  ultimately show ?case using r(2,3) by blast
qed simp

end

interpretation bm: slot_allocator bm_wf numBits used Find Clear Test
proof unfold_locales
  fix b assume "bm_wf b" "\<not> {0..<numBits b} \<subseteq> used b"
  then show "\<exists>i b'. Find b = Inr (i, b') \<and> bm_wf b' \<and> numBits b' = numBits b \<and>
      i \<in> {0..<numBits b} - used b \<and> used b' = insert i (used b)"
    by (metis DiffI Find_free atLeastLessThan_iff)
next
  fix b i assume "bm_wf b" "i \<in> {0..<numBits b}"
  then show "\<exists>b'. Clear b i = Inr b' \<and> bm_wf b' \<and> numBits b' = numBits b \<and> used b' = used b - {i}"
    using Clear_used [of b i] by (metis atLeastLessThan_iff)
qed (auto simp: used_subset Find_full Test_used dest: subsetD [OF used_subset])

section \<open>Properties of the bitmap\<close>

text \<open>
  C40. Whatever the storage held before, a new bitmap is well formed and empty; from a well-formed
  bitmap, \<open>Mark\<close> and \<open>Clear\<close> of a valid index add and remove exactly that index, \<open>Test\<close>
  reads it, and on any other index all three fail their assertion.
\<close>

theorem bitmap_implements_set:
  assumes "bm_wf b"
  shows "(\<forall>n\<ge>0. \<exists>b0. BitMap_new garbage n = Inr b0 \<and> bm_wf b0 \<and> numBits b0 = n \<and> used b0 = {}) \<and>
    (if 0 \<le> i \<and> i < numBits b then
       (\<exists>b'. Mark b i = Inr b' \<and> bm_wf b' \<and> used b' = insert i (used b)) \<and>
       (\<exists>b'. Clear b i = Inr b' \<and> bm_wf b' \<and> used b' = used b - {i}) \<and>
       Test b i = Inr (i \<in> used b)
     else Mark b i = Inl AssertionFailed \<and> Clear b i = Inl AssertionFailed \<and>
       Test b i = Inl AssertionFailed)"
proof -
  have "\<forall>n\<ge>0. \<exists>b0. BitMap_new garbage n = Inr b0 \<and> bm_wf b0 \<and> numBits b0 = n \<and> used b0 = {}"
    using BitMap_new_used by metis
  moreover have "0 \<le> i \<and> i < numBits b \<Longrightarrow> \<exists>b'. Mark b i = Inr b' \<and> bm_wf b' \<and> used b' = insert i (used b)"
    using Mark_used [OF assms] by metis
  moreover have "0 \<le> i \<and> i < numBits b \<Longrightarrow> \<exists>b'. Clear b i = Inr b' \<and> bm_wf b' \<and> used b' = used b - {i}"
    using Clear_used [OF assms] by metis
  ultimately show ?thesis
    using Test_used [OF assms] Mark_error Clear_error Test_error by simp
qed

theorem bitmap_implements_set_witness:
  "Test \<lparr>numBits = 40, numWords = 2, bmap = [5, 128]\<rparr> 39 = Inr True \<and>
   Test \<lparr>numBits = 40, numWords = 2, bmap = [5, 128]\<rparr> 40 = Inl AssertionFailed \<and>
   (\<exists>b'. Mark \<lparr>numBits = 40, numWords = 2, bmap = [5, 128]\<rparr> 1 = Inr b' \<and> 1 \<in> used b')"
proof -
  have "bm_wf \<lparr>numBits = 40, numWords = 2, bmap = [5, 128]\<rparr>"
    by (simp add: bm_wf_def divRoundUp_def sdiv_nonneg_eq smod_nonneg_eq)
  note set_laws = bitmap_implements_set [OF this, of "\<lambda>_. 0"]
  have "Test \<lparr>numBits = 40, numWords = 2, bmap = [5, 128]\<rparr> 39 = Inr True"
    by (simp add: Test_def array_get_def sdiv_nonneg_eq smod_nonneg_eq)
  then show ?thesis using set_laws [of 1] set_laws [of 40] by auto
qed

text \<open>
  \<open>Find\<close> returns and marks the least clear bit; when none is clear it returns \<open>-1\<close>
  and changes nothing. \<open>NumClear\<close> is the number of clear bits.
\<close>

theorem Find_first_clear:
  assumes "bm_wf b"
  shows "NumClear b = Inr (numBits b - int (card (used b))) \<and>
    (if NumClear b = Inr 0 then Find b = Inr (-1, b)
     else \<exists>i b'. Find b = Inr (i, b') \<and> bm_wf b' \<and> i \<in> {0..<numBits b} - used b \<and>
       {0..<i} \<subseteq> used b \<and> used b' = insert i (used b) \<and>
       NumClear b' = Inr (numBits b - int (card (used b)) - 1))"
proof (cases "{0..<numBits b} \<subseteq> used b")
  case True
  then have "used b = {0..<numBits b}" using used_subset [of b] by auto
  moreover have "0 \<le> numBits b" using assms by (simp add: bm_wf_def)
  ultimately show ?thesis using Find_full [OF assms True] NumClear_used [OF assms] by simp
next
  case False
  then have "card (used b) < card {0..<numBits b}"
    using used_subset [of b] by (intro psubset_card_mono) auto
  then have ne: "numBits b - int (card (used b)) \<noteq> 0" by auto
  obtain i b' where f: "Find b = Inr (i, b')" "bm_wf b'" "numBits b' = numBits b" "0 \<le> i"
    "i < numBits b" "i \<notin> used b" "\<forall>j. 0 \<le> j \<and> j < i \<longrightarrow> j \<in> used b" "used b' = insert i (used b)"
    using Find_free [OF assms False] by metis
  have "NumClear b' = Inr (numBits b - int (card (used b)) - 1)"
    using NumClear_used [OF f(2)] f(3,6,8) by simp
  moreover have "{0..<i} \<subseteq> used b" "i \<in> {0..<numBits b} - used b" using f(4-7) by auto
  ultimately show ?thesis
    using ne f(1,2,8) NumClear_used [OF assms] by simp
qed

theorem Find_first_clear_witness:
  "NumClear \<lparr>numBits = 3, numWords = 1, bmap = [7]\<rparr> = Inr 0 \<and>
   Find \<lparr>numBits = 3, numWords = 1, bmap = [7]\<rparr> = Inr (-1, \<lparr>numBits = 3, numWords = 1, bmap = [7]\<rparr>)"
proof -
  have wf: "bm_wf \<lparr>numBits = 3, numWords = 1, bmap = [7]\<rparr>"
    by (simp add: bm_wf_def divRoundUp_def sdiv_nonneg_eq smod_nonneg_eq)
  have "NumClear \<lparr>numBits = 3, numWords = 1, bmap = [7]\<rparr> = Inr 0"
    by (simp add: NumClear_def upto_rec1 Test_def array_get_def sdiv_nonneg_eq smod_nonneg_eq)
  then show ?thesis using Find_first_clear [OF wf] by simp
qed

text \<open>
  A bitmap survives its file: what \<open>WriteBack\<close> wrote, \<open>FetchFrom\<close> reads back into any
  bitmap of the same size, bit for bit.
\<close>

theorem bitmap_file_roundtrip:
  assumes "bm_wf b" "bm_wf b'" "numBits b' = numBits b"
  shows "BitMap_FetchFrom b' (BitMap_WriteBack b) = b"
proof -
  have words: "numWords b' = numWords b" "length (bmap b) = nat (numWords b)"
    using assms by (simp_all add: bm_wf_def)
  have len: "length (concat (map word_bytes ws)) = length ws * 4" for ws
    by (induction ws) simp_all
  have "bytes_words (take (nat (numWords b') * 4) (BitMap_WriteBack b)) = bmap b"
    using words by (simp add: BitMap_WriteBack_def len bytes_words_concat)
  then show ?thesis using words(1) assms(3) by (simp add: BitMap_FetchFrom_def)
qed

theorem bitmap_file_roundtrip_witness:
  "BitMap_FetchFrom \<lparr>numBits = 40, numWords = 2, bmap = [0, 0]\<rparr>
     (BitMap_WriteBack \<lparr>numBits = 40, numWords = 2, bmap = [5, 128]\<rparr>) =
   \<lparr>numBits = 40, numWords = 2, bmap = [5, 128]\<rparr>"
  by (rule bitmap_file_roundtrip)
    (simp_all add: bm_wf_def divRoundUp_def sdiv_nonneg_eq smod_nonneg_eq)

end
