(* ===== verification/Nachos_Table.thy ===== *)
theory Nachos_Table
  imports Nachos_Bitmap
begin

text \<open>
  The identifier table of \<^verbatim>\<open>userprog/table.h\<close> and the top of
  \<^verbatim>\<open>userprog/addrspace.cc\<close>: it hands out small integers for open files. A null entry is
  \<open>None\<close>. The array is not initialised by the constructor; its old contents are the parameter
  \<open>garbage\<close>. The abstract object is the finite map from identifiers to what is stored.
\<close>

record 'a Table =
  tmap :: BitMap
  ttable :: "'a option list"
  tsize :: int

definition Table_new ::
    "(nat \<Rightarrow> 32 word) \<Rightarrow> (nat \<Rightarrow> 'a option) \<Rightarrow> int \<Rightarrow> 'a Table res" where
  "Table_new gbits garbage s =
     bindE (BitMap_new gbits s) (\<lambda>m.
       Inr \<lparr>tmap = m, ttable = map garbage [0..<nat s], tsize = s\<rparr>)"

definition Table_Get :: "'a Table \<Rightarrow> int \<Rightarrow> 'a option res" where
  "Table_Get t i =
     (if i \<ge> 0 \<and> i < tsize t then
        bindE (Test (tmap t) i) (\<lambda>b. if b then array_get (ttable t) i else Inr None)
      else Inr None)"

text \<open>
  \<open>Put\<close> in its two parts: the search for a slot is done under the table's lock, the store into
  the array after the lock was released.
\<close>

definition Table_Put_find :: "'a Table \<Rightarrow> (int \<times> 'a Table) res" where
  "Table_Put_find t = bindE (Find (tmap t)) (\<lambda>(i, m). Inr (i, t\<lparr>tmap := m\<rparr>))"

definition Table_Put_store :: "'a Table \<Rightarrow> int \<Rightarrow> 'a option \<Rightarrow> 'a Table res" where
  "Table_Put_store t i f =
     (if i \<noteq> -1 then bindE (array_set (ttable t) i f) (\<lambda>a. Inr (t\<lparr>ttable := a\<rparr>)) else Inr t)"

definition Table_Put :: "'a Table \<Rightarrow> 'a option \<Rightarrow> (int \<times> 'a Table) res" where
  "Table_Put t f =
     bindE (Table_Put_find t) (\<lambda>(i, t1). bindE (Table_Put_store t1 i f) (\<lambda>t2. Inr (i, t2)))"

definition Table_Remove :: "'a Table \<Rightarrow> int \<Rightarrow> ('a option \<times> 'a Table) res" where
  "Table_Remove t i =
     (if i \<ge> 0 \<and> i < tsize t then
        bindE (Test (tmap t) i) (\<lambda>b.
          if b then
            bindE (Clear (tmap t) i) (\<lambda>m.
            bindE (array_get (ttable t) i) (\<lambda>f.
            bindE (array_set (ttable t) i None) (\<lambda>a.
              Inr (f, t\<lparr>tmap := m, ttable := a\<rparr>))))
          else Inr (None, t))
      else Inr (None, t))"

section \<open>Invariant and abstraction\<close>

definition table_wf :: "'a Table \<Rightarrow> bool" where
  "table_wf t \<longleftrightarrow> bm_wf (tmap t) \<and> numBits (tmap t) = tsize t \<and> length (ttable t) = nat (tsize t)"

definition table_map :: "'a Table \<Rightarrow> int \<rightharpoonup> 'a option" where
  "table_map t i = (if i \<in> used (tmap t) then Some (ttable t ! nat i) else None)"

lemma used_range: "i \<in> used b \<Longrightarrow> 0 \<le> i \<and> i < numBits b"
  by (simp add: used_def)

lemma Table_new_empty:
  assumes "0 \<le> s"
  shows "\<exists>t. Table_new gbits garbage s = Inr t \<and> table_wf t \<and> tsize t = s \<and> table_map t = Map.empty"
proof -
  obtain b where "BitMap_new gbits s = Inr b" "bm_wf b" "numBits b = s" "used b = {}"
    using BitMap_new_used [OF assms] by metis
  then show ?thesis by (auto simp: Table_new_def table_wf_def table_map_def)
qed

lemma Table_Get_map:
  assumes "table_wf t"
  shows "Table_Get t i = Inr (case table_map t i of None \<Rightarrow> None | Some f \<Rightarrow> f)"
proof (cases "0 \<le> i \<and> i < tsize t")
  case True
  then have "Test (tmap t) i = Inr (i \<in> used (tmap t))"
    using assms Test_used [of "tmap t" i] by (simp add: table_wf_def)
  then show ?thesis
    using True assms by (auto simp: Table_Get_def table_map_def array_get_def table_wf_def)
next
  case False
  then have "i \<notin> used (tmap t)" using assms used_range [of i "tmap t"] by (auto simp: table_wf_def)
  then show ?thesis using False by (auto simp: Table_Get_def table_map_def)
qed

lemma Table_Put_full:
  assumes "table_wf t" "{0..<tsize t} \<subseteq> dom (table_map t)"
  shows "Table_Put t f = Inr (-1, t)"
proof -
  have "{0..<numBits (tmap t)} \<subseteq> used (tmap t)"
    using assms by (auto simp: table_wf_def table_map_def dom_def split: if_splits)
  then show ?thesis
    using assms(1) Find_full [of "tmap t"]
    by (simp add: Table_Put_def Table_Put_find_def Table_Put_store_def table_wf_def)
qed

lemma Table_Put_free:
  assumes "table_wf t" "\<not> {0..<tsize t} \<subseteq> dom (table_map t)"
  shows "\<exists>i t'. Table_Put t f = Inr (i, t') \<and> table_wf t' \<and> tsize t' = tsize t \<and>
    i \<in> {0..<tsize t} - dom (table_map t) \<and> table_map t' = (table_map t)(i \<mapsto> f)"
proof -
  have wf: "bm_wf (tmap t)" and n: "numBits (tmap t) = tsize t"
    using assms(1) by (simp_all add: table_wf_def)
  have "\<not> {0..<numBits (tmap t)} \<subseteq> used (tmap t)"
    using assms(2) n by (auto simp: table_map_def dom_def)
  then obtain i m where m: "Find (tmap t) = Inr (i, m)" "bm_wf m" "numBits m = tsize t"
    "0 \<le> i" "i < tsize t" "i \<notin> used (tmap t)" "used m = insert i (used (tmap t))"
    using Find_free [OF wf] n by metis
  let ?t' = "t\<lparr>tmap := m, ttable := (ttable t)[nat i := f]\<rparr>"
  have "Table_Put t f = Inr (i, ?t')"
    using m assms(1)
    by (simp add: Table_Put_def Table_Put_find_def Table_Put_store_def array_set_def table_wf_def)
  moreover have "table_wf ?t'" using assms(1) m by (simp add: table_wf_def)
  moreover have "table_map ?t' = (table_map t)(i \<mapsto> f)"
  proof (rule ext)
    fix j
    show "table_map ?t' j = ((table_map t)(i \<mapsto> f)) j"
      using m assms(1) used_range [of j "tmap t"] n
      by (auto simp: table_map_def table_wf_def nat_eq_iff)
  qed
  moreover have "i \<in> {0..<tsize t} - dom (table_map t)" using m by (auto simp: table_map_def)
  ultimately show ?thesis by auto
qed

lemma Table_Remove_map:
  assumes "table_wf t"
  shows "\<exists>t'. Table_Remove t i = Inr (case table_map t i of None \<Rightarrow> None | Some f \<Rightarrow> f, t') \<and>
    table_wf t' \<and> tsize t' = tsize t \<and> table_map t' = (table_map t)(i := None)"
proof (cases "i \<in> used (tmap t)")
  case True
  have n: "numBits (tmap t) = tsize t" and wf: "bm_wf (tmap t)" using assms by (simp_all add: table_wf_def)
  then have i: "0 \<le> i" "i < tsize t" using True used_range [of i "tmap t"] by auto
  obtain m where m: "Clear (tmap t) i = Inr m" "bm_wf m" "numBits m = tsize t" "used m = used (tmap t) - {i}"
    using Clear_used [OF wf i(1)] i(2) n by metis
  have test: "Test (tmap t) i = Inr True" using Test_used [OF wf i(1)] i(2) n True by simp
  let ?t' = "t\<lparr>tmap := m, ttable := (ttable t)[nat i := None]\<rparr>"
  have "Table_Remove t i = Inr (ttable t ! nat i, ?t')"
    using i test m assms by (simp add: Table_Remove_def array_get_def array_set_def table_wf_def)
  moreover have "table_map ?t' j = ((table_map t)(i := None)) j" for j
    using m(4) i used_range [of j "tmap t"] by (auto simp: table_map_def nat_eq_iff)
  moreover have "table_wf ?t'" using assms m by (simp add: table_wf_def)
  ultimately show ?thesis using True by (auto simp: table_map_def)
next
  case False
  then have "table_map t i = None" by (simp add: table_map_def)
  moreover have "Table_Remove t i = Inr (None, t)"
    using False assms Test_used [of "tmap t" i] by (auto simp: Table_Remove_def table_wf_def)
  ultimately show ?thesis using assms by auto
qed

text \<open>
  The table implements a finite map with allocated identifiers: starting from any well-formed
  table, \<open>Put\<close> stores under an identifier that was free (or returns \<open>-1\<close> when all are taken,
  changing nothing), \<open>Get\<close> then returns what was stored, \<open>Remove\<close> returns it and frees the
  identifier, and every other identifier is left alone.
\<close>

theorem table_put_get_remove:
  assumes "table_wf t"
  shows "if {0..<tsize t} \<subseteq> dom (table_map t) then Table_Put t f = Inr (-1, t)
    else \<exists>i t1 t2. Table_Put t f = Inr (i, t1) \<and> table_wf t1 \<and> i \<in> {0..<tsize t} - dom (table_map t) \<and>
      (\<forall>j. Table_Get t1 j = (if j = i then Inr f else Table_Get t j)) \<and>
      Table_Remove t1 i = Inr (f, t2) \<and> table_wf t2 \<and> (\<forall>j. Table_Get t2 j = Table_Get t j)"
proof (cases "{0..<tsize t} \<subseteq> dom (table_map t)")
  case True
  then show ?thesis using Table_Put_full [OF assms] by simp
next
  case False
  obtain i t1 where p: "Table_Put t f = Inr (i, t1)" "table_wf t1"
    "i \<in> {0..<tsize t} - dom (table_map t)" "table_map t1 = (table_map t)(i \<mapsto> f)"
    using Table_Put_free [OF assms False] by metis
  obtain t2 where r: "Table_Remove t1 i = Inr (f, t2)" "table_wf t2" "table_map t2 = (table_map t1)(i := None)"
    using Table_Remove_map [OF p(2), of i] p(4) by auto
  have "table_map t2 = table_map t" using r(3) p(3,4) by auto
  then have "Table_Get t2 j = Table_Get t j" for j
    using Table_Get_map [OF assms] Table_Get_map [OF r(2)] by simp
  moreover have "Table_Get t1 j = (if j = i then Inr f else Table_Get t j)" for j
    using Table_Get_map [OF assms] Table_Get_map [OF p(2)] p(4) by simp
  ultimately show ?thesis using False p r(1,2) by auto
qed

theorem table_put_get_remove_witness:
  "\<exists>t1. Table_Put \<lparr>tmap = \<lparr>numBits = 2, numWords = 1, bmap = [1]\<rparr>,
          ttable = [Some ''console'', None], tsize = 2\<rparr> (Some ''file'') = Inr (1, t1)"
proof -
  let ?t = "\<lparr>tmap = \<lparr>numBits = 2, numWords = 1, bmap = [1]\<rparr>, ttable = [Some ''console'', None], tsize = 2\<rparr>"
  have "table_wf ?t"
    by (simp add: table_wf_def bm_wf_def divRoundUp_def sdiv_nonneg_eq smod_nonneg_eq)
  note laws = table_put_get_remove [OF this, of "Some ''file''"]
  have range: "0 \<le> i \<and> i < 2 \<longleftrightarrow> i = 0 \<or> i = 1" for i :: int by auto
  have "used (tmap ?t) = {0}" unfolding used_def by (auto simp: range bit_1_iff simp flip: conj_assoc)
  then have dom: "dom (table_map ?t) = {0}" by (auto simp: table_map_def dom_def split: if_splits)
  have "(1 :: int) \<in> {0..<tsize ?t}" "1 \<notin> dom (table_map ?t)" using dom by simp_all
  then have "\<not> {0..<tsize ?t} \<subseteq> dom (table_map ?t)" by blast
  then obtain i t1 where "Table_Put ?t (Some ''file'') = Inr (i, t1)" "i \<in> {0..<2} - {0}"
    using laws dom by auto
  moreover from this(2) have "i = 1" by auto
  ultimately show ?thesis by auto
qed

text \<open>
  The store of \<open>Put\<close> happens outside the lock: a \<open>Get\<close> of the new identifier between
  the two parts returns whatever the array held before, an entry that was never put there.
\<close>

theorem table_put_window:
  assumes "table_wf t" "Table_Put_find t = Inr (i, t1)" "i \<noteq> -1"
  shows "Table_Get t i = Inr None \<and> Table_Get t1 i = Inr (ttable t ! nat i)"
proof -
  obtain m where m: "Find (tmap t) = Inr (i, m)" "t1 = t\<lparr>tmap := m\<rparr>"
    using assms(2) by (auto simp: Table_Put_find_def)
  have wf: "bm_wf (tmap t)" "numBits (tmap t) = tsize t" using assms(1) by (simp_all add: table_wf_def)
  have f: "bm_wf m" "numBits m = tsize t" "i \<in> {0..<tsize t} - used (tmap t)"
      "used m = insert i (used (tmap t))"
    using bm.find_never_fails [OF wf(1)] m(1) assms(3) wf(2)
    by (metis Inr_inject Pair_inject)+
  have "table_wf t1" using assms(1) m(2) f by (simp add: table_wf_def)
  then show ?thesis
    using Table_Get_map [OF assms(1)] Table_Get_map [of t1] f(3,4) m(2)
    by (simp add: table_map_def)
qed

theorem table_put_window_witness:
  "Table_Get \<lparr>tmap = \<lparr>numBits = 2, numWords = 1, bmap = [1]\<rparr>,
          ttable = [Some ''console'', Some ''stale''], tsize = 2\<rparr> 1 = Inr None"
proof -
  let ?b = "\<lparr>numBits = 2, numWords = 1, bmap = [1]\<rparr>"
  let ?t = "\<lparr>tmap = ?b, ttable = [Some ''console'', Some ''stale''], tsize = 2\<rparr>"
  have "table_wf ?t"
    by (simp add: table_wf_def bm_wf_def divRoundUp_def sdiv_nonneg_eq smod_nonneg_eq)
  moreover have "Table_Put_find ?t = Inr (1, ?t\<lparr>tmap := ?b\<lparr>bmap := [3]\<rparr>\<rparr>)"
    by (simp add: Table_Put_find_def Find_def Find_from.simps Test_def Mark_def array_get_def
        array_set_def sdiv_nonneg_eq smod_nonneg_eq)
  ultimately show ?thesis using table_put_window [of ?t 1] by simp
qed

end
