(* ===== verification/Nachos_List.thy ===== *)
theory Nachos_List
  imports Nachos_Prelude "HOL-Library.Multiset"
begin

text \<open>
  The singly linked list of \<^verbatim>\<open>threads/list.cc\<close>, at two levels.

  The first level keeps the pointers of the code: list elements live in a store of cells, a list
  object holds \<open>first\<close>, \<open>last\<close> and \<open>size\<close>, and each routine reads and writes cells as
  its C++ body does. The second level is a value, the sequence of items with their keys; it is
  what the other components use. The refinement lemmas say that on a well-formed list every
  routine of the first level returns, dereferences no dangling pointer and does what the second
  level says.
\<close>

section \<open>The list with its pointers\<close>

type_synonym addr = nat

record 'a ListElement =
  le_item :: 'a
  le_key :: int
  le_next :: "addr option"

record 'a heap =
  cells :: "addr \<rightharpoonup> 'a ListElement"
  fresh :: addr

record List_obj =
  l_first :: "addr option"
  l_last :: "addr option"
  l_size :: int

text \<open>\<^verbatim>\<open>new ListElement(itemPtr, sortKey)\<close>: a cell at an address never used before.\<close>

definition new_ListElement :: "'a heap \<Rightarrow> 'a \<Rightarrow> int \<Rightarrow> addr \<times> 'a heap" where
  "new_ListElement h itemPtr sortKey =
     (fresh h,
      h\<lparr>cells := (cells h)(fresh h \<mapsto> \<lparr>le_item = itemPtr, le_key = sortKey, le_next = None\<rparr>),
        fresh := Suc (fresh h)\<rparr>)"

definition hList_new :: List_obj where
  "hList_new = \<lparr>l_first = None, l_last = None, l_size = 0\<rparr>"

definition hList_IsEmpty :: "List_obj \<Rightarrow> bool" where
  "hList_IsEmpty l = (l_first l = None)"

text \<open>The assignment \<^verbatim>\<open>p->next = q\<close>.\<close>

definition set_next :: "'a heap \<Rightarrow> addr option \<Rightarrow> addr option \<Rightarrow> 'a heap res" where
  "set_next h p q =
     (case p of
        None \<Rightarrow> Inl NullDereference
      | Some a \<Rightarrow>
          (case cells h a of
             None \<Rightarrow> Inl NullDereference
           | Some c \<Rightarrow> Inr (h\<lparr>cells := (cells h)(a \<mapsto> c\<lparr>le_next := q\<rparr>)\<rparr>)))"

definition hList_Append :: "'a heap \<Rightarrow> List_obj \<Rightarrow> 'a \<Rightarrow> ('a heap \<times> List_obj) res" where
  "hList_Append h l x =
     (let (e, h1) = new_ListElement h x 0 in
      bindE (if hList_IsEmpty l
             then Inr (h1, l\<lparr>l_first := Some e, l_last := Some e\<rparr>)
             else bindE (set_next h1 (l_last l) (Some e)) (\<lambda>h2.
                    Inr (h2, l\<lparr>l_last := Some e\<rparr>)))
        (\<lambda>(h2, l2). Inr (h2, l2\<lparr>l_size := l_size l2 + 1\<rparr>)))"

definition hList_Prepend :: "'a heap \<Rightarrow> List_obj \<Rightarrow> 'a \<Rightarrow> ('a heap \<times> List_obj) res" where
  "hList_Prepend h l x =
     (let (e, h1) = new_ListElement h x 0 in
      bindE (if hList_IsEmpty l
             then Inr (h1, l\<lparr>l_first := Some e, l_last := Some e\<rparr>)
             else bindE (set_next h1 (Some e) (l_first l)) (\<lambda>h2.
                    Inr (h2, l\<lparr>l_first := Some e\<rparr>)))
        (\<lambda>(h2, l2). Inr (h2, l2\<lparr>l_size := l_size l2 + 1\<rparr>)))"

text \<open>
  The loop of \<^verbatim>\<open>SortedInsert\<close>: \<open>Some (Inr (Some h'))\<close> when the element was linked in and
  the routine returned, \<open>Some (Inr None)\<close> when the loop ran off the end, \<open>None\<close> when it
  never stops (a cyclic list).
\<close>

partial_function (option) sorted_walk ::
    "'a heap \<Rightarrow> addr \<Rightarrow> int \<Rightarrow> addr \<Rightarrow> ('a heap option) res option" where
  "sorted_walk h e sortKey p =
     (case cells h p of
        None \<Rightarrow> Some (Inl NullDereference)
      | Some c \<Rightarrow>
          (case le_next c of
             None \<Rightarrow> Some (Inr None)
           | Some q \<Rightarrow>
               (case cells h q of
                  None \<Rightarrow> Some (Inl NullDereference)
                | Some d \<Rightarrow>
                    if sortKey < le_key d
                    then Some (bindE (set_next h (Some e) (Some q)) (\<lambda>h1.
                               bindE (set_next h1 (Some p) (Some e)) (\<lambda>h2. Inr (Some h2))))
                    else sorted_walk h e sortKey q)))"

definition hList_SortedInsert ::
    "'a heap \<Rightarrow> List_obj \<Rightarrow> 'a \<Rightarrow> int \<Rightarrow> ('a heap \<times> List_obj) res option" where
  "hList_SortedInsert h l x sortKey =
     (let (e, h1) = new_ListElement h x sortKey; l1 = l\<lparr>l_size := l_size l + 1\<rparr> in
      case l_first l1 of
        None \<Rightarrow> Some (Inr (h1, l1\<lparr>l_first := Some e, l_last := Some e\<rparr>))
      | Some f \<Rightarrow>
          (case cells h1 f of
             None \<Rightarrow> Some (Inl NullDereference)
           | Some c \<Rightarrow>
               if sortKey < le_key c
               then Some (bindE (set_next h1 (Some e) (Some f)) (\<lambda>h2.
                          Inr (h2, l1\<lparr>l_first := Some e\<rparr>)))
               else
                 (case sorted_walk h1 e sortKey f of
                    None \<Rightarrow> None
                  | Some (Inl err) \<Rightarrow> Some (Inl err)
                  | Some (Inr (Some h2)) \<Rightarrow> Some (Inr (h2, l1))
                  | Some (Inr None) \<Rightarrow>
                      Some (bindE (set_next h1 (l_last l1) (Some e)) (\<lambda>h2.
                            Inr (h2, l1\<lparr>l_last := Some e\<rparr>))))))"

definition hList_SortedRemove ::
    "'a heap \<Rightarrow> List_obj \<Rightarrow> (('a \<times> int) option \<times> 'a heap \<times> List_obj) res" where
  "hList_SortedRemove h l =
     (case l_first l of
        None \<Rightarrow> Inr (None, h, l)
      | Some f \<Rightarrow>
          (case cells h f of
             None \<Rightarrow> Inl NullDereference
           | Some c \<Rightarrow>
               Inr (Some (le_item c, le_key c),
                    h\<lparr>cells := (cells h)(f := None)\<rparr>,
                    if l_first l = l_last l then l\<lparr>l_first := None, l_last := None\<rparr>
                    else l\<lparr>l_first := le_next c\<rparr>)))"

definition hList_Remove :: "'a heap \<Rightarrow> List_obj \<Rightarrow> ('a option \<times> 'a heap \<times> List_obj) res" where
  "hList_Remove h l =
     bindE (hList_SortedRemove h (l\<lparr>l_size := l_size l - 1\<rparr>)) (\<lambda>(r, h', l').
       Inr (map_option fst r, h', l'))"

text \<open>The loop of \<^verbatim>\<open>Mapcar\<close>; \<open>func\<close> acts on the state of the rest of the program and leaves the list alone.\<close>

partial_function (option) mapcar_walk :: "'a heap \<Rightarrow> ('a \<Rightarrow> 's \<Rightarrow> 's) \<Rightarrow> addr option \<Rightarrow> 's \<Rightarrow> 's res option" where
  "mapcar_walk h func p s =
     (case p of
        None \<Rightarrow> Some (Inr s)
      | Some a \<Rightarrow>
          (case cells h a of
             None \<Rightarrow> Some (Inl NullDereference)
           | Some c \<Rightarrow> mapcar_walk h func (le_next c) (func (le_item c) s)))"

definition hList_Mapcar :: "'a heap \<Rightarrow> List_obj \<Rightarrow> ('a \<Rightarrow> 's \<Rightarrow> 's) \<Rightarrow> 's \<Rightarrow> 's res option" where
  "hList_Mapcar h l func s = mapcar_walk h func (l_first l) s"

definition hList_Size :: "List_obj \<Rightarrow> int" where
  "hList_Size l = l_size l"

section \<open>The list as a value\<close>

record 'a nlist =
  elems :: "('a \<times> int) list"
  nsize :: int

definition List_new :: "'a nlist" where
  "List_new = \<lparr>elems = [], nsize = 0\<rparr>"

definition IsEmpty :: "'a nlist \<Rightarrow> bool" where
  "IsEmpty q = (elems q = [])"

definition Append :: "'a nlist \<Rightarrow> 'a \<Rightarrow> 'a nlist" where
  "Append q x = q\<lparr>elems := elems q @ [(x, 0)], nsize := nsize q + 1\<rparr>"

definition Prepend :: "'a nlist \<Rightarrow> 'a \<Rightarrow> 'a nlist" where
  "Prepend q x = q\<lparr>elems := (x, 0) # elems q, nsize := nsize q + 1\<rparr>"

fun ins_walk :: "'a \<times> int \<Rightarrow> ('a \<times> int) list \<Rightarrow> ('a \<times> int) list" where
  "ins_walk e [] = [e]"
| "ins_walk e (y # ys) = (if snd e < snd y then e # y # ys else y # ins_walk e ys)"

definition SortedInsert :: "'a nlist \<Rightarrow> 'a \<Rightarrow> int \<Rightarrow> 'a nlist" where
  "SortedInsert q x sortKey =
     q\<lparr>elems := ins_walk (x, sortKey) (elems q), nsize := nsize q + 1\<rparr>"

definition SortedRemove :: "'a nlist \<Rightarrow> ('a \<times> int) option \<times> 'a nlist" where
  "SortedRemove q =
     (case elems q of [] \<Rightarrow> (None, q) | e # es \<Rightarrow> (Some e, q\<lparr>elems := es\<rparr>))"

definition Remove :: "'a nlist \<Rightarrow> 'a option \<times> 'a nlist" where
  "Remove q =
     (case SortedRemove (q\<lparr>nsize := nsize q - 1\<rparr>) of (r, q') \<Rightarrow> (map_option fst r, q'))"

definition Mapcar :: "('a \<Rightarrow> 's \<Rightarrow> 's) \<Rightarrow> 'a nlist \<Rightarrow> 's \<Rightarrow> 's" where
  "Mapcar func q s = fold func (map fst (elems q)) s"

definition Size :: "'a nlist \<Rightarrow> int" where
  "Size q = nsize q"

text \<open>The items in order, without their keys.\<close>

abbreviation items :: "'a nlist \<Rightarrow> 'a list" where
  "items q \<equiv> map fst (elems q)"

lemmas nlist_defs = List_new_def IsEmpty_def Append_def Prepend_def SortedInsert_def
  SortedRemove_def Remove_def Mapcar_def Size_def

lemma items_simps [simp]:
  "items List_new = []"
  "items (Append q x) = items q @ [x]"
  "items (Prepend q x) = x # items q"
  "elems List_new = []"
  "elems (Append q x) = elems q @ [(x, 0)]"
  by (simp_all add: nlist_defs)

lemma IsEmpty_items: "IsEmpty q \<longleftrightarrow> items q = []"
  by (simp add: IsEmpty_def)

lemma Remove_items:
  "fst (Remove q) = (case items q of [] \<Rightarrow> None | x # _ \<Rightarrow> Some x)"
  "items (snd (Remove q)) = tl (items q)"
  by (simp_all add: Remove_def SortedRemove_def split: list.splits)

lemma Remove_cases:
  obtains (empty) "items q = []" "Remove q = (None, q\<lparr>nsize := nsize q - 1\<rparr>)"
  | (item) x xs q' where "items q = x # xs" "Remove q = (Some x, q')" "items q' = xs"
proof (cases "elems q")
  case Nil
  then show ?thesis using that(1) by (simp add: Remove_def SortedRemove_def)
next
  case (Cons e es)
  then show ?thesis
    using that(2) [of "fst e" "map fst es" "q\<lparr>nsize := nsize q - 1, elems := es\<rparr>"]
    by (simp add: Remove_def SortedRemove_def)
qed

section \<open>First level implements second level\<close>

text \<open>A chain of cells from \<open>p\<close> to \<open>q\<close> through the addresses \<open>as\<close>, holding \<open>xs\<close>.\<close>

fun chain ::
    "(addr \<rightharpoonup> 'a ListElement) \<Rightarrow> addr option \<Rightarrow> addr list \<Rightarrow> ('a \<times> int) list \<Rightarrow> addr option \<Rightarrow> bool"
where
  "chain m p [] [] q = (p = q)"
| "chain m p (a # as) (x # xs) q =
     (p = Some a \<and>
      (\<exists>c. m a = Some c \<and> (le_item c, le_key c) = x \<and> chain m (le_next c) as xs q))"
| "chain m p _ _ q = False"

definition represents :: "'a heap \<Rightarrow> List_obj \<Rightarrow> addr list \<Rightarrow> 'a nlist \<Rightarrow> bool" where
  "represents h l as q =
     (chain (cells h) (l_first l) as (elems q) None \<and> distinct as \<and> (\<forall>a\<in>set as. a < fresh h) \<and>
      l_last l = (if as = [] then None else Some (last as)) \<and> l_size l = nsize q)"

lemma chain_length: "chain m p as xs q \<Longrightarrow> length as = length xs"
  by (induction m p as xs q rule: chain.induct) auto

lemma chain_append:
  "length as = length xs \<Longrightarrow>
   chain m p (as @ bs) (xs @ ys) q \<longleftrightarrow> (\<exists>r. chain m p as xs r \<and> chain m r bs ys q)"
  by (induction as xs arbitrary: p rule: list_induct2) auto

lemma chain_upd [simp]: "a \<notin> set as \<Longrightarrow> chain (m(a := c)) p as xs q \<longleftrightarrow> chain m p as xs q"
  by (induction m p as xs q rule: chain.induct) auto

lemma chain_Cons_iff:
  "chain m p as (x # xs) q \<longleftrightarrow>
     (\<exists>a as' c. as = a # as' \<and> p = Some a \<and> m a = Some c \<and> (le_item c, le_key c) = x \<and>
        chain m (le_next c) as' xs q)"
  by (cases as) auto

lemma chain_Nil_iff [simp]:
  "chain m p as [] q \<longleftrightarrow> as = [] \<and> p = q"
  "chain m p [] xs q \<longleftrightarrow> xs = [] \<and> p = q"
  by (cases as; simp) (cases xs; simp)

lemma chain_snocE:
  assumes "chain m p (bs @ [b]) ys None"
  obtains zs z c where "ys = zs @ [z]" "chain m p bs zs (Some b)" "m b = Some c"
    "(le_item c, le_key c) = z" "le_next c = None"
proof -
  from assms have "length (bs @ [b]) = length ys" by (rule chain_length)
  then obtain zs z where ys: "ys = zs @ [z]" and len: "length bs = length zs"
    by (cases ys rule: rev_cases) auto
  from assms obtain r where "chain m p bs zs r" "chain m r [b] [z] None"
    unfolding ys chain_append [OF len] by blast
  then show ?thesis using that ys by auto
qed

lemma represents_new: "represents h hList_new [] List_new"
  by (simp add: represents_def hList_new_def List_new_def)

lemma represents_IsEmpty: "represents h l as q \<Longrightarrow> hList_IsEmpty l \<longleftrightarrow> IsEmpty q"
  by (cases "elems q") (auto simp: represents_def hList_IsEmpty_def IsEmpty_def chain_Cons_iff)

lemma link_last:
  assumes "chain (cells h) p (bs @ [b]) ys None" "distinct (bs @ [b])"
    "\<forall>a\<in>set (bs @ [b]). a < e" "cells h e = Some \<lparr>le_item = x, le_key = k, le_next = None\<rparr>"
  shows "\<exists>h'. set_next h (Some b) (Some e) = Inr h' \<and> fresh h' = fresh h \<and>
    chain (cells h') p (bs @ [b, e]) (ys @ [(x, k)]) None"
proof -
  obtain zs z c where ys: "ys = zs @ [z]" and pre: "chain (cells h) p bs zs (Some b)"
    and c: "cells h b = Some c" "(le_item c, le_key c) = z"
    using chain_snocE [OF assms(1)] by metis
  have len: "length bs = length zs" using pre by (rule chain_length)
  let ?h' = "h\<lparr>cells := (cells h)(b \<mapsto> c\<lparr>le_next := Some e\<rparr>)\<rparr>"
  have "chain (cells ?h') p bs zs (Some b)" using pre assms(2) by simp
  moreover have "chain (cells ?h') (Some b) [b, e] [z, (x, k)] None"
    using c assms(3,4) by auto
  ultimately have "chain (cells ?h') p (bs @ [b, e]) (zs @ [z, (x, k)]) None"
    unfolding chain_append [OF len] by blast
  then show ?thesis using c(1) by (simp add: set_next_def ys)
qed

lemma hList_Append_refines:
  assumes "represents h l as q"
  shows "\<exists>h' l'. hList_Append h l x = Inr (h', l') \<and>
    represents h' l' (as @ [fresh h]) (Append q x)"
proof (cases as rule: rev_cases)
  case Nil
  with assms show ?thesis
    by (cases "elems q")
      (auto simp: represents_def hList_Append_def new_ListElement_def hList_IsEmpty_def Append_def)
next
  case (snoc bs b)
  let ?h1 = "snd (new_ListElement h x 0)"
  have q: "chain (cells h) (l_first l) (bs @ [b]) (elems q) None" "distinct (bs @ [b])"
    "\<forall>a\<in>set (bs @ [b]). a < fresh h" "l_last l = Some b" "l_size l = nsize q"
    using assms snoc by (simp_all add: represents_def)
  have first: "l_first l \<noteq> None" using q(1) by (cases "l_first l"; cases bs; cases "elems q") auto
  have notin: "fresh h \<notin> set (bs @ [b])" using q(3) by auto
  have "chain (cells ?h1) (l_first l) (bs @ [b]) (elems q) None"
    using q(1) notin by (simp add: new_ListElement_def)
  moreover have "cells ?h1 (fresh h) = Some \<lparr>le_item = x, le_key = 0, le_next = None\<rparr>"
    by (simp add: new_ListElement_def)
  ultimately obtain h' where h': "set_next ?h1 (Some b) (Some (fresh h)) = Inr h'"
    "fresh h' = fresh ?h1" "chain (cells h') (l_first l) (bs @ [b, fresh h]) (elems q @ [(x, 0)]) None"
    using link_last [of ?h1] q(2,3) by blast
  show ?thesis
    using h' q first notin snoc
    by (auto simp: hList_Append_def new_ListElement_def hList_IsEmpty_def represents_def Append_def)
qed

lemma hList_Prepend_refines:
  assumes "represents h l as q"
  shows "\<exists>h' l'. hList_Prepend h l x = Inr (h', l') \<and>
    represents h' l' (fresh h # as) (Prepend q x)"
proof -
  have notin: "fresh h \<notin> set as" using assms by (auto simp: represents_def)
  then show ?thesis
    using assms
    by (cases "elems q")
      (force simp: represents_def hList_Prepend_def new_ListElement_def hList_IsEmpty_def
        Prepend_def set_next_def chain_Cons_iff)+
qed

lemma hList_SortedRemove_refines:
  assumes "represents h l as q"
  shows "\<exists>h' l'. hList_SortedRemove h l = Inr (fst (SortedRemove q), h', l') \<and>
    represents h' l' (tl as) (snd (SortedRemove q))"
  using assms
  by (cases "elems q"; cases as)
    (auto simp: represents_def hList_SortedRemove_def SortedRemove_def chain_Cons_iff)

lemma hList_Remove_refines:
  assumes "represents h l as q"
  shows "\<exists>h' l'. hList_Remove h l = Inr (fst (Remove q), h', l') \<and>
    represents h' l' (tl as) (snd (Remove q))"
proof -
  have "represents h (l\<lparr>l_size := l_size l - 1\<rparr>) as (q\<lparr>nsize := nsize q - 1\<rparr>)"
    using assms by (simp add: represents_def)
  from hList_SortedRemove_refines [OF this] show ?thesis
    by (auto simp: hList_Remove_def Remove_def split: prod.splits)
qed

lemma mapcar_walk_correct: "chain (cells h) p as xs None \<Longrightarrow> mapcar_walk h func p s = Some (Inr (fold func (map fst xs) s))"
  by (induction "cells h" p as xs "None :: addr option" arbitrary: s rule: chain.induct) (auto simp: mapcar_walk.simps)

lemma hList_Mapcar_refines: "represents h l as q \<Longrightarrow> hList_Mapcar h l func s = Some (Inr (Mapcar func q s))"
  by (auto simp: represents_def hList_Mapcar_def Mapcar_def intro: mapcar_walk_correct)

lemma ins_walk_end: "\<forall>z\<in>set ys. \<not> snd e < snd z \<Longrightarrow> ins_walk e ys = ys @ [e]"
  by (induction ys) auto

text \<open>
  The loop, started at a cell of the chain: either every key after it is at most the new one, or
  the element is linked in at the place \<open>ins_walk\<close> says, with all other cells untouched.
\<close>

definition walk_result ::
    "'a heap \<Rightarrow> addr \<Rightarrow> addr \<Rightarrow> addr list \<Rightarrow> 'a \<times> int \<Rightarrow> 'a \<times> int \<Rightarrow> ('a \<times> int) list \<Rightarrow>
     'a heap option \<Rightarrow> bool" where
  "walk_result h e p as xk y ys r =
     (case r of
        None \<Rightarrow> (\<forall>z\<in>set ys. \<not> snd xk < snd z)
      | Some h' \<Rightarrow>
          fresh h' = fresh h \<and> (\<forall>a. a \<notin> insert e (insert p (set as)) \<longrightarrow> cells h' a = cells h a) \<and>
          (\<exists>as'. chain (cells h') (Some p) (p # as') (y # ins_walk xk ys) None \<and>
             set as' = insert e (set as) \<and> distinct as' \<and> as' \<noteq> [] \<and> last as' = last (p # as)))"

lemma sorted_walk_correct:
  assumes "chain (cells h) (Some p) (p # as) (y # ys) None" "distinct (p # as)"
    "e \<notin> set (p # as)" "cells h e = Some \<lparr>le_item = x, le_key = k, le_next = None\<rparr>"
  shows "\<exists>r. sorted_walk h e k p = Some (Inr r) \<and> walk_result h e p as (x, k) y ys r"
  using assms
proof (induction ys arbitrary: p as y)
  case Nil
  then show ?case by (subst sorted_walk.simps) (auto simp: walk_result_def)
next
  case (Cons z zs)
  from Cons.prems obtain cp q as2 cq where p: "cells h p = Some cp" "(le_item cp, le_key cp) = y"
    "le_next cp = Some q" "as = q # as2" "cells h q = Some cq" "(le_item cq, le_key cq) = z"
    "chain (cells h) (le_next cq) as2 zs None"
    by (auto simp: chain_Cons_iff)
  show ?case
  proof (cases "k < le_key cq")
    case True
    let ?m = "(cells h)(e \<mapsto> \<lparr>le_item = x, le_key = k, le_next = Some q\<rparr>,
        p \<mapsto> cp\<lparr>le_next := Some e\<rparr>)"
    have run: "sorted_walk h e k p = Some (Inr (Some (h\<lparr>cells := ?m\<rparr>)))"
      using True p Cons.prems(3,4) by (subst sorted_walk.simps) (simp add: set_next_def)
    have "chain ?m (Some p) (p # e # as) (y # ins_walk (x, k) (z # zs)) None"
      using True p Cons.prems(2,3) by auto
    then have "walk_result h e p as (x, k) y (z # zs) (Some (h\<lparr>cells := ?m\<rparr>))"
      unfolding walk_result_def using p(4) Cons.prems(2,3)
      by (auto intro!: exI [where x = "e # as"])
    with run show ?thesis by blast
  next
    case False
    have step: "sorted_walk h e k p = sorted_walk h e k q"
      using False p by (subst sorted_walk.simps) simp
    obtain r where r: "sorted_walk h e k q = Some (Inr r)" "walk_result h e q as2 (x, k) z zs r"
      using Cons.IH [of q as2 z] Cons.prems p by auto
    have "walk_result h e p as (x, k) y (z # zs) r"
    proof (cases r)
      case None
      then show ?thesis using r(2) False p(6) by (auto simp: walk_result_def)
    next
      case (Some h')
      then obtain as' where as': "chain (cells h') (Some q) (q # as') (z # ins_walk (x, k) zs) None"
        "set as' = insert e (set as2)" "distinct as'" "as' \<noteq> []" "last as' = last (q # as2)"
        and frame: "fresh h' = fresh h" "\<forall>a. a \<notin> insert e (insert q (set as2)) \<longrightarrow> cells h' a = cells h a"
        using r(2) by (auto simp: walk_result_def)
      have "cells h' p = cells h p" using frame(2) Cons.prems(2,3) p(4) by auto
      then have "chain (cells h') (Some p) (p # q # as') (y # ins_walk (x, k) (z # zs)) None"
        using as'(1) p False by auto
      then show ?thesis
        unfolding walk_result_def using Some as' frame p(4) Cons.prems(2,3)
        by (auto intro!: exI [where x = "q # as'"])
    qed
    with step r(1) show ?thesis by auto
  qed
qed

text \<open>
  The situation after the new element was allocated, in a list that is not empty: the store
  \<open>h1\<close> holds the new cell \<open>e\<close> and the old chain, whose first cell is \<open>c\<close> at \<open>f\<close>.
\<close>

definition inserting ::
    "'a heap \<Rightarrow> addr \<Rightarrow> List_obj \<Rightarrow> 'a nlist \<Rightarrow> 'a \<Rightarrow> int \<Rightarrow> addr \<Rightarrow> addr list \<Rightarrow> 'a ListElement \<Rightarrow>
     ('a \<times> int) list \<Rightarrow> bool" where
  "inserting h1 e l q x k f as c ys =
     (fresh h1 = Suc e \<and> cells h1 e = Some \<lparr>le_item = x, le_key = k, le_next = None\<rparr> \<and>
      l_first l = Some f \<and> cells h1 f = Some c \<and> elems q = (le_item c, le_key c) # ys \<and>
      chain (cells h1) (le_next c) as ys None \<and> e \<notin> set (f # as) \<and> distinct (f # as) \<and>
      (\<forall>a\<in>set (f # as). a < e) \<and> l_last l = Some (last (f # as)) \<and> l_size l = nsize q)"

lemma inserting_start:
  assumes rep: "represents h l as q" and ne: "elems q \<noteq> []"
  obtains h1 f as2 c ys where "new_ListElement h x k = (fresh h, h1)" "as = f # as2"
    "inserting h1 (fresh h) l q x k f as2 c ys"
proof -
  define h1 where "h1 = snd (new_ListElement h x k)"
  have h1: "new_ListElement h x k = (fresh h, h1)" "fresh h1 = Suc (fresh h)"
    "cells h1 = (cells h)(fresh h \<mapsto> \<lparr>le_item = x, le_key = k, le_next = None\<rparr>)"
    by (simp_all add: h1_def new_ListElement_def)
  have fresh_as: "fresh h \<notin> set as" using rep by (auto simp: represents_def)
  then have "chain (cells h1) (l_first l) as (elems q) None"
    using rep by (simp add: represents_def h1)
  then obtain f as2 c ys where f: "as = f # as2" "l_first l = Some f" "cells h1 f = Some c"
    "elems q = (le_item c, le_key c) # ys" "chain (cells h1) (le_next c) as2 ys None"
    using ne by (cases "elems q") (auto simp: chain_Cons_iff)
  have "inserting h1 (fresh h) l q x k f as2 c ys"
    using rep f fresh_as h1(2,3) by (simp add: inserting_def represents_def)
  then show ?thesis using that h1(1) f(1) by blast
qed

lemma inserting_front:
  assumes ins: "inserting h1 e l q x k f as c ys" and "k < le_key c"
  shows "\<exists>h2. set_next h1 (Some e) (Some f) = Inr h2 \<and>
    represents h2 (l\<lparr>l_size := l_size l + 1, l_first := Some e\<rparr>) (e # f # as) (SortedInsert q x k)"
  using assms
  by (auto simp: inserting_def set_next_def represents_def SortedInsert_def less_Suc_eq)

lemma inserting_middle:
  assumes ins: "inserting h1 e l q x k f as c ys" and "\<not> k < le_key c"
    and "walk_result h1 e f as (x, k) (le_item c, le_key c) ys (Some h2)"
  shows "\<exists>as'. represents h2 (l\<lparr>l_size := l_size l + 1\<rparr>) as' (SortedInsert q x k)"
proof -
  obtain as' where "chain (cells h2) (Some f) (f # as') ((le_item c, le_key c) # ins_walk (x, k) ys) None"
    "set as' = insert e (set as)" "distinct as'" "as' \<noteq> []" "last as' = last (f # as)"
    "fresh h2 = fresh h1"
    using assms(3) by (auto simp: walk_result_def)
  note as' = this
  note i = ins [unfolded inserting_def]
  have "\<forall>a\<in>set (f # as'). a < fresh h2" using as'(2,6) i by fastforce
  moreover have "distinct (f # as')" using as'(2,3) i by fastforce
  moreover have "elems (SortedInsert q x k) = (le_item c, le_key c) # ins_walk (x, k) ys"
    using i assms(2) by (simp add: SortedInsert_def)
  moreover have "l_last l = Some (last (f # as'))" using i as'(4,5) by simp
  ultimately have "represents h2 (l\<lparr>l_size := l_size l + 1\<rparr>) (f # as') (SortedInsert q x k)"
    using as'(1) i by (simp add: represents_def SortedInsert_def)
  then show ?thesis by blast
qed

lemma inserting_end:
  assumes ins: "inserting h1 e l q x k f as c ys" and "\<not> k < le_key c" "\<forall>z\<in>set ys. \<not> k < snd z"
  shows "\<exists>h2 as'. set_next h1 (l_last l) (Some e) = Inr h2 \<and>
    represents h2 (l\<lparr>l_size := l_size l + 1, l_last := Some e\<rparr>) as' (SortedInsert q x k)"
proof -
  note i = ins [unfolded inserting_def]
  obtain bs b where bs: "f # as = bs @ [b]" by (cases "f # as" rule: rev_cases) auto
  have b: "distinct (bs @ [b])" "\<forall>a\<in>set (bs @ [b]). a < e" "l_last l = Some b"
    using i [unfolded bs] by simp_all
  have "chain (cells h1) (l_first l) (f # as) (elems q) None" using i by simp
  then have chain1: "chain (cells h1) (l_first l) (bs @ [b]) (elems q) None" by (simp only: bs)
  obtain h2 where h2: "set_next h1 (Some b) (Some e) = Inr h2" "fresh h2 = fresh h1"
    "chain (cells h2) (l_first l) (bs @ [b, e]) (elems q @ [(x, k)]) None"
    using link_last [OF chain1 b(1,2)] i by blast
  have "ins_walk (x, k) (elems q) = elems q @ [(x, k)]"
    using i assms(2,3) ins_walk_end [of ys "(x, k)"] by simp
  moreover have "\<forall>a\<in>set (bs @ [b, e]). a < fresh h2" using b(2) h2(2) i by auto
  moreover have "distinct (bs @ [b, e])" using b(1,2) by auto
  ultimately have "represents h2 (l\<lparr>l_size := l_size l + 1, l_last := Some e\<rparr>) (bs @ [b, e]) (SortedInsert q x k)"
    using i h2(3) by (simp add: represents_def SortedInsert_def)
  then show ?thesis using h2(1) b(3) by auto
qed

lemma hList_SortedInsert_refines:
  assumes rep: "represents h l as q"
  shows "\<exists>h' l' as'. hList_SortedInsert h l x k = Some (Inr (h', l')) \<and>
    represents h' l' as' (SortedInsert q x k)"
proof (cases "elems q = []")
  case True
  with rep show ?thesis
    by (auto simp: represents_def hList_SortedInsert_def new_ListElement_def SortedInsert_def
        intro!: exI [where x = "[fresh h]"])
next
  case False
  from inserting_start [OF rep False] obtain h1 f as2 c ys
    where new: "new_ListElement h x k = (fresh h, h1)"
      and ins: "inserting h1 (fresh h) l q x k f as2 c ys"
    by metis
  have f: "l_first l = Some f" "cells h1 f = Some c" using ins by (simp_all add: inserting_def)
  show ?thesis
  proof (cases "k < le_key c")
    case True
    with inserting_front [OF ins True] f new show ?thesis
      by (auto simp: hList_SortedInsert_def)
  next
    case False
    note ge = False
    obtain r where r: "sorted_walk h1 (fresh h) k f = Some (Inr r)"
      "walk_result h1 (fresh h) f as2 (x, k) (le_item c, le_key c) ys r"
      using sorted_walk_correct [of h1 f as2 "(le_item c, le_key c)" ys "fresh h" x k] ins
      by (auto simp: inserting_def)
    show ?thesis
    proof (cases r)
      case (Some h2)
      then show ?thesis
        using inserting_middle [OF ins ge, of h2] r f new ge
        by (auto simp: hList_SortedInsert_def)
    next
      case None
      then have "\<forall>z\<in>set ys. \<not> k < snd z" using r(2) by (simp add: walk_result_def)
      from inserting_end [OF ins ge this] show ?thesis
        using r(1) None f new ge by (auto simp: hList_SortedInsert_def)
    qed
  qed
qed

section \<open>What the sorted insertion does to the sequence\<close>

lemma ins_walk_split:
  "ins_walk e ys =
     takeWhile (\<lambda>y. snd y \<le> snd e) ys @ e # dropWhile (\<lambda>y. snd y \<le> snd e) ys"
  by (induction ys) auto

lemma set_ins_walk [simp]: "set (ins_walk e ys) = insert e (set ys)"
  by (induction ys) auto

lemma length_ins_walk [simp]: "length (ins_walk e ys) = Suc (length ys)"
  by (induction ys) auto

lemma ins_walk_not_Nil [simp]: "ins_walk e ys \<noteq> []"
  by (cases ys) auto

lemma mset_ins_walk: "mset (ins_walk e ys) = add_mset e (mset ys)"
  by (induction ys) auto

lemma sorted_ins_walk: "sorted (map snd ys) \<Longrightarrow> sorted (map snd (ins_walk e ys))"
  by (induction ys) auto

text \<open>Items of one key stay in the order of their insertion.\<close>

lemma ins_walk_stable:
  "sorted (map snd ys) \<Longrightarrow>
   filter (\<lambda>y. snd y = k) (ins_walk e ys) =
   filter (\<lambda>y. snd y = k) ys @ (if snd e = k then [e] else [])"
proof (induction ys)
  case (Cons y ys)
  show ?case
  proof (cases "snd e < snd y")
    case True
    then have "\<forall>z\<in>set (y # ys). snd e < snd z" using Cons.prems by auto
    then have "snd e = k \<Longrightarrow> filter (\<lambda>y. snd y = k) (y # ys) = []"
      by (auto simp: filter_empty_conv)
    then show ?thesis using True by auto
  next
    case False
    then show ?thesis using Cons by simp
  qed
qed simp

section \<open>The contracts the other components use\<close>

text \<open>
  A first-in first-out queue: what the ready list, the queues of waiting threads and the list of
  received messages rely on.
\<close>

locale fifo_queue =
  fixes empty :: 'q
    and append :: "'q \<Rightarrow> 'a \<Rightarrow> 'q"
    and remove :: "'q \<Rightarrow> 'a option \<times> 'q"
    and is_empty :: "'q \<Rightarrow> bool"
    and contents :: "'q \<Rightarrow> 'a list"
  assumes contents_empty: "contents empty = []"
    and contents_append: "contents (append q x) = contents q @ [x]"
    and remove_none: "contents q = [] \<Longrightarrow> fst (remove q) = None \<and> contents (snd (remove q)) = []"
    and remove_some: "contents q = x # xs \<Longrightarrow> fst (remove q) = Some x \<and> contents (snd (remove q)) = xs"
    and is_empty_iff: "is_empty q \<longleftrightarrow> contents q = []"
begin

lemma contents_remove: "contents (snd (remove q)) = tl (contents q)"
  using remove_none remove_some by (cases "contents q") auto

lemma contents_drain: "contents (((\<lambda>q. snd (remove q)) ^^ n) q) = drop n (contents q)"
  by (induction n) (simp_all add: contents_remove drop_Suc tl_drop)

lemma contents_foldl_append: "contents (foldl append q xs) = contents q @ xs"
  by (induction xs arbitrary: q) (simp_all add: contents_append)

text \<open>An item behind \<open>n\<close> others is the one the removal after \<open>n\<close> removals returns.\<close>

lemma served_in_order:
  assumes "n < length (contents q)"
  shows "fst (remove (((\<lambda>q. snd (remove q)) ^^ n) q)) = Some (contents q ! n)"
proof -
  have "contents (((\<lambda>q. snd (remove q)) ^^ n) q) = contents q ! n # drop (Suc n) (contents q)"
    using assms by (simp add: contents_drain Cons_nth_drop_Suc)
  then show ?thesis by (simp add: remove_some)
qed

text \<open>Whatever is appended later does not overtake.\<close>

lemma later_appends_wait:
  assumes "n < length (contents q)"
  shows "fst (remove (((\<lambda>q. snd (remove q)) ^^ n) (foldl append q xs))) = Some (contents q ! n)"
  using served_in_order [of n "foldl append q xs"] assms
  by (simp add: contents_foldl_append nth_append)

end

text \<open>A queue ordered by an integer key: what the list of pending interrupts relies on.\<close>

locale key_queue =
  fixes empty :: 'q
    and insert_key :: "'q \<Rightarrow> 'a \<Rightarrow> int \<Rightarrow> 'q"
    and remove_min :: "'q \<Rightarrow> ('a \<times> int) option \<times> 'q"
    and entries :: "'q \<Rightarrow> ('a \<times> int) list"
  assumes entries_empty: "entries empty = []"
    and insert_perm: "mset (entries (insert_key q x k)) = add_mset (x, k) (mset (entries q))"
    and insert_sorted: "sorted (map snd (entries q)) \<Longrightarrow> sorted (map snd (entries (insert_key q x k)))"
    and remove_min_none: "entries q = [] \<Longrightarrow> fst (remove_min q) = None \<and> entries (snd (remove_min q)) = []"
    and remove_min_some: "entries q = e # es \<Longrightarrow> fst (remove_min q) = Some e \<and> entries (snd (remove_min q)) = es"
begin

lemma remove_min_sorted:
  "sorted (map snd (entries q)) \<Longrightarrow> sorted (map snd (entries (snd (remove_min q))))"
  using remove_min_none remove_min_some by (cases "entries q") auto

lemma remove_min_is_min:
  assumes "sorted (map snd (entries q))" "fst (remove_min q) = Some (x, k)"
  shows "(x, k) \<in> set (entries q)" "\<forall>e\<in>set (entries q). k \<le> snd e"
  using assms remove_min_none [of q] remove_min_some [of q] by (cases "entries q"; auto)+

text \<open>Nothing inserted is lost: it is returned or still there.\<close>

lemma remove_min_perm:
  "mset (entries q) =
     (case fst (remove_min q) of None \<Rightarrow> {#} | Some e \<Rightarrow> {#e#}) + mset (entries (snd (remove_min q)))"
  using remove_min_none [of q] remove_min_some [of q] by (cases "entries q") auto

end

interpretation nl: fifo_queue List_new Append Remove IsEmpty items
  by unfold_locales (auto simp: IsEmpty_def Remove_def SortedRemove_def split: list.splits)

interpretation nlk: key_queue List_new SortedInsert SortedRemove elems
  by unfold_locales
    (auto simp: SortedInsert_def SortedRemove_def mset_ins_walk sorted_ins_walk)

section \<open>Properties of the list\<close>

text \<open>
  C35. Pointer-level refinement. On a list object that represents a sequence, \<open>Append\<close>, \<open>Prepend\<close>, \<open>SortedInsert\<close>, \<open>SortedRemove\<close> (with
  the key it reports), \<open>Remove\<close> and \<open>Mapcar\<close> return: their loops end, and no null or dangling pointer is followed. They
  leave a well-formed object for the sequence the value-level routine computes, and report what it
  reports; \<open>IsEmpty\<close> and \<open>Size\<close> report the emptiness of the sequence and its counter.
\<close>

theorem list_operations_refine:
  assumes "represents h l as q"
  shows "(\<exists>h' l' as'. hList_Append h l x = Inr (h', l') \<and> represents h' l' as' (Append q x)) \<and>
    (\<exists>h' l' as'. hList_Prepend h l x = Inr (h', l') \<and> represents h' l' as' (Prepend q x)) \<and>
    (\<exists>h' l' as'. hList_SortedInsert h l x k = Some (Inr (h', l')) \<and>
       represents h' l' as' (SortedInsert q x k)) \<and>
    (\<exists>h' l' as'. hList_SortedRemove h l = Inr (fst (SortedRemove q), h', l') \<and>
       represents h' l' as' (snd (SortedRemove q))) \<and>
    (\<exists>h' l' as'. hList_Remove h l = Inr (fst (Remove q), h', l') \<and>
       represents h' l' as' (snd (Remove q))) \<and>
    hList_Mapcar h l func s = Some (Inr (Mapcar func q s)) \<and>
    hList_IsEmpty l = IsEmpty q \<and> hList_Size l = Size q"
proof (intro conjI)
  show "\<exists>h' l' as'. hList_Append h l x = Inr (h', l') \<and> represents h' l' as' (Append q x)"
    using hList_Append_refines [OF assms] by blast
  show "\<exists>h' l' as'. hList_Prepend h l x = Inr (h', l') \<and> represents h' l' as' (Prepend q x)"
    using hList_Prepend_refines [OF assms] by blast
  show "\<exists>h' l' as'. hList_SortedInsert h l x k = Some (Inr (h', l')) \<and> represents h' l' as' (SortedInsert q x k)"
    using hList_SortedInsert_refines [OF assms] by blast
  show "\<exists>h' l' as'. hList_SortedRemove h l = Inr (fst (SortedRemove q), h', l') \<and> represents h' l' as' (snd (SortedRemove q))"
    using hList_SortedRemove_refines [OF assms] by blast
  show "\<exists>h' l' as'. hList_Remove h l = Inr (fst (Remove q), h', l') \<and> represents h' l' as' (snd (Remove q))"
    using hList_Remove_refines [OF assms] by blast
  show "hList_Size l = Size q"
    using assms by (simp add: represents_def hList_Size_def Size_def)
qed (use hList_Mapcar_refines [OF assms] represents_IsEmpty [OF assms] in \<open>simp_all\<close>)

theorem list_operations_refine_witness:
  "\<exists>h' l' as'. hList_SortedInsert
      \<lparr>cells = [0 \<mapsto> \<lparr>le_item = ''a'', le_key = 4, le_next = None\<rparr>], fresh = 1\<rparr>
      \<lparr>l_first = Some 0, l_last = Some 0, l_size = 1\<rparr> ''b'' 7 = Some (Inr (h', l')) \<and>
    represents h' l' as' \<lparr>elems = [(''a'', 4), (''b'', 7)], nsize = 2\<rparr>"
proof -
  have "represents \<lparr>cells = [0 \<mapsto> \<lparr>le_item = ''a'', le_key = 4, le_next = None\<rparr>], fresh = 1\<rparr>
      \<lparr>l_first = Some 0, l_last = Some 0, l_size = 1\<rparr> [0] \<lparr>elems = [(''a'', 4)], nsize = 1\<rparr>"
    by (simp add: represents_def)
  from list_operations_refine [OF this, of "''b''" 7 "\<lambda>_ n. n" "()"] show ?thesis
    by (simp add: SortedInsert_def)
qed

text \<open>
  \<open>SortedInsert\<close> on a list in key order: the result is in key order, holds exactly the old
  elements and the new one, and among elements of equal key the new one comes last (ties are
  served in the order of insertion).
\<close>

theorem SortedInsert_ordered_stable:
  assumes "sorted (map snd (elems q))"
  shows "sorted (map snd (elems (SortedInsert q x k))) \<and>
    mset (elems (SortedInsert q x k)) = add_mset (x, k) (mset (elems q)) \<and>
    filter (\<lambda>e. snd e = k) (elems (SortedInsert q x k)) =
      filter (\<lambda>e. snd e = k) (elems q) @ [(x, k)]"
  using nlk.insert_sorted [OF assms, of x k] nlk.insert_perm [of q x k]
    ins_walk_stable [OF assms, of k "(x, k)"]
  by (simp add: SortedInsert_def)

theorem SortedInsert_ordered_stable_witness:
  "elems (SortedInsert \<lparr>elems = [(''a'', 1), (''b'', 5)], nsize = 2\<rparr> ''c'' 1) =
     [(''a'', 1), (''c'', 1), (''b'', 5)] \<and>
   filter (\<lambda>e. snd e = 1) (elems (SortedInsert \<lparr>elems = [(''a'', 1), (''b'', 5)], nsize = 2\<rparr> ''c'' 1)) =
     [(''a'', 1), (''c'', 1)]"
  using SortedInsert_ordered_stable [of "\<lparr>elems = [(''a'', 1), (''b'', 5)], nsize = 2\<rparr>" "''c''" 1]
  by (simp add: SortedInsert_def)

text \<open>
  Service order: whatever is appended to the list later, the item with \<open>n\<close> items before it is
  what the \<open>n+1\<close>st \<open>Remove\<close> returns.
\<close>

theorem Remove_serves_in_order:
  assumes "n < length (items q)"
  shows "fst (Remove (((\<lambda>q. snd (Remove q)) ^^ n) (foldl Append q xs))) = Some (items q ! n)"
  using nl.later_appends_wait [OF assms] .

theorem Remove_serves_in_order_witness:
  "fst (Remove (((\<lambda>q. snd (Remove q)) ^^ 1) (foldl Append (Append (Append List_new ''a'') ''b'') [''c''])))
   = Some ''b''"
  using Remove_serves_in_order [of 1 "Append (Append List_new ''a'') ''b''" "[''c'']"] by simp

text \<open>
  The counter behind \<open>Size\<close> drifts: \<open>Remove\<close> subtracts one also when the list is empty
  (so an empty list that was asked for an item reports a negative size), and \<open>SortedRemove\<close>
  never subtracts.
\<close>

theorem Size_drifts:
  "Size (snd (Remove List_new)) = -1 \<and> items (snd (Remove (List_new :: 'a nlist))) = [] \<and>
   Size (snd (SortedRemove (SortedInsert List_new x k))) = 1 \<and>
   elems (snd (SortedRemove (SortedInsert List_new (x :: 'a) k))) = []"
  by (simp add: nlist_defs)

end
