(* ===== verification/Nachos_Synch.thy ===== *)
theory Nachos_Synch
  imports Nachos_List
begin

text \<open>
  Threads, the scheduler and the synchronisation objects: \<^verbatim>\<open>threads/thread.cc\<close>,
  \<^verbatim>\<open>threads/scheduler.cc\<close> and \<^verbatim>\<open>threads/synch.cc\<close>.

  Every routine but \<open>Condition::Broadcast\<close> disables interrupts while it works, so it runs
  without interference up to the point where it switches to another thread (or idles). The model
  follows this: a routine is a function on the kernel state that ends either by returning or inside
  \<open>Scheduler::Run\<close>, and what the suspended thread still has to do when \<^verbatim>\<open>SWITCH\<close>
  returns to it is kept in \<open>pend\<close>. The step relation interleaves the calls of the running
  thread, the resumption of a suspended routine, interrupt handlers that call \<open>V\<close>, and the idle
  loop. \<open>Broadcast\<close> is a loop of calls of \<open>Signal\<close> with interrupts enabled between them:
  in the step relation it is the sequence of these calls, with any other steps in between, and
  \<open>Condition_Broadcast\<close> is the call that no interrupt divides.

  The stack of a thread (\<open>StackAllocate\<close>, \<open>CheckOverflow\<close>) is not part of the state.
  Thread identities are never reused.
\<close>

section \<open>Kernel state\<close>

type_synonym tid = nat

datatype ThreadStatus = JUST_CREATED | RUNNING | READY | BLOCKED
datatype lockStatus = FREE | BUSY

record Semaphore =
  sem_value :: int
  sem_queue :: "tid nlist"

record Lock =
  lock_status :: lockStatus
  lockerOwner :: "tid option"
  lock_queue :: "tid nlist"

record Condition =
  cond_queue :: "tid nlist"
  waitLock :: "nat option"

text \<open>
  What a thread does next: run its own code, start at \<^verbatim>\<open>ThreadRoot\<close>, or finish the
  routine in which it gave up the processor and then restore the interrupt level.
\<close>

datatype cont =
    InUser
  | Startup
  | Yielding IntStatus
  | P_loop nat IntStatus
  | Acquiring nat IntStatus
  | Waiting nat nat IntStatus
  | Finishing

record kernel =
  currentThread :: tid
  thread_status :: "tid \<rightharpoonup> ThreadStatus"
  pend :: "tid \<Rightarrow> cont"
  readyList :: "tid nlist"
  sems :: "nat \<Rightarrow> Semaphore"
  locks :: "nat \<Rightarrow> Lock"
  conds :: "nat \<Rightarrow> Condition"
  threadToBeDestroyed :: "tid option"
  level :: IntStatus
  idling :: bool
  next_tid :: tid

definition Semaphore_new :: "int \<Rightarrow> Semaphore" where
  "Semaphore_new initialValue = \<lparr>sem_value = initialValue, sem_queue = List_new\<rparr>"

definition Lock_new :: Lock where
  "Lock_new = \<lparr>lock_status = FREE, lockerOwner = None, lock_queue = List_new\<rparr>"

definition Condition_new :: Condition where
  "Condition_new = \<lparr>cond_queue = List_new, waitLock = None\<rparr>"

section \<open>Scheduler and threads\<close>

definition ReadyToRun :: "kernel \<Rightarrow> tid \<Rightarrow> kernel" where
  "ReadyToRun k t =
     k\<lparr>thread_status := (thread_status k)(t \<mapsto> READY), readyList := Append (readyList k) t\<rparr>"

definition FindNextToRun :: "kernel \<Rightarrow> tid option \<times> kernel" where
  "FindNextToRun k = (case Remove (readyList k) of (t, q) \<Rightarrow> (t, k\<lparr>readyList := q\<rparr>))"

text \<open>\<open>Scheduler::Run\<close> up to \<^verbatim>\<open>SWITCH\<close>; the part after it is \<open>after_SWITCH\<close>.\<close>

definition Run :: "kernel \<Rightarrow> tid \<Rightarrow> kernel" where
  "Run k nextThread =
     k\<lparr>currentThread := nextThread, thread_status := (thread_status k)(nextThread \<mapsto> RUNNING),
       idling := False\<rparr>"

definition after_SWITCH :: "kernel \<Rightarrow> kernel res" where
  "after_SWITCH k =
     (case threadToBeDestroyed k of
        None \<Rightarrow> Inr k
      | Some t \<Rightarrow>
          bindE (ASSERT (t \<noteq> currentThread k)) (\<lambda>_.
            Inr (k\<lparr>thread_status := (thread_status k)(t := None), threadToBeDestroyed := None\<rparr>)))"

text \<open>One turn of the loop of \<open>Thread::Sleep\<close>: switch, or go idle and try again later.\<close>

definition dispatch :: "kernel \<Rightarrow> kernel" where
  "dispatch k =
     (case FindNextToRun k of
        (Some t, k1) \<Rightarrow> Run k1 t
      | (None, k1) \<Rightarrow> k1\<lparr>idling := True\<rparr>)"

definition Sleep :: "kernel \<Rightarrow> cont \<Rightarrow> kernel res" where
  "Sleep k c =
     bindE (ASSERT (level k = IntOff)) (\<lambda>_.
       Inr (dispatch (k\<lparr>thread_status := (thread_status k)(currentThread k \<mapsto> BLOCKED),
                        pend := (pend k)(currentThread k := c)\<rparr>)))"

definition Thread_new :: "kernel \<Rightarrow> tid \<times> kernel" where
  "Thread_new k =
     (next_tid k,
      k\<lparr>thread_status := (thread_status k)(next_tid k \<mapsto> JUST_CREATED),
        pend := (pend k)(next_tid k := Startup), next_tid := Suc (next_tid k)\<rparr>)"

definition Thread_Fork :: "kernel \<Rightarrow> tid \<Rightarrow> kernel" where
  "Thread_Fork k t =
     (let oldLevel = level k in
      (ReadyToRun (k\<lparr>level := IntOff\<rparr>) t)\<lparr>level := oldLevel\<rparr>)"

definition Thread_Yield :: "kernel \<Rightarrow> kernel" where
  "Thread_Yield k =
     (let oldLevel = level k in
      case FindNextToRun (k\<lparr>level := IntOff\<rparr>) of
        (None, k1) \<Rightarrow> k1\<lparr>level := oldLevel\<rparr>
      | (Some t, k1) \<Rightarrow>
          (let k2 = k1\<lparr>pend := (pend k1)(currentThread k1 := Yielding oldLevel)\<rparr>
           in Run (ReadyToRun k2 (currentThread k2)) t))"

definition Thread_Finish :: "kernel \<Rightarrow> kernel res" where
  "Thread_Finish k =
     Sleep (k\<lparr>level := IntOff, threadToBeDestroyed := Some (currentThread k)\<rparr>) Finishing"

section \<open>Semaphores\<close>

text \<open>
  The loop of \<open>P\<close> from its test on; it is entered by the call and again each time the thread
  is resumed. \<open>old\<close> is the interrupt level to restore.
\<close>

definition P_test :: "kernel \<Rightarrow> nat \<Rightarrow> IntStatus \<Rightarrow> kernel res" where
  "P_test k s old =
     (let S = sems k s in
      if sem_value S = 0 then
        Sleep (k\<lparr>sems := (sems k)(s := S\<lparr>sem_queue := Append (sem_queue S) (currentThread k)\<rparr>)\<rparr>)
          (P_loop s old)
      else
        Inr (k\<lparr>sems := (sems k)(s := S\<lparr>sem_value := sem_value S - 1\<rparr>),
               pend := (pend k)(currentThread k := InUser), level := old\<rparr>))"

definition Semaphore_P :: "kernel \<Rightarrow> nat \<Rightarrow> kernel res" where
  "Semaphore_P k s = P_test (k\<lparr>level := IntOff\<rparr>) s (level k)"

definition Semaphore_V :: "kernel \<Rightarrow> nat \<Rightarrow> kernel" where
  "Semaphore_V k s =
     (let oldLevel = level k; k0 = k\<lparr>level := IntOff\<rparr>; S = sems k0 s in
      case Remove (sem_queue S) of
        (r, q) \<Rightarrow>
          (let k1 = k0\<lparr>sems := (sems k0)(s := S\<lparr>sem_queue := q, sem_value := sem_value S + 1\<rparr>)\<rparr>;
               k2 = (case r of None \<Rightarrow> k1 | Some t \<Rightarrow> ReadyToRun k1 t)
           in k2\<lparr>level := oldLevel\<rparr>))"

section \<open>Locks\<close>

definition isHeldByCurrentThread :: "kernel \<Rightarrow> nat \<Rightarrow> bool" where
  "isHeldByCurrentThread k l = (lockerOwner (locks k l) = Some (currentThread k))"

text \<open>The body of \<open>Acquire\<close>, after which the level \<open>old\<close> is restored.\<close>

definition Acquire_body :: "kernel \<Rightarrow> nat \<Rightarrow> IntStatus \<Rightarrow> kernel res" where
  "Acquire_body k l old =
     (let L = locks k l; ret = (\<lambda>k. k\<lparr>pend := (pend k)(currentThread k := InUser), level := old\<rparr>) in
      if isHeldByCurrentThread k l then Inr (ret k)
      else if lock_status L = FREE then
        Inr (ret (k\<lparr>locks := (locks k)(l := L\<lparr>lock_status := BUSY, lockerOwner := Some (currentThread k)\<rparr>)\<rparr>))
      else
        Sleep (k\<lparr>locks := (locks k)(l := L\<lparr>lock_queue := Append (lock_queue L) (currentThread k)\<rparr>)\<rparr>)
          (Acquiring l old))"

definition Lock_Acquire :: "kernel \<Rightarrow> nat \<Rightarrow> kernel res" where
  "Lock_Acquire k l = Acquire_body (k\<lparr>level := IntOff\<rparr>) l (level k)"

definition Release_body :: "kernel \<Rightarrow> nat \<Rightarrow> kernel" where
  "Release_body k l =
     (let L = locks k l in
      if \<not> isHeldByCurrentThread k l then k
      else if \<not> IsEmpty (lock_queue L) then
        (case Remove (lock_queue L) of
           (None, q) \<Rightarrow> k
         | (Some t, q) \<Rightarrow>
             ReadyToRun (k\<lparr>locks := (locks k)(l := L\<lparr>lock_queue := q, lockerOwner := Some t\<rparr>)\<rparr>) t)
      else k\<lparr>locks := (locks k)(l := L\<lparr>lock_status := FREE, lockerOwner := None\<rparr>)\<rparr>)"

definition Lock_Release :: "kernel \<Rightarrow> nat \<Rightarrow> kernel" where
  "Lock_Release k l = (Release_body (k\<lparr>level := IntOff\<rparr>) l)\<lparr>level := level k\<rparr>"

definition Lock_isQueueEmpty :: "kernel \<Rightarrow> nat \<Rightarrow> bool" where
  "Lock_isQueueEmpty k l = IsEmpty (lock_queue (locks k l))"

section \<open>Condition variables\<close>

text \<open>
  \<open>Wait\<close>: a null lock and a lock other than the one already waited with are refused. The thread
  is queued, the lock is released, and the thread sleeps; once woken it acquires the lock again.
\<close>

definition Condition_Wait :: "kernel \<Rightarrow> nat \<Rightarrow> nat option \<Rightarrow> kernel res" where
  "Condition_Wait k c conditionLock =
     (let old = level k; k0 = k\<lparr>level := IntOff\<rparr>; C = conds k0 c;
          C1 = (if waitLock C = None then C\<lparr>waitLock := conditionLock\<rparr> else C);
          k1 = k0\<lparr>conds := (conds k0)(c := C1)\<rparr>
      in case waitLock C1 of
           None \<Rightarrow> Inr (k1\<lparr>level := old\<rparr>)
         | Some l \<Rightarrow>
             if conditionLock \<noteq> Some l then Inr (k1\<lparr>level := old\<rparr>)
             else
               (let k2 = k1\<lparr>conds := (conds k1)(c := C1\<lparr>cond_queue := Append (cond_queue C1) (currentThread k1)\<rparr>)\<rparr>
                in Sleep (Lock_Release k2 l) (Waiting c l old)))"

definition Condition_Signal :: "kernel \<Rightarrow> nat \<Rightarrow> nat option \<Rightarrow> kernel" where
  "Condition_Signal k c conditionLock =
     (let old = level k; k0 = k\<lparr>level := IntOff\<rparr>; C = conds k0 c in
      if IsEmpty (cond_queue C) then k0\<lparr>level := old\<rparr>
      else if conditionLock \<noteq> waitLock C then k0\<lparr>level := old\<rparr>
      else
        (case Remove (cond_queue C) of
           (None, q) \<Rightarrow> k0\<lparr>level := old\<rparr>
         | (Some t, q) \<Rightarrow>
             (let k1 = ReadyToRun k0 t;
                  C1 = C\<lparr>cond_queue := q, waitLock := (if IsEmpty q then None else waitLock C)\<rparr>
              in k1\<lparr>conds := (conds k1)(c := C1), level := old\<rparr>)))"

text \<open>
  \<open>Broadcast\<close>, when no interrupt comes between its calls of \<open>Signal\<close>: the loop may run
  forever, which is the value \<open>None\<close>.
\<close>

partial_function (option) Condition_Broadcast :: "kernel \<Rightarrow> nat \<Rightarrow> nat option \<Rightarrow> kernel option" where
  "Condition_Broadcast k c conditionLock =
     (if \<not> IsEmpty (cond_queue (conds k c))
      then Condition_Broadcast (Condition_Signal k c conditionLock) c conditionLock
      else Some k)"

definition Condition_isQueueEmpty :: "kernel \<Rightarrow> nat \<Rightarrow> bool" where
  "Condition_isQueueEmpty k c = IsEmpty (cond_queue (conds k c))"

section \<open>Resumption of a suspended routine\<close>

text \<open>
  A new thread starts at \<^verbatim>\<open>ThreadRoot\<close>, which enables interrupts; it does not come out of
  \<open>Run\<close> and so deletes nothing. \<open>Finish\<close> does not expect to be resumed: that would be an error.
\<close>

definition resume :: "kernel \<Rightarrow> kernel res" where
  "resume k =
     (let me = currentThread k;
          ret = (\<lambda>old k. k\<lparr>pend := (pend k)(me := InUser), level := old\<rparr>) in
      case pend k me of
        InUser \<Rightarrow> Inr k
      | Startup \<Rightarrow> Inr (ret IntOn k)
      | Yielding old \<Rightarrow> bindE (after_SWITCH k) (\<lambda>k. Inr (ret old k))
      | P_loop s old \<Rightarrow> bindE (after_SWITCH k) (\<lambda>k. P_test k s old)
      | Acquiring l old \<Rightarrow> bindE (after_SWITCH k) (\<lambda>k. Inr (ret old k))
      | Waiting c l old \<Rightarrow> bindE (after_SWITCH k) (\<lambda>k. Acquire_body (k\<lparr>level := IntOff\<rparr>) l old)
      | Finishing \<Rightarrow> Inl AssertionFailed)"

section \<open>Interleaving\<close>

datatype op =
    OpP nat | OpV nat | OpAcquire nat | OpRelease nat
  | OpWait nat "nat option" | OpSignal nat "nat option"
  | OpNew | OpFork tid | OpYield | OpFinish

fun exec :: "op \<Rightarrow> kernel \<Rightarrow> kernel res" where
  "exec (OpP s) k = Semaphore_P k s"
| "exec (OpV s) k = Inr (Semaphore_V k s)"
| "exec (OpAcquire l) k = Lock_Acquire k l"
| "exec (OpRelease l) k = Inr (Lock_Release k l)"
| "exec (OpWait c l) k = Condition_Wait k c l"
| "exec (OpSignal c l) k = Inr (Condition_Signal k c l)"
| "exec OpNew k = Inr (snd (Thread_new k))"
| "exec (OpFork t) k = Inr (Thread_Fork k t)"
| "exec OpYield k = Inr (Thread_Yield k)"
| "exec OpFinish k = Thread_Finish k"

text \<open>A thread is forked once, after it was created.\<close>

definition allowed :: "kernel \<Rightarrow> op \<Rightarrow> bool" where
  "allowed k x = (case x of OpFork t \<Rightarrow> thread_status k t = Some JUST_CREATED | _ \<Rightarrow> True)"

inductive step :: "kernel \<Rightarrow> kernel res \<Rightarrow> bool" where
  call: "\<lbrakk>\<not> idling k; pend k (currentThread k) = InUser; allowed k x\<rbrakk> \<Longrightarrow> step k (exec x k)"
| resumption: "\<lbrakk>\<not> idling k; pend k (currentThread k) \<noteq> InUser\<rbrakk> \<Longrightarrow> step k (resume k)"
| handler_V: "\<lbrakk>idling k \<or> pend k (currentThread k) = InUser\<rbrakk> \<Longrightarrow> step k (Inr (Semaphore_V k s))"
| idle_loop: "idling k \<Longrightarrow> step k (Inr (dispatch k))"

inductive reachable :: "kernel \<Rightarrow> kernel \<Rightarrow> bool" for k0 where
  start: "reachable k0 k0"
| more: "reachable k0 k \<Longrightarrow> step k (Inr k') \<Longrightarrow> reachable k0 k'"

text \<open>At boot: one thread, running, and no object in use.\<close>

definition boot :: "(nat \<Rightarrow> int) \<Rightarrow> kernel" where
  "boot values =
     \<lparr>currentThread = 0, thread_status = [0 \<mapsto> RUNNING], pend = (\<lambda>_. InUser), readyList = List_new,
      sems = (\<lambda>s. Semaphore_new (values s)), locks = (\<lambda>_. Lock_new), conds = (\<lambda>_. Condition_new),
      threadToBeDestroyed = None, level = IntOn, idling = False, next_tid = 1\<rparr>"

section \<open>The invariant\<close>

definition tids :: "tid nlist \<Rightarrow> tid list" where
  "tids q = items q"

interpretation tq: fifo_queue List_new Append Remove IsEmpty tids
  using nl.contents_empty nl.contents_append nl.remove_none nl.remove_some nl.is_empty_iff
  by unfold_locales (simp_all add: tids_def del: set_map)

lemmas tids_simps [simp] = tq.contents_empty tq.contents_append tq.is_empty_iff

lemma Remove_tids:
  obtains (none) q' where "tids q = []" "Remove q = (None, q')" "tids q' = []"
  | (some) t ts q' where "tids q = t # ts" "Remove q = (Some t, q')" "tids q' = ts"
  using tq.remove_none [of q] tq.remove_some [of q]
  by (cases "tids q"; cases "Remove q") auto

definition queue_ok :: "kernel \<Rightarrow> tid nlist \<Rightarrow> (cont \<Rightarrow> bool) \<Rightarrow> bool" where
  "queue_ok k q P \<longleftrightarrow> distinct (tids q) \<and>
     (\<forall>t. t \<in> set (tids q) \<longleftrightarrow> thread_status k t = Some BLOCKED \<and> P (pend k t))"

definition ready_ok :: "kernel \<Rightarrow> bool" where
  "ready_ok k \<longleftrightarrow> distinct (tids (readyList k)) \<and>
     (\<forall>t. t \<in> set (tids (readyList k)) \<longleftrightarrow> thread_status k t = Some READY)"

definition sem_ok :: "kernel \<Rightarrow> bool" where
  "sem_ok k \<longleftrightarrow> (\<forall>s. 0 \<le> sem_value (sems k s) \<and>
     queue_ok k (sem_queue (sems k s)) (\<lambda>c. \<exists>old. c = P_loop s old))"

definition lock_ok :: "kernel \<Rightarrow> bool" where
  "lock_ok k \<longleftrightarrow> (\<forall>l. queue_ok k (lock_queue (locks k l)) (\<lambda>c. \<exists>old. c = Acquiring l old) \<and>
     (lock_status (locks k l) = FREE \<longleftrightarrow> lockerOwner (locks k l) = None) \<and>
     (lock_status (locks k l) = FREE \<longrightarrow> tids (lock_queue (locks k l)) = []) \<and>
     (\<forall>t old. thread_status k t \<in> {Some READY, Some RUNNING} \<and> pend k t = Acquiring l old \<longrightarrow>
        lockerOwner (locks k l) = Some t) \<and>
     (\<forall>t. lockerOwner (locks k l) = Some t \<longrightarrow> t \<notin> set (tids (lock_queue (locks k l))) \<and> t < next_tid k))"

definition cond_ok :: "kernel \<Rightarrow> bool" where
  "cond_ok k \<longleftrightarrow> (\<forall>c. queue_ok k (cond_queue (conds k c)) (\<lambda>x. \<exists>l old. x = Waiting c l old) \<and>
     (waitLock (conds k c) = None \<longleftrightarrow> tids (cond_queue (conds k c)) = []) \<and>
     (\<forall>t l old. thread_status k t = Some BLOCKED \<and> pend k t = Waiting c l old \<longrightarrow>
        waitLock (conds k c) = Some l))"

definition thread_ok :: "kernel \<Rightarrow> bool" where
  "thread_ok k \<longleftrightarrow>
     (\<forall>t. thread_status k t = Some READY \<longrightarrow> pend k t \<noteq> InUser \<and> pend k t \<noteq> Finishing) \<and>
     (\<forall>t. thread_status k t = Some BLOCKED \<longrightarrow>
        pend k t \<noteq> InUser \<and> pend k t \<noteq> Startup \<and> (\<forall>old. pend k t \<noteq> Yielding old)) \<and>
     (\<forall>t. thread_status k t = Some RUNNING \<longrightarrow> pend k t \<noteq> Finishing) \<and>
     (\<forall>t. thread_status k t = Some JUST_CREATED \<longrightarrow> pend k t = Startup) \<and>
     (\<forall>t\<ge>next_tid k. thread_status k t = None)"

definition destroy_ok :: "kernel \<Rightarrow> bool" where
  "destroy_ok k \<longleftrightarrow> (\<forall>t. threadToBeDestroyed k = Some t \<longrightarrow>
     thread_status k t = Some BLOCKED \<and> pend k t = Finishing)"

text \<open>\<open>R\<close> is the set of the running threads.\<close>

definition core_inv :: "kernel \<Rightarrow> tid set \<Rightarrow> bool" where
  "core_inv k R \<longleftrightarrow> ready_ok k \<and> sem_ok k \<and> lock_ok k \<and> cond_ok k \<and> thread_ok k \<and> destroy_ok k \<and>
     (\<forall>t. thread_status k t = Some RUNNING \<longleftrightarrow> t \<in> R)"

definition kinv :: "kernel \<Rightarrow> bool" where
  "kinv k \<longleftrightarrow> core_inv k (if idling k then {} else {currentThread k}) \<and>
     (idling k \<or> pend k (currentThread k) \<noteq> InUser \<longrightarrow> level k = IntOff)"

lemmas inv_parts = queue_ok_def ready_ok_def sem_ok_def lock_ok_def cond_ok_def thread_ok_def
  destroy_ok_def

lemma inv_cong:
  assumes "thread_status k' = thread_status k" "pend k' = pend k" "sems k' = sems k"
    "locks k' = locks k" "conds k' = conds k" "threadToBeDestroyed k' = threadToBeDestroyed k"
    "next_tid k' = next_tid k" "tids (readyList k') = tids (readyList k)"
  shows "core_inv k' R = core_inv k R"
  by (simp only: core_inv_def inv_parts assms)

lemma inv_level [simp]: "core_inv (k\<lparr>level := x\<rparr>) R = core_inv k R"
  by (rule inv_cong) simp_all

lemma inv_idling [simp]: "core_inv (k\<lparr>idling := x\<rparr>) R = core_inv k R"
  by (rule inv_cong) simp_all

lemma kinv_boot: "(\<And>s. 0 \<le> values s) \<Longrightarrow> kinv (boot values)"
  by (simp add: kinv_def core_inv_def inv_parts boot_def Semaphore_new_def Lock_new_def Condition_new_def)

text \<open>A queue whose waiting threads keep their state is still in order.\<close>

lemma queue_ok_cong:
  assumes "queue_ok k q P" "tids q' = tids q"
    "\<And>t. (thread_status k' t = Some BLOCKED \<and> P (pend k' t)) =
       (thread_status k t = Some BLOCKED \<and> P (pend k t))"
  shows "queue_ok k' q' P"
  using assms by (simp add: queue_ok_def)

text \<open>The first ready thread gets the processor.\<close>

lemma inv_Run:
  assumes k: "core_inv k {}" and q: "tids (readyList k) = t # ts" "tids q = ts"
  shows "core_inv (Run (k\<lparr>readyList := q\<rparr>) t) {t}"
proof -
  let ?k = "Run (k\<lparr>readyList := q\<rparr>) t"
  have st: "thread_status k t = Some READY" and "t \<notin> set ts" "distinct ts"
    "\<And>u. u \<in> set ts \<longleftrightarrow> u \<noteq> t \<and> thread_status k u = Some READY"
    using k q by (auto simp: core_inv_def ready_ok_def)
  then have "ready_ok ?k" using q(2) by (auto simp: ready_ok_def Run_def)
  moreover have queues: "queue_ok k q P \<Longrightarrow> queue_ok ?k q P" for q P
    by (erule queue_ok_cong) (simp_all add: Run_def st)
  have "sem_ok k" "lock_ok k" "cond_ok k" "thread_ok k" "destroy_ok k" using k by (simp_all add: core_inv_def)
  moreover from this have "sem_ok ?k" "cond_ok ?k" using queues
    by (auto simp: sem_ok_def cond_ok_def Run_def st)
  moreover have "lock_ok ?k"
    using \<open>lock_ok k\<close> queues st by (auto simp: lock_ok_def Run_def split: if_splits)
  moreover have "thread_ok ?k" "destroy_ok ?k"
    using \<open>thread_ok k\<close> \<open>destroy_ok k\<close> st by (auto simp: thread_ok_def destroy_ok_def Run_def)
  ultimately show ?thesis using k by (auto simp: core_inv_def Run_def)
qed

section \<open>Waking and blocking a thread\<close>

lemma ReadyToRun_simps [simp]:
  "currentThread (ReadyToRun k t) = currentThread k" "pend (ReadyToRun k t) = pend k"
  "thread_status (ReadyToRun k t) = (thread_status k)(t \<mapsto> READY)"
  "readyList (ReadyToRun k t) = Append (readyList k) t"
  "sems (ReadyToRun k t) = sems k" "locks (ReadyToRun k t) = locks k" "conds (ReadyToRun k t) = conds k"
  "threadToBeDestroyed (ReadyToRun k t) = threadToBeDestroyed k" "level (ReadyToRun k t) = level k"
  "idling (ReadyToRun k t) = idling k" "next_tid (ReadyToRun k t) = next_tid k"
  by (simp_all add: ReadyToRun_def)

lemma ready_ok_wake: "ready_ok k \<Longrightarrow> thread_status k t \<noteq> Some READY \<Longrightarrow> ready_ok (ReadyToRun k t)"
  by (auto simp: ready_ok_def)

lemma ready_ok_cong:
  "ready_ok k \<Longrightarrow> readyList k' = readyList k \<Longrightarrow>
   (\<And>t. (thread_status k' t = Some READY) = (thread_status k t = Some READY)) \<Longrightarrow> ready_ok k'"
  by (simp add: ready_ok_def)

lemma queue_ok_leave:
  assumes "queue_ok k q P" "tids q = t # ts" "tids q' = ts"
    "thread_status k' = (thread_status k)(t \<mapsto> READY)" "pend k' = pend k"
  shows "queue_ok k' q' P"
proof -
  have "distinct ts" "t \<notin> set ts" "\<And>u. u = t \<or> u \<in> set ts \<longleftrightarrow> thread_status k u = Some BLOCKED \<and> P (pend k u)"
    using assms(1,2) by (auto simp: queue_ok_def)
  then show ?thesis using assms(3-5) unfolding queue_ok_def by (auto split: if_splits)
qed

lemma queue_ok_enter:
  assumes "queue_ok k q P" "tids q' = tids q @ [t]" "thread_status k t \<noteq> Some BLOCKED" "P c"
    "thread_status k' = (thread_status k)(t \<mapsto> BLOCKED)" "pend k' = (pend k)(t := c)"
  shows "queue_ok k' q' P"
  using assms unfolding queue_ok_def by (auto split: if_splits)

lemma queue_ok_other:
  assumes "queue_ok k q P" "\<And>u. u \<noteq> t \<Longrightarrow> thread_status k' u = thread_status k u \<and> pend k' u = pend k u"
    "\<not> (thread_status k t = Some BLOCKED \<and> P (pend k t))" "\<not> (thread_status k' t = Some BLOCKED \<and> P (pend k' t))"
  shows "queue_ok k' q P"
proof (rule queue_ok_cong [OF assms(1) refl])
  fix u
  show "(thread_status k' u = Some BLOCKED \<and> P (pend k' u)) = (thread_status k u = Some BLOCKED \<and> P (pend k u))"
    using assms(2) [of u] assms(3,4) by (cases "u = t") auto
qed

text \<open>What the invariant says about the first thread of each kind of queue.\<close>

lemma queue_ok_head:
  assumes "queue_ok k q P" "tids q = t # ts"
  shows "thread_status k t = Some BLOCKED" "P (pend k t)"
  using assms by (auto simp: queue_ok_def)

lemma invD:
  assumes "core_inv k R"
  shows "ready_ok k" "thread_ok k" "destroy_ok k"
    "\<And>s. 0 \<le> sem_value (sems k s)"
    "\<And>s. queue_ok k (sem_queue (sems k s)) (\<lambda>c. \<exists>old. c = P_loop s old)"
    "\<And>l. queue_ok k (lock_queue (locks k l)) (\<lambda>c. \<exists>old. c = Acquiring l old)"
    "\<And>c. queue_ok k (cond_queue (conds k c)) (\<lambda>x. \<exists>l old. x = Waiting c l old)"
    "\<And>t. thread_status k t = Some RUNNING \<longleftrightarrow> t \<in> R"
  using assms by (simp_all add: core_inv_def sem_ok_def lock_ok_def cond_ok_def)

text \<open>
  The parts of the invariant that do not depend on which queue a thread left or entered: \<open>woken\<close>
  and \<open>put_to_sleep\<close> describe the change of the other fields.
\<close>

definition woken :: "kernel \<Rightarrow> tid \<Rightarrow> kernel \<Rightarrow> bool" where
  "woken k t k' \<longleftrightarrow> thread_status k' = (thread_status k)(t \<mapsto> READY) \<and> pend k' = pend k \<and>
     readyList k' = Append (readyList k) t \<and> threadToBeDestroyed k' = threadToBeDestroyed k \<and>
     next_tid k' = next_tid k"

definition put_to_sleep :: "kernel \<Rightarrow> tid \<Rightarrow> cont \<Rightarrow> kernel \<Rightarrow> bool" where
  "put_to_sleep k t c k' \<longleftrightarrow> thread_status k' = (thread_status k)(t \<mapsto> BLOCKED) \<and>
     pend k' = (pend k)(t := c) \<and> readyList k' = readyList k \<and>
     threadToBeDestroyed k' \<in> {threadToBeDestroyed k, if c = Finishing then Some t else threadToBeDestroyed k} \<and>
     next_tid k' = next_tid k"

lemma woken_inv:
  assumes "core_inv k R" "woken k t k'" "thread_status k t = Some BLOCKED" "pend k t \<noteq> Finishing"
    "sem_ok k'" "lock_ok k'" "cond_ok k'"
  shows "core_inv k' R"
proof -
  have "ready_ok k'" "thread_ok k'" "destroy_ok k'"
    using assms(1-4) by (auto simp: woken_def core_inv_def ready_ok_def thread_ok_def destroy_ok_def)
  moreover have "thread_status k' u = Some RUNNING \<longleftrightarrow> u \<in> R" for u
    using assms(1-3) invD(8) [OF assms(1), of u] invD(8) [OF assms(1), of t] by (simp add: woken_def)
  ultimately show ?thesis using assms(5-7) by (simp add: core_inv_def)
qed

lemma woken_queue:
  assumes "woken k t k'" "queue_ok k q P" "\<not> P (pend k t)"
  shows "queue_ok k' q P"
  by (rule queue_ok_other [OF assms(2), of t]) (use assms in \<open>auto simp: woken_def\<close>)

lemma sleep_inv:
  assumes "core_inv k {t}" "put_to_sleep k t c k'" "c \<noteq> InUser" "c \<noteq> Startup" "\<And>old. c \<noteq> Yielding old"
    "sem_ok k'" "lock_ok k'" "cond_ok k'"
  shows "core_inv k' {}"
proof -
  have t: "thread_status k t = Some RUNNING" using invD(8) [OF assms(1)] by simp
  have "ready_ok k'" using invD(1) [OF assms(1)] assms(2) t by (auto simp: put_to_sleep_def ready_ok_def)
  moreover have "thread_ok k'"
    using invD(2) [OF assms(1)] assms(2-5) t by (auto simp: put_to_sleep_def thread_ok_def)
  moreover have "destroy_ok k'"
    using invD(3) [OF assms(1)] assms(2) t
    by (auto simp: put_to_sleep_def destroy_ok_def split: if_splits)
  moreover have "thread_status k' u \<noteq> Some RUNNING" for u
    using assms(2) invD(8) [OF assms(1), of u] by (simp add: put_to_sleep_def)
  ultimately show ?thesis using assms(6-8) by (simp add: core_inv_def)
qed

lemma sleep_queue:
  assumes "core_inv k {t}" "put_to_sleep k t c k'" "queue_ok k q P" "\<not> P c"
  shows "queue_ok k' q P"
  by (rule queue_ok_other [OF assms(3), of t])
    (use assms invD(8) [OF assms(1), of t] in \<open>auto simp: put_to_sleep_def\<close>)

lemma sem_okI:
  "(\<And>s. 0 \<le> sem_value (sems k s)) \<Longrightarrow>
   (\<And>s. queue_ok k (sem_queue (sems k s)) (\<lambda>c. \<exists>old. c = P_loop s old)) \<Longrightarrow> sem_ok k"
  by (simp add: sem_ok_def)

text \<open>\<open>V\<close> hands the semaphore's first waiter to the scheduler.\<close>

lemma inv_wake_sem:
  assumes k: "core_inv k R" and q: "tids (sem_queue (sems k s)) = t # ts" "tids (sem_queue S) = ts"
    and v: "0 \<le> sem_value S"
  shows "core_inv (ReadyToRun (k\<lparr>sems := (sems k)(s := S)\<rparr>) t) R"
    (is "core_inv ?k R")
proof -
  note d = invD [OF k]
  obtain old where t: "thread_status k t = Some BLOCKED" "pend k t = P_loop s old"
    using queue_ok_head [OF d(5) q(1)] by auto
  have w: "woken k t ?k" by (simp add: woken_def)
  show ?thesis
  proof (rule woken_inv [OF k w])
    show "sem_ok ?k"
    proof (rule sem_okI)
      fix s'
      show "0 \<le> sem_value (sems ?k s')" using d(4) v by simp
      show "queue_ok ?k (sem_queue (sems ?k s')) (\<lambda>c. \<exists>old. c = P_loop s' old)"
        using queue_ok_leave [OF d(5) q, of ?k] woken_queue [OF w d(5) [of s']] t by (cases "s' = s") simp_all
    qed
    show "lock_ok ?k" "cond_ok ?k"
      using k woken_queue [OF w d(6)] woken_queue [OF w d(7)] t
      by (simp_all add: core_inv_def lock_ok_def cond_ok_def)
  qed (use t in simp_all)
qed

text \<open>\<open>Release\<close> hands the lock to the first waiter, which becomes its owner.\<close>

lemma lock_okD:
  assumes "core_inv k R"
  shows "lock_status (locks k l) = FREE \<longleftrightarrow> lockerOwner (locks k l) = None"
    "lock_status (locks k l) = FREE \<Longrightarrow> tids (lock_queue (locks k l)) = []"
    "thread_status k t \<in> {Some READY, Some RUNNING} \<Longrightarrow> pend k t = Acquiring l old \<Longrightarrow>
       lockerOwner (locks k l) = Some t"
    "lockerOwner (locks k l) = Some t \<Longrightarrow> t \<notin> set (tids (lock_queue (locks k l)))"
    "lockerOwner (locks k l) = Some t \<Longrightarrow> t < next_tid k"
  using assms by (simp_all add: core_inv_def lock_ok_def)

lemma live_lt: "core_inv k R \<Longrightarrow> thread_status k t = Some x \<Longrightarrow> t < next_tid k"
  by (force simp: core_inv_def thread_ok_def not_less [symmetric])

lemma inv_wake_lock:
  assumes k: "core_inv k R" and q: "tids (lock_queue (locks k l)) = t # ts" "tids q' = ts"
    and owner: "lockerOwner (locks k l) = Some u" "pend k u = InUser"
  shows "core_inv (ReadyToRun (k\<lparr>locks := (locks k)
      (l := (locks k l)\<lparr>lock_queue := q', lockerOwner := Some t\<rparr>)\<rparr>) t) R" (is "core_inv ?k R")
proof -
  note d = invD [OF k]
  obtain old where t: "thread_status k t = Some BLOCKED" "pend k t = Acquiring l old"
    using queue_ok_head [OF d(6) q(1)] by auto
  have w: "woken k t ?k" by (simp add: woken_def)
  have tts: "t \<notin> set ts" using d(6) [of l] q by (simp add: queue_ok_def)
  show ?thesis
  proof (rule woken_inv [OF k w])
    have queue: "queue_ok ?k (lock_queue (locks ?k l')) (\<lambda>c. \<exists>old. c = Acquiring l' old)" for l'
      using queue_ok_leave [OF d(6) q, of ?k] woken_queue [OF w d(6) [of l']] t by (cases "l' = l") simp_all
    have held: "lockerOwner (locks ?k l') = Some v"
      if "thread_status ?k v \<in> {Some READY, Some RUNNING}" "pend ?k v = Acquiring l' o'" for l' v o'
    proof (cases "v = t")
      case False
      then have "lockerOwner (locks k l') = Some v" using lock_okD(3) [OF k, of v l' o'] that by simp
      then show ?thesis using that(2) owner by (cases "l' = l") auto
    qed (use that t in auto)
    show "lock_ok ?k"
      unfolding lock_ok_def
      using queue held lock_okD [OF k] owner(1) live_lt [OF k t(1)] tts q(2)
      by (auto simp del: fun_upd_apply simp: fun_upd_def)
    show "sem_ok ?k" "cond_ok ?k"
      using k woken_queue [OF w d(5)] woken_queue [OF w d(7)] t
      by (simp_all add: core_inv_def sem_ok_def cond_ok_def)
  qed (use t in simp_all)
qed

text \<open>\<open>Signal\<close> wakes the first waiter; the lock is forgotten with the last one.\<close>

lemma cond_okD:
  assumes "core_inv k R"
  shows "waitLock (conds k c) = None \<longleftrightarrow> tids (cond_queue (conds k c)) = []"
    "thread_status k t = Some BLOCKED \<Longrightarrow> pend k t = Waiting c l old \<Longrightarrow> waitLock (conds k c) = Some l"
  using assms unfolding core_inv_def cond_ok_def by blast+

lemma inv_wake_cond:
  assumes k: "core_inv k R" and q: "tids (cond_queue (conds k c)) = t # ts" "tids q' = ts"
  shows "core_inv (ReadyToRun (k\<lparr>conds := (conds k)(c := \<lparr>cond_queue = q',
      waitLock = (if ts = [] then None else waitLock (conds k c))\<rparr>)\<rparr>) t) R" (is "core_inv ?k R")
proof -
  note d = invD [OF k]
  obtain l old where t: "thread_status k t = Some BLOCKED" "pend k t = Waiting c l old"
    using queue_ok_head [OF d(7) q(1)] by auto
  have w: "woken k t ?k" by (simp add: woken_def)
  show ?thesis
  proof (rule woken_inv [OF k w])
    have queue: "queue_ok ?k (cond_queue (conds ?k c')) (\<lambda>x. \<exists>l old. x = Waiting c' l old)" for c'
      using queue_ok_leave [OF d(7) q, of ?k] woken_queue [OF w d(7) [of c']] t by (cases "c' = c") simp_all
    have lock: "waitLock (conds ?k c') = Some l'"
      if "thread_status ?k u = Some BLOCKED" "pend ?k u = Waiting c' l' o'" for c' u l' o'
    proof -
      have u: "u \<noteq> t" "waitLock (conds k c') = Some l'" using that cond_okD(2) [OF k] by (auto split: if_splits)
      show ?thesis
      proof (cases "c' = c")
        case True
        then have "u \<in> set (t # ts)"
          using that u d(7) [of c] q(1) by (auto simp: queue_ok_def split: if_splits)
        then have "ts \<noteq> []" using u by auto
        then show ?thesis using True u(2) by simp
      qed (use u in simp)
    qed
    have "waitLock (conds ?k c') = None \<longleftrightarrow> tids (cond_queue (conds ?k c')) = []" for c'
      using cond_okD(1) [OF k, of c'] q by (cases "c' = c") auto
    then show "cond_ok ?k" unfolding cond_ok_def using queue lock by blast
    show "sem_ok ?k" "lock_ok ?k"
      using k woken_queue [OF w d(5)] woken_queue [OF w d(6)] t
      by (simp_all add: core_inv_def sem_ok_def lock_ok_def)
  qed (use t in simp_all)
qed

section \<open>Going to sleep\<close>

lemma inv_sleep_sem:
  assumes k: "core_inv k {t}" and q: "tids q' = tids (sem_queue (sems k s)) @ [t]"
  shows "core_inv (k\<lparr>sems := (sems k)(s := (sems k s)\<lparr>sem_queue := q'\<rparr>),
      thread_status := (thread_status k)(t \<mapsto> BLOCKED), pend := (pend k)(t := P_loop s old)\<rparr>) {}" (is "core_inv ?k {}")
proof -
  note d = invD [OF k]
  have t: "thread_status k t = Some RUNNING" using d(8) by simp
  have sl: "put_to_sleep k t (P_loop s old) ?k" by (simp add: put_to_sleep_def)
  show ?thesis
  proof (rule sleep_inv [OF k sl])
    show "sem_ok ?k"
    proof (rule sem_okI)
      fix s'
      show "0 \<le> sem_value (sems ?k s')" using d(4) by simp
      show "queue_ok ?k (sem_queue (sems ?k s')) (\<lambda>c. \<exists>old. c = P_loop s' old)"
        using queue_ok_enter [OF d(5) q, of "P_loop s old" ?k] sleep_queue [OF k sl d(5) [of s']] t
        by (cases "s' = s") simp_all
    qed
    show "lock_ok ?k" "cond_ok ?k"
      using k sleep_queue [OF k sl d(6)] sleep_queue [OF k sl d(7)]
      by (simp_all add: core_inv_def lock_ok_def cond_ok_def)
  qed simp_all
qed

lemma inv_sleep_lock:
  assumes k: "core_inv k {t}" and q: "tids q' = tids (lock_queue (locks k l)) @ [t]"
    and busy: "lock_status (locks k l) \<noteq> FREE" "lockerOwner (locks k l) \<noteq> Some t"
  shows "core_inv (k\<lparr>locks := (locks k)(l := (locks k l)\<lparr>lock_queue := q'\<rparr>),
      thread_status := (thread_status k)(t \<mapsto> BLOCKED), pend := (pend k)(t := Acquiring l old)\<rparr>) {}" (is "core_inv ?k {}")
proof -
  note d = invD [OF k]
  have t: "thread_status k t = Some RUNNING" using d(8) by simp
  have sl: "put_to_sleep k t (Acquiring l old) ?k" by (simp add: put_to_sleep_def)
  show ?thesis
  proof (rule sleep_inv [OF k sl])
    have "queue_ok ?k (lock_queue (locks ?k l')) (\<lambda>c. \<exists>old. c = Acquiring l' old)" for l'
      using queue_ok_enter [OF d(6) q, of "Acquiring l old" ?k] sleep_queue [OF k sl d(6) [of l']] t
      by (cases "l' = l") simp_all
    moreover have "lockerOwner (locks ?k l') = Some u"
      if "thread_status ?k u \<in> {Some READY, Some RUNNING}" "pend ?k u = Acquiring l' o'" for u l' o'
      using that lock_okD(3) [OF k, of u l' o'] by (auto split: if_splits)
    ultimately show "lock_ok ?k"
      unfolding lock_ok_def using lock_okD [OF k] busy q
      by (auto simp del: fun_upd_apply simp: fun_upd_def)
    show "sem_ok ?k" "cond_ok ?k"
      using k sleep_queue [OF k sl d(5)] sleep_queue [OF k sl d(7)]
      by (simp_all add: core_inv_def sem_ok_def cond_ok_def)
  qed simp_all
qed

lemma inv_sleep_cond:
  assumes k: "core_inv k {t}" and q: "tids q' = tids (cond_queue (conds k c)) @ [t]"
    and l: "waitLock (conds k c) = None \<or> waitLock (conds k c) = Some l"
  shows "core_inv (k\<lparr>conds := (conds k)(c := \<lparr>cond_queue = q', waitLock = Some l\<rparr>),
      thread_status := (thread_status k)(t \<mapsto> BLOCKED), pend := (pend k)(t := Waiting c l old)\<rparr>) {}" (is "core_inv ?k {}")
proof -
  note d = invD [OF k]
  have t: "thread_status k t = Some RUNNING" using d(8) by simp
  have sl: "put_to_sleep k t (Waiting c l old) ?k" by (simp add: put_to_sleep_def)
  show ?thesis
  proof (rule sleep_inv [OF k sl])
    have "queue_ok ?k (cond_queue (conds ?k c')) (\<lambda>x. \<exists>l old. x = Waiting c' l old)" for c'
      using queue_ok_enter [OF d(7) q, of "Waiting c l old" ?k] sleep_queue [OF k sl d(7) [of c']] t
      by (cases "c' = c") simp_all
    moreover have "waitLock (conds ?k c') = Some l'"
      if "thread_status ?k u = Some BLOCKED" "pend ?k u = Waiting c' l' o'" for u c' l' o'
      using that cond_okD(2) [OF k, of u c' l' o'] l by (auto split: if_splits)
    moreover have "waitLock (conds ?k c') = None \<longleftrightarrow> tids (cond_queue (conds ?k c')) = []" for c'
      using cond_okD(1) [OF k, of c'] q by (cases "c' = c") auto
    ultimately show "cond_ok ?k" unfolding cond_ok_def by blast
    show "sem_ok ?k" "lock_ok ?k"
      using k sleep_queue [OF k sl d(5)] sleep_queue [OF k sl d(6)]
      by (simp_all add: core_inv_def sem_ok_def lock_ok_def)
  qed simp_all
qed

lemma inv_sleep_finish:
  assumes k: "core_inv k {t}"
  shows "core_inv (k\<lparr>threadToBeDestroyed := Some t, thread_status := (thread_status k)(t \<mapsto> BLOCKED),
      pend := (pend k)(t := Finishing)\<rparr>) {}" (is "core_inv ?k {}")
proof -
  note d = invD [OF k]
  have sl: "put_to_sleep k t Finishing ?k" by (simp add: put_to_sleep_def)
  show ?thesis
    by (rule sleep_inv [OF k sl])
      (use k sleep_queue [OF k sl d(5)] sleep_queue [OF k sl d(6)] sleep_queue [OF k sl d(7)] in
        \<open>simp_all add: core_inv_def sem_ok_def lock_ok_def cond_ok_def\<close>)
qed

text \<open>\<open>dispatch\<close> from a state in which nobody runs.\<close>

lemma kinv_dispatch:
  assumes k: "core_inv k {}" and "level k = IntOff"
  shows "kinv (dispatch k)"
proof (cases "readyList k" rule: Remove_tids)
  case (none q)
  then have "core_inv (k\<lparr>readyList := q, idling := True\<rparr>) {}"
    using k by (subst inv_cong [of _ k]) simp_all
  then show ?thesis using none assms(2) by (simp add: dispatch_def FindNextToRun_def kinv_def)
next
  case (some t ts q)
  then show ?thesis
    using inv_Run [OF k some(1,3)] assms(2)
    by (simp add: dispatch_def FindNextToRun_def kinv_def) (simp add: Run_def)
qed

lemma Sleep_ok:
  assumes "level k = IntOff"
    "core_inv (k\<lparr>thread_status := (thread_status k)(currentThread k \<mapsto> BLOCKED),
       pend := (pend k)(currentThread k := c)\<rparr>) {}"
  shows "\<exists>k'. Sleep k c = Inr k' \<and> kinv k'"
  using assms kinv_dispatch by (simp add: Sleep_def)

section \<open>Every routine preserves the invariant\<close>

text \<open>
  \<open>executing k\<close>: the current thread runs, in its own code or inside a routine with interrupts
  disabled.
\<close>

definition executing :: "kernel \<Rightarrow> bool" where
  "executing k \<longleftrightarrow> core_inv k {currentThread k} \<and> \<not> idling k"

lemma kinv_executing: "kinv k \<Longrightarrow> \<not> idling k \<Longrightarrow> executing k"
  by (simp add: kinv_def executing_def)

text \<open>The return from a routine: the thread runs its own code again.\<close>

lemma inv_return:
  assumes k: "core_inv k {t}"
  shows "core_inv (k\<lparr>pend := (pend k)(t := InUser)\<rparr>) {t}" (is "core_inv ?k _")
proof -
  have t: "thread_status k t = Some RUNNING" using invD(8) [OF k] by simp
  have queue: "queue_ok k q P \<Longrightarrow> queue_ok ?k q P" for q P
    by (rule queue_ok_other [of k q P t]) (use t in auto)
  have "lock_ok ?k"
    unfolding lock_ok_def using queue invD(6) [OF k] lock_okD [OF k] by (auto split: if_splits)
  moreover have "sem_ok ?k" "cond_ok ?k" "ready_ok ?k"
    using k queue t by (auto simp: core_inv_def sem_ok_def cond_ok_def ready_ok_def)
  moreover have "thread_ok ?k" "destroy_ok ?k"
    using invD(2,3) [OF k] t by (auto simp: thread_ok_def destroy_ok_def)
  ultimately show ?thesis using invD(8) [OF k] by (simp add: core_inv_def)
qed

lemma kinv_return:
  assumes "executing k"
  shows "kinv (k\<lparr>pend := (pend k)(currentThread k := InUser), level := old\<rparr>)"
  using assms inv_return [of k "currentThread k"] by (simp add: kinv_def executing_def)

lemma executing_level [simp]: "executing (k\<lparr>level := x\<rparr>) = executing k"
  by (simp add: executing_def)

lemma inv_sems:
  assumes k: "core_inv k R" and S: "0 \<le> sem_value S" "tids (sem_queue S) = tids (sem_queue (sems k s))"
  shows "core_inv (k\<lparr>sems := (sems k)(s := S)\<rparr>) R" (is "core_inv ?k R")
proof -
  have "sem_ok ?k"
    by (rule sem_okI) (use S invD(4,5) [OF k] in \<open>auto simp: queue_ok_def\<close>)
  moreover have "ready_ok ?k = ready_ok k" "lock_ok ?k = lock_ok k" "cond_ok ?k = cond_ok k"
    "thread_ok ?k = thread_ok k" "destroy_ok ?k = destroy_ok k"
    by (simp_all add: inv_parts)
  ultimately show ?thesis using k by (simp add: core_inv_def)
qed

lemma P_test_ok:
  assumes "executing k" "level k = IntOff"
  shows "\<exists>k'. P_test k s old = Inr k' \<and> kinv k'"
proof (cases "sem_value (sems k s) = 0")
  case True
  let ?k1 = "k\<lparr>sems := (sems k)(s := (sems k s)\<lparr>sem_queue := Append (sem_queue (sems k s)) (currentThread k)\<rparr>)\<rparr>"
  have "\<exists>k'. Sleep ?k1 (P_loop s old) = Inr k' \<and> kinv k'"
    using inv_sleep_sem [of k "currentThread k"] assms by (intro Sleep_ok) (simp_all add: executing_def)
  then show ?thesis using True by (simp add: P_test_def Let_def)
next
  case False
  let ?k1 = "k\<lparr>sems := (sems k)(s := (sems k s)\<lparr>sem_value := sem_value (sems k s) - 1\<rparr>)\<rparr>"
  have "0 \<le> sem_value (sems k s)" using invD(4) assms(1) by (auto simp: executing_def)
  then have "executing ?k1" using assms(1) False inv_sems by (simp add: executing_def)
  from kinv_return [OF this, of old] show ?thesis using False by (simp add: P_test_def Let_def)
qed

lemma Semaphore_V_fields [simp]:
  "idling (Semaphore_V k s) = idling k" "pend (Semaphore_V k s) = pend k"
  "level (Semaphore_V k s) = level k" "currentThread (Semaphore_V k s) = currentThread k"
  "locks (Semaphore_V k s) = locks k" "conds (Semaphore_V k s) = conds k"
  by (simp_all add: Semaphore_V_def Let_def split: prod.splits option.splits)

lemma Semaphore_V_inv:
  assumes k: "core_inv k R"
  shows "core_inv (Semaphore_V k s) R"
proof (cases "sem_queue (sems k s)" rule: Remove_tids)
  case (none q)
  let ?S = "(sems k s)\<lparr>sem_queue := q, sem_value := sem_value (sems k s) + 1\<rparr>"
  have "core_inv (k\<lparr>sems := (sems k)(s := ?S)\<rparr>) R"
    using invD(4) [OF k, of s] none by (intro inv_sems [OF k]) simp_all
  then show ?thesis using none by (simp add: Semaphore_V_def Let_def)
next
  case (some t ts q)
  let ?S = "(sems k s)\<lparr>sem_queue := q, sem_value := sem_value (sems k s) + 1\<rparr>"
  have "core_inv (ReadyToRun (k\<lparr>sems := (sems k)(s := ?S)\<rparr>) t) R"
    using invD(4) [OF k, of s] some by (intro inv_wake_sem [OF k some(1)]) simp_all
  then show ?thesis
    using some by (subst inv_cong [where k = "ReadyToRun (k\<lparr>sems := (sems k)(s := ?S)\<rparr>) t"])
      (simp_all add: Semaphore_V_def Let_def)
qed

lemma kinv_V: "kinv k \<Longrightarrow> kinv (Semaphore_V k s)"
  by (cases "idling k") (simp_all add: kinv_def Semaphore_V_inv)

lemma not_acquiring:
  assumes k: "core_inv k R" and "lockerOwner (locks k l) = None \<or> lockerOwner (locks k l) = Some v"
    "\<And>old. pend k v \<noteq> Acquiring l old" "thread_status k u \<in> {Some READY, Some RUNNING}"
  shows "pend k u \<noteq> Acquiring l old"
  using lock_okD(3) [OF k assms(4), of l old] assms(2,3) by (metis option.inject option.distinct(1))

lemma inv_locks:
  assumes k: "core_inv k {t}"
    and L: "lock_queue L = lock_queue (locks k l)" "lock_status L = FREE \<longleftrightarrow> lockerOwner L = None"
      "lock_status L = FREE \<Longrightarrow> tids (lock_queue L) = []" "lockerOwner L = None \<or> lockerOwner L = Some t"
    and acq: "\<And>u old. thread_status k u \<in> {Some READY, Some RUNNING} \<Longrightarrow> pend k u \<noteq> Acquiring l old"
  shows "core_inv (k\<lparr>locks := (locks k)(l := L)\<rparr>) {t}" (is "core_inv ?k _")
proof -
  have t: "thread_status k t = Some RUNNING" using invD(8) [OF k] by simp
  then have tt: "t \<notin> set (tids (lock_queue (locks k l)))" "t < next_tid k"
    using invD(6) [OF k, of l] live_lt [OF k] by (auto simp: queue_ok_def)
  have "lock_ok ?k"
    unfolding lock_ok_def
  proof (intro allI conjI)
    fix l'
    show "queue_ok ?k (lock_queue (locks ?k l')) (\<lambda>c. \<exists>old. c = Acquiring l' old)"
      using invD(6) [OF k, of l'] L(1) by (auto simp: queue_ok_def)
    show "lock_status (locks ?k l') = FREE \<longleftrightarrow> lockerOwner (locks ?k l') = None"
      "lock_status (locks ?k l') = FREE \<longrightarrow> tids (lock_queue (locks ?k l')) = []"
      using lock_okD(1,2) [OF k, of l'] L(2,3) by auto
    fix u
    show "lockerOwner (locks ?k l') = Some u \<longrightarrow> u \<notin> set (tids (lock_queue (locks ?k l'))) \<and> u < next_tid ?k"
      using lock_okD(4,5) [OF k, of l' u] L(1,4) tt by auto
    fix old
    show "thread_status ?k u \<in> {Some READY, Some RUNNING} \<and> pend ?k u = Acquiring l' old \<longrightarrow>
        lockerOwner (locks ?k l') = Some u"
      using lock_okD(3) [OF k, of u l' old] acq [of u old] by auto
  qed
  moreover have "ready_ok ?k = ready_ok k" "sem_ok ?k = sem_ok k" "cond_ok ?k = cond_ok k"
    "thread_ok ?k = thread_ok k" "destroy_ok ?k = destroy_ok k"
    by (simp_all add: inv_parts)
  ultimately show ?thesis using k by (simp add: core_inv_def)
qed

lemma Acquire_body_ok:
  assumes e: "executing k" "level k = IntOff"
    and p: "\<And>l old. pend k (currentThread k) \<noteq> Acquiring l old"
  shows "\<exists>k'. Acquire_body k l old = Inr k' \<and> kinv k'"
proof -
  let ?t = "currentThread k" and ?L = "locks k l"
  have k: "core_inv k {?t}" using e by (simp add: executing_def)
  consider "isHeldByCurrentThread k l" | "\<not> isHeldByCurrentThread k l" "lock_status ?L = FREE"
    | "\<not> isHeldByCurrentThread k l" "lock_status ?L \<noteq> FREE" by blast
  then show ?thesis
  proof cases
    case 1
    then show ?thesis using kinv_return [OF e(1), of old] by (simp add: Acquire_body_def Let_def)
  next
    case 2
    let ?k1 = "k\<lparr>locks := (locks k)(l := ?L\<lparr>lock_status := BUSY, lockerOwner := Some ?t\<rparr>)\<rparr>"
    have "core_inv ?k1 {?t}"
      by (rule inv_locks [OF k])
        (use 2 p lock_okD(1) [OF k, of l] not_acquiring [OF k, of l ?t] in \<open>simp_all\<close>)
    then have "executing ?k1" using e(1) by (simp add: executing_def)
    from kinv_return [OF this, of old] show ?thesis using 2 by (simp add: Acquire_body_def Let_def)
  next
    case 3
    let ?k1 = "k\<lparr>locks := (locks k)(l := ?L\<lparr>lock_queue := Append (lock_queue ?L) ?t\<rparr>)\<rparr>"
    have "\<exists>k'. Sleep ?k1 (Acquiring l old) = Inr k' \<and> kinv k'"
      by (rule Sleep_ok) (use inv_sleep_lock [OF k] 3 e(2) in \<open>simp_all add: isHeldByCurrentThread_def\<close>)
    then show ?thesis using 3 by (simp add: Acquire_body_def Let_def)
  qed
qed

lemma Release_body_fields [simp]:
  "idling (Release_body k l) = idling k" "pend (Release_body k l) = pend k"
  "level (Release_body k l) = level k" "currentThread (Release_body k l) = currentThread k"
  "sems (Release_body k l) = sems k" "conds (Release_body k l) = conds k"
  by (simp_all add: Release_body_def Let_def split: prod.splits option.splits)

lemma Release_body_inv:
  assumes k: "core_inv k {currentThread k}" and p: "pend k (currentThread k) = InUser"
  shows "core_inv (Release_body k l) {currentThread k}"
proof (cases "isHeldByCurrentThread k l")
  case True
  then have o: "lockerOwner (locks k l) = Some (currentThread k)" by (simp add: isHeldByCurrentThread_def)
  show ?thesis
  proof (cases "lock_queue (locks k l)" rule: Remove_tids)
    case (none q)
    have "core_inv (k\<lparr>locks := (locks k)(l := (locks k l)\<lparr>lock_status := FREE, lockerOwner := None\<rparr>)\<rparr>)
        {currentThread k}"
      by (rule inv_locks [OF k]) (use none p o not_acquiring [OF k, of l "currentThread k"] in simp_all)
    then show ?thesis using True none by (simp add: Release_body_def Let_def)
  next
    case (some t ts q)
    then show ?thesis
      using inv_wake_lock [OF k some(1,3) o p] True by (simp add: Release_body_def Let_def)
  qed
next
  case False
  then show ?thesis using k by (simp add: Release_body_def)
qed

lemma Lock_Release_ok:
  assumes "executing k" "pend k (currentThread k) = InUser"
  shows "executing (Lock_Release k l)" "pend (Lock_Release k l) = pend k"
    "currentThread (Lock_Release k l) = currentThread k" "level (Lock_Release k l) = level k"
    "conds (Lock_Release k l) = conds k" "idling (Lock_Release k l) = idling k"
  using assms Release_body_inv [of "k\<lparr>level := IntOff\<rparr>" l] by (simp_all add: executing_def Lock_Release_def)

lemma Condition_update_all:
  "(C :: Condition)\<lparr>waitLock := a, cond_queue := b\<rparr> = \<lparr>cond_queue = b, waitLock = a\<rparr>"
  "(C :: Condition)\<lparr>cond_queue := b, waitLock := a\<rparr> = \<lparr>cond_queue = b, waitLock = a\<rparr>"
  "waitLock C = Some l \<Longrightarrow> C\<lparr>cond_queue := b\<rparr> = \<lparr>cond_queue = b, waitLock = Some l\<rparr>"
  by (cases C; simp)+

lemma Lock_Release_conds: "Lock_Release (k\<lparr>conds := X\<rparr>) l = (Lock_Release k l)\<lparr>conds := X\<rparr>"
  by (simp add: Lock_Release_def Release_body_def isHeldByCurrentThread_def ReadyToRun_def Let_def
      split: prod.splits option.splits)

lemma Condition_Wait_ok:
  assumes e: "executing k" and p: "pend k (currentThread k) = InUser" and cl: "kinv k"
  shows "\<exists>k'. Condition_Wait k c conditionLock = Inr k' \<and> kinv k'"
proof -
  let ?C = "conds k c"
  consider (null) "waitLock ?C = None" "conditionLock = None"
    | (mismatch) l' where "waitLock ?C = Some l'" "conditionLock \<noteq> Some l'"
    | (wait) l where "conditionLock = Some l" "waitLock ?C = None \<or> waitLock ?C = Some l"
    by (cases "waitLock ?C"; cases conditionLock) auto
  then show ?thesis
  proof cases
    case null
    then have "(conds k)(c := ?C\<lparr>waitLock := None\<rparr>) = conds k" by (simp add: fun_upd_idem)
    then show ?thesis using null cl by (simp add: Condition_Wait_def Let_def)
  next
    case mismatch
    then show ?thesis using cl by (simp add: Condition_Wait_def Let_def)
  next
    case (wait l)
    let ?k0 = "k\<lparr>level := IntOff\<rparr>" let ?t = "currentThread k"
    let ?q = "Append (cond_queue ?C) ?t"
    let ?r = "Lock_Release ?k0 l"
    have r: "core_inv ?r {?t}" "currentThread ?r = ?t" "level ?r = IntOff" "conds ?r = conds k"
      using Lock_Release_ok [of ?k0 l] e p by (simp_all add: executing_def)
    let ?k2 = "?r\<lparr>conds := (conds ?r)(c := \<lparr>cond_queue = ?q, waitLock = Some l\<rparr>)\<rparr>"
    have "\<exists>k'. Sleep ?k2 (Waiting c l (level k)) = Inr k' \<and> kinv k'"
      by (rule Sleep_ok) (use inv_sleep_cond [OF r(1), of ?q c l "level k"] r wait in simp_all)
    moreover have "Condition_Wait k c conditionLock = Sleep ?k2 (Waiting c l (level k))"
      unfolding r(4) Lock_Release_conds [symmetric] using wait
      by (elim disjE) (simp_all add: Condition_Wait_def Let_def Condition_update_all fun_upd_idem)
    ultimately show ?thesis by simp
  qed
qed

lemma Condition_Signal_fields [simp]:
  "idling (Condition_Signal k c l) = idling k" "pend (Condition_Signal k c l) = pend k"
  "level (Condition_Signal k c l) = level k" "currentThread (Condition_Signal k c l) = currentThread k"
  "locks (Condition_Signal k c l) = locks k" "sems (Condition_Signal k c l) = sems k"
  by (simp_all add: Condition_Signal_def Let_def split: prod.splits option.splits)

lemma Condition_Signal_cases:
  obtains (no_one) "tids (cond_queue (conds k c)) = []" "Condition_Signal k c conditionLock = k"
  | (refused) "tids (cond_queue (conds k c)) \<noteq> []" "conditionLock \<noteq> waitLock (conds k c)"
      "Condition_Signal k c conditionLock = k"
  | (wakes) t ts q where "tids (cond_queue (conds k c)) = t # ts" "conditionLock = waitLock (conds k c)"
      "tids q = ts" "Condition_Signal k c conditionLock =
        ReadyToRun (k\<lparr>conds := (conds k)(c := \<lparr>cond_queue = q,
          waitLock = (if ts = [] then None else waitLock (conds k c))\<rparr>)\<rparr>) t"
proof (cases "cond_queue (conds k c)" rule: Remove_tids)
  case (none q)
  then show ?thesis using no_one by (simp add: Condition_Signal_def Let_def)
next
  case (some t ts q)
  show ?thesis
  proof (cases "conditionLock = waitLock (conds k c)")
    case True
    then show ?thesis
      using some wakes [of t ts q]
      by (simp add: Condition_Signal_def Let_def ReadyToRun_def Condition_update_all)
  next
    case False
    then show ?thesis using some refused by (simp add: Condition_Signal_def Let_def)
  qed
qed

lemma kinv_Signal: "kinv k \<Longrightarrow> kinv (Condition_Signal k c l)"
proof (cases rule: Condition_Signal_cases [of k c l])
  case (wakes t ts q)
  assume "kinv k"
  then show ?thesis
    using inv_wake_cond [OF _ wakes(1,3)] unfolding wakes(4) kinv_def
    by (cases "idling k") simp_all
qed simp_all

lemma after_SWITCH_ok:
  assumes e: "executing k"
  shows "\<exists>k'. after_SWITCH k = Inr k' \<and> executing k' \<and> pend k' = pend k \<and> level k' = level k \<and>
    currentThread k' = currentThread k \<and> locks k' = locks k"
proof (cases "threadToBeDestroyed k")
  case None
  then show ?thesis using e by (simp add: after_SWITCH_def)
next
  case (Some t)
  have k: "core_inv k {currentThread k}" using e by (simp add: executing_def)
  have t: "thread_status k t = Some BLOCKED" "pend k t = Finishing"
    using invD(3) [OF k] Some by (auto simp: destroy_ok_def)
  have "thread_status k (currentThread k) = Some RUNNING" using invD(8) [OF k] by simp
  then have ne: "t \<noteq> currentThread k" using t by auto
  let ?k = "k\<lparr>thread_status := (thread_status k)(t := None), threadToBeDestroyed := None\<rparr>"
  have queue: "queue_ok ?k q P" if "queue_ok k q P" "\<not> P Finishing" for q P
    by (rule queue_ok_other [OF that(1), of t]) (use that t in auto)
  have "sem_ok ?k" "lock_ok ?k" "cond_ok ?k"
    using k queue [OF invD(5) [OF k]] queue [OF invD(6) [OF k]] queue [OF invD(7) [OF k]]
    by (simp_all add: core_inv_def sem_ok_def lock_ok_def cond_ok_def)
  moreover have "ready_ok ?k" "thread_ok ?k" "destroy_ok ?k"
    using invD(1,2) [OF k] t by (auto simp: ready_ok_def thread_ok_def destroy_ok_def)
  moreover have "thread_status ?k u = Some RUNNING \<longleftrightarrow> u \<in> {currentThread k}" for u
    using invD(8) [OF k, of u] t ne by simp
  ultimately have "core_inv ?k {currentThread k}" by (simp add: core_inv_def)
  then show ?thesis using Some ne e by (simp add: after_SWITCH_def executing_def)
qed

lemma resume_ok:
  assumes "kinv k" "\<not> idling k"
  shows "\<exists>k'. resume k = Inr k' \<and> kinv k'"
proof -
  have e: "executing k" using assms by (simp add: kinv_executing)
  then have k: "core_inv k {currentThread k}" by (simp add: executing_def)
  have fin: "pend k (currentThread k) \<noteq> Finishing"
    using invD(2,8) [OF k] by (auto simp: thread_ok_def)
  have lvl: "pend k (currentThread k) \<noteq> InUser \<Longrightarrow> level k = IntOff" using assms(1) by (simp add: kinv_def)
  obtain k1 where k1: "after_SWITCH k = Inr k1" "executing k1" "pend k1 = pend k" "level k1 = level k"
    "currentThread k1 = currentThread k"
    using after_SWITCH_ok [OF e] by blast
  show ?thesis
    using fin assms(1) kinv_return [OF e, of IntOn] kinv_return [OF k1(2)] k1 lvl
      P_test_ok [OF k1(2)] Acquire_body_ok [of "k1\<lparr>level := IntOff\<rparr>"]
    by (cases "pend k (currentThread k)") (simp_all add: resume_def Let_def)
qed

lemma inv_yield:
  assumes k: "core_inv k {t}"
  shows "core_inv (ReadyToRun (k\<lparr>pend := (pend k)(t := Yielding old)\<rparr>) t) {}" (is "core_inv ?k _")
proof -
  have t: "thread_status k t = Some RUNNING" using invD(8) [OF k] by simp
  have queue: "queue_ok k q P \<Longrightarrow> queue_ok ?k q P" for q P
    by (rule queue_ok_other [of k q P t]) (use t in auto)
  have "lockerOwner (locks k l) = Some u"
    if "thread_status ?k u \<in> {Some READY, Some RUNNING}" "pend ?k u = Acquiring l o'" for u l o'
    using that lock_okD(3) [OF k, of u l o'] by (auto split: if_splits)
  then have "lock_ok ?k"
    unfolding lock_ok_def using queue [OF invD(6) [OF k]] lock_okD(1,2,4,5) [OF k] by simp
  moreover have "cond_ok ?k"
    unfolding cond_ok_def using queue [OF invD(7) [OF k]] cond_okD [OF k] by (auto split: if_splits)
  moreover have "sem_ok ?k" by (rule sem_okI) (use queue invD(4,5) [OF k] in simp_all)
  moreover have "ready_ok ?k" "thread_ok ?k" "destroy_ok ?k"
    using invD(1-3) [OF k] t by (auto simp: ready_ok_def thread_ok_def destroy_ok_def)
  moreover have "thread_status ?k u \<noteq> Some RUNNING" for u using invD(8) [OF k, of u] by simp
  ultimately show ?thesis by (simp add: core_inv_def)
qed

lemma kinv_Yield:
  assumes "kinv k" "\<not> idling k" "pend k (currentThread k) = InUser"
  shows "kinv (Thread_Yield k)"
proof (cases "readyList k" rule: Remove_tids)
  case (none q)
  have "core_inv (k\<lparr>readyList := q\<rparr>) {currentThread k} = core_inv k {currentThread k}"
    by (rule inv_cong) (use none in simp_all)
  then show ?thesis using none assms by (simp add: Thread_Yield_def FindNextToRun_def kinv_def)
next
  case (some t ts q)
  let ?t = "currentThread k"
  let ?k1 = "ReadyToRun (k\<lparr>level := IntOff, pend := (pend k)(?t := Yielding (level k))\<rparr>) ?t"
  have k: "core_inv (k\<lparr>level := IntOff\<rparr>) {?t}" using assms by (simp add: kinv_def)
  have inv1: "core_inv ?k1 {}" using inv_yield [OF k, of "level k"] by simp
  have "core_inv (Run (?k1\<lparr>readyList := Append q ?t\<rparr>) t) {t}"
    by (rule inv_Run [OF inv1, of _ "ts @ [?t]"]) (use some in simp_all)
  moreover have "Thread_Yield k = Run (?k1\<lparr>readyList := Append q ?t\<rparr>) t"
    using some by (simp add: Thread_Yield_def FindNextToRun_def Let_def ReadyToRun_def)
  ultimately show ?thesis by (simp add: kinv_def) (simp add: Run_def)
qed

lemma kinv_new: "kinv k \<Longrightarrow> kinv (snd (Thread_new k))"
proof -
  assume kk: "kinv k"
  define R where "R = (if idling k then {} else {currentThread k})"
  let ?k = "snd (Thread_new k)" and ?n = "next_tid k"
  have k: "core_inv k R" using kk by (simp add: kinv_def R_def)
  have n: "thread_status k ?n = None" using invD(2) [OF k] by (simp add: thread_ok_def)
  have queue: "queue_ok k q P \<Longrightarrow> queue_ok ?k q P" for q P
    by (rule queue_ok_other [of k q P ?n]) (use n in \<open>auto simp: Thread_new_def\<close>)
  have "lockerOwner (locks k l) = Some u"
    if "thread_status ?k u \<in> {Some READY, Some RUNNING}" "pend ?k u = Acquiring l o'" for u l o'
    using that lock_okD(3) [OF k, of u l o'] by (auto simp: Thread_new_def split: if_splits)
  then have "lock_ok ?k"
    unfolding lock_ok_def using queue [OF invD(6) [OF k]] lock_okD(1,2,4,5) [OF k]
    by (auto simp: Thread_new_def less_Suc_eq)
  moreover have "cond_ok ?k"
    unfolding cond_ok_def using queue [OF invD(7) [OF k]] cond_okD [OF k]
    by (auto simp: Thread_new_def split: if_splits)
  moreover have "sem_ok ?k"
    by (rule sem_okI) (use queue invD(4,5) [OF k] in \<open>simp_all add: Thread_new_def\<close>)
  moreover have "ready_ok ?k" "thread_ok ?k" "destroy_ok ?k"
    using invD(1-3) [OF k] n by (auto simp: ready_ok_def thread_ok_def destroy_ok_def Thread_new_def)
  moreover have "thread_status ?k u = Some RUNNING \<longleftrightarrow> u \<in> R" for u
    using invD(8) [OF k, of u] invD(8) [OF k, of ?n] n by (simp add: Thread_new_def)
  ultimately have "core_inv ?k R" by (simp add: core_inv_def)
  moreover have "\<not> idling k \<Longrightarrow> ?n \<noteq> currentThread k" using invD(8) [OF k, of "currentThread k"] n by (auto simp: R_def)
  ultimately show ?thesis using kk by (auto simp: kinv_def R_def Thread_new_def)
qed

lemma kinv_Fork:
  assumes "kinv k" "thread_status k t = Some JUST_CREATED"
  shows "kinv (Thread_Fork k t)"
proof -
  define R where "R = (if idling k then {} else {currentThread k})"
  have k: "core_inv k R" using assms by (simp add: kinv_def R_def)
  let ?k = "ReadyToRun k t"
  have p: "pend k t = Startup" using invD(2) [OF k] assms(2) by (simp add: thread_ok_def)
  have queue: "queue_ok k q P \<Longrightarrow> queue_ok ?k q P" for q P
    by (rule queue_ok_other [of k q P t]) (use assms in auto)
  have "sem_ok ?k" "lock_ok ?k" "cond_ok ?k"
    using k queue p by (auto simp: core_inv_def sem_ok_def lock_ok_def cond_ok_def split: if_splits)
  moreover have "ready_ok ?k" "thread_ok ?k" "destroy_ok ?k"
    using invD(1-3) [OF k] assms(2) p by (auto simp: ready_ok_def thread_ok_def destroy_ok_def)
  moreover have "thread_status ?k u = Some RUNNING \<longleftrightarrow> u \<in> R" for u
    using invD(8) [OF k, of u] invD(8) [OF k, of t] assms(2) by simp
  ultimately have "core_inv ?k R" by (simp add: core_inv_def)
  moreover have "Thread_Fork k t = ?k" by (simp add: Thread_Fork_def ReadyToRun_def)
  ultimately show ?thesis using assms(1) by (cases "idling k") (simp_all add: kinv_def R_def)
qed

lemma Thread_Finish_ok:
  assumes "executing k"
  shows "\<exists>k'. Thread_Finish k = Inr k' \<and> kinv k'"
  unfolding Thread_Finish_def
  by (rule Sleep_ok)
    (use assms inv_sleep_finish [of "k\<lparr>level := IntOff\<rparr>" "currentThread k"] in \<open>simp_all add: executing_def\<close>)

lemma exec_ok:
  assumes k: "kinv k" "\<not> idling k" "pend k (currentThread k) = InUser" and "allowed k x"
  shows "\<exists>k'. exec x k = Inr k' \<and> kinv k'"
proof -
  have e: "executing k" "executing (k\<lparr>level := IntOff\<rparr>)" using k by (simp_all add: kinv_executing)
  have "kinv (Lock_Release k l)" for l
    using Lock_Release_ok [OF e(1) k(3), of l] k by (simp add: kinv_def executing_def)
  then show ?thesis
    using assms e P_test_ok [OF e(2)] Acquire_body_ok [OF e(2)] Condition_Wait_ok [OF e(1) k(3,1)]
      Thread_Finish_ok [OF e(1)] kinv_V kinv_Signal kinv_new kinv_Fork kinv_Yield
    by (cases x) (simp_all add: Semaphore_P_def Lock_Acquire_def allowed_def)
qed

lemma step_ok:
  assumes "kinv k" "step k r"
  shows "\<exists>k'. r = Inr k' \<and> kinv k'"
  using assms(2,1)
proof (cases rule: step.cases)
  case idle_loop
  then show ?thesis using assms(1) kinv_dispatch [of k] by (simp add: kinv_def)
qed (use exec_ok resume_ok kinv_V in \<open>auto simp del: exec.simps\<close>)

lemma reachable_kinv: "reachable k0 k \<Longrightarrow> kinv k0 \<Longrightarrow> kinv k"
  by (induction rule: reachable.induct) (use step_ok in fastforce)+

lemma boot_kinv_reachable: "reachable (boot values) k \<Longrightarrow> (\<And>s. 0 \<le> values s) \<Longrightarrow> kinv k"
  using reachable_kinv kinv_boot by blast

section \<open>Properties of threads and synchronisation\<close>

text \<open>
  C3. Whatever the threads call and however they are interleaved with interrupt handlers, no
  routine of the scheduler, the semaphores, locks and conditions fails an assertion: \<open>Sleep\<close> is
  entered with interrupts disabled, a thread never deletes itself and a finished thread never
  runs again; and the kernel invariant holds in every state that can be reached from boot.
\<close>

theorem kernel_never_fails:
  assumes "\<And>s. 0 \<le> values s" "reachable (boot values) k" "step k r"
  shows "kinv k \<and> (\<exists>k'. r = Inr k' \<and> kinv k')"
  using step_ok boot_kinv_reachable [OF assms(2,1)] assms(3) by blast

theorem kernel_never_fails_witness:
  "\<exists>k'. exec (OpAcquire 3) (boot (\<lambda>_. 1)) = Inr k' \<and> kinv k'"
proof -
  have "step (boot (\<lambda>_. 1)) (exec (OpAcquire 3) (boot (\<lambda>_. 1)))"
    by (rule step.call) (simp_all add: boot_def allowed_def)
  from kernel_never_fails [OF _ reachable.start this] show ?thesis by simp
qed

datatype place = In_ready | In_sem nat | In_lock nat | In_cond nat

primrec place_queue :: "kernel \<Rightarrow> place \<Rightarrow> tid nlist" where
  "place_queue k In_ready = readyList k"
| "place_queue k (In_sem s) = sem_queue (sems k s)"
| "place_queue k (In_lock l) = lock_queue (locks k l)"
| "place_queue k (In_cond c) = cond_queue (conds k c)"

text \<open>Where a thread must be, from its status and what it still has to do.\<close>

definition place_of :: "kernel \<Rightarrow> tid \<Rightarrow> place option" where
  "place_of k t =
     (case thread_status k t of
        Some READY \<Rightarrow> Some In_ready
      | Some BLOCKED \<Rightarrow>
          (case pend k t of P_loop s old \<Rightarrow> Some (In_sem s) | Acquiring l old \<Rightarrow> Some (In_lock l)
           | Waiting c l old \<Rightarrow> Some (In_cond c) | _ \<Rightarrow> None)
      | _ \<Rightarrow> None)"

lemma place_iff:
  assumes "core_inv k R"
  shows "t \<in> set (tids (place_queue k p)) \<longleftrightarrow> place_of k t = Some p"
  using invD(1,5-7) [OF assms]
  by (cases p) (auto simp: ready_ok_def queue_ok_def place_of_def
      split: option.splits ThreadStatus.splits cont.splits)

lemma place_of_None_iff:
  assumes "thread_ok k"
  shows "place_of k t = None \<longleftrightarrow>
    \<not> (thread_status k t = Some READY \<or> thread_status k t = Some BLOCKED \<and> pend k t \<noteq> Finishing)"
  using assms
  by (auto simp: thread_ok_def place_of_def split: option.splits ThreadStatus.splits cont.splits)

text \<open>
  C2. No thread is lost and none is queued twice. In a reachable state every queue is free of
  repetitions; a thread is in exactly one of the ready list and the queues of all semaphores,
  locks and conditions when it is ready, or blocked and not finished, and in none otherwise; the
  running thread is the current one, unless the machine idles.
\<close>

theorem thread_in_one_place:
  assumes "\<And>s. 0 \<le> values s" "reachable (boot values) k"
  shows "(\<forall>p. distinct (tids (place_queue k p))) \<and>
    (if thread_status k t = Some READY \<or> thread_status k t = Some BLOCKED \<and> pend k t \<noteq> Finishing
     then \<exists>!p. t \<in> set (tids (place_queue k p)) else \<forall>p. t \<notin> set (tids (place_queue k p))) \<and>
    (thread_status k t = Some RUNNING \<longleftrightarrow> \<not> idling k \<and> t = currentThread k)"
proof -
  define R where "R = (if idling k then {} else {currentThread k})"
  have k: "core_inv k R" using boot_kinv_reachable [OF assms(2,1)] by (simp add: kinv_def R_def)
  have "distinct (tids (place_queue k p))" for p
    using invD(1,5-7) [OF k] by (cases p) (simp_all add: ready_ok_def queue_ok_def)
  moreover have "thread_status k t = Some RUNNING \<longleftrightarrow> \<not> idling k \<and> t = currentThread k"
    using invD(8) [OF k, of t] by (simp add: R_def)
  moreover note place_iff [OF k, of t] place_of_None_iff [OF invD(2) [OF k], of t]
  ultimately show ?thesis by (cases "place_of k t") auto
qed

theorem thread_in_one_place_witness:
  "\<exists>k. reachable (boot (\<lambda>_. 0)) k \<and> thread_status k 0 = Some BLOCKED \<and>
    (\<exists>!p. 0 \<in> set (tids (place_queue k p)))"
proof -
  let ?b = "boot (\<lambda>_. 0)"
  define k where "k = projr (exec (OpP 7) ?b)"
  have ex: "exec (OpP 7) ?b = Inr k"
    by (simp add: k_def boot_def Semaphore_P_def P_test_def Sleep_def Semaphore_new_def)
  have "step ?b (exec (OpP 7) ?b)" by (rule step.call) (simp_all add: boot_def allowed_def)
  then have r: "reachable ?b k" using reachable.more [OF reachable.start] ex by simp
  have st: "thread_status k 0 = Some BLOCKED" "pend k 0 = P_loop 7 IntOn"
    using ex by (auto simp: boot_def Semaphore_P_def P_test_def Sleep_def Semaphore_new_def
        dispatch_def FindNextToRun_def nlist_defs)
  show ?thesis using r st thread_in_one_place [OF _ r, of 0] by auto
qed

section \<open>Mutual exclusion\<close>

lemma locks_dispatch [simp]: "locks (dispatch k) = locks k"
  by (simp add: dispatch_def FindNextToRun_def Run_def split: prod.splits option.splits)

lemma locks_Sleep: "Sleep k c = Inr k' \<Longrightarrow> locks k' = locks k"
  by (auto simp: Sleep_def)

lemma locks_P_test: "P_test k s old = Inr k' \<Longrightarrow> locks k' = locks k"
  by (auto simp: P_test_def Let_def dest: locks_Sleep split: if_splits)

lemma locks_after_SWITCH: "after_SWITCH k = Inr k' \<Longrightarrow> locks k' = locks k \<and> currentThread k' = currentThread k"
  by (auto simp: after_SWITCH_def split: option.splits)

lemma locks_Yield [simp]: "locks (Thread_Yield k) = locks k"
  by (simp add: Thread_Yield_def FindNextToRun_def Run_def Let_def split: prod.splits option.splits)

text \<open>\<open>Acquire\<close> never takes a lock away from its owner.\<close>

lemma Acquire_body_owner:
  assumes "Acquire_body k l old = Inr k'" "lock_status (locks k l) = FREE \<longleftrightarrow> lockerOwner (locks k l) = None"
    "lockerOwner (locks k l') = Some t"
  shows "lockerOwner (locks k' l') = Some t"
  using assms
  by (auto simp: Acquire_body_def Let_def dest!: locks_Sleep split: if_splits)

lemma Release_body_owner:
  "lockerOwner (locks k l') = Some t \<Longrightarrow> lockerOwner (locks (Release_body k l) l') \<noteq> Some t \<Longrightarrow>
   l' = l \<and> t = currentThread k"
  by (auto simp: Release_body_def isHeldByCurrentThread_def Let_def split: if_splits prod.splits option.splits)

lemma Wait_owner:
  assumes "Condition_Wait k c conditionLock = Inr k'" "lockerOwner (locks k l) = Some t"
    "lockerOwner (locks k' l) \<noteq> Some t"
  shows "conditionLock = Some l \<and> t = currentThread k"
proof -
  let ?C = "conds k c"
  let ?C1 = "if waitLock ?C = None then ?C\<lparr>waitLock := conditionLock\<rparr> else ?C"
  show ?thesis
  proof (cases "waitLock ?C1 = None \<or> conditionLock \<noteq> waitLock ?C1")
    case True
    then have "locks k' = locks k"
      using assms(1) by (auto simp: Condition_Wait_def Let_def split: option.splits if_splits)
    then show ?thesis using assms(2,3) by simp
  next
    case False
    then obtain m where m: "waitLock ?C1 = Some m" "conditionLock = Some m" by auto
    define k2 where "k2 = k\<lparr>level := IntOff, conds := (conds k)
        (c := ?C1\<lparr>cond_queue := Append (cond_queue ?C1) (currentThread k)\<rparr>)\<rparr>"
    have "Sleep (Lock_Release k2 m) (Waiting c m (level k)) = Inr k'"
      using assms(1) m by (auto simp: Condition_Wait_def k2_def Let_def split: if_splits)
    from locks_Sleep [OF this] have "locks k' = locks (Release_body (k2\<lparr>level := IntOff\<rparr>) m)"
      by (simp add: Lock_Release_def)
    moreover have "locks k2 = locks k" "currentThread k2 = currentThread k" by (simp_all add: k2_def)
    ultimately show ?thesis using Release_body_owner [of "k2\<lparr>level := IntOff\<rparr>" l t m] assms(2,3) m by simp
  qed
qed

lemma resume_owner:
  assumes "resume k = Inr k'" "\<And>l. lock_status (locks k l) = FREE \<longleftrightarrow> lockerOwner (locks k l) = None"
    "lockerOwner (locks k l) = Some t"
  shows "lockerOwner (locks k' l) = Some t"
proof (cases "pend k (currentThread k)")
  case (Waiting c m old)
  then obtain k1 where "after_SWITCH k = Inr k1" "Acquire_body (k1\<lparr>level := IntOff\<rparr>) m old = Inr k'"
    using assms(1) by (auto simp: resume_def)
  then show ?thesis using Acquire_body_owner assms(2,3) locks_after_SWITCH by fastforce
qed (use assms in \<open>auto simp: resume_def dest!: locks_after_SWITCH locks_P_test\<close>)

lemma exec_owner:
  assumes "exec x k = Inr k'" "\<And>l. lock_status (locks k l) = FREE \<longleftrightarrow> lockerOwner (locks k l) = None"
    "lockerOwner (locks k l) = Some t" "lockerOwner (locks k' l) \<noteq> Some t"
  shows "t = currentThread k \<and> (x = OpRelease l \<or> (\<exists>c. x = OpWait c (Some l)))"
proof (cases x)
  case (OpAcquire m)
  then show ?thesis
    using Acquire_body_owner [of "k\<lparr>level := IntOff\<rparr>" m "level k" k' l t] assms by (simp add: Lock_Acquire_def)
next
  case (OpRelease m)
  then show ?thesis
    using Release_body_owner [of "k\<lparr>level := IntOff\<rparr>" l t m] assms by (auto simp: Lock_Release_def)
next
  case (OpWait c m)
  then show ?thesis using Wait_owner [of k c m k' l t] assms by simp
qed (use assms in \<open>auto simp: Semaphore_P_def Thread_Finish_def Thread_new_def Thread_Fork_def
       dest!: locks_P_test locks_Sleep\<close>)

lemma step_owner:
  assumes "step k (Inr k')" "\<And>l. lock_status (locks k l) = FREE \<longleftrightarrow> lockerOwner (locks k l) = None"
    "lockerOwner (locks k l) = Some t" "lockerOwner (locks k' l) \<noteq> Some t"
  shows "t = currentThread k \<and> pend k t = InUser \<and>
    (exec (OpRelease l) k = Inr k' \<or> (\<exists>c. exec (OpWait c (Some l)) k = Inr k'))"
  using assms(1)
proof (cases rule: step.cases)
  case (call x)
  then show ?thesis using exec_owner [OF call(1) [symmetric] assms(2-4)] by (metis)
next
  case resumption
  then show ?thesis using resume_owner [of k k' l t] assms by metis
qed (use assms in auto)

lemma Sleep_pend: "Sleep k c = Inr k' \<Longrightarrow> pend k' (currentThread k) = c"
  by (auto simp: Sleep_def dispatch_def FindNextToRun_def Run_def split: prod.splits option.splits)

lemma Acquire_body_returns:
  assumes "Acquire_body k l old = Inr k'" "pend k' (currentThread k) = InUser"
  shows "lockerOwner (locks k' l) = Some (currentThread k)"
  using assms
  by (auto simp: Acquire_body_def isHeldByCurrentThread_def Let_def dest: Sleep_pend split: if_splits)

lemma Wait_refused:
  assumes "Condition_Wait k c (Some l) = Inr k'" "pend k' (currentThread k) = InUser"
  shows "waitLock (conds k c) \<noteq> None \<and> waitLock (conds k c) \<noteq> Some l \<and> locks k' = locks k"
  using assms
  by (auto simp: Condition_Wait_def Let_def Lock_Release_def dest!: Sleep_pend split: option.splits if_splits)

text \<open>
  C1. Mutual exclusion. In a reachable state, an \<open>Acquire\<close> that returns at once, an \<open>Acquire\<close>
  that returns after having slept, and a \<open>Wait\<close> that has slept and returns all leave the
  calling thread as the owner of the lock. A \<open>Wait\<close> that returns without having slept (a null
  lock, or a lock other than the one the waiters use) is refused and changes the state of no lock.
  A step takes a lock away from its owner only if the owner itself calls \<open>Release\<close> of that lock
  or \<open>Wait\<close> with it.
\<close>

theorem lock_mutual_exclusion:
  assumes "\<And>s. 0 \<le> values s" "reachable (boot values) k" "\<not> idling k"
  defines "me \<equiv> currentThread k"
  shows "(\<forall>k'. pend k me = InUser \<and> Lock_Acquire k l = Inr k' \<and> pend k' me = InUser \<longrightarrow>
       lockerOwner (locks k' l) = Some me) \<and>
    (\<forall>k' old. pend k me = Acquiring l old \<and> resume k = Inr k' \<longrightarrow>
       pend k' me = InUser \<and> lockerOwner (locks k' l) = Some me) \<and>
    (\<forall>k' c old. pend k me = Waiting c l old \<and> resume k = Inr k' \<and> pend k' me = InUser \<longrightarrow>
       lockerOwner (locks k' l) = Some me) \<and>
    (\<forall>k' c. pend k me = InUser \<and> Condition_Wait k c (Some l) = Inr k' \<and> pend k' me = InUser \<longrightarrow>
       waitLock (conds k c) \<notin> {None, Some l} \<and> locks k' = locks k) \<and>
    (\<forall>k' c. pend k me = InUser \<and> Condition_Wait k c None = Inr k' \<longrightarrow>
       pend k' me = InUser \<and> locks k' = locks k) \<and>
    (\<forall>k' t. step k (Inr k') \<and> lockerOwner (locks k l) = Some t \<and> lockerOwner (locks k' l) \<noteq> Some t \<longrightarrow>
       t = me \<and> pend k me = InUser \<and>
       (exec (OpRelease l) k = Inr k' \<or> (\<exists>c. exec (OpWait c (Some l)) k = Inr k')))"
proof -
  have k: "core_inv k {me}" "executing k" using boot_kinv_reachable [OF assms(2,1)] assms(3)
    by (simp_all add: kinv_def me_def executing_def)
  have free: "lock_status (locks k l) = FREE \<longleftrightarrow> lockerOwner (locks k l) = None" for l
    using lock_okD(1) [OF k(1)] .
  obtain k1 where k1: "after_SWITCH k = Inr k1" "locks k1 = locks k" "currentThread k1 = me"
    using after_SWITCH_ok [OF k(2)] by (auto simp: me_def)
  have "thread_status k me = Some RUNNING" using invD(8) [OF k(1)] by simp
  then have "pend k me = Acquiring l old \<Longrightarrow> lockerOwner (locks k l) = Some me" for old
    using lock_okD(3) [OF k(1)] by simp
  then have part2: "\<forall>k' old. pend k me = Acquiring l old \<and> resume k = Inr k' \<longrightarrow>
       pend k' me = InUser \<and> lockerOwner (locks k' l) = Some me"
    using k1 by (auto simp: resume_def me_def [symmetric])
  have part1: "\<forall>k'. pend k me = InUser \<and> Lock_Acquire k l = Inr k' \<and> pend k' me = InUser \<longrightarrow>
       lockerOwner (locks k' l) = Some me"
    using Acquire_body_returns [of "k\<lparr>level := IntOff\<rparr>" l] by (auto simp: Lock_Acquire_def me_def)
  have part3: "\<forall>k' c old. pend k me = Waiting c l old \<and> resume k = Inr k' \<and> pend k' me = InUser \<longrightarrow>
       lockerOwner (locks k' l) = Some me"
    using Acquire_body_returns [of "k1\<lparr>level := IntOff\<rparr>" l] k1
    by (auto simp: resume_def me_def [symmetric])
  have part4: "t = me \<and> pend k me = InUser \<and>
       (exec (OpRelease l) k = Inr k' \<or> (\<exists>c. exec (OpWait c (Some l)) k = Inr k'))"
    if "step k (Inr k')" "lockerOwner (locks k l) = Some t" "lockerOwner (locks k' l) \<noteq> Some t" for k' t
    using step_owner [OF that(1) free that(2,3)] unfolding me_def by auto
  have refused: "\<forall>k' c. pend k me = InUser \<and> Condition_Wait k c (Some l) = Inr k' \<and> pend k' me = InUser \<longrightarrow>
       waitLock (conds k c) \<notin> {None, Some l} \<and> locks k' = locks k"
    using Wait_refused [of k _ l] by (auto simp: me_def)
  have null: "\<forall>k' c. pend k me = InUser \<and> Condition_Wait k c None = Inr k' \<longrightarrow>
       pend k' me = InUser \<and> locks k' = locks k"
    by (auto simp: Condition_Wait_def Let_def split: option.splits if_splits)
  show ?thesis by (intro conjI part1 part2 part3 refused null) (use part4 in blast)
qed

theorem lock_mutual_exclusion_witness:
  "\<exists>k'. Lock_Acquire (boot (\<lambda>_. 0)) 5 = Inr k' \<and> lockerOwner (locks k' 5) = Some 0"
proof -
  let ?b = "boot (\<lambda>_. 0)"
  define k' where "k' = projr (Lock_Acquire ?b 5)"
  have "Lock_Acquire ?b 5 = Inr k'" "pend k' 0 = InUser" "pend ?b 0 = InUser" "currentThread ?b = 0"
    "\<not> idling ?b"
    by (simp_all add: k'_def boot_def Lock_Acquire_def Acquire_body_def isHeldByCurrentThread_def Lock_new_def)
  note b = this
  have "\<forall>k'. pend ?b (currentThread ?b) = InUser \<and> Lock_Acquire ?b 5 = Inr k' \<and>
      pend k' (currentThread ?b) = InUser \<longrightarrow> lockerOwner (locks k' 5) = Some (currentThread ?b)"
    using lock_mutual_exclusion [of "\<lambda>_. 0" ?b 5, OF _ reachable.start b(5)] by (rule conjunct1) simp
  then show ?thesis using b by metis
qed

section \<open>Broadcast\<close>

lemma Broadcast_run:
  assumes "tids (cond_queue (conds k c)) = ts" "ts \<noteq> [] \<Longrightarrow> conditionLock = waitLock (conds k c)"
    "waitLock (conds k c) = None \<longleftrightarrow> ts = []"
  shows "\<exists>k'. Condition_Broadcast k c conditionLock = Some k' \<and> tids (cond_queue (conds k' c)) = [] \<and>
    waitLock (conds k' c) = None \<and> tids (readyList k') = tids (readyList k) @ ts \<and>
    (\<forall>t. thread_status k' t = (if t \<in> set ts then Some READY else thread_status k t))"
  using assms
proof (induction ts arbitrary: k)
  case Nil
  then show ?case by (subst Condition_Broadcast.simps) simp
next
  case (Cons t ts)
  have lock: "conditionLock = waitLock (conds k c)" using Cons.prems(2) by simp
  obtain q where q: "tids q = ts" and sig: "Condition_Signal k c conditionLock =
      ReadyToRun (k\<lparr>conds := (conds k)(c := \<lparr>cond_queue = q,
        waitLock = (if ts = [] then None else waitLock (conds k c))\<rparr>)\<rparr>) t" (is "_ = ?k1")
    using Cons.prems(1) lock by (cases rule: Condition_Signal_cases [of k c conditionLock]) auto
  have "Condition_Broadcast k c conditionLock = Condition_Broadcast ?k1 c conditionLock"
    using Cons.prems(1) by (subst Condition_Broadcast.simps) (simp add: sig)
  moreover have "\<exists>k'. Condition_Broadcast ?k1 c conditionLock = Some k' \<and> tids (cond_queue (conds k' c)) = [] \<and>
    waitLock (conds k' c) = None \<and> tids (readyList k') = tids (readyList ?k1) @ ts \<and>
    (\<forall>u. thread_status k' u = (if u \<in> set ts then Some READY else thread_status ?k1 u))"
    by (rule Cons.IH) (use q lock Cons.prems in auto)
  ultimately show ?case by auto
qed

lemma Broadcast_mismatch:
  assumes "Condition_Broadcast k c l = Some k'"
  shows "\<not> (tids (cond_queue (conds k c)) \<noteq> [] \<and> l \<noteq> waitLock (conds k c))"
proof (induction rule: Condition_Broadcast.raw_induct [OF _ assms])
  case (1 f k c l k')
  show ?case
  proof
    assume m: "tids (cond_queue (conds k c)) \<noteq> [] \<and> l \<noteq> waitLock (conds k c)"
    then have "Condition_Signal k c l = k" by (cases rule: Condition_Signal_cases [of k c l]) auto
    then have "f k c l = Some k'" using 1(2) m by simp
    then show False using 1(1) m by blast
  qed
qed

text \<open>
  C21. An uninterrupted call of \<open>Broadcast\<close> with the lock the waiters wait with returns after waking all of them: they
  join the ready list in the order in which they waited and nobody else is affected. With any
  other lock, and somebody waiting, \<open>Signal\<close> refuses each time and the loop never ends.
\<close>

theorem Broadcast_wakes_all_or_diverges:
  assumes "\<And>s. 0 \<le> values s" "reachable (boot values) k"
  shows "if tids (cond_queue (conds k c)) = [] \<or> conditionLock = waitLock (conds k c)
    then \<exists>k'. Condition_Broadcast k c conditionLock = Some k' \<and> tids (cond_queue (conds k' c)) = [] \<and>
      tids (readyList k') = tids (readyList k) @ tids (cond_queue (conds k c)) \<and>
      (\<forall>t. thread_status k' t =
        (if t \<in> set (tids (cond_queue (conds k c))) then Some READY else thread_status k t))
    else Condition_Broadcast k c conditionLock = None"
proof -
  define R where "R = (if idling k then {} else {currentThread k})"
  have "core_inv k R" using boot_kinv_reachable [OF assms(2,1)] by (simp add: kinv_def R_def)
  then show ?thesis
    using Broadcast_run [OF refl, of k c conditionLock] cond_okD(1) [of k R c]
      Broadcast_mismatch [of k c conditionLock]
    by (cases "Condition_Broadcast k c conditionLock") auto
qed

theorem Broadcast_wakes_all_or_diverges_witness:
  "\<exists>k. reachable (boot (\<lambda>_. 0)) k \<and> Condition_Broadcast k 2 (Some 8) = None \<and>
     (\<exists>k'. Condition_Broadcast k 2 (Some 9) = Some k' \<and> thread_status k' 0 = Some READY)"
proof -
  let ?b = "boot (\<lambda>_. 0)"
  define k where "k = projr (exec (OpWait 2 (Some 9)) ?b)"
  have ex: "exec (OpWait 2 (Some 9)) ?b = Inr k"
    by (simp add: k_def boot_def Condition_Wait_def Condition_new_def Sleep_def Lock_Release_def
        Release_body_def isHeldByCurrentThread_def Lock_new_def)
  have "step ?b (exec (OpWait 2 (Some 9)) ?b)" by (rule step.call) (simp_all add: boot_def allowed_def)
  then have r: "reachable ?b k" using reachable.more [OF reachable.start] ex by simp
  have st: "conds k 2 = \<lparr>cond_queue = Append List_new 0, waitLock = Some 9\<rparr>"
    using ex by (auto simp: boot_def Condition_Wait_def Condition_new_def Sleep_def Lock_Release_def
        Release_body_def isHeldByCurrentThread_def Lock_new_def dispatch_def FindNextToRun_def Run_def
        split: prod.splits option.splits)
  show ?thesis
    using r st Broadcast_wakes_all_or_diverges [OF _ r, of 2 "Some 8"]
      Broadcast_wakes_all_or_diverges [OF _ r, of 2 "Some 9"] by auto
qed

end
