(* ===== verification/Nachos_Interrupt.thy ===== *)
theory Nachos_Interrupt
  imports Nachos_List
begin

text \<open>
  The simulated hardware clock and interrupts: \<^verbatim>\<open>machine/interrupt.cc\<close>,
  \<^verbatim>\<open>machine/timer.cc\<close> and the tick counters of \<^verbatim>\<open>machine/stats.h\<close>.

  What an interrupt handler does is a parameter (\<open>run_handler\<close>), because the handlers belong to
  the devices and their drivers; so are \<open>Thread::Yield\<close> as seen from \<open>OneTick\<close>, and the effect of
  \<open>Machine::DelayedLoad\<close>. The locale \<open>handler_contract\<close> says what a handler may do: it runs with
  interrupts disabled, leaves the clock alone and schedules only into the future. The timer's own
  handler is shown to keep this contract. Times are unbounded integers; the code keeps them in
  64 bits.
\<close>

section \<open>State\<close>

datatype IntType = TimerInt | DiskInt | ConsoleWriteInt | ConsoleReadInt | NetworkSendInt | NetworkRecvInt

record 'h PendingInterrupt =
  pi_handler :: 'h
  pi_arg :: int
  pi_when :: int
  pi_type :: IntType

record Statistics =
  totalTicks :: int
  idleTicks :: int
  systemTicks :: int
  userTicks :: int

definition Statistics_new :: Statistics where
  "Statistics_new = \<lparr>totalTicks = 0, idleTicks = 0, systemTicks = 0, userTicks = 0\<rparr>"

abbreviation UserTick :: int where "UserTick \<equiv> 1"
abbreviation SystemTick :: int where "SystemTick \<equiv> 10"
abbreviation TimerTicks :: int where "TimerTicks \<equiv> 100"

text \<open>\<open>world\<close> is the rest of the machine, which only handlers see.\<close>

record ('h, 'w) hw =
  int_level :: IntStatus
  pending :: "'h PendingInterrupt nlist"
  inHandler :: bool
  yieldOnReturn :: bool
  mstatus :: MachineStatus
  stats :: Statistics
  world :: 'w

record ('h, 'w) env =
  run_handler :: "'h \<Rightarrow> int \<Rightarrow> ('h, 'w) hw \<Rightarrow> ('h, 'w) hw res"
  delayed_load :: "'w \<Rightarrow> 'w"
  do_yield :: "('h, 'w) hw \<Rightarrow> ('h, 'w) hw"

definition Interrupt_new :: "'w \<Rightarrow> ('h, 'w) hw" where
  "Interrupt_new w =
     \<lparr>int_level = IntOff, pending = List_new, inHandler = False, yieldOnReturn = False,
      mstatus = SystemMode, stats = Statistics_new, world = w\<rparr>"

section \<open>Operations\<close>

definition Schedule :: "'h \<Rightarrow> int \<Rightarrow> int \<Rightarrow> IntType \<Rightarrow> ('h, 'w) hw \<Rightarrow> ('h, 'w) hw res" where
  "Schedule handler arg fromNow type s =
     (let when = totalTicks (stats s) + fromNow;
          toOccur = \<lparr>pi_handler = handler, pi_arg = arg, pi_when = when, pi_type = type\<rparr>
      in bindE (ASSERT (fromNow > 0)) (\<lambda>_.
           Inr (s\<lparr>pending := SortedInsert (pending s) toOccur when\<rparr>)))"

definition YieldOnReturn :: "('h, 'w) hw \<Rightarrow> ('h, 'w) hw res" where
  "YieldOnReturn s = bindE (ASSERT (inHandler s)) (\<lambda>_. Inr (s\<lparr>yieldOnReturn := True\<rparr>))"

text \<open>The call of the handler, with the machine status saved and restored around it.\<close>

definition fire :: "('h, 'w) env \<Rightarrow> 'h PendingInterrupt \<Rightarrow> ('h, 'w) hw \<Rightarrow> ('h, 'w) hw res" where
  "fire E p s =
     (let old = mstatus s;
          s1 = s\<lparr>world := delayed_load E (world s), inHandler := True, mstatus := SystemMode\<rparr>
      in bindE (run_handler E (pi_handler p) (pi_arg p) s1) (\<lambda>s2.
           Inr (s2\<lparr>mstatus := old, inHandler := False\<rparr>)))"

definition CheckIfDue :: "('h, 'w) env \<Rightarrow> bool \<Rightarrow> ('h, 'w) hw \<Rightarrow> (bool \<times> ('h, 'w) hw) res" where
  "CheckIfDue E advanceClock s =
     bindE (ASSERT (int_level s = IntOff)) (\<lambda>_.
       case SortedRemove (pending s) of
         (None, q) \<Rightarrow> Inr (False, s\<lparr>pending := q\<rparr>)
       | (Some (toOccur, when), q) \<Rightarrow>
           (let s1 = s\<lparr>pending := q\<rparr>; putBack = (\<lambda>s. s\<lparr>pending := SortedInsert q toOccur when\<rparr>);
                now = totalTicks (stats s1);
                s2 = (if advanceClock \<and> when > now
                      then s1\<lparr>stats := (stats s1)\<lparr>idleTicks := idleTicks (stats s1) + (when - now),
                                                totalTicks := when\<rparr>\<rparr>
                      else s1)
            in if \<not> advanceClock \<and> when > now then Inr (False, putBack s1)
               else if mstatus s2 = IdleMode \<and> pi_type toOccur = TimerInt \<and> IsEmpty q
               then Inr (False, putBack s2)
               else bindE (fire E toOccur s2) (\<lambda>s3. Inr (True, s3))))"

text \<open>The loop \<^verbatim>\<open>while (CheckIfDue(FALSE));\<close>\<close>

partial_function (option) fire_all_due ::
    "('h, 'w) env \<Rightarrow> ('h, 'w) hw \<Rightarrow> ('h, 'w) hw res option" where
  "fire_all_due E s =
     (case CheckIfDue E False s of
        Inl e \<Rightarrow> Some (Inl e)
      | Inr (fired, s1) \<Rightarrow> if fired then fire_all_due E s1 else Some (Inr s1))"

definition bindO :: "'a res option \<Rightarrow> ('a \<Rightarrow> 'b res option) \<Rightarrow> 'b res option" where
  "bindO m f =
     (case m of None \<Rightarrow> None | Some (Inl e) \<Rightarrow> Some (Inl e) | Some (Inr x) \<Rightarrow> f x)"

lemma bindO_simps [simp]:
  "bindO None f = None" "bindO (Some (Inl e)) f = Some (Inl e)" "bindO (Some (Inr x)) f = f x"
  by (simp_all add: bindO_def)

definition advance_clock :: "('h, 'w) hw \<Rightarrow> ('h, 'w) hw" where
  "advance_clock s =
     (if mstatus s = SystemMode
      then s\<lparr>stats := (stats s)\<lparr>totalTicks := totalTicks (stats s) + SystemTick,
                              systemTicks := systemTicks (stats s) + SystemTick\<rparr>\<rparr>
      else s\<lparr>stats := (stats s)\<lparr>totalTicks := totalTicks (stats s) + UserTick,
                              userTicks := userTicks (stats s) + UserTick\<rparr>\<rparr>)"

definition OneTick :: "('h, 'w) env \<Rightarrow> ('h, 'w) hw \<Rightarrow> ('h, 'w) hw res option" where
  "OneTick E s =
     (let old = mstatus s in
      bindO (fire_all_due E ((advance_clock s)\<lparr>int_level := IntOff\<rparr>)) (\<lambda>s1.
        let s2 = s1\<lparr>int_level := IntOn\<rparr> in
        if yieldOnReturn s2
        then Some (Inr ((do_yield E (s2\<lparr>yieldOnReturn := False, mstatus := SystemMode\<rparr>))\<lparr>mstatus := old\<rparr>))
        else Some (Inr s2)))"

definition SetLevel ::
    "('h, 'w) env \<Rightarrow> IntStatus \<Rightarrow> ('h, 'w) hw \<Rightarrow> (IntStatus \<times> ('h, 'w) hw) res option" where
  "SetLevel E now s =
     (let old = int_level s in
      if now = IntOff \<or> \<not> inHandler s then
        (let s1 = s\<lparr>int_level := now\<rparr> in
         if now = IntOn \<and> old = IntOff
         then bindO (OneTick E s1) (\<lambda>s2. Some (Inr (old, s2)))
         else Some (Inr (old, s1)))
      else Some (Inl AssertionFailed))"

definition Enable :: "('h, 'w) env \<Rightarrow> ('h, 'w) hw \<Rightarrow> ('h, 'w) hw res option" where
  "Enable E s = bindO (SetLevel E IntOn s) (\<lambda>(_, s1). Some (Inr s1))"

text \<open>\<open>Idle\<close> returns to the scheduler or halts the machine.\<close>

datatype ('h, 'w) idle_result = Idle_returns "('h, 'w) hw" | Idle_halts "('h, 'w) hw"

definition Idle :: "('h, 'w) env \<Rightarrow> ('h, 'w) hw \<Rightarrow> ('h, 'w) idle_result res option" where
  "Idle E s =
     bindO (Some (CheckIfDue E True (s\<lparr>mstatus := IdleMode\<rparr>))) (\<lambda>(fired, s1).
       if fired then
         bindO (fire_all_due E s1) (\<lambda>s2.
           Some (Inr (Idle_returns (s2\<lparr>yieldOnReturn := False, mstatus := SystemMode\<rparr>))))
       else Some (Inr (Idle_halts s1)))"

section \<open>The timer device\<close>

text \<open>
  \<open>Random()\<close> of the host is not modelled: the values it returns are a sequence of naturals in the
  timer's part of the world, used up one by one.
\<close>

definition TimeOfNextInterrupt :: "bool \<Rightarrow> int \<Rightarrow> int" where
  "TimeOfNextInterrupt doRandom r = (if doRandom then 1 + r smod (TimerTicks * 2) else TimerTicks)"

datatype timer_handler = TimerHandler

record Timer =
  randomize :: bool
  draws :: "nat \<Rightarrow> nat"

type_synonym timer_hw = "(timer_handler, Timer) hw"

definition Timer_schedule :: "int \<Rightarrow> timer_hw \<Rightarrow> timer_hw res" where
  "Timer_schedule arg s =
     (let w = world s; r = int (draws w 0);
          w' = (if randomize w then w\<lparr>draws := (\<lambda>i. draws w (Suc i))\<rparr> else w)
      in Schedule TimerHandler arg (TimeOfNextInterrupt (randomize w) r) TimerInt (s\<lparr>world := w'\<rparr>))"

definition Timer_new :: "bool \<Rightarrow> (nat \<Rightarrow> nat) \<Rightarrow> int \<Rightarrow> timer_hw \<Rightarrow> timer_hw res" where
  "Timer_new doRandom rs callArg s =
     Timer_schedule callArg (s\<lparr>world := \<lparr>randomize = doRandom, draws = rs\<rparr>\<rparr>)"

definition TimerInterruptHandler :: "timer_hw \<Rightarrow> timer_hw res" where
  "TimerInterruptHandler s = (if mstatus s \<noteq> IdleMode then YieldOnReturn s else Inr s)"

definition TimerExpired :: "int \<Rightarrow> timer_hw \<Rightarrow> timer_hw res" where
  "TimerExpired arg s = bindE (Timer_schedule arg s) TimerInterruptHandler"

definition timer_env :: "(timer_handler, Timer) env" where
  "timer_env =
     \<lparr>run_handler = (\<lambda>h arg s. TimerExpired arg s), delayed_load = (\<lambda>w. w), do_yield = (\<lambda>s. s)\<rparr>"

section \<open>Invariant and the contract of handlers\<close>

text \<open>The pending interrupts are in the order of their times, and each is filed under its own.\<close>

definition hw_ok :: "('h, 'w) hw \<Rightarrow> bool" where
  "hw_ok s \<longleftrightarrow> sorted (map snd (elems (pending s))) \<and> (\<forall>(p, k)\<in>set (elems (pending s)). k = pi_when p)"

definition due :: "('h, 'w) hw \<Rightarrow> ('h PendingInterrupt \<times> int) multiset" where
  "due s = filter_mset (\<lambda>e. snd e \<le> totalTicks (stats s)) (mset (elems (pending s)))"

definition handler_ok :: "('h, 'w) hw \<Rightarrow> ('h, 'w) hw res \<Rightarrow> bool" where
  "handler_ok s r \<longleftrightarrow>
     (\<exists>s'. r = Inr s' \<and> hw_ok s' \<and> int_level s' = IntOff \<and> stats s' = stats s \<and> due s' = due s)"

text \<open>What it means that interrupts are served: the handler of each runs, in this order, with interrupts off, in system mode and on the state the one
  before has left, from which the interrupt has been taken off the list.\<close>

inductive serves :: "('h, 'w) env \<Rightarrow> ('h, 'w) hw \<Rightarrow> ('h PendingInterrupt \<times> int) list \<Rightarrow> ('h, 'w) hw \<Rightarrow> bool" for E where
  serves_none: "serves E s [] s"
| serves_one: "elems (pending s) = e # es \<Longrightarrow>
    run_handler E (pi_handler (fst e)) (pi_arg (fst e))
      (s\<lparr>pending := (pending s)\<lparr>elems := es\<rparr>, world := delayed_load E (world s), inHandler := True, mstatus := SystemMode\<rparr>) = Inr s1 \<Longrightarrow>
    serves E (s1\<lparr>mstatus := mstatus s, inHandler := False\<rparr>) ps s' \<Longrightarrow> serves E s (e # ps) s'"

locale handler_contract =
  fixes E :: "('h, 'w) env"
  assumes handler_keeps:
    "hw_ok s \<Longrightarrow> int_level s = IntOff \<Longrightarrow> inHandler s \<Longrightarrow> mstatus s = SystemMode \<Longrightarrow>
     handler_ok s (run_handler E h arg s)"
begin

lemma fire_ok:
  assumes "hw_ok s" "int_level s = IntOff"
  shows "\<exists>s'. fire E p s = Inr s' \<and> hw_ok s' \<and> int_level s' = IntOff \<and> stats s' = stats s \<and>
    due s' = due s \<and> mstatus s' = mstatus s \<and> \<not> inHandler s'"
proof -
  let ?s = "s\<lparr>world := delayed_load E (world s), inHandler := True, mstatus := SystemMode\<rparr>"
  have "handler_ok ?s (run_handler E (pi_handler p) (pi_arg p) ?s)"
    using assms by (intro handler_keeps) (simp_all add: hw_ok_def)
  then show ?thesis by (auto simp: fire_def handler_ok_def Let_def due_def hw_ok_def)
qed

text \<open>One check without advancing the clock: it fires the earliest interrupt, if that is due.\<close>

lemma CheckIfDue_False:
  assumes s: "hw_ok s" "int_level s = IntOff"
  obtains (idle) s' where "CheckIfDue E False s = Inr (False, s')" "hw_ok s'" "int_level s' = IntOff"
      "stats s' = stats s" "mset (elems (pending s')) = mset (elems (pending s))" "mstatus s' = mstatus s"
      "due s = {#} \<or> mstatus s = IdleMode \<and> (\<exists>e. elems (pending s) = [e] \<and> pi_type (fst e) = TimerInt)"
      "\<exists>q. s' = s\<lparr>pending := q\<rparr>"
  | (fired) e s' where "CheckIfDue E False s = Inr (True, s')" "hw_ok s'" "int_level s' = IntOff"
      "stats s' = stats s" "due s = add_mset e (due s')" "mstatus s' = mstatus s"
      "\<And>ps sn. serves E s' ps sn \<Longrightarrow> serves E s (e # ps) sn" "\<forall>x\<in>set_mset (due s'). snd e \<le> snd x"
proof (cases "elems (pending s)")
  case Nil
  then have "CheckIfDue E False s = Inr (False, s)" using s by (simp add: CheckIfDue_def SortedRemove_def)
  moreover have "\<exists>q. s = s\<lparr>pending := q\<rparr>" by (rule exI [of _ "pending s"]) simp
  ultimately show ?thesis using s Nil that(1) [of s] by (simp add: due_def)
next
  case (Cons e es)
  obtain p k where e: "e = (p, k)" by (cases e)
  let ?q = "(pending s)\<lparr>elems := es\<rparr>"
  have rm: "SortedRemove (pending s) = (Some (p, k), ?q)" using Cons e by (simp add: SortedRemove_def)
  have bk: "elems (SortedInsert ?q p k) = ins_walk e es" using e by (simp add: SortedInsert_def)
  let ?b = "s\<lparr>pending := SortedInsert ?q p k\<rparr>"
  have bok: "hw_ok ?b" "mset (elems (pending ?b)) = mset (elems (pending s))"
    using s(1) Cons by (simp_all add: bk hw_ok_def sorted_ins_walk mset_ins_walk)
  consider "k > totalTicks (stats s)"
    | "k \<le> totalTicks (stats s)" "mstatus s = IdleMode \<and> pi_type p = TimerInt \<and> es = []"
    | "k \<le> totalTicks (stats s)" "\<not> (mstatus s = IdleMode \<and> pi_type p = TimerInt \<and> es = [])"
    by linarith
  then show ?thesis
  proof cases
    case 1
    then have "\<forall>x\<in>set (e # es). snd x > totalTicks (stats s)"
      using s(1) Cons e by (auto simp: hw_ok_def)
    then have "due s = {#}" using Cons by (auto simp: due_def filter_empty_conv simp flip: mset_filter)
    moreover have "CheckIfDue E False s = Inr (False, ?b)" using 1 rm s by (simp add: CheckIfDue_def Let_def)
    ultimately show ?thesis using that(1) [of ?b] bok s by auto
  next
    case 2
    then have "CheckIfDue E False s = Inr (False, ?b)"
      using rm s by (simp add: CheckIfDue_def Let_def IsEmpty_def)
    then show ?thesis using that(1) [of ?b] bok s 2 Cons e by auto
  next
    case 3
    let ?s1 = "s\<lparr>pending := ?q\<rparr>"
    have "hw_ok ?s1" using s(1) Cons by (simp add: hw_ok_def)
    then obtain s' where s': "fire E p ?s1 = Inr s'" "hw_ok s'" "int_level s' = IntOff"
      "stats s' = stats s" "due s' = due ?s1" "mstatus s' = mstatus s"
      using fire_ok [of ?s1 p] s(2) by auto
    moreover have "CheckIfDue E False s = Inr (True, s')"
      using 3 rm s s'(1) by (simp add: CheckIfDue_def Let_def IsEmpty_def)
    moreover have d: "due s = add_mset e (due ?s1)" using Cons e 3(1) by (simp add: due_def)
    moreover have "serves E s (e # ps) sn" if "serves E s' ps sn" for ps sn
      using s'(1) that Cons e by (auto simp: fire_def Let_def bindE_Inr_iff intro!: serves_one)
    moreover have "\<forall>x\<in>set_mset (due ?s1). snd e \<le> snd x"
      using s(1) Cons by (auto simp: hw_ok_def due_def)
    ultimately show ?thesis using that(2) [of s' e] by simp
  qed
qed

text \<open>The loop ends, because each turn uses up one due interrupt; all of them are served in the order of their times, and none is left behind.\<close>

lemma fire_all_due_ends:
  assumes "hw_ok s" "int_level s = IntOff"
  shows "\<exists>s' ps sn q. fire_all_due E s = Some (Inr s') \<and> hw_ok s' \<and> int_level s' = IntOff \<and> stats s' = stats s \<and>
    mstatus s' = mstatus s \<and> serves E s ps sn \<and> s' = sn\<lparr>pending := q\<rparr> \<and> mset (elems q) = mset (elems (pending sn)) \<and>
    (mstatus s \<noteq> IdleMode \<longrightarrow> due s' = {#} \<and> mset ps = due s \<and> sorted (map snd ps))"
  using assms
proof (induction "size (due s)" arbitrary: s rule: less_induct)
  case less
  from less.prems show ?case
  proof (cases rule: CheckIfDue_False)
    case (idle s')
    then obtain q where q: "s' = s\<lparr>pending := q\<rparr>" by blast
    have "fire_all_due E s = Some (Inr s')" using idle(1) by (subst fire_all_due.simps) simp
    moreover have "due s' = due s" using idle(4,5) by (simp add: due_def)
    moreover have "serves E s [] s" by (rule serves_none)
    ultimately show ?thesis using idle q
      by (intro exI [of _ s'] exI [of _ "[]"] exI [of _ s] exI [of _ q]) auto
  next
    case (fired e s1)
    then have "size (due s1) < size (due s)" by simp
    from less.hyps [OF this fired(2,3)] obtain s' ps sn q where
      r: "fire_all_due E s1 = Some (Inr s')" "hw_ok s'" "int_level s' = IntOff" "stats s' = stats s1" "mstatus s' = mstatus s1"
      "serves E s1 ps sn" "s' = sn\<lparr>pending := q\<rparr>" "mset (elems q) = mset (elems (pending sn))"
      "mstatus s1 \<noteq> IdleMode \<longrightarrow> due s' = {#} \<and> mset ps = due s1 \<and> sorted (map snd ps)" by blast
    have go: "fire_all_due E s = Some (Inr s')" using fired(1) r(1) by (subst fire_all_due.simps) simp
    have "sorted (map snd (e # ps))" if "mset ps = due s1" "sorted (map snd ps)"
      using that fired(8) by (auto simp flip: that(1))
    then have "mstatus s \<noteq> IdleMode \<longrightarrow> due s' = {#} \<and> mset (e # ps) = due s \<and> sorted (map snd (e # ps))"
      using r(9) fired(5,6) by simp
    with go show ?thesis
      using r(2-8) fired(4,6) fired(7) [OF r(6)]
      by (intro exI [of _ s'] exI [of _ "e # ps"] exI [of _ sn] exI [of _ q]) simp
  qed
qed

lemma OneTick_ends:
  assumes "hw_ok s" "mstatus s \<noteq> IdleMode"
  shows "\<exists>s1 ps sn q. OneTick E s = Some (Inr (if yieldOnReturn s1
        then (do_yield E (s1\<lparr>yieldOnReturn := False, mstatus := SystemMode\<rparr>))\<lparr>mstatus := mstatus s\<rparr>
        else s1)) \<and>
    hw_ok s1 \<and> stats s1 = stats (advance_clock s) \<and> due s1 = {#} \<and>
    serves E ((advance_clock s)\<lparr>int_level := IntOff\<rparr>) ps sn \<and> s1 = sn\<lparr>pending := q, int_level := IntOn\<rparr> \<and>
    mset (elems q) = mset (elems (pending sn)) \<and> mset ps = due (advance_clock s) \<and> sorted (map snd ps)"
proof -
  let ?s = "(advance_clock s)\<lparr>int_level := IntOff\<rparr>"
  have "hw_ok ?s" "int_level ?s = IntOff" "mstatus ?s = mstatus s" "due ?s = due (advance_clock s)"
    using assms by (simp_all add: advance_clock_def hw_ok_def due_def)
  then obtain s1 ps sn q where s1: "fire_all_due E ?s = Some (Inr s1)" "hw_ok s1" "stats s1 = stats ?s"
    "mstatus s1 = mstatus s" "serves E ?s ps sn" "s1 = sn\<lparr>pending := q\<rparr>" "mset (elems q) = mset (elems (pending sn))"
    "due s1 = {#}" "mset ps = due (advance_clock s)" "sorted (map snd ps)"
    using fire_all_due_ends [of ?s] assms(2) by auto
  let ?s1 = "s1\<lparr>int_level := IntOn\<rparr>"
  have "OneTick E s = Some (Inr (if yieldOnReturn ?s1
        then (do_yield E (?s1\<lparr>yieldOnReturn := False, mstatus := SystemMode\<rparr>))\<lparr>mstatus := mstatus s\<rparr> else ?s1))"
    using s1(1) by (simp add: OneTick_def Let_def)
  moreover have "hw_ok ?s1" "stats ?s1 = stats (advance_clock s)" "due ?s1 = {#}"
    using s1(2,3,8) by (simp_all add: hw_ok_def due_def)
  moreover have "?s1 = sn\<lparr>pending := q, int_level := IntOn\<rparr>" using s1(6) by simp
  ultimately show ?thesis using s1(5,7,9,10) by blast
qed

text \<open>The idle machine jumps to the time of the earliest interrupt and fires it.\<close>

lemma Idle_jumps:
  assumes s: "hw_ok s" "int_level s = IntOff" "elems (pending s) = (p, k) # es"
    "\<not> (pi_type p = TimerInt \<and> es = [])"
  shows "\<exists>s'. Idle E s = Some (Inr (Idle_returns s')) \<and> hw_ok s' \<and> int_level s' = IntOff \<and>
    mstatus s' = SystemMode \<and> \<not> yieldOnReturn s' \<and>
    totalTicks (stats s') = max k (totalTicks (stats s)) \<and>
    idleTicks (stats s') = idleTicks (stats s) + (totalTicks (stats s') - totalTicks (stats s)) \<and>
    systemTicks (stats s') = systemTicks (stats s) \<and> userTicks (stats s') = userTicks (stats s)"
proof -
  let ?q = "(pending s)\<lparr>elems := es\<rparr>" and ?now = "totalTicks (stats s)"
  define s1 where "s1 = s\<lparr>mstatus := IdleMode, pending := ?q,
    stats := (if k > ?now then (stats s)\<lparr>idleTicks := idleTicks (stats s) + (k - ?now), totalTicks := k\<rparr>
              else stats s)\<rparr>"
  have rm: "SortedRemove (pending s) = (Some (p, k), ?q)" using s(3) by (simp add: SortedRemove_def)
  have "hw_ok s1" "int_level s1 = IntOff" using s by (simp_all add: s1_def hw_ok_def)
  then obtain s2 where s2: "fire E p s1 = Inr s2" "hw_ok s2" "int_level s2 = IntOff" "stats s2 = stats s1"
    using fire_ok by blast
  then obtain s3 where s3: "fire_all_due E s2 = Some (Inr s3)" "hw_ok s3" "int_level s3 = IntOff"
    "stats s3 = stats s1"
    using fire_all_due_ends [of s2] by auto
  have "CheckIfDue E True (s\<lparr>mstatus := IdleMode\<rparr>) = Inr (True, s2)"
    using s rm s2(1) by (cases "k > ?now") (simp_all add: CheckIfDue_def Let_def IsEmpty_def s1_def)
  then have "Idle E s = Some (Inr (Idle_returns (s3\<lparr>yieldOnReturn := False, mstatus := SystemMode\<rparr>)))"
    using s3(1) by (simp add: Idle_def)
  then show ?thesis using s3(2-4) by (auto simp: hw_ok_def s1_def)
qed

end

lemma Idle_halts_when_done:
  assumes "int_level s = IntOff"
    "elems (pending s) = [] \<or> (\<exists>p k. elems (pending s) = [(p, k)] \<and> pi_type p = TimerInt)"
  shows "\<exists>s'. Idle E s = Some (Inr (Idle_halts s'))"
  using assms
  by (auto simp: Idle_def CheckIfDue_def SortedRemove_def IsEmpty_def Let_def)

section \<open>The timer keeps the contract\<close>

lemma TimeOfNextInterrupt_bounds:
  "0 \<le> r \<Longrightarrow> 0 < TimeOfNextInterrupt doRandom r \<and> TimeOfNextInterrupt doRandom r \<le> TimerTicks * 2"
proof -
  have "0 \<le> r mod 200" "r mod 200 < 200" by simp_all
  then have "0 < 1 + r mod 200 \<and> 1 + r mod 200 \<le> 200" by linarith
  then show "0 \<le> r \<Longrightarrow> ?thesis" by (simp add: TimeOfNextInterrupt_def smod_nonneg_eq)
qed

lemma Schedule_ok:
  assumes "hw_ok s" "0 < d"
  shows "\<exists>s'. Schedule h arg d ty s = Inr s' \<and> hw_ok s' \<and> due s' = due s \<and> stats s' = stats s \<and>
    int_level s' = int_level s \<and> inHandler s' = inHandler s \<and> mstatus s' = mstatus s"
  using assms
  by (auto simp: Schedule_def Let_def hw_ok_def due_def SortedInsert_def sorted_ins_walk mset_ins_walk)

lemma Timer_schedule_ok:
  assumes "hw_ok s"
  shows "\<exists>s'. Timer_schedule arg s = Inr s' \<and> hw_ok s' \<and> due s' = due s \<and> stats s' = stats s \<and>
    int_level s' = int_level s \<and> inHandler s' = inHandler s \<and> mstatus s' = mstatus s"
proof -
  define s0 where "s0 = s\<lparr>world := (if randomize (world s)
    then (world s)\<lparr>draws := (\<lambda>i. draws (world s) (Suc i))\<rparr> else world s)\<rparr>"
  have "hw_ok s0" "due s0 = due s" using assms by (simp_all add: s0_def hw_ok_def due_def)
  moreover have "0 < TimeOfNextInterrupt (randomize (world s)) (int (draws (world s) 0))"
    using TimeOfNextInterrupt_bounds by simp
  ultimately show ?thesis
    using Schedule_ok [of s0 "TimeOfNextInterrupt (randomize (world s)) (int (draws (world s) 0))"
        TimerHandler arg TimerInt]
    by (auto simp: Timer_schedule_def Let_def s0_def)
qed

interpretation timer: handler_contract timer_env
proof
  fix s :: timer_hw and h :: timer_handler and arg :: int
  assume "hw_ok s" "int_level s = IntOff" "inHandler s" "mstatus s = SystemMode"
  then obtain s1 where "Timer_schedule arg s = Inr s1" "hw_ok s1" "due s1 = due s" "stats s1 = stats s"
    "int_level s1 = IntOff" "inHandler s1" "mstatus s1 = SystemMode"
    using Timer_schedule_ok [of s arg] by auto
  then show "handler_ok s (run_handler timer_env h arg s)"
    by (simp add: timer_env_def TimerExpired_def TimerInterruptHandler_def YieldOnReturn_def
        handler_ok_def hw_ok_def due_def)
qed

section \<open>Properties of the clock and interrupts\<close>

text \<open>
  C29. \<open>OneTick\<close> returns for handlers that schedule only into the future: the clock advances by
  one tick of the current mode, and exactly the interrupts that have become due are served: the handler of each is called
  once, in the order of their times. What is left is the state after the last handler, with interrupts enabled
  again, the pending list ordered and nothing in it that is due; and a context switch happens exactly if a handler
  (or an earlier one) asked for it.
\<close>

theorem OneTick_fires_all_due:
  assumes "handler_contract E" "hw_ok s" "mstatus s \<noteq> IdleMode"
  shows "\<exists>s1 ps sn q. OneTick E s = Some (Inr (if yieldOnReturn s1
        then (do_yield E (s1\<lparr>yieldOnReturn := False, mstatus := SystemMode\<rparr>))\<lparr>mstatus := mstatus s\<rparr>
        else s1)) \<and>
    serves E ((advance_clock s)\<lparr>int_level := IntOff\<rparr>) ps sn \<and> mset ps = due (advance_clock s) \<and> sorted (map snd ps) \<and>
    s1 = sn\<lparr>pending := q, int_level := IntOn\<rparr> \<and> mset (elems q) = mset (elems (pending sn)) \<and>
    hw_ok s1 \<and> int_level s1 = IntOn \<and>
    totalTicks (stats s1) = totalTicks (stats s) + (if mstatus s = SystemMode then 10 else 1) \<and>
    totalTicks (stats s1) - idleTicks (stats s1) - systemTicks (stats s1) - userTicks (stats s1) =
      totalTicks (stats s) - idleTicks (stats s) - systemTicks (stats s) - userTicks (stats s) \<and>
    (\<forall>(p, k)\<in>set (elems (pending s1)). totalTicks (stats s1) < k)"
proof -
  obtain s1 ps sn q where s1: "OneTick E s = Some (Inr (if yieldOnReturn s1
        then (do_yield E (s1\<lparr>yieldOnReturn := False, mstatus := SystemMode\<rparr>))\<lparr>mstatus := mstatus s\<rparr>
        else s1))"
    "hw_ok s1" "stats s1 = stats (advance_clock s)" "due s1 = {#}"
    "serves E ((advance_clock s)\<lparr>int_level := IntOff\<rparr>) ps sn" "s1 = sn\<lparr>pending := q, int_level := IntOn\<rparr>"
    "mset (elems q) = mset (elems (pending sn))" "mset ps = due (advance_clock s)" "sorted (map snd ps)"
    using handler_contract.OneTick_ends [OF assms] by blast
  moreover have "\<forall>(p, k)\<in>set (elems (pending s1)). totalTicks (stats s1) < k"
    using s1(4) by (fastforce simp: due_def filter_empty_conv simp flip: mset_filter)
  moreover have "totalTicks (stats s1) = totalTicks (stats s) + (if mstatus s = SystemMode then 10 else 1)"
    "totalTicks (stats s1) - idleTicks (stats s1) - systemTicks (stats s1) - userTicks (stats s1) =
      totalTicks (stats s) - idleTicks (stats s) - systemTicks (stats s) - userTicks (stats s)"
    using s1(3) by (simp_all add: advance_clock_def)
  moreover have "int_level s1 = IntOn" using s1(6) by simp
  ultimately show ?thesis by blast
qed

text \<open>
  \<open>Idle\<close> either returns or halts. With an interrupt pending that is not just the time-slice
  timer, the clock jumps exactly to the time of the earliest one (never backwards), the jump is
  booked as idle time, and \<open>Idle\<close> returns in system mode; with nothing pending, or only the
  timer, the machine halts.
\<close>

theorem Idle_jumps_or_halts:
  assumes "handler_contract E" "hw_ok s" "int_level s = IntOff"
  shows "case elems (pending s) of
      [] \<Rightarrow> \<exists>s'. Idle E s = Some (Inr (Idle_halts s'))
    | (p, k) # es \<Rightarrow>
        if pi_type p = TimerInt \<and> es = [] then \<exists>s'. Idle E s = Some (Inr (Idle_halts s'))
        else \<exists>s'. Idle E s = Some (Inr (Idle_returns s')) \<and> hw_ok s' \<and> mstatus s' = SystemMode \<and>
          totalTicks (stats s') = max k (totalTicks (stats s)) \<and>
          idleTicks (stats s') - idleTicks (stats s) = totalTicks (stats s') - totalTicks (stats s)"
proof (cases "elems (pending s)")
  case Nil
  then show ?thesis using Idle_halts_when_done [OF assms(3)] by simp
next
  case (Cons e es)
  then obtain p k where "elems (pending s) = (p, k) # es" by (cases e) auto
  then show ?thesis
    using Idle_halts_when_done [OF assms(3)] handler_contract.Idle_jumps [OF assms, of p k es] by auto
qed

definition two_pending :: timer_hw where
  "two_pending = \<lparr>int_level = IntOff,
     pending = \<lparr>elems = [(\<lparr>pi_handler = TimerHandler, pi_arg = 0, pi_when = 70, pi_type = DiskInt\<rparr>, 70),
                        (\<lparr>pi_handler = TimerHandler, pi_arg = 0, pi_when = 100, pi_type = TimerInt\<rparr>, 100)],
                nsize = 2\<rparr>,
     inHandler = False, yieldOnReturn = False, mstatus = SystemMode,
     stats = \<lparr>totalTicks = 65, idleTicks = 5, systemTicks = 50, userTicks = 10\<rparr>,
     world = \<lparr>randomize = False, draws = (\<lambda>_. 0)\<rparr>\<rparr>"

theorem OneTick_fires_all_due_witness:
  "\<exists>s1 e sn. serves timer_env ((advance_clock two_pending)\<lparr>int_level := IntOff\<rparr>) [e] sn \<and> snd e = 70 \<and> yieldOnReturn sn \<and>
     OneTick timer_env two_pending = Some (Inr s1)"
proof -
  let ?d = "(\<lparr>pi_handler = TimerHandler, pi_arg = 0, pi_when = 70, pi_type = DiskInt\<rparr>, 70)"
  have "hw_ok two_pending" "mstatus two_pending \<noteq> IdleMode" by (simp_all add: two_pending_def hw_ok_def)
  from OneTick_fires_all_due [OF timer.handler_contract_axioms this] obtain s1 ps sn where
    "OneTick timer_env two_pending = Some (Inr s1)" and s: "serves timer_env ((advance_clock two_pending)\<lparr>int_level := IntOff\<rparr>) ps sn"
    and "mset ps = due (advance_clock two_pending)" by blast
  moreover from this(3) have "mset ps = {#?d#}"
    by (simp add: due_def advance_clock_def two_pending_def)
  then have ps: "ps = [?d]" by simp
  moreover have "yieldOnReturn sn"
    using s unfolding ps
    by (auto simp: two_pending_def advance_clock_def timer_env_def TimerExpired_def TimerInterruptHandler_def YieldOnReturn_def
        Timer_schedule_def Schedule_def Let_def TimeOfNextInterrupt_def elim!: serves.cases)
  ultimately show ?thesis by fastforce
qed

theorem Idle_jumps_or_halts_witness:
  "\<exists>s1. Idle timer_env two_pending = Some (Inr (Idle_returns s1)) \<and> totalTicks (stats s1) = 70"
proof -
  have "hw_ok two_pending" "int_level two_pending = IntOff" by (simp_all add: two_pending_def hw_ok_def)
  from Idle_jumps_or_halts [OF timer.handler_contract_axioms this] show ?thesis
    by (auto simp: two_pending_def)
qed

text \<open>
  The timer always schedules its next interrupt between 1 and 200 ticks ahead (exactly 100
  when it is not random), so the assertion of \<open>Schedule\<close> never fails for it.
\<close>

theorem timer_period:
  assumes "hw_ok s"
  shows "\<exists>s' d. Timer_schedule arg s = Inr s' \<and> hw_ok s' \<and> 1 \<le> d \<and> d \<le> 200 \<and>
    (\<not> randomize (world s) \<longrightarrow> d = 100) \<and>
    mset (elems (pending s')) = add_mset
      (\<lparr>pi_handler = TimerHandler, pi_arg = arg, pi_when = totalTicks (stats s) + d, pi_type = TimerInt\<rparr>,
       totalTicks (stats s) + d) (mset (elems (pending s)))"
proof -
  let ?d = "TimeOfNextInterrupt (randomize (world s)) (int (draws (world s) 0))"
  have d: "0 < ?d" "?d \<le> 200" using TimeOfNextInterrupt_bounds [of "int (draws (world s) 0)"] by simp_all
  obtain s' where s': "Timer_schedule arg s = Inr s'" "hw_ok s'" using Timer_schedule_ok [OF assms] by blast
  moreover have "\<not> randomize (world s) \<Longrightarrow> ?d = 100" by (simp add: TimeOfNextInterrupt_def)
  moreover have "mset (elems (pending s')) = add_mset
      (\<lparr>pi_handler = TimerHandler, pi_arg = arg, pi_when = totalTicks (stats s) + ?d, pi_type = TimerInt\<rparr>,
       totalTicks (stats s) + ?d) (mset (elems (pending s)))"
    using s'(1) d(1) by (auto simp: Timer_schedule_def Schedule_def Let_def SortedInsert_def mset_ins_walk)
  ultimately show ?thesis using d by (metis int_one_le_iff_zero_less)
qed

theorem timer_period_witness: "\<exists>s'. Timer_schedule 7 two_pending = Inr s' \<and> hw_ok s'"
  using timer_period [of two_pending 7] by (auto simp: two_pending_def hw_ok_def)

end
