(* ===== verification/Nachos_Machine.thy ===== *)
theory Nachos_Machine
  imports Nachos_Prelude
begin

unbundle bit_operations_syntax

text \<open>
  The simulated processor's memory system and registers: \<^verbatim>\<open>machine/translate.cc\<close>,
  \<^verbatim>\<open>machine/machine.cc\<close> and the data of \<^verbatim>\<open>machine/machine.h\<close> and
  \<^verbatim>\<open>machine/translate.h\<close>.

  An \<^verbatim>\<open>int\<close> is a 32-bit word; where the code casts to unsigned the word is read with
  \<open>unat\<close>. The arrays of registers, memory bytes and page time stamps are functions on the
  naturals, with the bounds checked where the code accesses them through an address. The kernel's
  \<open>ExceptionHandler\<close> is a parameter \<open>K\<close> of the routines that may raise an exception, since it is
  the operating system above this machine. The byte order of the host is a field, because the
  code is compiled for both.
\<close>

section \<open>State\<close>

datatype ExceptionType =
    NoException | SyscallException | PageFaultException | ReadOnlyException | BusErrorException
  | AddressErrorException | OverflowException | IllegalInstrException

record TranslationEntry =
  virtualPage :: "32 word"
  physicalPage :: "32 word"
  valid :: bool
  readOnly :: bool
  te_use :: bool
  dirty :: bool

record Machine =
  registers :: "nat \<Rightarrow> 32 word"
  mainMemory :: "nat \<Rightarrow> 8 word"
  tlb :: "TranslationEntry list option"
  pageTable :: "TranslationEntry list option"
  pageTableSize :: nat
  lastUsed :: "nat \<Rightarrow> int"
  ticks :: int
  status :: MachineStatus
  host_big_endian :: bool

abbreviation StackReg :: nat where "StackReg \<equiv> 29"
abbreviation RetAddrReg :: nat where "RetAddrReg \<equiv> 31"
abbreviation HiReg :: nat where "HiReg \<equiv> 32"
abbreviation LoReg :: nat where "LoReg \<equiv> 33"
abbreviation PCReg :: nat where "PCReg \<equiv> 34"
abbreviation NextPCReg :: nat where "NextPCReg \<equiv> 35"
abbreviation PrevPCReg :: nat where "PrevPCReg \<equiv> 36"
abbreviation LoadReg :: nat where "LoadReg \<equiv> 37"
abbreviation LoadValueReg :: nat where "LoadValueReg \<equiv> 38"
abbreviation BadVAddrReg :: nat where "BadVAddrReg \<equiv> 39"
abbreviation NumTotalRegs :: nat where "NumTotalRegs \<equiv> 40"

definition setreg :: "Machine \<Rightarrow> nat \<Rightarrow> 32 word \<Rightarrow> Machine" where
  "setreg m i v = m\<lparr>registers := (registers m)(i := v)\<rparr>"

lemma setreg_simps [simp]:
  "registers (setreg m i v) = (registers m)(i := v)" "mainMemory (setreg m i v) = mainMemory m"
  "tlb (setreg m i v) = tlb m" "pageTable (setreg m i v) = pageTable m"
  "pageTableSize (setreg m i v) = pageTableSize m" "lastUsed (setreg m i v) = lastUsed m"
  "ticks (setreg m i v) = ticks m" "status (setreg m i v) = status m"
  "host_big_endian (setreg m i v) = host_big_endian m"
  by (simp_all add: setreg_def)

text \<open>The constructor: \<open>with_tlb\<close> is the compile-time switch \<^verbatim>\<open>USE_TLB\<close>.\<close>

definition Machine_new :: "bool \<Rightarrow> bool \<Rightarrow> int \<Rightarrow> TranslationEntry list \<Rightarrow> Machine" where
  "Machine_new big with_tlb now garbage =
     \<lparr>registers = (\<lambda>_. 0), mainMemory = (\<lambda>_. 0),
      tlb = (if with_tlb then Some (map (\<lambda>e. e\<lparr>valid := False\<rparr>) (take 4 garbage)) else None),
      pageTable = None, pageTableSize = 0, lastUsed = (\<lambda>_. now), ticks = now, status = SystemMode,
      host_big_endian = big\<rparr>"

definition getTimeUsed :: "Machine \<Rightarrow> int \<Rightarrow> int" where
  "getTimeUsed m pageNo =
     (if pageNo < 0 \<or> pageNo \<ge> NumPhysPages then -1 else lastUsed m (nat pageNo))"

definition ReadRegister :: "Machine \<Rightarrow> int \<Rightarrow> 32 word res" where
  "ReadRegister m num =
     bindE (ASSERT (num \<ge> 0 \<and> num < int NumTotalRegs)) (\<lambda>_. Inr (registers m (nat num)))"

definition WriteRegister :: "Machine \<Rightarrow> int \<Rightarrow> 32 word \<Rightarrow> Machine res" where
  "WriteRegister m num v =
     bindE (ASSERT (num \<ge> 0 \<and> num < int NumTotalRegs)) (\<lambda>_. Inr (setreg m (nat num) v))"

section \<open>Byte order\<close>

definition WordToHost :: "bool \<Rightarrow> 32 word \<Rightarrow> 32 word" where
  "WordToHost big word =
     (if big then
        (drop_bit 24 word AND 0x000000ff) OR (drop_bit 8 word AND 0x0000ff00) OR
        (push_bit 8 word AND 0x00ff0000) OR (push_bit 24 word AND 0xff000000)
      else word)"

definition ShortToHost :: "bool \<Rightarrow> 16 word \<Rightarrow> 16 word" where
  "ShortToHost big shortword =
     (if big then (push_bit 8 shortword AND 0xff00) OR (drop_bit 8 shortword AND 0x00ff)
      else shortword)"

definition WordToMachine :: "bool \<Rightarrow> 32 word \<Rightarrow> 32 word" where
  "WordToMachine big word = WordToHost big word"

definition ShortToMachine :: "bool \<Rightarrow> 16 word \<Rightarrow> 16 word" where
  "ShortToMachine big shortword = ShortToHost big shortword"

text \<open>
  A load or store of the host at an address: the bytes from the least significant end on a
  little-endian host, from the most significant end on a big-endian one.
\<close>

definition host_load4 :: "bool \<Rightarrow> (nat \<Rightarrow> 8 word) \<Rightarrow> nat \<Rightarrow> 32 word" where
  "host_load4 big mem a =
     (let b = (\<lambda>i. ucast (mem (a + i)) :: 32 word) in
      if big then push_bit 24 (b 0) OR push_bit 16 (b 1) OR push_bit 8 (b 2) OR b 3
      else push_bit 24 (b 3) OR push_bit 16 (b 2) OR push_bit 8 (b 1) OR b 0)"

definition host_load2 :: "bool \<Rightarrow> (nat \<Rightarrow> 8 word) \<Rightarrow> nat \<Rightarrow> 16 word" where
  "host_load2 big mem a =
     (let b = (\<lambda>i. ucast (mem (a + i)) :: 16 word) in
      if big then push_bit 8 (b 0) OR b 1 else push_bit 8 (b 1) OR b 0)"

definition host_store4 :: "bool \<Rightarrow> (nat \<Rightarrow> 8 word) \<Rightarrow> nat \<Rightarrow> 32 word \<Rightarrow> nat \<Rightarrow> 8 word" where
  "host_store4 big mem a w =
     (let c = (\<lambda>k. ucast (drop_bit (8 * k) w) :: 8 word) in
      if big then mem(a := c 3, a + 1 := c 2, a + 2 := c 1, a + 3 := c 0)
      else mem(a := c 0, a + 1 := c 1, a + 2 := c 2, a + 3 := c 3))"

definition host_store2 :: "bool \<Rightarrow> (nat \<Rightarrow> 8 word) \<Rightarrow> nat \<Rightarrow> 16 word \<Rightarrow> nat \<Rightarrow> 8 word" where
  "host_store2 big mem a w =
     (let c = (\<lambda>k. ucast (drop_bit (8 * k) w) :: 8 word) in
      if big then mem(a := c 1, a + 1 := c 0) else mem(a := c 0, a + 1 := c 1))"

section \<open>Address translation\<close>

text \<open>The search of the TLB: the index of the first valid entry for the page.\<close>

fun tlb_search :: "TranslationEntry list \<Rightarrow> nat \<Rightarrow> nat \<Rightarrow> nat option" where
  "tlb_search [] vpn i = None"
| "tlb_search (e # es) vpn i =
     (if valid e \<and> unat (virtualPage e) = vpn then Some i else tlb_search es vpn (Suc i))"

datatype table_kind = In_TLB | In_pageTable

text \<open>Which entry translates the page: the exception, or the table and the index.\<close>

definition find_entry :: "Machine \<Rightarrow> nat \<Rightarrow> (ExceptionType + table_kind \<times> nat \<times> TranslationEntry) res" where
  "find_entry m vpn =
     (case (tlb m, pageTable m) of
        (None, Some pt) \<Rightarrow>
          if vpn \<ge> pageTableSize m then Inr (Inl AddressErrorException)
          else bindE (array_get pt (int vpn)) (\<lambda>e.
                 if \<not> valid e then Inr (Inl PageFaultException) else Inr (Inr (In_pageTable, vpn, e)))
      | (Some t, None) \<Rightarrow>
          (case tlb_search (take 4 t) vpn 0 of
             None \<Rightarrow> Inr (Inl PageFaultException)
           | Some i \<Rightarrow> Inr (Inr (In_TLB, i, t ! i)))
      | _ \<Rightarrow> Inl AssertionFailed)"

definition set_entry :: "Machine \<Rightarrow> table_kind \<Rightarrow> nat \<Rightarrow> TranslationEntry \<Rightarrow> Machine" where
  "set_entry m kind i e =
     (case kind of
        In_TLB \<Rightarrow> m\<lparr>tlb := map_option (\<lambda>t. t[i := e]) (tlb m)\<rparr>
      | In_pageTable \<Rightarrow> m\<lparr>pageTable := map_option (\<lambda>t. t[i := e]) (pageTable m)\<rparr>)"

definition Translate :: "Machine \<Rightarrow> 32 word \<Rightarrow> int \<Rightarrow> bool \<Rightarrow> (ExceptionType \<times> int \<times> Machine) res" where
  "Translate m virtAddr sz writing =
     (if sz = 4 \<and> virtAddr AND 3 \<noteq> 0 \<or> sz = 2 \<and> virtAddr AND 1 \<noteq> 0
      then Inr (AddressErrorException, 0, m)
      else
        (let vpn = unat virtAddr div 128; offset = unat virtAddr mod 128 in
         bindE (find_entry m vpn) (\<lambda>r.
           case r of
             Inl exc \<Rightarrow> Inr (exc, 0, m)
           | Inr (kind, i, e) \<Rightarrow>
               if readOnly e \<and> writing then Inr (ReadOnlyException, 0, m)
               else if int (unat (physicalPage e)) \<ge> NumPhysPages then Inr (BusErrorException, 0, m)
               else
                 (let e' = e\<lparr>te_use := True, dirty := (if writing then True else dirty e)\<rparr>;
                      physAddr = int (unat (physicalPage e)) * PageSize + int offset
                  in bindE (ASSERT (physAddr \<ge> 0 \<and> physAddr + sz \<le> MemorySize)) (\<lambda>_.
                       Inr (NoException, physAddr, set_entry m kind i e'))))))"

section \<open>Exceptions and memory access\<close>

definition DelayedLoad :: "Machine \<Rightarrow> 32 word \<Rightarrow> 32 word \<Rightarrow> Machine" where
  "DelayedLoad m nextReg nextValue =
     (let m1 = setreg m (unat (registers m LoadReg)) (registers m LoadValueReg);
          m2 = setreg m1 LoadReg nextReg;
          m3 = setreg m2 LoadValueReg nextValue
      in setreg m3 0 0)"

type_synonym kernel_entry = "ExceptionType \<Rightarrow> Machine \<Rightarrow> Machine res"

definition RaiseException :: "kernel_entry \<Rightarrow> ExceptionType \<Rightarrow> 32 word \<Rightarrow> Machine \<Rightarrow> Machine res" where
  "RaiseException K which badVAddr m =
     (let m1 = DelayedLoad (setreg m BadVAddrReg badVAddr) 0 0 in
      bindE (K which (m1\<lparr>status := SystemMode\<rparr>)) (\<lambda>m2. Inr (m2\<lparr>status := UserMode\<rparr>)))"

text \<open>\<open>None\<close> is the result \<open>FALSE\<close>: an exception was raised and handled.\<close>

definition ReadMem :: "kernel_entry \<Rightarrow> Machine \<Rightarrow> 32 word \<Rightarrow> int \<Rightarrow> (32 word option \<times> Machine) res" where
  "ReadMem K m addr sz =
     bindE (Translate m addr sz False) (\<lambda>(exception, physicalAddress, m1).
       if exception \<noteq> NoException then bindE (RaiseException K exception addr m1) (\<lambda>m2. Inr (None, m2))
       else
         (let a = nat physicalAddress; big = host_big_endian m1;
              m2 = m1\<lparr>lastUsed := (lastUsed m1)(a div 128 := ticks m1)\<rparr>
          in if sz = 1 then Inr (Some (scast (mainMemory m1 a)), m2)
             else if sz = 2 then Inr (Some (ucast (ShortToHost big (host_load2 big (mainMemory m1) a))), m2)
             else if sz = 4 then Inr (Some (WordToHost big (host_load4 big (mainMemory m1) a)), m2)
             else Inl AssertionFailed))"

definition WriteMem :: "kernel_entry \<Rightarrow> Machine \<Rightarrow> 32 word \<Rightarrow> int \<Rightarrow> 32 word \<Rightarrow> (bool \<times> Machine) res" where
  "WriteMem K m addr sz v =
     bindE (Translate m addr sz True) (\<lambda>(exception, physicalAddress, m1).
       if exception \<noteq> NoException then bindE (RaiseException K exception addr m1) (\<lambda>m2. Inr (False, m2))
       else
         (let a = nat physicalAddress; big = host_big_endian m1; mem = mainMemory m1;
              stamp = (\<lambda>mem'. m1\<lparr>mainMemory := mem', lastUsed := (lastUsed m1)(a div 128 := ticks m1)\<rparr>)
          in if sz = 1 then Inr (True, stamp (mem(a := ucast (v AND 0xff))))
             else if sz = 2 then Inr (True, stamp (host_store2 big mem a (ShortToMachine big (ucast (v AND 0xffff)))))
             else if sz = 4 then Inr (True, stamp (host_store4 big mem a (WordToMachine big v)))
             else Inl AssertionFailed))"

section \<open>Byte order does not matter\<close>

definition le_word :: "(nat \<Rightarrow> 8 word) \<Rightarrow> nat \<Rightarrow> 32 word" where
  "le_word mem a = push_bit 24 (ucast (mem (a + 3))) OR push_bit 16 (ucast (mem (a + 2))) OR
     push_bit 8 (ucast (mem (a + 1))) OR ucast (mem a)"

definition le_short :: "(nat \<Rightarrow> 8 word) \<Rightarrow> nat \<Rightarrow> 16 word" where
  "le_short mem a = push_bit 8 (ucast (mem (a + 1))) OR ucast (mem a)"

definition store_le_word :: "(nat \<Rightarrow> 8 word) \<Rightarrow> nat \<Rightarrow> 32 word \<Rightarrow> nat \<Rightarrow> 8 word" where
  "store_le_word mem a w =
     mem(a := ucast w, a + 1 := ucast (drop_bit 8 w), a + 2 := ucast (drop_bit 16 w),
         a + 3 := ucast (drop_bit 24 w))"

lemma byte_cases:
  assumes "n < (32 :: nat)"
  obtains "n < 8" | "8 \<le> n" "n < 16" | "16 \<le> n" "n < 24" | "24 \<le> n" "n < 32"
  using assms by linarith

lemma byte_lane_masks:
  "bit (0x000000ff :: 32 word) n \<longleftrightarrow> n < 8"
  "bit (0x0000ff00 :: 32 word) n \<longleftrightarrow> 8 \<le> n \<and> n < 16"
  "bit (0x00ff0000 :: 32 word) n \<longleftrightarrow> 16 \<le> n \<and> n < 24"
  "bit (0xff000000 :: 32 word) n \<longleftrightarrow> 24 \<le> n \<and> n < 32"
proof -
  have m: "(0x000000ff :: 32 word) = mask 8" "(0x0000ff00 :: 32 word) = push_bit 8 (mask 8)"
    "(0x00ff0000 :: 32 word) = push_bit 16 (mask 8)" "(0xff000000 :: 32 word) = push_bit 24 (mask 8)"
    by (simp_all add: mask_eq_exp_minus_1 push_bit_eq_mult)
  show "bit (0x000000ff :: 32 word) n \<longleftrightarrow> n < 8"
    "bit (0x0000ff00 :: 32 word) n \<longleftrightarrow> 8 \<le> n \<and> n < 16"
    "bit (0x00ff0000 :: 32 word) n \<longleftrightarrow> 16 \<le> n \<and> n < 24"
    "bit (0xff000000 :: 32 word) n \<longleftrightarrow> 24 \<le> n \<and> n < 32"
    unfolding m by (auto simp: bit_mask_iff bit_push_bit_iff)
qed

lemma not_bit_byte: "8 \<le> k \<Longrightarrow> \<not> bit (w :: 8 word) k"
  using bit_imp_le_length [of w k] by auto

lemmas lane_simps = bit_or_iff bit_and_iff bit_push_bit_iff bit_drop_bit_eq bit_unsigned_iff
  byte_lane_masks not_bit_byte

lemma load4_any_host: "WordToHost big (host_load4 big mem a) = le_word mem a"
proof (cases big)
  case True
  show ?thesis
  proof (rule bit_eqI)
    fix n assume "possible_bit TYPE(32 word) n"
    then have "n < 32" by simp
    then show "bit (WordToHost big (host_load4 big mem a)) n = bit (le_word mem a) n"
      using True
      by (cases rule: byte_cases)
        (auto simp: WordToHost_def host_load4_def le_word_def lane_simps Let_def simp del: bit_numeral_word_iff)
  qed
next
  case False
  then show ?thesis by (simp add: WordToHost_def host_load4_def le_word_def Let_def)
qed

lemma byte_eqI: "(\<And>n. n < 8 \<Longrightarrow> bit v n = bit w n) \<Longrightarrow> v = (w :: 8 word)"
  by (rule bit_eqI) simp

lemma store4_any_host: "host_store4 big mem a (WordToMachine big w) = store_le_word mem a w"
proof (cases big)
  case True
  have "ucast (drop_bit 24 (WordToHost True w)) = (ucast w :: 8 word)"
    "ucast (drop_bit 16 (WordToHost True w)) = (ucast (drop_bit 8 w) :: 8 word)"
    "ucast (drop_bit 8 (WordToHost True w)) = (ucast (drop_bit 16 w) :: 8 word)"
    "ucast (WordToHost True w) = (ucast (drop_bit 24 w) :: 8 word)"
    by (rule byte_eqI; simp add: WordToHost_def lane_simps del: bit_numeral_word_iff)+
  then show ?thesis using True by (simp add: host_store4_def store_le_word_def WordToMachine_def Let_def)
next
  case False
  then show ?thesis by (simp add: host_store4_def store_le_word_def WordToMachine_def WordToHost_def Let_def)
qed

lemma le_word_store: "le_word (store_le_word mem a w) a = w"
proof (rule bit_eqI)
  fix n assume "possible_bit TYPE(32 word) n"
  then have "n < 32" by simp
  then show "bit (le_word (store_le_word mem a w) a) n = bit w n"
    by (cases rule: byte_cases) (auto simp: le_word_def store_le_word_def lane_simps)
qed

lemma short_lane_masks:
  "bit (0xff00 :: 16 word) n \<longleftrightarrow> 8 \<le> n \<and> n < 16" "bit (0x00ff :: 16 word) n \<longleftrightarrow> n < 8"
proof -
  have m: "(0xff00 :: 16 word) = push_bit 8 (mask 8)" "(0x00ff :: 16 word) = mask 8"
    by (simp_all add: mask_eq_exp_minus_1 push_bit_eq_mult)
  show "bit (0xff00 :: 16 word) n \<longleftrightarrow> 8 \<le> n \<and> n < 16" "bit (0x00ff :: 16 word) n \<longleftrightarrow> n < 8"
    unfolding m by (auto simp: bit_mask_iff bit_push_bit_iff)
qed

lemma load2_any_host: "ShortToHost big (host_load2 big mem a) = le_short mem a"
proof (cases big)
  case True
  show ?thesis
  proof (rule bit_eqI)
    fix n assume "possible_bit TYPE(16 word) n"
    then have "n < 8 \<or> 8 \<le> n \<and> n < 16" by auto
    then show "bit (ShortToHost big (host_load2 big mem a)) n = bit (le_short mem a) n"
      using True
      by (elim disjE) (auto simp: ShortToHost_def host_load2_def le_short_def lane_simps short_lane_masks
          Let_def simp del: bit_numeral_word_iff)
  qed
next
  case False
  then show ?thesis by (simp add: ShortToHost_def host_load2_def le_short_def Let_def)
qed

lemma store2_any_host:
  "host_store2 big mem a (ShortToMachine big w) = mem(a := ucast w, a + 1 := ucast (drop_bit 8 w))"
proof (cases big)
  case True
  have "ucast (drop_bit 8 (ShortToHost True w)) = (ucast w :: 8 word)"
    "ucast (ShortToHost True w) = (ucast (drop_bit 8 w) :: 8 word)"
    by (rule byte_eqI; simp add: ShortToHost_def lane_simps short_lane_masks del: bit_numeral_word_iff)+
  then show ?thesis using True by (simp add: host_store2_def ShortToMachine_def Let_def)
next
  case False
  then show ?thesis by (simp add: host_store2_def ShortToMachine_def ShortToHost_def Let_def)
qed

lemma le_short_store: "le_short (mem(a := ucast w, a + 1 := ucast (drop_bit 8 w))) a = w"
proof (rule bit_eqI)
  fix n assume "possible_bit TYPE(16 word) n"
  then have "n < 8 \<or> 8 \<le> n \<and> n < 16" by auto
  then show "bit (le_short (mem(a := ucast w, a + 1 := ucast (drop_bit 8 w))) a) n = bit w n"
    by (elim disjE) (auto simp: le_short_def lane_simps)
qed

section \<open>Translation\<close>

text \<open>Exactly one translation table; a page table has the size it claims.\<close>

definition mach_ok :: "Machine \<Rightarrow> bool" where
  "mach_ok m \<longleftrightarrow> (case (tlb m, pageTable m) of
     (Some t, None) \<Rightarrow> length t = 4 | (None, Some pt) \<Rightarrow> length pt = pageTableSize m | _ \<Rightarrow> False)"

lemma tlb_search_Some:
  "tlb_search es vpn i = Some j \<Longrightarrow>
   i \<le> j \<and> j - i < length es \<and> valid (es ! (j - i)) \<and> unat (virtualPage (es ! (j - i))) = vpn \<and>
   (\<forall>k < j - i. \<not> (valid (es ! k) \<and> unat (virtualPage (es ! k)) = vpn))"
proof (induction es vpn i rule: tlb_search.induct)
  case (2 e es vpn i)
  show ?case
  proof (cases "valid e \<and> unat (virtualPage e) = vpn")
    case True
    then show ?thesis using "2.prems" by simp
  next
    case False
    then have IH: "Suc i \<le> j \<and> j - Suc i < length es \<and> valid (es ! (j - Suc i)) \<and>
        unat (virtualPage (es ! (j - Suc i))) = vpn \<and>
        (\<forall>k < j - Suc i. \<not> (valid (es ! k) \<and> unat (virtualPage (es ! k)) = vpn))"
      using 2 by auto
    then have "j - i = Suc (j - Suc i)" by (intro Suc_diff_Suc [symmetric] Suc_le_lessD) simp
    then show ?thesis using IH False by (auto simp: nth_Cons split: nat.splits)
  qed
qed simp

lemma tlb_search_None: "tlb_search es vpn i = None \<longleftrightarrow> (\<forall>e\<in>set es. \<not> (valid e \<and> unat (virtualPage e) = vpn))"
  by (induction es vpn i rule: tlb_search.induct) auto

definition table_of :: "Machine \<Rightarrow> table_kind \<Rightarrow> TranslationEntry list" where
  "table_of m kind = (case kind of In_TLB \<Rightarrow> (case tlb m of Some t \<Rightarrow> t | None \<Rightarrow> [])
     | In_pageTable \<Rightarrow> (case pageTable m of Some t \<Rightarrow> t | None \<Rightarrow> []))"

lemma find_entry_total:
  assumes "mach_ok m"
  obtains (exc) e where "find_entry m vpn = Inr (Inl e)" "e \<in> {AddressErrorException, PageFaultException}"
  | (entry) kind i e where "find_entry m vpn = Inr (Inr (kind, i, e))" "i < length (table_of m kind)"
      "table_of m kind ! i = e" "valid e" "kind = In_TLB \<longrightarrow> unat (virtualPage e) = vpn"
      "kind = In_pageTable \<longrightarrow> i = vpn"
proof -
  consider t where "tlb m = Some t" "pageTable m = None" "length t = 4"
    | pt where "tlb m = None" "pageTable m = Some pt" "length pt = pageTableSize m"
    using assms by (auto simp: mach_ok_def split: option.splits)
  then show ?thesis
  proof cases
    case (1 t)
    show ?thesis
    proof (cases "tlb_search t vpn 0")
      case None
      then show ?thesis using 1 exc by (simp add: find_entry_def)
    next
      case (Some i)
      from tlb_search_Some [OF this] show ?thesis
        using 1 Some entry [of In_TLB i "t ! i"] by (simp add: find_entry_def table_of_def)
    qed
  next
    case (2 pt)
    then show ?thesis
      using exc entry [of In_pageTable vpn "pt ! vpn"]
      by (cases "vpn < length pt"; cases "valid (pt ! vpn)")
        (simp_all add: find_entry_def array_get_def table_of_def)
  qed
qed

lemma and3_mod: "(w :: 32 word) AND 3 = 0 \<longleftrightarrow> uint w mod 4 = 0"
  and and1_mod: "(w :: 32 word) AND 1 = 0 \<longleftrightarrow> uint w mod 2 = 0"
proof -
  have "w AND 3 = take_bit 2 w" "w AND 1 = take_bit 1 w"
    by (simp_all add: take_bit_eq_mask mask_eq_exp_minus_1)
  moreover have "uint (take_bit 2 w) = uint w mod 4" "uint (take_bit 1 w) = uint w mod 2"
    unfolding unsigned_take_bit_eq by (simp_all add: take_bit_eq_mod)
  ultimately show "w AND 3 = 0 \<longleftrightarrow> uint w mod 4 = 0" "w AND 1 = 0 \<longleftrightarrow> uint w mod 2 = 0"
    by (metis uint_0_iff)+
qed

definition misaligned :: "32 word \<Rightarrow> int \<Rightarrow> bool" where
  "misaligned va sz \<longleftrightarrow> uint va mod sz \<noteq> 0"

lemma aligned_iff:
  "sz \<in> {1, 2, 4} \<Longrightarrow>
   misaligned va sz \<longleftrightarrow> sz = 4 \<and> va AND 3 \<noteq> 0 \<or> sz = 2 \<and> va AND 1 \<noteq> 0"
  unfolding misaligned_def and3_mod and1_mod by auto

lemma Translate_misaligned:
  assumes "sz \<in> {1, 2, 4}" "misaligned va sz"
  shows "Translate m va sz w = Inr (AddressErrorException, 0, m)"
  using assms(2) unfolding aligned_iff [OF assms(1)] Translate_def by simp

lemma offset_fits:
  assumes "sz \<in> {1, 2, 4}" "\<not> misaligned va sz"
  shows "int (unat va mod 128) + sz \<le> 128"
proof -
  define n where "n = uint va"
  have n: "int (unat va mod 128) = n mod 128" by (simp add: n_def zmod_int)
  have "n mod sz = 0" using assms(2) by (simp add: misaligned_def n_def)
  then consider "sz = 1" | "sz = 2" "n mod 2 = 0" | "sz = 4" "n mod 4 = 0" using assms(1) by auto
  then show ?thesis unfolding n by cases presburger+
qed

text \<open>A translation that succeeds.\<close>

definition translated :: "Machine \<Rightarrow> 32 word \<Rightarrow> int \<Rightarrow> bool \<Rightarrow> int \<Rightarrow> Machine \<Rightarrow> bool" where
  "translated m va sz writing pa m' \<longleftrightarrow>
     (\<exists>kind i e. find_entry m (unat va div 128) = Inr (Inr (kind, i, e)) \<and>
        i < length (table_of m kind) \<and> table_of m kind ! i = e \<and> valid e \<and>
        (kind = In_TLB \<longrightarrow> unat (virtualPage e) = unat va div 128) \<and>
        (kind = In_pageTable \<longrightarrow> i = unat va div 128) \<and>
        \<not> (readOnly e \<and> writing) \<and> unat (physicalPage e) < 4096 \<and>
        pa = int (unat (physicalPage e)) * 128 + int (unat va mod 128) \<and>
        m' = set_entry m kind i (e\<lparr>te_use := True, dirty := (writing \<or> dirty e)\<rparr>))"

lemma Translate_cases:
  assumes "mach_ok m" "sz \<in> {1, 2, 4}"
  obtains (refused) exc where "Translate m va sz w = Inr (exc, 0, m)" "exc \<noteq> NoException"
  | (success) pa m' where "Translate m va sz w = Inr (NoException, pa, m')" "translated m va sz w pa m'"
      "0 \<le> pa" "pa + sz \<le> 524288" "pa div 128 = (pa + sz - 1) div 128" "\<not> misaligned va sz"
proof (cases "misaligned va sz")
  case True
  then show ?thesis using refused Translate_misaligned [OF assms(2)] by blast
next
  case False
  have al: "\<not> (sz = 4 \<and> va AND 3 \<noteq> 0 \<or> sz = 2 \<and> va AND 1 \<noteq> 0)"
    using False unfolding aligned_iff [OF assms(2)] .
  note off = offset_fits [OF assms(2) False]
  show ?thesis
    using assms(1)
  proof (cases rule: find_entry_total [of m "unat va div 128"])
    case (exc e)
    then show ?thesis using refused [of e] al by (auto simp: Translate_def Let_def)
  next
    case (entry kind i e)
    let ?pa = "int (unat (physicalPage e)) * 128 + int (unat va mod 128)"
    let ?m' = "set_entry m kind i (e\<lparr>te_use := True, dirty := (w \<or> dirty e)\<rparr>)"
    have e: "(if w then True else dirty e) = (w \<or> dirty e)" by simp
    consider "readOnly e \<and> w" | "\<not> (readOnly e \<and> w)" "unat (physicalPage e) \<ge> 4096"
      | "\<not> (readOnly e \<and> w)" "unat (physicalPage e) < 4096" by linarith
    then show ?thesis
    proof cases
      case 3
      then have "int (unat (physicalPage e)) < 4096" by linarith
      then have lt: "\<not> 4096 \<le> uint (physicalPage e)" by simp
      have pa: "0 \<le> ?pa" "?pa + sz \<le> 524288" using off 3(2) by linarith+
      have "?pa div 128 = (?pa + sz - 1) div 128" using off assms(2) by auto
      moreover have "Translate m va sz w = Inr (NoException, ?pa, ?m')"
        using al entry(1) 3(1) pa lt unfolding Translate_def Let_def e by simp
      moreover have "translated m va sz w ?pa ?m'" using entry 3 by (auto simp: translated_def)
      ultimately show ?thesis using success pa False by blast
    next
      case 1
      then have "Translate m va sz w = Inr (ReadOnlyException, 0, m)"
        using al entry(1) by (simp add: Translate_def)
      then show ?thesis using refused by blast
    next
      case 2
      then have "4096 \<le> int (unat (physicalPage e))" by linarith
      then have "4096 \<le> uint (physicalPage e)" by simp
      then have "Translate m va sz w = Inr (BusErrorException, 0, m)"
        using al entry(1) 2(1) by (simp add: Translate_def)
      then show ?thesis using refused by blast
    qed
  qed
qed

text \<open>
  C22. Address translation is safe and exact. For an access of 1, 2 or 4 bytes on a machine with
  one translation table, \<open>Translate\<close> never fails its assertions: a misaligned address is an
  address error; otherwise either some exception is returned and nothing has changed, or the
  physical address lies in the frame of a valid entry for the page (one that may be written, for
  a write), at the offset of the virtual address, with the whole access inside that frame and
  inside memory, and the only change is that the entry's use bit (and for a write its dirty bit)
  is set.
\<close>

theorem Translate_safe:
  assumes "mach_ok m" "sz \<in> {1, 2, 4}"
  shows "\<exists>exc pa m'. Translate m va sz writing = Inr (exc, pa, m') \<and>
    (misaligned va sz \<longrightarrow> exc = AddressErrorException) \<and>
    (if exc = NoException
     then translated m va sz writing pa m' \<and> 0 \<le> pa \<and> pa + sz \<le> MemorySize \<and>
       pa div PageSize = (pa + sz - 1) div PageSize
     else m' = m)"
  using assms
proof (cases rule: Translate_cases [of m sz va writing])
  case (refused exc)
  then show ?thesis using Translate_misaligned [OF assms(2), of va m writing] by auto
next
  case (success pa m')
  then show ?thesis by auto
qed

definition one_entry_machine :: Machine where
  "one_entry_machine =
     (Machine_new False False 0 [])\<lparr>pageTable := Some [\<lparr>virtualPage = 0, physicalPage = 3, valid = True,
        readOnly = False, te_use = False, dirty = False\<rparr>], pageTableSize := 1\<rparr>"

theorem Translate_safe_witness:
  "\<exists>m'. Translate one_entry_machine 12 4 True = Inr (NoException, 396, m')"
proof -
  have "mach_ok one_entry_machine" by (simp add: mach_ok_def one_entry_machine_def Machine_new_def)
  from Translate_safe [OF this, of 4 12 True] show ?thesis
    by (auto simp: Translate_def find_entry_def one_entry_machine_def Machine_new_def array_get_def Let_def)
qed

section \<open>What is written is read back\<close>

lemma tlb_search_update:
  "i < length es \<Longrightarrow> valid e' = valid (es ! i) \<Longrightarrow> virtualPage e' = virtualPage (es ! i) \<Longrightarrow>
   tlb_search (es[i := e']) vpn k = tlb_search es vpn k"
  by (induction es vpn k arbitrary: i rule: tlb_search.induct) (auto split: nat.splits)

lemma find_entry_again:
  assumes "mach_ok m" "find_entry m vpn = Inr (Inr (kind, i, e))" "i < length (table_of m kind)"
    "table_of m kind ! i = e" "valid e" "valid e' = valid e" "virtualPage e' = virtualPage e"
    "kind = In_pageTable \<longrightarrow> i = vpn"
  shows "find_entry (set_entry m kind i e') vpn = Inr (Inr (kind, i, e'))"
proof (cases "tlb m")
  case (Some t)
  then have t: "pageTable m = None" "length t = 4" using assms(1) by (auto simp: mach_ok_def split: option.splits)
  then have "kind = In_TLB" "tlb_search t vpn 0 = Some i"
    using assms(2) Some by (auto simp: find_entry_def split: option.splits)
  then show ?thesis
    using Some t assms(3-7) tlb_search_update [of i t e' vpn 0]
    by (simp add: find_entry_def set_entry_def table_of_def)
next
  case None
  then obtain pt where pt: "pageTable m = Some pt" "length pt = pageTableSize m"
    using assms(1) by (auto simp: mach_ok_def split: option.splits)
  then have "kind = In_pageTable"
    using assms(2) None by (auto simp: find_entry_def bindE_def split: if_splits sum.splits)
  then show ?thesis
    using None pt assms(3-8) by (simp add: find_entry_def set_entry_def table_of_def array_get_def)
qed

text \<open>Translation looks at nothing but the tables.\<close>

lemma Translate_mem:
  "Translate (m\<lparr>mainMemory := x, lastUsed := y\<rparr>) va sz w =
     bindE (Translate m va sz w) (\<lambda>(exc, pa, m'). Inr (exc, pa, m'\<lparr>mainMemory := x, lastUsed := y\<rparr>))"
proof -
  have "find_entry (m\<lparr>mainMemory := x, lastUsed := y\<rparr>) vpn = find_entry m vpn" for vpn
    by (simp add: find_entry_def split: option.split)
  moreover have "set_entry (m\<lparr>mainMemory := x, lastUsed := y\<rparr>) k i e =
      (set_entry m k i e)\<lparr>mainMemory := x, lastUsed := y\<rparr>" for k i e
    by (simp add: set_entry_def split: table_kind.split)
  ultimately show ?thesis
    by (auto simp: Translate_def Let_def bindE_def split: sum.splits)
qed

lemma translated_again:
  assumes m: "mach_ok m" and sz: "sz \<in> {1, 2, 4}" and al: "\<not> misaligned va sz"
    and t: "translated m va sz True pa m'" and pa: "0 \<le> pa" "pa + sz \<le> 524288"
  shows "\<exists>m''. Translate m' va sz False = Inr (NoException, pa, m'') \<and> mainMemory m'' = mainMemory m' \<and>
    host_big_endian m'' = host_big_endian m'"
proof -
  obtain kind i e where e: "find_entry m (unat va div 128) = Inr (Inr (kind, i, e))"
    "i < length (table_of m kind)" "table_of m kind ! i = e" "valid e"
    "kind = In_pageTable \<longrightarrow> i = unat va div 128" "\<not> (readOnly e \<and> True)" "unat (physicalPage e) < 4096"
    "pa = int (unat (physicalPage e)) * 128 + int (unat va mod 128)"
    "m' = set_entry m kind i (e\<lparr>te_use := True, dirty := (True \<or> dirty e)\<rparr>)"
    using t unfolding translated_def by blast
  let ?e' = "e\<lparr>te_use := True, dirty := True\<rparr>"
  have f: "find_entry m' (unat va div 128) = Inr (Inr (kind, i, ?e'))"
    using find_entry_again [OF m e(1-4), of ?e'] e(5,9) by simp
  have "int (unat (physicalPage e)) < 4096" using e(7) by linarith
  then have lt: "\<not> 4096 \<le> uint (physicalPage e)" by simp
  have align: "\<not> (sz = 4 \<and> va AND 3 \<noteq> 0 \<or> sz = 2 \<and> va AND 1 \<noteq> 0)"
    using al unfolding aligned_iff [OF sz] .
  have "Translate m' va sz False = Inr (NoException, pa, set_entry m' kind i (?e'\<lparr>te_use := True, dirty := True\<rparr>))"
    using align f lt pa unfolding e(8) Translate_def Let_def by simp
  moreover have "mainMemory (set_entry m' kind i x) = mainMemory m'"
    "host_big_endian (set_entry m' kind i x) = host_big_endian m'" for x
    by (simp_all add: set_entry_def split: table_kind.split)
  ultimately show ?thesis by blast
qed

lemma set_entry_frame [simp]:
  "mainMemory (set_entry m kind i x) = mainMemory m" "registers (set_entry m kind i x) = registers m"
  "host_big_endian (set_entry m kind i x) = host_big_endian m"
  by (simp_all add: set_entry_def split: table_kind.split)

lemma ucast_and_ff: "(ucast ((v :: 32 word) AND 0xff) :: 8 word) = ucast v"
  by (rule byte_eqI) (simp add: lane_simps del: bit_numeral_word_iff)

lemma ucast_and_ffff: "(ucast ((v :: 32 word) AND 0xffff) :: 16 word) = ucast v"
proof -
  have m: "(0xffff :: 32 word) = mask 16" by (simp add: mask_eq_exp_minus_1)
  show ?thesis unfolding m by (rule bit_eqI) (simp add: bit_and_iff bit_unsigned_iff bit_mask_iff)
qed

text \<open>
  C23. Memory keeps what is written, on hosts of either byte order: after a successful \<open>WriteMem\<close>
  of 1, 2 or 4 bytes, \<open>ReadMem\<close> of the same address and size succeeds and returns the value
  written, cut to its size (and sign-extended for one byte); only the bytes of the access change,
  and all of them lie inside memory.
\<close>

theorem memory_roundtrip:
  assumes "mach_ok m" "sz \<in> {1, 2, 4}" "WriteMem K m va sz v = Inr (True, m')"
  shows "\<exists>pa m''. 0 \<le> pa \<and> pa + sz \<le> MemorySize \<and>
    ReadMem K m' va sz = Inr (Some (if sz = 1 then scast (ucast v :: 8 word)
      else if sz = 2 then ucast (ucast v :: 16 word) else v), m'') \<and>
    (\<forall>x. int x < pa \<or> pa + sz \<le> int x \<longrightarrow> mainMemory m' x = mainMemory m x) \<and>
    registers m' = registers m"
  using assms(1,2)
proof (cases rule: Translate_cases [of m sz va True])
  case (refused exc)
  then show ?thesis using assms(3) by (auto simp: WriteMem_def)
next
  case (success pa m1)
  obtain m2 where m2: "Translate m1 va sz False = Inr (NoException, pa, m2)" "mainMemory m2 = mainMemory m1"
    "host_big_endian m2 = host_big_endian m1"
    using translated_again [OF assms(1,2) success(6,2,3,4)] by blast
  have m1: "mainMemory m1 = mainMemory m" "registers m1 = registers m"
    using success(2) by (auto simp: translated_def)
  let ?a = "nat pa" and ?big = "host_big_endian m1"
  define mem where "mem = (if sz = 1 then (mainMemory m1)(?a := ucast v)
     else if sz = 2 then (mainMemory m1)(?a := ucast (ucast v :: 16 word), ?a + 1 := ucast (drop_bit 8 (ucast v :: 16 word)))
     else store_le_word (mainMemory m1) ?a v)"
  have m': "m' = m1\<lparr>mainMemory := mem, lastUsed := (lastUsed m1)(?a div 128 := ticks m1)\<rparr>"
    using assms(2,3) success(1)
    by (auto simp: WriteMem_def Let_def mem_def ucast_and_ff ucast_and_ffff store4_any_host store2_any_host)
  have "Translate m' va sz False = Inr (NoException, pa, m2\<lparr>mainMemory := mem,
      lastUsed := (lastUsed m1)(?a div 128 := ticks m1)\<rparr>)"
    unfolding m' Translate_mem m2(1) by simp
  then have "\<exists>m''. ReadMem K m' va sz = Inr (Some (if sz = 1 then scast (ucast v :: 8 word)
      else if sz = 2 then ucast (ucast v :: 16 word) else v), m'')"
    using assms(2) by (auto simp: ReadMem_def Let_def load4_any_host load2_any_host mem_def le_word_store
        le_short_store [simplified])
  moreover have "mem x = mainMemory m1 x" if "int x < pa \<or> pa + sz \<le> int x" for x
    using that success(3) assms(2) by (auto simp: mem_def store_le_word_def split: if_splits)
  ultimately show ?thesis using success(3,4) m1 m' by auto
qed

theorem memory_roundtrip_witness:
  "\<exists>m' m''. WriteMem (\<lambda>_ m. Inr m) one_entry_machine 12 4 0xdeadbeef = Inr (True, m') \<and>
     ReadMem (\<lambda>_ m. Inr m) m' 12 4 = Inr (Some 0xdeadbeef, m'')"
proof -
  define m' where "m' = snd (projr (WriteMem (\<lambda>_ m. Inr m) one_entry_machine 12 4 0xdeadbeef))"
  have "mach_ok one_entry_machine" by (simp add: mach_ok_def one_entry_machine_def Machine_new_def)
  moreover have w: "WriteMem (\<lambda>_ m. Inr m) one_entry_machine 12 4 0xdeadbeef = Inr (True, m')"
    by (simp add: m'_def WriteMem_def Translate_def find_entry_def one_entry_machine_def Machine_new_def
        array_get_def Let_def)
  ultimately show ?thesis
    using memory_roundtrip [of one_entry_machine 4 "\<lambda>_ m. Inr m" 12 "0xdeadbeef" m'] by auto
qed

end
