(* ===== verification/Nachos_MIPS.thy ===== *)
theory Nachos_MIPS
  imports Nachos_Machine
begin

unbundle bit_operations_syntax

text \<open>
  The instruction set simulator: \<^verbatim>\<open>machine/mipssim.cc\<close> and the decoding tables of
  \<^verbatim>\<open>machine/mipssim.h\<close>. There is one definition per case of the big switch of
  \<open>OneInstruction\<close>, in its order; each returns either that the instruction trapped to the kernel
  (and is not completed) or what remains to be done: the next program counter and the delayed load.
  Printing of instructions for debugging is left out.
\<close>

section \<open>Decoding\<close>

datatype (plugins only:) opcode =
    OP_ADD | OP_ADDI | OP_ADDIU | OP_ADDU | OP_AND | OP_ANDI | OP_BEQ | OP_BGEZ | OP_BGEZAL | OP_BGTZ
  | OP_BLEZ | OP_BLTZ | OP_BLTZAL | OP_BNE | OP_DIV | OP_DIVU | OP_J | OP_JAL | OP_JALR | OP_JR
  | OP_LB | OP_LBU | OP_LH | OP_LHU | OP_LUI | OP_LW | OP_LWL | OP_LWR | OP_MFHI | OP_MFLO | OP_MTHI
  | OP_MTLO | OP_MULT | OP_MULTU | OP_NOR | OP_OR | OP_ORI | OP_RFE | OP_SB | OP_SH | OP_SLL | OP_SLLV
  | OP_SLT | OP_SLTI | OP_SLTIU | OP_SLTU | OP_SRA | OP_SRAV | OP_SRL | OP_SRLV | OP_SUB | OP_SUBU
  | OP_SW | OP_SWL | OP_SWR | OP_XOR | OP_XORI | OP_SYSCALL | OP_UNIMP | OP_RES
  | SPECIAL | BCOND

datatype format = IFMT | JFMT | RFMT

definition opTable :: "(opcode \<times> format) list" where
  "opTable = [
    (SPECIAL, RFMT), (BCOND, IFMT), (OP_J, JFMT), (OP_JAL, JFMT),
    (OP_BEQ, IFMT), (OP_BNE, IFMT), (OP_BLEZ, IFMT), (OP_BGTZ, IFMT),
    (OP_ADDI, IFMT), (OP_ADDIU, IFMT), (OP_SLTI, IFMT), (OP_SLTIU, IFMT),
    (OP_ANDI, IFMT), (OP_ORI, IFMT), (OP_XORI, IFMT), (OP_LUI, IFMT),
    (OP_UNIMP, IFMT), (OP_UNIMP, IFMT), (OP_UNIMP, IFMT), (OP_UNIMP, IFMT),
    (OP_RES, IFMT), (OP_RES, IFMT), (OP_RES, IFMT), (OP_RES, IFMT),
    (OP_RES, IFMT), (OP_RES, IFMT), (OP_RES, IFMT), (OP_RES, IFMT),
    (OP_RES, IFMT), (OP_RES, IFMT), (OP_RES, IFMT), (OP_RES, IFMT),
    (OP_LB, IFMT), (OP_LH, IFMT), (OP_LWL, IFMT), (OP_LW, IFMT),
    (OP_LBU, IFMT), (OP_LHU, IFMT), (OP_LWR, IFMT), (OP_RES, IFMT),
    (OP_SB, IFMT), (OP_SH, IFMT), (OP_SWL, IFMT), (OP_SW, IFMT),
    (OP_RES, IFMT), (OP_RES, IFMT), (OP_SWR, IFMT), (OP_RES, IFMT),
    (OP_UNIMP, IFMT), (OP_UNIMP, IFMT), (OP_UNIMP, IFMT), (OP_UNIMP, IFMT),
    (OP_RES, IFMT), (OP_RES, IFMT), (OP_RES, IFMT), (OP_RES, IFMT),
    (OP_UNIMP, IFMT), (OP_UNIMP, IFMT), (OP_UNIMP, IFMT), (OP_UNIMP, IFMT),
    (OP_RES, IFMT), (OP_RES, IFMT), (OP_RES, IFMT), (OP_RES, IFMT)]"

definition specialTable :: "opcode list" where
  "specialTable = [
    OP_SLL, OP_RES, OP_SRL, OP_SRA, OP_SLLV, OP_RES, OP_SRLV, OP_SRAV,
    OP_JR, OP_JALR, OP_RES, OP_RES, OP_SYSCALL, OP_UNIMP, OP_RES, OP_RES,
    OP_MFHI, OP_MTHI, OP_MFLO, OP_MTLO, OP_RES, OP_RES, OP_RES, OP_RES,
    OP_MULT, OP_MULTU, OP_DIV, OP_DIVU, OP_RES, OP_RES, OP_RES, OP_RES,
    OP_ADD, OP_ADDU, OP_SUB, OP_SUBU, OP_AND, OP_OR, OP_XOR, OP_NOR,
    OP_RES, OP_RES, OP_SLT, OP_SLTU, OP_RES, OP_RES, OP_RES, OP_RES,
    OP_RES, OP_RES, OP_RES, OP_RES, OP_RES, OP_RES, OP_RES, OP_RES,
    OP_RES, OP_RES, OP_RES, OP_RES, OP_RES, OP_RES, OP_RES, OP_RES]"

record Instruction =
  opCode :: opcode
  rs :: nat
  rt :: nat
  rd :: nat
  extra :: "32 word"

definition Decode :: "32 word \<Rightarrow> Instruction" where
  "Decode v =
     (let rs = unat (drop_bit 21 v AND 0x1f); rt = unat (drop_bit 16 v AND 0x1f);
          rd = unat (drop_bit 11 v AND 0x1f);
          (op, fmt) = opTable ! unat (drop_bit 26 v AND 0x3f);
          ex = (case fmt of
                  IFMT \<Rightarrow> (let e = v AND 0xffff in if e AND 0x8000 \<noteq> 0 then e OR 0xffff0000 else e)
                | RFMT \<Rightarrow> drop_bit 6 v AND 0x1f
                | JFMT \<Rightarrow> v AND 0x3ffffff);
          op' = (if op = SPECIAL then specialTable ! unat (v AND 0x3f)
                 else if op = BCOND then
                   (let i = v AND 0x1f0000 in
                    if i = 0 then OP_BLTZ else if i = 0x10000 then OP_BGEZ
                    else if i = 0x100000 then OP_BLTZAL else if i = 0x110000 then OP_BGEZAL
                    else OP_UNIMP)
                 else op)
      in \<lparr>opCode = op', rs = rs, rt = rt, rd = rd, extra = ex\<rparr>)"

section \<open>Multiplication\<close>

text \<open>
  The loop of \<open>Mult\<close> with \<open>n\<close> rounds to go; the shift of the signed variable \<open>a\<close> is an arithmetic
  one.
\<close>

fun mult_loop ::
    "nat \<Rightarrow> 32 word \<Rightarrow> 32 word \<Rightarrow> 32 word \<Rightarrow> 32 word \<Rightarrow> 32 word \<Rightarrow> 32 word \<times> 32 word" where
  "mult_loop 0 a bHi bLo hi lo = (hi, lo)"
| "mult_loop (Suc n) a bHi bLo hi lo =
     (let lo' = lo + bLo; hi' = (if lo' < bLo then hi + 1 else hi) + bHi;
          shift = (\<lambda>hi lo. mult_loop n (signed_drop_bit 1 a)
            (if bit bLo 31 then push_bit 1 bHi OR 1 else push_bit 1 bHi) (push_bit 1 bLo) hi lo)
      in if bit a 0 then
           if a AND 0xfffffffe = 0 then (hi', lo') else shift hi' lo'
         else shift hi lo)"

definition Mult :: "32 word \<Rightarrow> 32 word \<Rightarrow> bool \<Rightarrow> 32 word \<times> 32 word" where
  "Mult a b signedArith =
     (if a = 0 \<or> b = 0 then (0, 0)
      else
        (let na = signedArith \<and> sint a < 0; nb = signedArith \<and> sint b < 0;
             a' = (if na then - a else a); b' = (if nb then - b else b);
             (hi, lo) = mult_loop 32 a' 0 b' 0 0
         in if na \<noteq> nb then
              (let hi1 = NOT hi; lo1 = NOT lo + 1 in (if lo1 = 0 then hi1 + 1 else hi1, lo1))
            else (hi, lo)))"

section \<open>The instructions\<close>

datatype outcome = Trapped Machine | Completed Machine "32 word" "32 word" "32 word"

definition trap :: "kernel_entry \<Rightarrow> ExceptionType \<Rightarrow> 32 word \<Rightarrow> Machine \<Rightarrow> outcome res" where
  "trap K e addr m = bindE (RaiseException K e addr m) (\<lambda>m. Inr (Trapped m))"

abbreviation completed :: "Machine \<Rightarrow> 32 word \<Rightarrow> outcome res" where
  "completed m pcAfter \<equiv> Inr (Completed m pcAfter 0 0)"

definition IndexToAddr :: "32 word \<Rightarrow> 32 word" where
  "IndexToAddr x = push_bit 2 x"

type_synonym instr_fun = "kernel_entry \<Rightarrow> Instruction \<Rightarrow> Machine \<Rightarrow> 32 word \<Rightarrow> outcome res"

definition op_ADD :: instr_fun where
  "op_ADD K I m pcAfter =
     (let a = registers m (rs I); b = registers m (rt I); sum = a + b in
      if \<not> bit (a XOR b) 31 \<and> bit (a XOR sum) 31 then trap K OverflowException 0 m
      else completed (setreg m (rd I) sum) pcAfter)"

definition op_ADDI :: instr_fun where
  "op_ADDI K I m pcAfter =
     (let a = registers m (rs I); sum = a + extra I in
      if \<not> bit (a XOR extra I) 31 \<and> bit (extra I XOR sum) 31 then trap K OverflowException 0 m
      else completed (setreg m (rt I) sum) pcAfter)"

definition op_ADDIU :: instr_fun where
  "op_ADDIU K I m pcAfter = completed (setreg m (rt I) (registers m (rs I) + extra I)) pcAfter"

definition op_ADDU :: instr_fun where
  "op_ADDU K I m pcAfter = completed (setreg m (rd I) (registers m (rs I) + registers m (rt I))) pcAfter"

definition op_AND :: instr_fun where
  "op_AND K I m pcAfter = completed (setreg m (rd I) (registers m (rs I) AND registers m (rt I))) pcAfter"

definition op_ANDI :: instr_fun where
  "op_ANDI K I m pcAfter =
     completed (setreg m (rt I) (registers m (rs I) AND (extra I AND 0xffff))) pcAfter"

definition branch_target :: "Instruction \<Rightarrow> Machine \<Rightarrow> 32 word" where
  "branch_target I m = registers m NextPCReg + IndexToAddr (extra I)"

definition op_BEQ :: instr_fun where
  "op_BEQ K I m pcAfter =
     completed m (if registers m (rs I) = registers m (rt I) then branch_target I m else pcAfter)"

definition op_BGEZ :: instr_fun where
  "op_BGEZ K I m pcAfter =
     completed m (if \<not> bit (registers m (rs I)) 31 then branch_target I m else pcAfter)"

definition op_BGEZAL :: instr_fun where
  "op_BGEZAL K I m pcAfter = op_BGEZ K I (setreg m 31 (registers m NextPCReg + 4)) pcAfter"

definition op_BGTZ :: instr_fun where
  "op_BGTZ K I m pcAfter =
     completed m (if sint (registers m (rs I)) > 0 then branch_target I m else pcAfter)"

definition op_BLEZ :: instr_fun where
  "op_BLEZ K I m pcAfter =
     completed m (if sint (registers m (rs I)) \<le> 0 then branch_target I m else pcAfter)"

definition op_BLTZ :: instr_fun where
  "op_BLTZ K I m pcAfter =
     completed m (if bit (registers m (rs I)) 31 then branch_target I m else pcAfter)"

definition op_BLTZAL :: instr_fun where
  "op_BLTZAL K I m pcAfter = op_BLTZ K I (setreg m 31 (registers m NextPCReg + 4)) pcAfter"

definition op_BNE :: instr_fun where
  "op_BNE K I m pcAfter =
     completed m (if registers m (rs I) \<noteq> registers m (rt I) then branch_target I m else pcAfter)"

text \<open>\<open>INT_MIN / -1\<close> does not fit an \<^verbatim>\<open>int\<close>: undefined behaviour of the host.\<close>

definition op_DIV :: instr_fun where
  "op_DIV K I m pcAfter =
     (let a = sint (registers m (rs I)); b = sint (registers m (rt I)) in
      if registers m (rt I) = 0 then completed (setreg (setreg m LoReg 0) HiReg 0) pcAfter
      else if a sdiv b \<ge> 2 ^ 31 then Inl UndefinedArithmetic
      else
        (let m1 = setreg m LoReg (word_of_int (a sdiv b)) in
         completed (setreg m1 HiReg (word_of_int (sint (registers m1 (rs I)) smod sint (registers m1 (rt I)))))
           pcAfter))"

definition op_DIVU :: instr_fun where
  "op_DIVU K I m pcAfter =
     (let a = registers m (rs I); b = registers m (rt I) in
      if b = 0 then completed (setreg (setreg m LoReg 0) HiReg 0) pcAfter
      else completed (setreg (setreg m LoReg (a div b)) HiReg (a mod b)) pcAfter)"

definition op_J :: instr_fun where
  "op_J K I m pcAfter = completed m ((pcAfter AND 0xf0000000) OR IndexToAddr (extra I))"

definition op_JAL :: instr_fun where
  "op_JAL K I m pcAfter = op_J K I (setreg m 31 (registers m NextPCReg + 4)) pcAfter"

definition op_JR :: instr_fun where
  "op_JR K I m pcAfter = completed m (registers m (rs I))"

definition op_JALR :: instr_fun where
  "op_JALR K I m pcAfter = op_JR K I (setreg m (rd I) (registers m NextPCReg + 4)) pcAfter"

text \<open>A load ends with a delayed load of the value into \<open>rt\<close>.\<close>

definition load_then ::
    "kernel_entry \<Rightarrow> Machine \<Rightarrow> 32 word \<Rightarrow> int \<Rightarrow> (32 word \<Rightarrow> Machine \<Rightarrow> outcome res) \<Rightarrow> outcome res" where
  "load_then K m addr sz f =
     bindE (ReadMem K m addr sz) (\<lambda>(r, m1). case r of None \<Rightarrow> Inr (Trapped m1) | Some v \<Rightarrow> f v m1)"

definition op_LB :: "bool \<Rightarrow> instr_fun" where
  "op_LB sext K I m pcAfter =
     load_then K m (registers m (rs I) + extra I) 1 (\<lambda>v m1.
       Inr (Completed m1 pcAfter (word_of_nat (rt I))
         (if v AND 0x80 \<noteq> 0 \<and> sext then v OR 0xffffff00 else v AND 0xff)))"

definition op_LH :: "bool \<Rightarrow> instr_fun" where
  "op_LH sext K I m pcAfter =
     (let tmp = registers m (rs I) + extra I in
      if tmp AND 1 \<noteq> 0 then trap K AddressErrorException tmp m
      else load_then K m tmp 2 (\<lambda>v m1.
        Inr (Completed m1 pcAfter (word_of_nat (rt I))
          (if v AND 0x8000 \<noteq> 0 \<and> sext then v OR 0xffff0000 else v AND 0xffff))))"

definition op_LUI :: instr_fun where
  "op_LUI K I m pcAfter = completed (setreg m (rt I) (push_bit 16 (extra I))) pcAfter"

definition op_LW :: instr_fun where
  "op_LW K I m pcAfter =
     (let tmp = registers m (rs I) + extra I in
      if tmp AND 3 \<noteq> 0 then trap K AddressErrorException tmp m
      else load_then K m tmp 4 (\<lambda>v m1. Inr (Completed m1 pcAfter (word_of_nat (rt I)) v)))"

text \<open>The value a partial load merges with: a pending load of the same register counts.\<close>

definition merge_source :: "Instruction \<Rightarrow> Machine \<Rightarrow> 32 word" where
  "merge_source I m =
     (if registers m LoadReg = word_of_nat (rt I) then registers m LoadValueReg else registers m (rt I))"

definition op_LWL :: instr_fun where
  "op_LWL K I m pcAfter =
     (let tmp = registers m (rs I) + extra I in
      bindE (ASSERT (tmp AND 3 = 0)) (\<lambda>_.
        load_then K m tmp 4 (\<lambda>v m1.
          let old = merge_source I m1; low = unat (tmp AND 3);
              new = (if low = 0 then v
                     else if low = 1 then (old AND 0xff) OR push_bit 8 v
                     else if low = 2 then (old AND 0xffff) OR push_bit 16 v
                     else (old AND 0xffffff) OR push_bit 24 v)
          in Inr (Completed m1 pcAfter (word_of_nat (rt I)) new))))"

definition op_LWR :: instr_fun where
  "op_LWR K I m pcAfter =
     (let tmp = registers m (rs I) + extra I in
      bindE (ASSERT (tmp AND 3 = 0)) (\<lambda>_.
        load_then K m tmp 4 (\<lambda>v m1.
          let old = merge_source I m1; low = unat (tmp AND 3);
              new = (if low = 0 then (old AND 0xffffff00) OR (signed_drop_bit 24 v AND 0xff)
                     else if low = 1 then (old AND 0xffff0000) OR (signed_drop_bit 16 v AND 0xffff)
                     else if low = 2 then (old AND 0xff000000) OR (signed_drop_bit 8 v AND 0xffffff)
                     else v)
          in Inr (Completed m1 pcAfter (word_of_nat (rt I)) new))))"

definition op_MFHI :: instr_fun where
  "op_MFHI K I m pcAfter = completed (setreg m (rd I) (registers m HiReg)) pcAfter"

definition op_MFLO :: instr_fun where
  "op_MFLO K I m pcAfter = completed (setreg m (rd I) (registers m LoReg)) pcAfter"

definition op_MTHI :: instr_fun where
  "op_MTHI K I m pcAfter = completed (setreg m HiReg (registers m (rs I))) pcAfter"

definition op_MTLO :: instr_fun where
  "op_MTLO K I m pcAfter = completed (setreg m LoReg (registers m (rs I))) pcAfter"

definition op_MULT :: "bool \<Rightarrow> instr_fun" where
  "op_MULT signedArith K I m pcAfter =
     (case Mult (registers m (rs I)) (registers m (rt I)) signedArith of
        (hi, lo) \<Rightarrow> completed (setreg (setreg m HiReg hi) LoReg lo) pcAfter)"

definition op_NOR :: instr_fun where
  "op_NOR K I m pcAfter =
     completed (setreg m (rd I) (NOT (registers m (rs I) OR registers m (rt I)))) pcAfter"

definition op_OR :: instr_fun where
  "op_OR K I m pcAfter = completed (setreg m (rd I) (registers m (rs I) OR registers m (rs I))) pcAfter"

definition op_ORI :: instr_fun where
  "op_ORI K I m pcAfter =
     completed (setreg m (rt I) (registers m (rs I) OR (extra I AND 0xffff))) pcAfter"

definition store_then ::
    "kernel_entry \<Rightarrow> Machine \<Rightarrow> 32 word \<Rightarrow> int \<Rightarrow> 32 word \<Rightarrow> 32 word \<Rightarrow> outcome res" where
  "store_then K m addr sz v pcAfter =
     bindE (WriteMem K m addr sz v) (\<lambda>(ok, m1). if ok then completed m1 pcAfter else Inr (Trapped m1))"

definition op_SB :: instr_fun where
  "op_SB K I m pcAfter = store_then K m (registers m (rs I) + extra I) 1 (registers m (rt I)) pcAfter"

definition op_SH :: instr_fun where
  "op_SH K I m pcAfter = store_then K m (registers m (rs I) + extra I) 2 (registers m (rt I)) pcAfter"

definition op_SLL :: instr_fun where
  "op_SLL K I m pcAfter = completed (setreg m (rd I) (push_bit (unat (extra I)) (registers m (rt I)))) pcAfter"

definition op_SLLV :: instr_fun where
  "op_SLLV K I m pcAfter =
     completed (setreg m (rd I) (push_bit (unat (registers m (rs I) AND 0x1f)) (registers m (rt I)))) pcAfter"

definition op_SLT :: instr_fun where
  "op_SLT K I m pcAfter =
     completed (setreg m (rd I) (if sint (registers m (rs I)) < sint (registers m (rt I)) then 1 else 0)) pcAfter"

definition op_SLTI :: instr_fun where
  "op_SLTI K I m pcAfter =
     completed (setreg m (rt I) (if sint (registers m (rs I)) < sint (extra I) then 1 else 0)) pcAfter"

definition op_SLTIU :: instr_fun where
  "op_SLTIU K I m pcAfter = completed (setreg m (rt I) (if registers m (rs I) < extra I then 1 else 0)) pcAfter"

definition op_SLTU :: instr_fun where
  "op_SLTU K I m pcAfter =
     completed (setreg m (rd I) (if registers m (rs I) < registers m (rt I) then 1 else 0)) pcAfter"

definition op_SRA :: instr_fun where
  "op_SRA K I m pcAfter =
     completed (setreg m (rd I) (signed_drop_bit (unat (extra I)) (registers m (rt I)))) pcAfter"

definition op_SRAV :: instr_fun where
  "op_SRAV K I m pcAfter =
     completed (setreg m (rd I)
       (signed_drop_bit (unat (registers m (rs I) AND 0x1f)) (registers m (rt I)))) pcAfter"

text \<open>The variable that is shifted is a signed \<^verbatim>\<open>int\<close>, so this shift is an arithmetic one too.\<close>

definition op_SRL :: instr_fun where
  "op_SRL K I m pcAfter =
     completed (setreg m (rd I) (signed_drop_bit (unat (extra I)) (registers m (rt I)))) pcAfter"

definition op_SRLV :: instr_fun where
  "op_SRLV K I m pcAfter =
     completed (setreg m (rd I)
       (signed_drop_bit (unat (registers m (rs I) AND 0x1f)) (registers m (rt I)))) pcAfter"

definition op_SUB :: instr_fun where
  "op_SUB K I m pcAfter =
     (let a = registers m (rs I); b = registers m (rt I); diff = a - b in
      if bit (a XOR b) 31 \<and> bit (a XOR diff) 31 then trap K OverflowException 0 m
      else completed (setreg m (rd I) diff) pcAfter)"

definition op_SUBU :: instr_fun where
  "op_SUBU K I m pcAfter = completed (setreg m (rd I) (registers m (rs I) - registers m (rt I))) pcAfter"

definition op_SW :: instr_fun where
  "op_SW K I m pcAfter = store_then K m (registers m (rs I) + extra I) 4 (registers m (rt I)) pcAfter"

definition op_SWL :: instr_fun where
  "op_SWL K I m pcAfter =
     (let tmp = registers m (rs I) + extra I in
      bindE (ASSERT (tmp AND 3 = 0)) (\<lambda>_.
        load_then K m (tmp AND NOT 3) 4 (\<lambda>v m1.
          let r = registers m1 (rt I); low = unat (tmp AND 3);
              new = (if low = 0 then r
                     else if low = 1 then (v AND 0xff000000) OR (signed_drop_bit 8 r AND 0xffffff)
                     else if low = 2 then (v AND 0xffff0000) OR (signed_drop_bit 16 r AND 0xffff)
                     else (v AND 0xffffff00) OR (signed_drop_bit 24 r AND 0xff))
          in store_then K m1 (tmp AND NOT 3) 4 new pcAfter)))"

definition op_SWR :: instr_fun where
  "op_SWR K I m pcAfter =
     (let tmp = registers m (rs I) + extra I in
      bindE (ASSERT (tmp AND 3 = 0)) (\<lambda>_.
        load_then K m (tmp AND NOT 3) 4 (\<lambda>v m1.
          let r = registers m1 (rt I); low = unat (tmp AND 3);
              new = (if low = 0 then (v AND 0xffffff) OR push_bit 24 r
                     else if low = 1 then (v AND 0xffff) OR push_bit 16 r
                     else if low = 2 then (v AND 0xff) OR push_bit 8 r
                     else r)
          in store_then K m1 (tmp AND NOT 3) 4 new pcAfter)))"

definition op_SYSCALL :: instr_fun where
  "op_SYSCALL K I m pcAfter = trap K SyscallException 0 m"

definition op_XOR :: instr_fun where
  "op_XOR K I m pcAfter = completed (setreg m (rd I) (registers m (rs I) XOR registers m (rt I))) pcAfter"

definition op_XORI :: instr_fun where
  "op_XORI K I m pcAfter =
     completed (setreg m (rt I) (registers m (rs I) XOR (extra I AND 0xffff))) pcAfter"

definition op_illegal :: instr_fun where
  "op_illegal K I m pcAfter = trap K IllegalInstrException 0 m"

text \<open>The switch.\<close>

definition dispatch_op :: instr_fun where
  "dispatch_op K I =
     (case opCode I of
        OP_ADD \<Rightarrow> op_ADD K I | OP_ADDI \<Rightarrow> op_ADDI K I | OP_ADDIU \<Rightarrow> op_ADDIU K I | OP_ADDU \<Rightarrow> op_ADDU K I
      | OP_AND \<Rightarrow> op_AND K I | OP_ANDI \<Rightarrow> op_ANDI K I | OP_BEQ \<Rightarrow> op_BEQ K I | OP_BGEZ \<Rightarrow> op_BGEZ K I
      | OP_BGEZAL \<Rightarrow> op_BGEZAL K I | OP_BGTZ \<Rightarrow> op_BGTZ K I | OP_BLEZ \<Rightarrow> op_BLEZ K I | OP_BLTZ \<Rightarrow> op_BLTZ K I
      | OP_BLTZAL \<Rightarrow> op_BLTZAL K I | OP_BNE \<Rightarrow> op_BNE K I | OP_DIV \<Rightarrow> op_DIV K I | OP_DIVU \<Rightarrow> op_DIVU K I
      | OP_J \<Rightarrow> op_J K I | OP_JAL \<Rightarrow> op_JAL K I | OP_JALR \<Rightarrow> op_JALR K I | OP_JR \<Rightarrow> op_JR K I
      | OP_LB \<Rightarrow> op_LB True K I | OP_LBU \<Rightarrow> op_LB False K I | OP_LH \<Rightarrow> op_LH True K I | OP_LHU \<Rightarrow> op_LH False K I
      | OP_LUI \<Rightarrow> op_LUI K I | OP_LW \<Rightarrow> op_LW K I | OP_LWL \<Rightarrow> op_LWL K I | OP_LWR \<Rightarrow> op_LWR K I
      | OP_MFHI \<Rightarrow> op_MFHI K I | OP_MFLO \<Rightarrow> op_MFLO K I | OP_MTHI \<Rightarrow> op_MTHI K I | OP_MTLO \<Rightarrow> op_MTLO K I
      | OP_MULT \<Rightarrow> op_MULT True K I | OP_MULTU \<Rightarrow> op_MULT False K I | OP_NOR \<Rightarrow> op_NOR K I | OP_OR \<Rightarrow> op_OR K I
      | OP_ORI \<Rightarrow> op_ORI K I | OP_SB \<Rightarrow> op_SB K I | OP_SH \<Rightarrow> op_SH K I | OP_SLL \<Rightarrow> op_SLL K I
      | OP_SLLV \<Rightarrow> op_SLLV K I | OP_SLT \<Rightarrow> op_SLT K I | OP_SLTI \<Rightarrow> op_SLTI K I | OP_SLTIU \<Rightarrow> op_SLTIU K I
      | OP_SLTU \<Rightarrow> op_SLTU K I | OP_SRA \<Rightarrow> op_SRA K I | OP_SRAV \<Rightarrow> op_SRAV K I | OP_SRL \<Rightarrow> op_SRL K I
      | OP_SRLV \<Rightarrow> op_SRLV K I | OP_SUB \<Rightarrow> op_SUB K I | OP_SUBU \<Rightarrow> op_SUBU K I | OP_SW \<Rightarrow> op_SW K I
      | OP_SWL \<Rightarrow> op_SWL K I | OP_SWR \<Rightarrow> op_SWR K I | OP_SYSCALL \<Rightarrow> op_SYSCALL K I | OP_XOR \<Rightarrow> op_XOR K I
      | OP_XORI \<Rightarrow> op_XORI K I | OP_RES \<Rightarrow> op_illegal K I | OP_UNIMP \<Rightarrow> op_illegal K I
      | _ \<Rightarrow> (\<lambda>m pcAfter. Inl AssertionFailed))"

text \<open>The end of an instruction that completed: the delayed load and the program counters.\<close>

definition finish_instruction :: "outcome \<Rightarrow> Machine" where
  "finish_instruction r =
     (case r of
        Trapped m \<Rightarrow> m
      | Completed m pcAfter nextLoadReg nextLoadValue \<Rightarrow>
          (let m1 = DelayedLoad m nextLoadReg nextLoadValue;
               m2 = setreg m1 PrevPCReg (registers m1 PCReg);
               m3 = setreg m2 PCReg (registers m2 NextPCReg)
           in setreg m3 NextPCReg pcAfter))"

definition OneInstruction :: "kernel_entry \<Rightarrow> Machine \<Rightarrow> Machine res" where
  "OneInstruction K m =
     bindE (ReadMem K m (registers m PCReg) 4) (\<lambda>(raw, m1).
       case raw of
         None \<Rightarrow> Inr m1
       | Some v \<Rightarrow>
           bindE (dispatch_op K (Decode v) m1 (registers m1 NextPCReg + 4)) (\<lambda>r.
             Inr (finish_instruction r)))"

section \<open>Multiplication is the 64-bit product\<close>

definition val64 :: "32 word \<Rightarrow> 32 word \<Rightarrow> int" where
  "val64 hi lo = uint hi * 2 ^ 32 + uint lo"

lemma uint_bounds: "0 \<le> uint (w :: 32 word)" "uint (w :: 32 word) < 4294967296"
  using uint_lt2p [of w] by simp_all

lemma bit31_iff: "bit (w :: 32 word) 31 \<longleftrightarrow> 2147483648 \<le> uint w"
proof -
  have "bit w 31 \<longleftrightarrow> bit (uint w) 31" by (simp add: bit_uint_iff)
  also have "\<dots> \<longleftrightarrow> odd (uint w div 2147483648)" by (simp only: bit_iff_odd) simp
  also have "uint w div 2147483648 = (if 2147483648 \<le> uint w then 1 else 0)"
  proof (cases "2147483648 \<le> uint w")
    case True
    then show ?thesis
      using uint_bounds [of w] int_div_pos_eq [of "uint w" 2147483648 1 "uint w - 2147483648"] by simp
  next
    case False
    then show ?thesis using uint_bounds [of w] by simp
  qed
  finally show ?thesis by simp
qed

lemma uint_add32:
  "uint ((a :: 32 word) + b) = (if uint a + uint b < 4294967296 then uint a + uint b else uint a + uint b - 4294967296)"
  using uint_plus_if' [of a b] by simp

lemma val64_add:
  assumes "val64 hi lo + val64 bHi bLo < 2 ^ 64"
  shows "val64 ((if lo + bLo < bLo then hi + 1 else hi) + bHi) (lo + bLo) = val64 hi lo + val64 bHi bLo"
proof -
  note b = uint_bounds [of hi] uint_bounds [of lo] uint_bounds [of bHi] uint_bounds [of bLo]
  have less: "lo + bLo < bLo \<longleftrightarrow> 4294967296 \<le> uint lo + uint bLo"
    using b by (simp add: word_less_def uint_add32; linarith)
  have sum: "uint hi * 4294967296 + uint lo + (uint bHi * 4294967296 + uint bLo) < 18446744073709551616"
    using assms by (simp add: val64_def)
  show ?thesis
  proof (cases "4294967296 \<le> uint lo + uint bLo")
    case True
    have "uint hi + uint bHi + 1 < 4294967296" using True sum by linarith
    moreover from this have "uint hi + 1 < 4294967296" using b by linarith
    moreover from this have "uint (hi + 1) = uint hi + 1" by (simp add: uint_add32)
    ultimately show ?thesis using True less by (simp add: val64_def uint_add32)
  next
    case False
    have "uint hi + uint bHi < 4294967296" using sum b by linarith
    then show ?thesis using False less by (simp add: val64_def uint_add32)
  qed
qed

lemma uint_double: "uint ((w :: 32 word) * 2) = (if bit w 31 then 2 * uint w - 4294967296 else 2 * uint w)"
proof -
  have "w * 2 = w + w" by simp
  then show ?thesis by (simp only: uint_add32 bit31_iff) (simp; linarith)
qed

lemma uint_double_or1: "uint ((w :: 32 word) * 2 OR 1) = uint (w * 2) + 1"
proof -
  have "even (uint (w * 2))" using uint_double [of w] by simp
  then have "uint (w * 2) OR 1 = uint (w * 2) + 1" by (simp add: or_one_eq)
  then show ?thesis by (simp add: unsigned_or_eq)
qed

lemma val64_double:
  assumes "val64 bHi bLo * 2 < 2 ^ 64"
  shows "val64 (if bit bLo 31 then bHi * 2 OR 1 else bHi * 2) (bLo * 2) = 2 * val64 bHi bLo"
proof -
  have "uint bHi * 8589934592 + uint bLo * 2 < 18446744073709551616"
    using assms by (simp add: val64_def algebra_simps)
  then have "uint bHi < 2147483648" using uint_bounds [of bLo] by linarith
  then have "\<not> bit bHi 31" unfolding bit31_iff by simp
  then show ?thesis by (simp add: val64_def uint_double uint_double_or1)
qed

lemma mod_double: "uint (a :: 32 word) mod 2 ^ Suc n = (if bit a 0 then 1 else 0) + 2 * (uint a div 2 mod 2 ^ n)"
proof -
  have "uint a mod (2 * 2 ^ n) = 2 * (uint a div 2 mod 2 ^ n) + uint a mod 2"
    by (rule zmod_zmult2_eq) simp
  moreover have "bit a 0 \<longleftrightarrow> odd (uint a)" by (metis bit_0 bit_uint_iff bit_imp_le_length)
  ultimately show ?thesis by (auto simp: odd_iff_mod_2_eq_one)
qed

lemma shift_mod:
  assumes "n < 32"
  shows "uint (signed_drop_bit 1 (a :: 32 word)) mod 2 ^ n = uint a div 2 mod 2 ^ n"
proof -
  have "take_bit n (uint (signed_drop_bit 1 a)) = take_bit n (drop_bit 1 (uint a))"
  proof (rule bit_eqI)
    fix k
    show "bit (take_bit n (uint (signed_drop_bit 1 a))) k = bit (take_bit n (drop_bit 1 (uint a))) k"
      using assms by (auto simp: bit_take_bit_iff bit_uint_iff bit_signed_drop_bit_iff bit_drop_bit_eq)
  qed
  then show ?thesis by (simp add: take_bit_eq_mod drop_bit_eq_div)
qed

lemma bit0_only: "bit a 0 \<Longrightarrow> a AND 0xfffffffe = 0 \<Longrightarrow> a = (1 :: 32 word)"
proof -
  assume a: "bit a 0" "a AND 0xfffffffe = 0"
  have m: "(0xfffffffe :: 32 word) = NOT 1" by simp
  show "a = 1"
  proof (rule bit_eqI)
    fix n assume "possible_bit TYPE(32 word) n"
    have "bit (a AND NOT 1) n \<longleftrightarrow> False" using a(2) unfolding m by simp
    then show "bit a n \<longleftrightarrow> bit 1 n" using a(1) \<open>possible_bit TYPE(32 word) n\<close>
      by (auto simp: bit_and_iff bit_not_iff bit_1_iff)
  qed
qed

lemma mult_loop_val:
  assumes "n \<le> 32" "val64 bHi bLo * 2 ^ n < 2 ^ 64" "val64 hi lo + val64 bHi bLo * (uint a mod 2 ^ n) < 2 ^ 64"
  shows "case mult_loop n a bHi bLo hi lo of (h, l) \<Rightarrow>
    val64 h l = val64 hi lo + val64 bHi bLo * (uint a mod 2 ^ n)"
  using assms
proof (induction n arbitrary: a bHi bLo hi lo)
  case 0
  then show ?case by simp
next
  case (Suc n)
  let ?B = "val64 bHi bLo" and ?a2 = "signed_drop_bit 1 a" and ?V = "val64 hi lo"
  let ?bH = "if bit bLo 31 then bHi * 2 OR 1 else bHi * 2" and ?bL = "bLo * 2"
  let ?h = "(if lo + bLo < bLo then hi + 1 else hi) + bHi" and ?l = "lo + bLo"
  define r where "r = uint a div 2 mod 2 ^ n"
  have pos: "0 \<le> ?B" "0 \<le> ?V" "0 \<le> r" using uint_bounds by (simp_all add: val64_def r_def)
  have "?B * 2 \<le> ?B * 2 ^ Suc n" using pos by (intro mult_left_mono) simp_all
  then have dbl: "val64 ?bH ?bL = 2 * ?B" using val64_double Suc.prems(2) by simp
  have a2: "uint ?a2 mod 2 ^ n = r" using shift_mod Suc.prems(1) by (simp add: r_def)
  have split: "uint a mod 2 ^ Suc n = (if bit a 0 then 1 else 0) + 2 * r"
    unfolding r_def by (rule mod_double)
  have IH: "case mult_loop n ?a2 ?bH ?bL h l of (h', l') \<Rightarrow> val64 h' l' = val64 h l + 2 * ?B * r"
    if "val64 h l + 2 * ?B * r < 2 ^ 64" for h l
    using Suc.IH [of ?bH ?bL h l ?a2] that Suc.prems(1,2) unfolding dbl a2 by simp
  have prod: "0 \<le> 2 * ?B * r" using pos by simp
  show ?case
  proof (cases "bit a 0")
    case True
    have sum: "?V + ?B + 2 * ?B * r < 2 ^ 64"
      using Suc.prems(3) True unfolding split by (simp add: algebra_simps)
    then have add: "val64 ?h ?l = ?V + ?B" using prod by (intro val64_add) linarith
    show ?thesis
    proof (cases "a AND 0xfffffffe = 0")
      case only: True
      have "r = 0" using bit0_only [OF True only] by (simp add: r_def)
      then show ?thesis using True only add split by (simp add: Let_def)
    next
      case False
      then have "mult_loop (Suc n) a bHi bLo hi lo = mult_loop n ?a2 ?bH ?bL ?h ?l"
        using True by (simp add: Let_def)
      then show ?thesis
        using True IH [of ?h ?l] sum unfolding add split by (simp add: algebra_simps split: prod.splits)
    qed
  next
    case False
    then have "mult_loop (Suc n) a bHi bLo hi lo = mult_loop n ?a2 ?bH ?bL hi lo"
      by (simp add: Let_def)
    then show ?thesis
      using False IH [of hi lo] Suc.prems(3) unfolding split by (simp add: algebra_simps split: prod.splits)
  qed
qed

lemma mult_loop_32:
  "case mult_loop 32 a 0 b 0 0 of (h, l) \<Rightarrow> val64 h l = uint a * uint b"
proof -
  note b = uint_bounds [of a] uint_bounds [of b]
  have "uint a * uint b \<le> 4294967295 * 4294967295" using b by (intro mult_mono) simp_all
  then have "case mult_loop 32 a 0 b 0 0 of (h, l) \<Rightarrow>
      val64 h l = val64 0 0 + val64 0 b * (uint a mod 2 ^ 32)"
    using b by (intro mult_loop_val) (simp_all add: val64_def mult.commute)
  then show ?thesis using b by (simp add: val64_def mult.commute)
qed

lemma uint_sub32:
  "uint ((a :: 32 word) - b) = (if uint b \<le> uint a then uint a - uint b else uint a - uint b + 4294967296)"
  using uint_sub_if' [of a b] by simp

lemma uint_not32: "uint (NOT (w :: 32 word)) = 4294967295 - uint w"
proof -
  have "NOT w = - 1 - w" by (simp add: not_eq_complement)
  moreover have "uint (- 1 :: 32 word) = 4294967295"
    by (simp add: unsigned_minus_1_eq_mask mask_eq_exp_minus_1)
  ultimately show ?thesis using uint_bounds [of w] by (simp only: uint_sub32) simp
qed

lemma uint_neg32:
  assumes "w \<noteq> 0"
  shows "uint (- (w :: 32 word)) = 4294967296 - uint w"
proof -
  have "uint w \<noteq> 0" using assms by (simp add: uint_0_iff)
  then show ?thesis using uint_sub32 [of 0 w] uint_bounds [of w] by simp
qed

lemma sint_uint32: "sint (w :: 32 word) = (if bit w 31 then uint w - 4294967296 else uint w)"
proof -
  have "sint w = take_bit (Suc 31) (uint w) - 2 ^ Suc 31 * of_bool (bit (uint w) 31)"
    unfolding sint_uint by (simp only: signed_take_bit_eq_take_bit_minus) simp
  then show ?thesis by (simp add: take_bit_int_eq_self uint_bounds bit_uint_iff)
qed

lemma neg64:
  assumes "val64 hi lo \<noteq> 0"
  shows "val64 (if NOT lo + 1 = 0 then NOT hi + 1 else NOT hi) (NOT lo + 1) = 18446744073709551616 - val64 hi lo"
proof -
  have lo: "NOT lo + 1 = - lo" by (simp add: not_eq_complement)
  note b = uint_bounds [of hi] uint_bounds [of lo]
  show ?thesis
  proof (cases "lo = 0")
    case True
    then have "uint hi \<noteq> 0" using assms by (auto simp: val64_def)
    then have "hi \<noteq> 0" by auto
    then have "uint (NOT hi + 1) = 4294967296 - uint hi"
      using uint_neg32 [of hi] by (simp add: not_eq_complement)
    then show ?thesis using True by (simp add: lo val64_def)
  next
    case False
    then show ?thesis unfolding lo by (simp add: val64_def uint_neg32 uint_not32)
  qed
qed

text \<open>
  C24. The shift-and-add loop of \<open>Mult\<close> computes the full 64-bit product in its two result words,
  for signed and for unsigned operands, including the most negative number.
\<close>

theorem Mult_correct:
  "case Mult a b signedArith of (hi, lo) \<Rightarrow>
     uint hi * 2 ^ 32 + uint lo =
     (if signedArith then (sint a * sint b) mod 2 ^ 64 else uint a * uint b)"
proof (cases "a = 0 \<or> b = 0")
  case True
  then show ?thesis by (auto simp: Mult_def)
next
  case False
  define na nb where "na = (signedArith \<and> sint a < 0)" and "nb = (signedArith \<and> sint b < 0)"
  define a' b' where "a' = (if na then - a else a)" and "b' = (if nb then - b else b)"
  obtain hi lo where loop: "mult_loop 32 a' 0 b' 0 0 = (hi, lo)" by fastforce
  have V: "val64 hi lo = uint a' * uint b'" using mult_loop_32 [of a' b'] loop by simp
  have nz: "a \<noteq> 0" "b \<noteq> 0" using False by auto
  then have "a' \<noteq> 0" "b' \<noteq> 0" by (auto simp: a'_def b'_def)
  then have pos: "0 < uint a' * uint b'" by (simp add: word_neq_0_conv word_less_def)
  have lt: "uint a' * uint b' < 18446744073709551616"
    using mult_mono [of "uint a'" 4294967295 "uint b'" 4294967295] uint_bounds [of a'] uint_bounds [of b'] by simp
  have neg: "sint w < 0 \<longleftrightarrow> bit w 31" for w :: "32 word"
    using uint_bounds [of w] by (simp add: sint_uint32 bit31_iff)
  have ua: "uint a' = (if na then - sint a else uint a)" "uint b' = (if nb then - sint b else uint b)"
    using nz by (auto simp: a'_def b'_def na_def nb_def uint_neg32 neg sint_uint32)
  have sa: "signedArith \<Longrightarrow> uint a' = \<bar>sint a\<bar>" "signedArith \<Longrightarrow> uint b' = \<bar>sint b\<bar>"
    using ua by (auto simp: na_def nb_def neg sint_uint32 uint_bounds)
  show ?thesis
  proof (cases "na \<noteq> nb")
    case True
    then have s: signedArith by (auto simp: na_def nb_def)
    have prod: "sint a * sint b = - (uint a' * uint b')"
      using True sa [OF s] s by (auto simp: na_def nb_def)
    have "Mult a b signedArith = (if NOT lo + 1 = 0 then NOT hi + 1 else NOT hi, NOT lo + 1)"
      using False True loop by (auto simp: Mult_def na_def nb_def a'_def b'_def Let_def)
    moreover define p where "p = uint a' * uint b'"
    moreover have "(- p) mod 18446744073709551616 = 18446744073709551616 - p"
      using pos lt by (simp add: p_def [symmetric] zmod_zminus1_eq_if)
    moreover have "val64 (if NOT lo + 1 = 0 then NOT hi + 1 else NOT hi) (NOT lo + 1) =
        18446744073709551616 - p"
      using neg64 [of hi lo] pos unfolding V p_def by (metis less_irrefl)
    ultimately show ?thesis using s prod by (simp add: val64_def)
  next
    case same: False
    have M: "Mult a b signedArith = (hi, lo)"
      using False same loop by (auto simp: Mult_def na_def nb_def a'_def b'_def Let_def)
    have "signedArith \<Longrightarrow> sint a * sint b = uint a' * uint b'"
      using same sa by (auto simp: na_def nb_def abs_if)
    moreover have "\<not> signedArith \<Longrightarrow> uint a' = uint a \<and> uint b' = uint b"
      by (simp add: a'_def b'_def na_def nb_def)
    ultimately show ?thesis using M V lt pos by (simp add: val64_def)
  qed
qed

section \<open>Decoding stays inside the tables\<close>

lemma low_bits_lt: "unat ((w :: 32 word) AND mask n) < 2 ^ n"
proof -
  have "w AND mask n = take_bit n w" by (simp add: take_bit_eq_mask)
  then show ?thesis by (simp add: unsigned_take_bit_eq take_bit_nat_less_exp)
qed

lemma field_lt:
  "unat ((w :: 32 word) AND 0x1f) < 32" "unat ((w :: 32 word) AND 0x3f) < 64"
  using low_bits_lt [of w 5] low_bits_lt [of w 6] by (simp_all add: mask_eq_exp_minus_1)

lemma table_entries:
  "\<forall>e\<in>set opTable. fst e \<noteq> OP_RFE" "\<forall>e\<in>set specialTable. e \<notin> {OP_RFE, SPECIAL, BCOND}"
  "length opTable = 64" "length specialTable = 64"
  by (simp_all add: opTable_def specialTable_def)

lemma Decode_fields: "rs (Decode v) < 32" "rt (Decode v) < 32" "rd (Decode v) < 32"
  by (simp_all add: Decode_def Let_def field_lt split: prod.split)

lemma Decode_opCode: "opCode (Decode v) \<notin> {OP_RFE, SPECIAL, BCOND}"
proof -
  obtain op fmt where e: "opTable ! unat (drop_bit 26 v AND 0x3f) = (op, fmt)" by fastforce
  have "(op, fmt) \<in> set opTable"
    unfolding e [symmetric] using field_lt(2) table_entries(3) by (intro nth_mem) simp
  then have "op \<noteq> OP_RFE" using table_entries(1) by auto
  moreover have "specialTable ! unat (v AND 0x3f) \<notin> {OP_RFE, SPECIAL, BCOND}"
    using table_entries(2,4) field_lt(2) [of v] nth_mem by simp
  ultimately show ?thesis using e by (simp add: Decode_def Let_def)
qed

section \<open>What can stop the simulator\<close>

text \<open>
  The kernel's exception handler \<open>K\<close> is a parameter, and it may stop, as \<open>ExceptionHandler\<close> does for the
  exceptions it does not expect. \<open>stopped_by F K e m\<close>: a run of \<open>F\<close> calls the handler for \<open>e\<close> in the state \<open>m\<close>,
  and an error of this call is the result of the run, whatever the error. \<open>returns F K\<close>: the run returns, or the handler has stopped it.
\<close>

definition stopped_by :: "(kernel_entry \<Rightarrow> 'a res) \<Rightarrow> kernel_entry \<Rightarrow> ExceptionType \<Rightarrow> Machine \<Rightarrow> bool" where
  "stopped_by F K e m \<longleftrightarrow> (\<forall>x. F (K(e := (K e)(m := Inl x))) = Inl x)"

definition returns :: "(kernel_entry \<Rightarrow> 'a res) \<Rightarrow> kernel_entry \<Rightarrow> bool" where
  "returns F K \<longleftrightarrow> (\<forall>err. F K = Inl err \<longrightarrow> (\<exists>e m. e \<noteq> NoException \<and> K e m = Inl err \<and> stopped_by F K e m))"

lemma returns_simps [simp]:
  "returns (\<lambda>K. Inr x) K"
  "returns (\<lambda>K. if c then F K else G K) K \<longleftrightarrow> (if c then returns F K else returns G K)"
  "returns (\<lambda>K. case p of (a, b) \<Rightarrow> H a b K) K \<longleftrightarrow> (case p of (a, b) \<Rightarrow> returns (H a b) K)"
  by (simp_all add: returns_def split: prod.split)

lemma returns_bind:
  assumes "returns F K" "\<And>x err. F K = Inr x \<Longrightarrow> G x K = Inl err \<Longrightarrow> (\<forall>K'. F K' = Inr x) \<and> returns (G x) K"
  shows "returns (\<lambda>K. bindE (F K) (\<lambda>x. G x K)) K"
  unfolding returns_def
proof (intro allI impI)
  fix err assume err: "bindE (F K) (\<lambda>x. G x K) = Inl err"
  show "\<exists>e m. e \<noteq> NoException \<and> K e m = Inl err \<and> stopped_by (\<lambda>K. bindE (F K) (\<lambda>x. G x K)) K e m"
  proof (cases "F K")
    case (Inl a)
    with err assms(1) obtain e m where "e \<noteq> NoException" "K e m = Inl err" "stopped_by F K e m"
      by (auto simp: returns_def)
    then show ?thesis by (intro exI [of _ e] exI [of _ m]) (simp add: stopped_by_def)
  next
    case (Inr x)
    then have g: "G x K = Inl err" using err by simp
    with assms(2) [OF Inr] have "\<forall>K'. F K' = Inr x" "returns (G x) K" by simp_all
    with g show ?thesis by (auto simp: returns_def stopped_by_def)
  qed
qed

lemma mach_ok_cong:
  "tlb m' = tlb m \<Longrightarrow> pageTable m' = pageTable m \<Longrightarrow> pageTableSize m' = pageTableSize m \<Longrightarrow>
   mach_ok m' = mach_ok m"
  by (simp add: mach_ok_def split: option.split)

lemma mach_ok_setreg [simp]: "mach_ok (setreg m i v) = mach_ok m"
  by (rule mach_ok_cong) simp_all

lemma mach_ok_DelayedLoad [simp]: "mach_ok (DelayedLoad m r v) = mach_ok m"
  by (simp add: DelayedLoad_def Let_def)

lemma mach_ok_set_entry: "mach_ok m \<Longrightarrow> mach_ok (set_entry m kind i e)"
  by (auto simp: mach_ok_def set_entry_def split: option.splits table_kind.splits)

lemma RaiseException_returns:
  assumes "e \<noteq> NoException"
  shows "returns (\<lambda>K. RaiseException K e a m) K"
  unfolding returns_def
proof (intro allI impI)
  let ?m1 = "(DelayedLoad (setreg m BadVAddrReg a) 0 0)\<lparr>status := SystemMode\<rparr>"
  fix err assume "RaiseException K e a m = Inl err"
  then have "K e ?m1 = Inl err" by (auto simp: RaiseException_def Let_def bindE_def split: sum.splits)
  moreover have "stopped_by (\<lambda>K. RaiseException K e a m) K e ?m1"
    by (simp add: stopped_by_def RaiseException_def Let_def)
  ultimately show "\<exists>e' m'. e' \<noteq> NoException \<and> K e' m' = Inl err \<and> stopped_by (\<lambda>K. RaiseException K e a m) K e' m'"
    using assms by blast
qed

lemma trap_returns: "e \<noteq> NoException \<Longrightarrow> returns (\<lambda>K. trap K e a m) K"
  unfolding trap_def by (rule returns_bind [OF RaiseException_returns]) simp_all

lemma translated_ok: "translated m va sz w pa m' \<Longrightarrow> mach_ok m \<Longrightarrow> mach_ok m'"
  by (auto simp: translated_def mach_ok_set_entry)

lemma mach_ok_mem [simp]:
  "mach_ok (m\<lparr>lastUsed := x\<rparr>) = mach_ok m" "mach_ok (m\<lparr>mainMemory := y\<rparr>) = mach_ok m"
  by (rule mach_ok_cong; simp)+

lemma ReadMem_returns:
  assumes "mach_ok m" "sz \<in> {1, 2, 4}"
  shows "returns (\<lambda>K. ReadMem K m va sz) K"
    and "ReadMem K m va sz = Inr (Some v, m1) \<Longrightarrow> (\<forall>K'. ReadMem K' m va sz = Inr (Some v, m1)) \<and> mach_ok m1"
proof -
  have "returns (\<lambda>K. ReadMem K m va sz) K \<and>
    (ReadMem K m va sz = Inr (Some v, m1) \<longrightarrow> (\<forall>K'. ReadMem K' m va sz = Inr (Some v, m1)) \<and> mach_ok m1)"
    using assms
  proof (cases rule: Translate_cases [of m sz va False])
    case (refused exc)
    have "returns (\<lambda>K. bindE (RaiseException K exc va m) (\<lambda>m2. Inr (None :: 32 word option, m2))) K"
      by (rule returns_bind [OF RaiseException_returns [OF refused(2)]]) simp
    then show ?thesis using refused by (auto simp: ReadMem_def bindE_Inr_iff)
  next
    case (success pa m')
    have ok: "mach_ok m'" using translated_ok success(2) assms(1) by blast
    obtain r where r: "\<And>K. ReadMem K m va sz = Inr (Some r, m'\<lparr>lastUsed := (lastUsed m')(nat pa div 128 := ticks m')\<rparr>)"
      using success(1) assms(2) by (auto simp: ReadMem_def Let_def)
    then show ?thesis using ok by auto
  qed
  then show "returns (\<lambda>K. ReadMem K m va sz) K"
    and "ReadMem K m va sz = Inr (Some v, m1) \<Longrightarrow> (\<forall>K'. ReadMem K' m va sz = Inr (Some v, m1)) \<and> mach_ok m1" by blast+
qed

lemma WriteMem_returns:
  assumes "mach_ok m" "sz \<in> {1, 2, 4}"
  shows "returns (\<lambda>K. WriteMem K m va sz v) K"
  using assms
proof (cases rule: Translate_cases [of m sz va True])
  case (refused exc)
  have "returns (\<lambda>K. bindE (RaiseException K exc va m) (\<lambda>m2. Inr (False, m2))) K"
    by (rule returns_bind [OF RaiseException_returns [OF refused(2)]]) simp
  then show ?thesis using refused by (simp add: WriteMem_def)
next
  case (success pa m')
  then show ?thesis using assms(2) by (auto simp: WriteMem_def Let_def)
qed

lemma load_then_returns:
  assumes "mach_ok m" "sz \<in> {1, 2, 4}" "\<And>v m1. mach_ok m1 \<Longrightarrow> returns (\<lambda>K. f K v m1) K"
  shows "returns (\<lambda>K. load_then K m a sz (f K)) K"
  unfolding load_then_def
proof (rule returns_bind [OF ReadMem_returns(1) [OF assms(1,2)]])
  let ?rest = "\<lambda>x K. case x of (r, m1) \<Rightarrow> case r of None \<Rightarrow> Inr (Trapped m1) | Some v \<Rightarrow> f K v m1"
  fix x err assume x: "ReadMem K m a sz = Inr x" and err: "?rest x K = Inl err"
  then obtain v m1 where v: "x = (Some v, m1)" by (cases x; cases "fst x") auto
  from ReadMem_returns(2) [OF assms(1,2) x [unfolded v]] show "(\<forall>K'. ReadMem K' m a sz = Inr x) \<and> returns (?rest x) K"
    using assms(3) v by simp
qed

lemma store_then_returns:
  assumes "mach_ok m" "sz \<in> {1, 2, 4}"
  shows "returns (\<lambda>K. store_then K m a sz v pc) K"
  unfolding store_then_def
  by (rule returns_bind [OF WriteMem_returns [OF assms]]) (auto split: prod.splits if_splits)

text \<open>The instructions that may fail, and when.\<close>

definition partial_word :: "Instruction \<Rightarrow> bool" where
  "partial_word I \<longleftrightarrow> opCode I \<in> {OP_LWL, OP_LWR, OP_SWL, OP_SWR}"

definition bad_instruction :: "Instruction \<Rightarrow> Machine \<Rightarrow> nachos_error \<Rightarrow> bool" where
  "bad_instruction I m err \<longleftrightarrow>
     partial_word I \<and> (registers m (rs I) + extra I) AND 3 \<noteq> 0 \<and> err = AssertionFailed \<or>
     opCode I = OP_DIV \<and> registers m (rt I) \<noteq> 0 \<and>
       2 ^ 31 \<le> sint (registers m (rs I)) sdiv sint (registers m (rt I)) \<and> err = UndefinedArithmetic"

lemmas op_defs = op_ADD_def op_ADDI_def op_ADDIU_def op_ADDU_def op_AND_def op_ANDI_def op_BEQ_def op_BGEZ_def
  op_BGEZAL_def op_BGTZ_def op_BLEZ_def op_BLTZ_def op_BLTZAL_def op_BNE_def op_DIVU_def op_J_def
  op_JAL_def op_JALR_def op_JR_def op_LB_def op_LH_def op_LUI_def op_LW_def
  op_MFHI_def op_MFLO_def op_MTHI_def op_MTLO_def op_MULT_def op_NOR_def op_OR_def op_ORI_def op_SB_def op_SH_def
  op_SLL_def op_SLLV_def op_SLT_def op_SLTI_def op_SLTIU_def op_SLTU_def op_SRA_def op_SRAV_def op_SRL_def
  op_SRLV_def op_SUB_def op_SUBU_def op_SW_def op_SYSCALL_def op_XOR_def op_XORI_def op_illegal_def

lemma partial_word_ok:
  assumes "mach_ok m" "f \<in> {op_LWL, op_LWR, op_SWL, op_SWR}"
  shows "if (registers m (rs I) + extra I) AND 3 = 0 then returns (\<lambda>K. f K I m pc) K else f K I m pc = Inl AssertionFailed"
  using assms
  by (auto simp: op_LWL_def op_LWR_def op_SWL_def op_SWR_def Let_def ASSERT_def
      intro!: load_then_returns store_then_returns)

lemma div_ok:
  "if registers m (rt I) \<noteq> 0 \<and> 2 ^ 31 \<le> sint (registers m (rs I)) sdiv sint (registers m (rt I))
   then op_DIV K I m pc = Inl UndefinedArithmetic else returns (\<lambda>K. op_DIV K I m pc) K"
  by (simp add: op_DIV_def Let_def)

lemma dispatch_ok:
  assumes "mach_ok m" "opCode I \<notin> {OP_RFE, SPECIAL, BCOND}"
  shows "returns (\<lambda>K. dispatch_op K I m pc) K \<or> (\<exists>err. dispatch_op K I m pc = Inl err \<and> bad_instruction I m err)"
proof (cases "partial_word I \<or> opCode I = OP_DIV")
  case True
  then show ?thesis
    using partial_word_ok [OF assms(1), of op_LWL I pc K] partial_word_ok [OF assms(1), of op_LWR I pc K]
      partial_word_ok [OF assms(1), of op_SWL I pc K] partial_word_ok [OF assms(1), of op_SWR I pc K]
      div_ok [of m I K pc]
    by (auto simp: partial_word_def bad_instruction_def dispatch_op_def split: if_splits)
next
  case False
  have "returns (\<lambda>K. dispatch_op K I m pc) K"
    using False assms
    by (cases "opCode I")
      (auto simp: dispatch_op_def partial_word_def op_defs Let_def
        intro!: trap_returns load_then_returns store_then_returns split: prod.splits)
  then show ?thesis ..
qed

text \<open>
  C25. What can stop the simulator. If \<open>OneInstruction\<close> fails with an error, then either it has called the kernel's exception handler
  for an exception, the handler has failed with this error, and it is this call that decides: any other error of the handler
  at this call would have been the result instead (the handler of this kernel halts on all exceptions but system calls and page
  faults); or the instruction that was fetched is a partial-word load or store (\<open>LWL\<close>, \<open>LWR\<close>, \<open>SWL\<close>, \<open>SWR\<close>) at
  an address that is not a multiple of four, which fails the simulator's assertion, or a signed division whose quotient does not fit,
  which is undefined on the host. In particular no instruction word reaches the default case of the switch. The
  handler is any function.
\<close>

theorem OneInstruction_fails_only_if:
  assumes "mach_ok m" "OneInstruction K m = Inl err"
  shows "(\<exists>e m1. e \<noteq> NoException \<and> K e m1 = Inl err \<and> (\<forall>x. OneInstruction (K(e := (K e)(m1 := Inl x))) m = Inl x)) \<or>
    (\<exists>v m1. ReadMem K m (registers m PCReg) 4 = Inr (Some v, m1) \<and> bad_instruction (Decode v) m1 err)"
proof (cases "\<exists>v m1. ReadMem K m (registers m PCReg) 4 = Inr (Some v, m1) \<and> bad_instruction (Decode v) m1 err")
  case False
  have sz: "(4 :: int) \<in> {1, 2, 4}" by simp
  note fetch = ReadMem_returns [OF assms(1) sz, where va = "registers m PCReg"]
  have "returns (\<lambda>K. OneInstruction K m) K"
    unfolding OneInstruction_def
  proof (rule returns_bind [OF fetch(1)])
    let ?rest = "\<lambda>x K. case x of (raw, m1) \<Rightarrow> (case raw of None \<Rightarrow> Inr m1 | Some v \<Rightarrow>
        bindE (dispatch_op K (Decode v) m1 (registers m1 NextPCReg + 4)) (\<lambda>r. Inr (finish_instruction r)))"
    fix x e assume x: "ReadMem K m (registers m PCReg) 4 = Inr x" and e: "?rest x K = Inl e"
    then obtain v m1 where v: "x = (Some v, m1)" by (cases x; cases "fst x") auto
    note f = fetch(2) [OF x [unfolded v]]
    have d: "dispatch_op K (Decode v) m1 (registers m1 NextPCReg + 4) = Inl err"
      using assms(2) x v e by (auto simp: OneInstruction_def bindE_def split: sum.splits)
    have "returns (\<lambda>K. dispatch_op K (Decode v) m1 (registers m1 NextPCReg + 4)) K"
      using dispatch_ok [OF conjunct2 [OF f] Decode_opCode] False x v d by fastforce
    then have "returns (\<lambda>K. bindE (dispatch_op K (Decode v) m1 (registers m1 NextPCReg + 4)) (\<lambda>r. Inr (finish_instruction r))) K"
      by (rule returns_bind) simp
    then show "(\<forall>K'. ReadMem K' m (registers m PCReg) 4 = Inr x) \<and> returns (?rest x) K" using f v by simp
  qed
  then show ?thesis using assms(2) unfolding returns_def stopped_by_def by blast
qed simp

text \<open>A machine whose first instruction is \<open>LWL r1, 1(r0)\<close>.\<close>

definition lwl_machine :: Machine where
  "lwl_machine = one_entry_machine\<lparr>mainMemory := (\<lambda>_. 0)(384 := 0x01, 386 := 0x01, 387 := 0x88)\<rparr>"

lemma lwl_machine_fetch:
  "\<exists>m1. ReadMem K lwl_machine 0 4 = Inr (Some 0x88010001, m1) \<and> registers m1 = (\<lambda>_. 0)"
  by (simp add: ReadMem_def Translate_def find_entry_def lwl_machine_def one_entry_machine_def
      Machine_new_def array_get_def Let_def load4_any_host le_word_def set_entry_def push_bit_eq_mult)

lemma lwl_decode: "opCode (Decode 0x88010001) = OP_LWL" "extra (Decode 0x88010001) = 1" "rs (Decode 0x88010001) = 0"
  by (simp_all add: Decode_def opTable_def drop_bit_eq_div)

theorem OneInstruction_fails_only_if_witness:
  "\<exists>v m1. ReadMem (\<lambda>e m. if e = SyscallException \<or> e = PageFaultException then Inr m else Inl Halted) lwl_machine 0 4 = Inr (Some v, m1) \<and>
     bad_instruction (Decode v) m1 AssertionFailed"
proof -
  let ?K = "\<lambda>e m. if e = SyscallException \<or> e = PageFaultException then Inr m else Inl Halted"
  have ok: "mach_ok lwl_machine"
    by (simp add: mach_ok_def lwl_machine_def one_entry_machine_def Machine_new_def)
  have pc: "registers lwl_machine PCReg = 0"
    by (simp add: lwl_machine_def one_entry_machine_def Machine_new_def)
  have "OneInstruction ?K lwl_machine = Inl AssertionFailed"
    using lwl_machine_fetch [of ?K]
    by (auto simp: OneInstruction_def pc dispatch_op_def lwl_decode op_LWL_def)
  from OneInstruction_fails_only_if [OF ok this] show ?thesis
    by (auto simp: pc split: if_splits)
qed

section \<open>Register zero\<close>

definition kernel_keeps_R0 :: "kernel_entry \<Rightarrow> bool" where
  "kernel_keeps_R0 K \<longleftrightarrow> (\<forall>e m m'. registers m 0 = 0 \<longrightarrow> K e m = Inr m' \<longrightarrow> registers m' 0 = 0)"

definition traps_clean :: "outcome res \<Rightarrow> bool" where
  "traps_clean r \<longleftrightarrow> (\<forall>m'. r = Inr (Trapped m') \<longrightarrow> registers m' 0 = 0)"

lemma traps_clean_simps [simp]:
  "traps_clean (Inr (Completed m pc r v))" "traps_clean (Inl e)"
  "traps_clean (Inr (Trapped m)) \<longleftrightarrow> registers m 0 = 0"
  by (simp_all add: traps_clean_def)

lemma RaiseException_R0:
  assumes "kernel_keeps_R0 K" "RaiseException K e a m = Inr m'"
  shows "registers m' 0 = 0"
proof -
  let ?m1 = "(DelayedLoad (setreg m BadVAddrReg a) 0 0)\<lparr>status := SystemMode\<rparr>"
  obtain m2 where m2: "K e ?m1 = Inr m2" "m' = m2\<lparr>status := UserMode\<rparr>"
    using assms(2) by (auto simp: RaiseException_def bindE_Inr_iff Let_def)
  have "registers ?m1 0 = 0" by (simp add: DelayedLoad_def Let_def)
  then have "registers m2 0 = 0" using assms(1) m2(1) unfolding kernel_keeps_R0_def by blast
  then show ?thesis using m2(2) by simp
qed

lemma trap_clean: "kernel_keeps_R0 K \<Longrightarrow> traps_clean (trap K e a m)"
  by (auto simp: trap_def traps_clean_def dest: RaiseException_R0)

lemma ReadMem_R0: "kernel_keeps_R0 K \<Longrightarrow> ReadMem K m a sz = Inr (None, m') \<Longrightarrow> registers m' 0 = 0"
  by (auto simp: ReadMem_def Let_def bindE_Inr_iff dest: RaiseException_R0 split: if_splits)

lemma WriteMem_R0: "kernel_keeps_R0 K \<Longrightarrow> WriteMem K m a sz v = Inr (False, m') \<Longrightarrow> registers m' 0 = 0"
  by (auto simp: WriteMem_def Let_def bindE_Inr_iff dest: RaiseException_R0 split: if_splits)

lemma load_then_clean:
  assumes "kernel_keeps_R0 K" "\<And>v m1. traps_clean (f v m1)"
  shows "traps_clean (load_then K m a sz f)"
  using ReadMem_R0 [OF assms(1), of m a sz] assms(2)
  by (cases "ReadMem K m a sz") (auto simp: load_then_def split: option.splits)

lemma store_then_clean: "kernel_keeps_R0 K \<Longrightarrow> traps_clean (store_then K m a sz v pc)"
  using WriteMem_R0 [of K m a sz v] by (cases "WriteMem K m a sz v") (auto simp: store_then_def)

lemma bindE_ASSERT_clean: "traps_clean r \<Longrightarrow> traps_clean (bindE (ASSERT c) (\<lambda>_. r))"
  by (cases c) simp_all

lemma dispatch_clean:
  assumes "kernel_keeps_R0 K"
  shows "traps_clean (dispatch_op K I m pc)"
  using assms
  by (cases "opCode I")
    (auto simp: dispatch_op_def op_defs op_DIV_def op_LWL_def op_LWR_def op_SWL_def op_SWR_def Let_def
      intro!: trap_clean load_then_clean store_then_clean bindE_ASSERT_clean split: prod.splits)

text \<open>
  Register 0 reads as zero between any two instructions, whatever the instruction did
  (including one that names register 0 as its target, and a delayed load into it), provided the
  kernel does not write to it.
\<close>

theorem register_zero:
  assumes "kernel_keeps_R0 K" "OneInstruction K m = Inr m'"
  shows "registers m' 0 = 0"
proof -
  obtain r m1 where r: "ReadMem K m (registers m PCReg) 4 = Inr (r, m1)"
    using assms(2) by (auto simp: OneInstruction_def)
  show ?thesis
  proof (cases r)
    case None
    then show ?thesis using r ReadMem_R0 [OF assms(1)] assms(2) by (auto simp: OneInstruction_def)
  next
    case (Some v)
    then obtain x where x: "dispatch_op K (Decode v) m1 (registers m1 NextPCReg + 4) = Inr x"
      "m' = finish_instruction x"
      using assms(2) r by (auto simp: OneInstruction_def)
    then show ?thesis
      using dispatch_clean [OF assms(1), of "Decode v" m1 "registers m1 NextPCReg + 4"]
      by (cases x) (auto simp: finish_instruction_def DelayedLoad_def Let_def)
  qed
qed

theorem register_zero_witness:
  "\<exists>m'. OneInstruction (\<lambda>_ m. Inr m) one_entry_machine = Inr m' \<and> registers m' 0 = 0"
proof -
  have "\<exists>m'. OneInstruction (\<lambda>_ m. Inr m) one_entry_machine = Inr m'"
    by (simp add: OneInstruction_def ReadMem_def Translate_def find_entry_def one_entry_machine_def
        Machine_new_def array_get_def Let_def load4_any_host le_word_def Decode_def opTable_def specialTable_def
        dispatch_op_def op_SLL_def)
  then show ?thesis
    using register_zero [of "\<lambda>_ m. Inr m" one_entry_machine] by (auto simp: kernel_keeps_R0_def)
qed

section \<open>Arithmetic with overflow check\<close>

lemma sint_cases32:
  obtains "0 \<le> uint w" "uint w < 2147483648" "sint (w :: 32 word) = uint w"
  | "2147483648 \<le> uint w" "uint w < 4294967296" "sint w = uint w - 4294967296"
  using uint_bounds [of w] by (cases "2147483648 \<le> uint w") (simp_all add: sint_uint32 bit31_iff)

lemma sint_bounds32: "- 2147483648 \<le> sint (w :: 32 word)" "sint (w :: 32 word) < 2147483648"
  by (cases w rule: sint_cases32; linarith)+

lemma sign_bit: "bit (w :: 32 word) 31 \<longleftrightarrow> sint w < 0"
  unfolding bit31_iff by (cases w rule: sint_cases32; linarith)

lemma sint_add32:
  "sint ((a :: 32 word) + b) =
     (let s = sint a + sint b in
      if s < - 2147483648 then s + 4294967296 else if 2147483648 \<le> s then s - 4294967296 else s)"
proof -
  have "uint (a + b) = uint a + uint b \<or> uint (a + b) = uint a + uint b - 4294967296"
    by (simp add: uint_add32)
  then show ?thesis
    unfolding Let_def
    by (cases a rule: sint_cases32; cases b rule: sint_cases32; cases "a + b" rule: sint_cases32)
      (auto split: if_splits, (use uint_bounds(1) [of a] uint_bounds(1) [of b] in linarith)+)
qed

lemma sint_sub32:
  "sint ((a :: 32 word) - b) =
     (let s = sint a - sint b in
      if s < - 2147483648 then s + 4294967296 else if 2147483648 \<le> s then s - 4294967296 else s)"
proof -
  have "uint (a - b) = uint a - uint b \<or> uint (a - b) = uint a - uint b + 4294967296"
    by (simp add: uint_sub32)
  then show ?thesis
    unfolding Let_def
    by (cases a rule: sint_cases32; cases b rule: sint_cases32; cases "a - b" rule: sint_cases32)
      (auto split: if_splits)
qed

definition fits32 :: "int \<Rightarrow> bool" where
  "fits32 x \<longleftrightarrow> - (2 ^ 31) \<le> x \<and> x < 2 ^ 31"

lemma add_overflow_iff:
  "\<not> bit ((a :: 32 word) XOR b) 31 \<and> bit (a XOR (a + b)) 31 \<longleftrightarrow> \<not> fits32 (sint a + sint b)"
  "\<not> bit ((a :: 32 word) XOR b) 31 \<and> bit (b XOR (a + b)) 31 \<longleftrightarrow> \<not> fits32 (sint a + sint b)"
  unfolding bit_xor_iff unfolding sign_bit sint_add32 fits32_def Let_def
  using sint_bounds32 [of a] sint_bounds32 [of b] by auto

lemma sub_overflow_iff:
  "bit ((a :: 32 word) XOR b) 31 \<and> bit (a XOR (a - b)) 31 \<longleftrightarrow> \<not> fits32 (sint a - sint b)"
  unfolding bit_xor_iff unfolding sign_bit sint_sub32 fits32_def Let_def
  using sint_bounds32 [of a] sint_bounds32 [of b] by auto

text \<open>
  \<open>ADD\<close>, \<open>ADDI\<close> and \<open>SUB\<close> trap with an overflow exception exactly when the signed result does
  not fit in 32 bits; otherwise the target register gets the exact signed result.
\<close>

theorem signed_arithmetic_exact:
  fixes I m
  defines "a \<equiv> sint (registers m (rs I))" and "b \<equiv> sint (registers m (rt I))" and "i \<equiv> sint (extra I)"
  shows "op_ADD K I m pc = (if fits32 (a + b) then completed (setreg m (rd I) (word_of_int (a + b))) pc
           else trap K OverflowException 0 m) \<and>
    op_ADDI K I m pc = (if fits32 (a + i) then completed (setreg m (rt I) (word_of_int (a + i))) pc
           else trap K OverflowException 0 m) \<and>
    op_SUB K I m pc = (if fits32 (a - b) then completed (setreg m (rd I) (word_of_int (a - b))) pc
           else trap K OverflowException 0 m)"
  unfolding op_ADD_def op_ADDI_def op_SUB_def Let_def add_overflow_iff sub_overflow_iff a_def b_def i_def
  by simp

text \<open>
  Two instructions do not do what the architecture says: \<open>OR\<close> ignores its second operand, and
  the logical right shifts \<open>SRL\<close> and \<open>SRLV\<close> copy the sign bit, exactly like \<open>SRA\<close> and \<open>SRAV\<close>.
\<close>

theorem OR_and_logical_shifts_wrong:
  "op_OR K I m pc = completed (setreg m (rd I) (registers m (rs I))) pc \<and>
   op_SRL K I m pc = op_SRA K I m pc \<and> op_SRLV K I m pc = op_SRAV K I m pc"
  by (simp add: op_OR_def op_SRL_def op_SRA_def op_SRLV_def op_SRAV_def)

end
