(* ===== verification/Nachos_Disk.thy ===== *)
theory Nachos_Disk
  imports Nachos_Bitmap Nachos_Interrupt
begin

unbundle bit_operations_syntax

text \<open>
  The simulated disk (\<^verbatim>\<open>machine/disk.cc\<close>) and the synchronous interface to it
  (\<^verbatim>\<open>filesys/synchdisk.cc\<close>). The disk keeps its sectors in a UNIX file, modelled by its bytes; a
  request changes the file at once and schedules an interrupt for the time at which the
  simulated hardware would have finished. \<open>SynchDisk\<close> turns this into calls that return when the
  interrupt has come.

  The calls of \<open>SynchDisk\<close> are those of a single kernel thread: while it waits for its semaphore no
  other thread is ready, so the processor idles until the next interrupt. The abstract object is
  the list of sectors, on which reading and writing are \<open>ReadSector\<close> and \<open>WriteSector\<close>; the file
  system is built on these.
\<close>

section \<open>The UNIX file\<close>

type_synonym byte = "8 word"

definition file_read :: "byte list \<Rightarrow> int \<Rightarrow> int \<Rightarrow> byte list res" where
  "file_read f off n =
     bindE (ASSERT (0 \<le> off)) (\<lambda>_.
     bindE (ASSERT (off + n \<le> int (length f))) (\<lambda>_.
       Inr (take (nat n) (drop (nat off) f))))"

text \<open>A write behind the end of the file fills the gap with zeros.\<close>

definition file_write :: "byte list \<Rightarrow> int \<Rightarrow> byte list \<Rightarrow> byte list res" where
  "file_write f off data =
     bindE (ASSERT (0 \<le> off)) (\<lambda>_.
       Inr (take (nat off) (f @ replicate (nat off - length f) 0) @ data @ drop (nat off + length data) f))"

section \<open>The raw disk\<close>

abbreviation MagicNumber :: "32 word" where "MagicNumber \<equiv> 0x456789ab"
abbreviation MagicSize :: int where "MagicSize \<equiv> 4"
abbreviation DiskSize :: int where "DiskSize \<equiv> 131076"
abbreviation RotationTime :: int where "RotationTime \<equiv> 500"
abbreviation SeekTime :: int where "SeekTime \<equiv> 500"

record Disk =
  dfile :: "byte list"
  active :: bool
  lastSector :: int
  bufferInit :: int

datatype disk_handler = DiskDone

text \<open>
  The part of the machine that the disk and its driver share: the device, its two counters and the
  semaphore and lock of \<open>SynchDisk\<close>.
\<close>

record disk_world =
  disk :: Disk
  numDiskReads :: int
  numDiskWrites :: int
  synch_value :: int
  synch_locked :: bool

type_synonym disk_hw = "(disk_handler, disk_world) hw"

definition upd_disk :: "(Disk \<Rightarrow> Disk) \<Rightarrow> disk_hw \<Rightarrow> disk_hw" where
  "upd_disk f s = s\<lparr>world := (world s)\<lparr>disk := f (disk (world s))\<rparr>\<rparr>"

text \<open>\<open>existing\<close> is the contents of the UNIX file, or \<open>None\<close> when there is no such file.\<close>

definition Disk_new :: "byte list option \<Rightarrow> Disk res" where
  "Disk_new existing =
     bindE (case existing of
         Some f \<Rightarrow>
           bindE (file_read f 0 MagicSize) (\<lambda>bs.
           bindE (ASSERT (bytes_word bs = MagicNumber)) (\<lambda>_. Inr f))
       | None \<Rightarrow>
           bindE (file_write [] 0 (word_bytes MagicNumber)) (\<lambda>f.
             file_write f (DiskSize - 4) (word_bytes 0)))
     (\<lambda>f. Inr \<lparr>dfile = f, active = False, lastSector = 0, bufferInit = 0\<rparr>)"

text \<open>The seek time and the rotation until the head is at the start of a sector.\<close>

definition TimeToSeek :: "disk_hw \<Rightarrow> int \<Rightarrow> int \<times> int" where
  "TimeToSeek s newSector =
     (let newTrack = newSector sdiv SectorsPerTrack;
          oldTrack = lastSector (disk (world s)) sdiv SectorsPerTrack;
          seek = \<bar>newTrack - oldTrack\<bar> * SeekTime;
          over = (totalTicks (stats s) + seek) smod RotationTime
      in (seek, if over > 0 then RotationTime - over else 0))"

definition ModuloDiff :: "int \<Rightarrow> int \<Rightarrow> int" where
  "ModuloDiff to from =
     (let toOffset = to smod SectorsPerTrack; fromOffset = from smod SectorsPerTrack
      in ((toOffset - fromOffset) + SectorsPerTrack) smod SectorsPerTrack)"

definition ComputeLatency :: "disk_hw \<Rightarrow> int \<Rightarrow> bool \<Rightarrow> int" where
  "ComputeLatency s newSector writing =
     (let (seek, rotation) = TimeToSeek s newSector;
          timeAfter = totalTicks (stats s) + seek + rotation;
          bi = bufferInit (disk (world s))
      in if \<not> writing \<and> seek = 0 \<and>
            (timeAfter - bi) sdiv RotationTime > ModuloDiff newSector (bi sdiv RotationTime)
         then RotationTime
         else seek + (rotation + ModuloDiff newSector (timeAfter sdiv RotationTime) * RotationTime) +
              RotationTime)"

definition UpdateLast :: "int \<Rightarrow> disk_hw \<Rightarrow> disk_hw" where
  "UpdateLast newSector s =
     (let (seek, rotate) = TimeToSeek s newSector in
      upd_disk (\<lambda>d. d\<lparr>bufferInit := (if seek \<noteq> 0 then totalTicks (stats s) + seek + rotate else bufferInit d),
                      lastSector := newSector\<rparr>) s)"

definition ReadRequest :: "int \<Rightarrow> disk_hw \<Rightarrow> (byte list \<times> disk_hw) res" where
  "ReadRequest sectorNumber s =
     (let ticks = ComputeLatency s sectorNumber False; d = disk (world s) in
      bindE (ASSERT (\<not> active d)) (\<lambda>_.
      bindE (ASSERT (sectorNumber \<ge> 0 \<and> sectorNumber < NumSectors)) (\<lambda>_.
      bindE (file_read (dfile d) (SectorSize * sectorNumber + MagicSize) SectorSize) (\<lambda>data.
        let s1 = UpdateLast sectorNumber (upd_disk (\<lambda>d. d\<lparr>active := True\<rparr>) s);
            s2 = s1\<lparr>world := (world s1)\<lparr>numDiskReads := numDiskReads (world s1) + 1\<rparr>\<rparr>
        in bindE (Schedule DiskDone 0 ticks DiskInt s2) (\<lambda>s3. Inr (data, s3))))))"

definition WriteRequest :: "int \<Rightarrow> byte list \<Rightarrow> disk_hw \<Rightarrow> disk_hw res" where
  "WriteRequest sectorNumber data s =
     (let ticks = ComputeLatency s sectorNumber True; d = disk (world s) in
      bindE (ASSERT (\<not> active d)) (\<lambda>_.
      bindE (ASSERT (sectorNumber \<ge> 0 \<and> sectorNumber < NumSectors)) (\<lambda>_.
      bindE (file_write (dfile d) (SectorSize * sectorNumber + MagicSize) (take (nat SectorSize) data)) (\<lambda>f.
        let s1 = UpdateLast sectorNumber (upd_disk (\<lambda>d. d\<lparr>dfile := f, active := True\<rparr>) s);
            s2 = s1\<lparr>world := (world s1)\<lparr>numDiskWrites := numDiskWrites (world s1) + 1\<rparr>\<rparr>
        in Schedule DiskDone 0 ticks DiskInt s2))))"

section \<open>The synchronous disk\<close>

text \<open>\<open>RequestDone\<close> is the \<open>V\<close> of the semaphore, called by \<open>Disk::HandleInterrupt\<close>.\<close>

definition RequestDone :: "disk_hw \<Rightarrow> disk_hw" where
  "RequestDone s = s\<lparr>world := (world s)\<lparr>synch_value := synch_value (world s) + 1\<rparr>\<rparr>"

definition HandleInterrupt :: "disk_hw \<Rightarrow> disk_hw" where
  "HandleInterrupt s = RequestDone (upd_disk (\<lambda>d. d\<lparr>active := False\<rparr>) s)"

definition disk_env :: "(disk_handler, disk_world) env" where
  "disk_env = \<lparr>run_handler = (\<lambda>h arg s. Inr (HandleInterrupt s)), delayed_load = (\<lambda>w. w), do_yield = (\<lambda>s. s)\<rparr>"

definition SynchDisk_new :: "byte list option \<Rightarrow> disk_hw \<Rightarrow> disk_hw res" where
  "SynchDisk_new existing s =
     bindE (Disk_new existing) (\<lambda>d.
       Inr (s\<lparr>world := (world s)\<lparr>synch_value := 0, synch_locked := False, disk := d\<rparr>\<rparr>))"

text \<open>
  \<open>Semaphore::P\<close> of a thread that is alone: as long as the value is 0 the thread sleeps and the
  scheduler calls \<open>Interrupt::Idle\<close>. If the machine halts, the call never returns.
\<close>

partial_function (option) wait_value :: "disk_hw \<Rightarrow> disk_hw res option" where
  "wait_value s =
     (if synch_value (world s) = 0 then
        (case Idle disk_env s of
           None \<Rightarrow> None
         | Some (Inl e) \<Rightarrow> Some (Inl e)
         | Some (Inr (Idle_returns s1)) \<Rightarrow> wait_value s1
         | Some (Inr (Idle_halts _)) \<Rightarrow> None)
      else Some (Inr s))"

definition synch_P :: "disk_hw \<Rightarrow> disk_hw res option" where
  "synch_P s =
     bindO (SetLevel disk_env IntOff s) (\<lambda>(oldLevel, s1).
     bindO (wait_value s1) (\<lambda>s2.
     bindO (SetLevel disk_env oldLevel
              (s2\<lparr>world := (world s2)\<lparr>synch_value := synch_value (world s2) - 1\<rparr>\<rparr>)) (\<lambda>(_, s3).
       Some (Inr s3))))"

text \<open>The lock: a second \<open>Acquire\<close> before the \<open>Release\<close> would wait, here for ever.\<close>

definition synch_Acquire :: "disk_hw \<Rightarrow> disk_hw res option" where
  "synch_Acquire s =
     bindO (SetLevel disk_env IntOff s) (\<lambda>(old, s1).
       if synch_locked (world s1) then None
       else bindO (SetLevel disk_env old (s1\<lparr>world := (world s1)\<lparr>synch_locked := True\<rparr>\<rparr>)) (\<lambda>(_, s2).
         Some (Inr s2)))"

definition synch_Release :: "disk_hw \<Rightarrow> disk_hw res option" where
  "synch_Release s =
     bindO (SetLevel disk_env IntOff s) (\<lambda>(old, s1).
     bindO (SetLevel disk_env old (s1\<lparr>world := (world s1)\<lparr>synch_locked := False\<rparr>\<rparr>)) (\<lambda>(_, s2).
       Some (Inr s2)))"

definition SynchDisk_ReadSector :: "int \<Rightarrow> disk_hw \<Rightarrow> (byte list \<times> disk_hw) res option" where
  "SynchDisk_ReadSector sectorNumber s =
     bindO (synch_Acquire s) (\<lambda>s1.
     bindO (Some (ReadRequest sectorNumber s1)) (\<lambda>(data, s2).
     bindO (synch_P s2) (\<lambda>s3.
     bindO (synch_Release s3) (\<lambda>s4. Some (Inr (data, s4))))))"

definition SynchDisk_WriteSector :: "int \<Rightarrow> byte list \<Rightarrow> disk_hw \<Rightarrow> disk_hw res option" where
  "SynchDisk_WriteSector sectorNumber data s =
     bindO (synch_Acquire s) (\<lambda>s1.
     bindO (Some (WriteRequest sectorNumber data s1)) (\<lambda>s2.
     bindO (synch_P s2) (\<lambda>s3. synch_Release s3)))"

section \<open>The sectors\<close>

type_synonym sectors = "byte list list"

text \<open>Reading and writing a sector as the callers of \<open>SynchDisk\<close> see it.\<close>

definition ReadSector :: "sectors \<Rightarrow> int \<Rightarrow> byte list res" where
  "ReadSector d sectorNumber =
     bindE (ASSERT (sectorNumber \<ge> 0 \<and> sectorNumber < NumSectors)) (\<lambda>_. array_get d sectorNumber)"

definition WriteSector :: "sectors \<Rightarrow> int \<Rightarrow> byte list \<Rightarrow> sectors res" where
  "WriteSector d sectorNumber data =
     bindE (ASSERT (sectorNumber \<ge> 0 \<and> sectorNumber < NumSectors)) (\<lambda>_. array_set d sectorNumber data)"

definition sectors_ok :: "sectors \<Rightarrow> bool" where
  "sectors_ok d \<longleftrightarrow> length d = 1024 \<and> (\<forall>bs\<in>set d. length bs = 128)"

definition file_sectors :: "byte list \<Rightarrow> sectors" where
  "file_sectors f = map (\<lambda>n. take 128 (drop (4 + 128 * n) f)) [0..<1024]"

lemma sectors_ok_nth: "sectors_ok d \<Longrightarrow> n < 1024 \<Longrightarrow> length (d ! n) = 128"
  by (simp add: sectors_ok_def)

lemma ReadSector_ok:
  assumes "sectors_ok d" "0 \<le> n" "n < 1024"
  shows "ReadSector d n = Inr (d ! nat n)"
  using assms by (simp add: ReadSector_def array_get_def sectors_ok_def)

lemma WriteSector_ok:
  assumes "sectors_ok d" "0 \<le> n" "n < 1024" "length data = 128"
  shows "WriteSector d n data = Inr (d[nat n := data]) \<and> sectors_ok (d[nat n := data])"
  using assms
  by (auto simp: WriteSector_def array_set_def sectors_ok_def dest: set_update_subset_insert [THEN subsetD])

lemma Sector_error:
  assumes "\<not> (0 \<le> n \<and> n < NumSectors)"
  shows "ReadSector d n = Inl AssertionFailed" "WriteSector d n data = Inl AssertionFailed"
  using assms by (auto simp: ReadSector_def WriteSector_def ASSERT_def)

lemma file_sectors_ok: "length f = 131076 \<Longrightarrow> sectors_ok (file_sectors f)"
  by (auto simp: sectors_ok_def file_sectors_def)

lemma nth_file_sectors: "n < 1024 \<Longrightarrow> file_sectors f ! n = take 128 (drop (4 + 128 * n) f)"
  by (simp add: file_sectors_def)

text \<open>Overwriting the bytes of one sector changes that sector only.\<close>

lemma file_sectors_write:
  assumes f: "length f = 131076" and n: "n < 1024" and data: "length data = 128"
  shows "file_sectors (take (4 + 128 * n) f @ data @ drop (4 + 128 * n + 128) f) = (file_sectors f)[n := data]"
    (is "file_sectors ?g = _")
proof (rule nth_equalityI)
  show "length (file_sectors ?g) = length ((file_sectors f)[n := data])" by (simp add: file_sectors_def)
next
  fix k assume "k < length (file_sectors ?g)"
  then have k: "k < 1024" by (simp add: file_sectors_def)
  have lt: "length (take (4 + 128 * n) f) = 4 + 128 * n" using f n by simp
  have "take 128 (drop (4 + 128 * k) ?g) = (if k = n then data else take 128 (drop (4 + 128 * k) f))"
  proof (cases k n rule: linorder_cases)
    case less
    then have k': "4 + 128 * k + 128 \<le> 4 + 128 * n" by simp
    then have "take 128 (drop (4 + 128 * k) ?g) = take 128 (drop (4 + 128 * k) (take (4 + 128 * n) f))"
      using lt by (subst drop_append, subst take_append) simp
    also have "\<dots> = take 128 (drop (4 + 128 * k) f)" using k' by (simp add: drop_take)
    finally show ?thesis using less by simp
  next
    case equal
    then show ?thesis using lt data by simp
  next
    case greater
    then have "take 128 (drop (4 + 128 * k) ?g) =
        take 128 (drop (4 + 128 * k - (4 + 128 * n) - 128) (drop (4 + 128 * n + 128) f))"
      using lt data by simp
    then show ?thesis using greater by simp
  qed
  then show "file_sectors ?g ! k = (file_sectors f)[n := data] ! k"
    using k n by (simp add: nth_file_sectors nth_list_update file_sectors_def)
qed

section \<open>Timing\<close>

lemma ModuloDiff_eq:
  assumes "0 \<le> to" "0 \<le> from"
  shows "ModuloDiff to from = (to - from) mod 32"
proof -
  have "0 \<le> to mod 32 - from mod 32 + 32"
    using pos_mod_bound [of 32 "from"] pos_mod_sign [of 32 to] by linarith
  then have "ModuloDiff to from = (to mod 32 - from mod 32 + 32) mod 32"
    using assms by (simp add: ModuloDiff_def smod_nonneg_eq)
  also have "\<dots> = (to - from) mod 32" by (simp add: mod_diff_eq)
  finally show ?thesis .
qed

lemma TimeToSeek_eq:
  assumes "0 \<le> totalTicks (stats s)" "0 \<le> n" "n < 1024" "0 \<le> lastSector (disk (world s))"
    "lastSector (disk (world s)) < 1024"
  obtains seek rot where "TimeToSeek s n = (seek, rot)"
    "seek = \<bar>n div 32 - lastSector (disk (world s)) div 32\<bar> * 500" "seek \<le> 15500"
    "0 \<le> rot" "rot < 500" "500 dvd (totalTicks (stats s) + seek + rot)"
proof -
  define l where "l = lastSector (disk (world s))"
  define seek where "seek = \<bar>n div 32 - l div 32\<bar> * 500"
  define over where "over = (totalTicks (stats s) + seek) mod 500"
  define rot where "rot = (if over > 0 then 500 - over else 0)"
  have tracks: "0 \<le> n div 32" "n div 32 \<le> 31" "0 \<le> l div 32" "l div 32 \<le> 31"
    using assms by (simp_all add: l_def)
  then have seek: "0 \<le> seek" "seek \<le> 15500" by (auto simp: seek_def)
  have over: "0 \<le> over" "over < 500" by (simp_all add: over_def)
  have "500 dvd (totalTicks (stats s) + seek - over)" by (simp add: over_def minus_mod_eq_mult_div)
  moreover have "totalTicks (stats s) + seek + rot =
      totalTicks (stats s) + seek - over + (if over > 0 then 500 else 0)"
    using over by (simp add: rot_def)
  ultimately have "500 dvd (totalTicks (stats s) + seek + rot)" by (simp only: dvd_add split: if_split) simp
  moreover have "TimeToSeek s n = (seek, rot)"
    using assms seek(1)
    by (simp add: TimeToSeek_def Let_def sdiv_nonneg_eq smod_nonneg_eq seek_def over_def rot_def l_def)
  ultimately show ?thesis using that seek over by (auto simp: seek_def rot_def l_def)
qed

lemma mod_shift_to: "(u + (n - u) mod m + 1) mod m = (n + 1) mod (m :: int)"
proof -
  have "(u + (n - u) mod m + 1) mod m = ((n - u) mod m + (u + 1)) mod m" by (simp add: algebra_simps)
  also have "\<dots> = (n - u + (u + 1)) mod m" by (rule mod_add_left_eq)
  finally show ?thesis by simp
qed

lemma ComputeLatency_bounds:
  assumes "0 \<le> totalTicks (stats s)" "0 \<le> n" "n < 1024" "0 \<le> lastSector (disk (world s))"
    "lastSector (disk (world s)) < 1024"
  shows "500 \<le> ComputeLatency s n wr" "ComputeLatency s n wr \<le> 31999"
    "wr \<or> n div 32 \<noteq> lastSector (disk (world s)) div 32 \<Longrightarrow>
     \<exists>t. totalTicks (stats s) + ComputeLatency s n wr = 500 * t \<and> t mod 32 = (n + 1) mod 32"
proof -
  define now where "now = totalTicks (stats s)"
  obtain seek rot where ts: "TimeToSeek s n = (seek, rot)"
    "seek = \<bar>n div 32 - lastSector (disk (world s)) div 32\<bar> * 500" "seek \<le> 15500"
    "0 \<le> rot" "rot < 500" "500 dvd (now + seek + rot)"
    using TimeToSeek_eq [OF assms] now_def by metis
  from ts(6) obtain u where u: "now + seek + rot = 500 * u" by auto
  have "0 \<le> now" using assms(1) by (simp add: now_def)
  then have nn: "0 \<le> now + seek + rot" using ts(2,4) by simp
  then have u0: "0 \<le> u" using u by simp
  define diff where "diff = (n - u) mod 32"
  have diff: "0 \<le> diff" "diff \<le> 31"
    using pos_mod_bound [of 32 "n - u"] by (simp_all add: diff_def)
  have "ModuloDiff n ((now + seek + rot) sdiv 500) = diff"
    using assms(2) u0 nn u by (simp add: sdiv_nonneg_eq ModuloDiff_eq diff_def)
  then have cl: "ComputeLatency s n wr = 500 \<or> ComputeLatency s n wr = seek + (rot + diff * 500) + 500"
    and cl2: "wr \<or> seek \<noteq> 0 \<Longrightarrow> ComputeLatency s n wr = seek + (rot + diff * 500) + 500"
    using ts(1) by (auto simp: ComputeLatency_def now_def Let_def)
  have "0 \<le> seek" using ts(2) by simp
  then show "500 \<le> ComputeLatency s n wr" "ComputeLatency s n wr \<le> 31999"
    using cl ts(3-5) diff by linarith+
  assume "wr \<or> n div 32 \<noteq> lastSector (disk (world s)) div 32"
  then have "now + ComputeLatency s n wr = 500 * (u + diff + 1)"
    using cl2 u ts(2) by auto
  moreover have "(u + diff + 1) mod 32 = (n + 1) mod 32"
    unfolding diff_def using mod_shift_to [of u n 32] by simp
  ultimately show "\<exists>t. totalTicks (stats s) + ComputeLatency s n wr = 500 * t \<and> t mod 32 = (n + 1) mod 32"
    unfolding now_def by blast
qed

section \<open>A call of the synchronous disk\<close>

definition quiet_hw :: "IntStatus \<Rightarrow> disk_hw \<Rightarrow> bool" where
  "quiet_hw level s \<longleftrightarrow> int_level s = level \<and> elems (pending s) = [] \<and> \<not> inHandler s \<and>
     \<not> yieldOnReturn s \<and> mstatus s = SystemMode"

definition disk_ok :: "disk_world \<Rightarrow> bool" where
  "disk_ok w \<longleftrightarrow> length (dfile (disk w)) = 131076 \<and> 0 \<le> lastSector (disk w) \<and> lastSector (disk w) < 1024"

definition disk_idle :: "disk_hw \<Rightarrow> bool" where
  "disk_idle s \<longleftrightarrow> quiet_hw IntOn s \<and> 0 \<le> totalTicks (stats s) \<and> disk_ok (world s) \<and>
     \<not> active (disk (world s)) \<and> synch_value (world s) = 0 \<and> \<not> synch_locked (world s)"

lemma fire_all_due_empty:
  assumes "elems (pending s) = []" "int_level s = IntOff"
  shows "fire_all_due E s = Some (Inr s)"
  using assms by (subst fire_all_due.simps) (simp add: CheckIfDue_def SortedRemove_def)

lemma SetLevel_tick:
  assumes "quiet_hw IntOff s"
  shows "SetLevel disk_env IntOn s = Some (Inr (IntOff, (advance_clock s)\<lparr>int_level := IntOn\<rparr>))"
  using assms
  by (simp add: quiet_hw_def SetLevel_def OneTick_def Let_def fire_all_due_empty advance_clock_def)

lemma SetLevel_off: "SetLevel E IntOff s = Some (Inr (int_level s, s\<lparr>int_level := IntOff\<rparr>))"
  by (simp add: SetLevel_def Let_def)

lemma synch_Acquire_quiet:
  assumes "quiet_hw IntOn s" "\<not> synch_locked (world s)"
  shows "\<exists>s'. synch_Acquire s = Some (Inr s') \<and> quiet_hw IntOn s' \<and>
    world s' = (world s)\<lparr>synch_locked := True\<rparr> \<and> totalTicks (stats s') = totalTicks (stats s) + 10"
proof -
  let ?s = "s\<lparr>int_level := IntOff, world := (world s)\<lparr>synch_locked := True\<rparr>\<rparr>"
  have "quiet_hw IntOff ?s" using assms by (simp add: quiet_hw_def)
  from SetLevel_tick [OF this] show ?thesis
    using assms by (simp add: synch_Acquire_def SetLevel_off quiet_hw_def advance_clock_def)
qed

lemma synch_Release_quiet:
  assumes "quiet_hw IntOn s"
  shows "\<exists>s'. synch_Release s = Some (Inr s') \<and> quiet_hw IntOn s' \<and>
    world s' = (world s)\<lparr>synch_locked := False\<rparr> \<and> totalTicks (stats s') = totalTicks (stats s) + 10"
proof -
  let ?s = "s\<lparr>int_level := IntOff, world := (world s)\<lparr>synch_locked := False\<rparr>\<rparr>"
  have "quiet_hw IntOff ?s" using assms by (simp add: quiet_hw_def)
  from SetLevel_tick [OF this] show ?thesis
    using assms by (simp add: synch_Release_def SetLevel_off quiet_hw_def advance_clock_def)
qed

text \<open>The machine waits for one disk interrupt.\<close>

definition waiting_hw :: "int \<Rightarrow> disk_hw \<Rightarrow> bool" where
  "waiting_hw k s \<longleftrightarrow> int_level s = IntOn \<and> (\<exists>p. elems (pending s) = [(p, k)] \<and> pi_type p = DiskInt) \<and>
     \<not> inHandler s \<and> \<not> yieldOnReturn s \<and> mstatus s = SystemMode"

lemma Idle_disk:
  assumes "waiting_hw k s"
  shows "\<exists>s'. Idle disk_env (s\<lparr>int_level := IntOff\<rparr>) = Some (Inr (Idle_returns s')) \<and> quiet_hw IntOff s' \<and>
    world s' = world (HandleInterrupt s) \<and> totalTicks (stats s') = max k (totalTicks (stats s))"
  using assms
  by (auto simp: waiting_hw_def Idle_def CheckIfDue_def SortedRemove_def IsEmpty_def fire_def Let_def
      disk_env_def HandleInterrupt_def RequestDone_def upd_disk_def fire_all_due_empty quiet_hw_def)

lemma synch_P_waiting:
  assumes "waiting_hw k s" "synch_value (world s) = 0"
  shows "\<exists>s'. synch_P s = Some (Inr s') \<and> quiet_hw IntOn s' \<and>
    world s' = (world s)\<lparr>disk := (disk (world s))\<lparr>active := False\<rparr>\<rparr> \<and>
    totalTicks (stats s') = max k (totalTicks (stats s)) + 10"
proof -
  obtain s1 where s1: "Idle disk_env (s\<lparr>int_level := IntOff\<rparr>) = Some (Inr (Idle_returns s1))"
    "quiet_hw IntOff s1" "world s1 = world (HandleInterrupt s)"
    "totalTicks (stats s1) = max k (totalTicks (stats s))"
    using Idle_disk [OF assms(1)] by blast
  have w1: "world s1 = (world s)\<lparr>synch_value := 1, disk := (disk (world s))\<lparr>active := False\<rparr>\<rparr>"
    using s1(3) assms(2) by (simp add: HandleInterrupt_def RequestDone_def upd_disk_def)
  have "wait_value s1 = Some (Inr s1)" using w1 by (subst wait_value.simps) simp
  then have wait: "wait_value (s\<lparr>int_level := IntOff\<rparr>) = Some (Inr s1)"
    using s1(1) assms(2) by (subst wait_value.simps) simp
  let ?s = "s1\<lparr>world := (world s1)\<lparr>synch_value := synch_value (world s1) - 1\<rparr>\<rparr>"
  have "quiet_hw IntOff ?s" using s1(2) by (simp add: quiet_hw_def)
  note SetLevel_tick [OF this]
  moreover have "int_level s = IntOn" using assms(1) by (simp add: waiting_hw_def)
  ultimately have "synch_P s = Some (Inr ((advance_clock ?s)\<lparr>int_level := IntOn\<rparr>))"
    by (simp add: synch_P_def SetLevel_off wait)
  then show ?thesis using s1(2,4) w1 assms(2) by (simp add: quiet_hw_def advance_clock_def)
qed

lemma UpdateLast_world:
  "dfile (disk (world (UpdateLast n s))) = dfile (disk (world s))"
  "lastSector (disk (world (UpdateLast n s))) = n"
  "synch_value (world (UpdateLast n s)) = synch_value (world s)"
  "synch_locked (world (UpdateLast n s)) = synch_locked (world s)"
  "stats (UpdateLast n s) = stats s" "pending (UpdateLast n s) = pending s"
  "int_level (UpdateLast n s) = int_level s" "inHandler (UpdateLast n s) = inHandler s"
  "yieldOnReturn (UpdateLast n s) = yieldOnReturn s" "mstatus (UpdateLast n s) = mstatus s"
  by (simp_all add: UpdateLast_def upd_disk_def split: prod.split)

lemma Schedule_quiet:
  assumes "quiet_hw IntOn s" "0 < t"
  shows "\<exists>s'. Schedule DiskDone 0 t DiskInt s = Inr s' \<and> waiting_hw (totalTicks (stats s) + t) s' \<and>
    world s' = world s \<and> stats s' = stats s"
  using assms by (auto simp: Schedule_def Let_def quiet_hw_def waiting_hw_def SortedInsert_def)

text \<open>What a request leaves behind: the new contents, a busy disk and one pending interrupt.\<close>

definition requested :: "int \<Rightarrow> byte list \<Rightarrow> int \<Rightarrow> disk_hw \<Rightarrow> disk_hw \<Rightarrow> bool" where
  "requested n f t s s' \<longleftrightarrow> waiting_hw (totalTicks (stats s) + t) s' \<and> stats s' = stats s \<and>
     dfile (disk (world s')) = f \<and> lastSector (disk (world s')) = n \<and>
     synch_value (world s') = synch_value (world s) \<and> synch_locked (world s') = synch_locked (world s)"

lemma Request_quiet:
  assumes "quiet_hw IntOn s" "disk_ok (world s)" "\<not> active (disk (world s))" "0 \<le> totalTicks (stats s)"
    "0 \<le> n" "n < 1024"
  defines "f \<equiv> dfile (disk (world s))"
  shows "\<exists>s'. ReadRequest n s = Inr (file_sectors f ! nat n, s') \<and>
      requested n f (ComputeLatency s n False) s s'" (is ?rdg)
    and "length data = 128 \<Longrightarrow> \<exists>s' f'. WriteRequest n data s = Inr s' \<and> length f' = 131076 \<and>
      file_sectors f' = (file_sectors f)[nat n := data] \<and>
      requested n f' (ComputeLatency s n True) s s'" (is "_ \<Longrightarrow> ?wrt")
proof -
  have lat: "0 < ComputeLatency s n wr" for wr
    using ComputeLatency_bounds(1) [of s n wr] assms by (simp add: disk_ok_def)
  have f: "length f = 131076" and quiet: "\<not> active (disk (world s))" using assms by (simp_all add: disk_ok_def)
  have n': "nat n < 1024" "nat (128 * n + 4) = 4 + 128 * nat n" using assms by auto
  let ?u = "UpdateLast n (upd_disk (\<lambda>d. d\<lparr>active := True\<rparr>) s)"
  let ?r = "?u\<lparr>world := (world ?u)\<lparr>numDiskReads := numDiskReads (world ?u) + 1\<rparr>\<rparr>"
  have "quiet_hw IntOn ?r" "stats ?r = stats s"
    using assms(1) by (simp_all add: quiet_hw_def UpdateLast_world upd_disk_def)
  then obtain s' where "Schedule DiskDone 0 (ComputeLatency s n False) DiskInt ?r = Inr s'"
    "waiting_hw (totalTicks (stats s) + ComputeLatency s n False) s'" "world s' = world ?r" "stats s' = stats s"
    using Schedule_quiet [OF _ lat, of ?r False] by auto
  moreover have "file_read f (128 * n + 4) 128 = Inr (file_sectors f ! nat n)"
    using f n' assms(5,6) by (simp add: file_read_def nth_file_sectors)
  ultimately show ?rdg
    using assms(5,6) quiet
    by (simp add: ReadRequest_def Let_def f_def requested_def UpdateLast_world upd_disk_def)
next
  assume data: "length data = 128"
  have lat: "0 < ComputeLatency s n wr" for wr
    using ComputeLatency_bounds(1) [of s n wr] assms by (simp add: disk_ok_def)
  have f: "length f = 131076" using assms by (simp add: disk_ok_def)
  have n': "nat n < 1024" "nat (128 * n + 4) = 4 + 128 * nat n" using assms by auto
  define f' where "f' = take (4 + 128 * nat n) f @ data @ drop (4 + 128 * nat n + 128) f"
  have f': "length f' = 131076" "file_sectors f' = (file_sectors f)[nat n := data]"
    using f n'(1) data file_sectors_write [OF f n'(1) data] by (simp_all add: f'_def)
  let ?u = "UpdateLast n (upd_disk (\<lambda>d. d\<lparr>dfile := f', active := True\<rparr>) s)"
  let ?r = "?u\<lparr>world := (world ?u)\<lparr>numDiskWrites := numDiskWrites (world ?u) + 1\<rparr>\<rparr>"
  have "quiet_hw IntOn ?r" "stats ?r = stats s"
    using assms(1) by (simp_all add: quiet_hw_def UpdateLast_world upd_disk_def)
  then obtain s' where "Schedule DiskDone 0 (ComputeLatency s n True) DiskInt ?r = Inr s'"
    "waiting_hw (totalTicks (stats s) + ComputeLatency s n True) s'" "world s' = world ?r" "stats s' = stats s"
    using Schedule_quiet [OF _ lat, of ?r True] by auto
  moreover have "file_write f (128 * n + 4) data = Inr f'"
    using f n' assms(5,6) data by (simp add: file_write_def f'_def)
  ultimately show ?wrt
    using assms(3,5,6) f' data
    by (simp add: WriteRequest_def Let_def f_def requested_def UpdateLast_world upd_disk_def)
qed

lemma finish_request:
  assumes "requested n f t s s1" "0 \<le> n" "n < 1024" "length f = 131076" "0 \<le> totalTicks (stats s)" "0 < t"
    "synch_value (world s) = 0"
  shows "\<exists>s'. bindO (synch_P s1) synch_Release = Some (Inr s') \<and> disk_idle s' \<and>
    dfile (disk (world s')) = f \<and> totalTicks (stats s') = totalTicks (stats s) + t + 20"
proof -
  obtain s2 where s2: "synch_P s1 = Some (Inr s2)" "quiet_hw IntOn s2"
    "world s2 = (world s1)\<lparr>disk := (disk (world s1))\<lparr>active := False\<rparr>\<rparr>"
    "totalTicks (stats s2) = totalTicks (stats s) + t + 10"
    using synch_P_waiting [of "totalTicks (stats s) + t" s1] assms by (auto simp: requested_def)
  obtain s3 where "synch_Release s2 = Some (Inr s3)" "quiet_hw IntOn s3"
    "world s3 = (world s2)\<lparr>synch_locked := False\<rparr>" "totalTicks (stats s3) = totalTicks (stats s2) + 10"
    using synch_Release_quiet [OF s2(2)] by blast
  then show ?thesis
    using s2 assms by (intro exI [of _ s3]) (auto simp: requested_def disk_idle_def disk_ok_def)
qed

interpretation dk: handler_contract disk_env
  by unfold_locales
    (simp add: disk_env_def handler_ok_def HandleInterrupt_def RequestDone_def upd_disk_def hw_ok_def due_def)

text \<open>A new disk is full of zeros and carries the magic number that a later start checks.\<close>

lemma Disk_new_fresh:
  "Disk_new None = Inr \<lparr>dfile = word_bytes MagicNumber @ replicate 131072 0, active = False,
     lastSector = 0, bufferInit = 0\<rparr>"
proof -
  have "word_bytes 0 = replicate 4 (0 :: byte)" by (simp add: word_bytes_def upt_rec numeral_eq_Suc)
  then show ?thesis
    by (simp add: Disk_new_def file_write_def flip: replicate_add)
qed

lemma Disk_reopen:
  assumes "length f = 131076" "take 4 f = word_bytes MagicNumber"
  shows "Disk_new (Some f) = Inr \<lparr>dfile = f, active = False, lastSector = 0, bufferInit = 0\<rparr>"
  using assms by (simp add: Disk_new_def file_read_def bytes_word_bytes)

section \<open>Properties of the disk\<close>

text \<open>
  The time a request takes: at least the transfer of one sector, at most a seek over all
  tracks and a full turn. When the track buffer does not apply, the request ends exactly when
  the requested sector has passed the head.
\<close>

theorem latency_is_physical:
  assumes "0 \<le> totalTicks (stats s)" "0 \<le> newSector" "newSector < NumSectors"
    "0 \<le> lastSector (disk (world s))" "lastSector (disk (world s)) < NumSectors"
  shows "RotationTime \<le> ComputeLatency s newSector writing \<and>
    ComputeLatency s newSector writing < NumTracks * SeekTime + SectorsPerTrack * RotationTime \<and>
    (writing \<or> newSector div SectorsPerTrack \<noteq> lastSector (disk (world s)) div SectorsPerTrack \<longrightarrow>
      (\<exists>t. totalTicks (stats s) + ComputeLatency s newSector writing = RotationTime * t \<and>
           t mod SectorsPerTrack = (newSector + 1) mod SectorsPerTrack))"
  using ComputeLatency_bounds [OF assms, of writing] by auto

definition blank_file :: "byte list" where
  "blank_file = replicate 131076 0"

definition fresh_disk_hw :: disk_hw where
  "fresh_disk_hw = (Interrupt_new \<lparr>disk = \<lparr>dfile = blank_file, active = False, lastSector = 0, bufferInit = 0\<rparr>,
     numDiskReads = 0, numDiskWrites = 0, synch_value = 0, synch_locked = False\<rparr>)\<lparr>int_level := IntOn\<rparr>"

lemma fresh_disk_idle: "disk_idle fresh_disk_hw"
  by (simp add: fresh_disk_hw_def disk_idle_def quiet_hw_def disk_ok_def Interrupt_new_def Statistics_new_def
      List_new_def blank_file_def)

theorem latency_is_physical_witness:
  "ComputeLatency fresh_disk_hw 40 True = 4500 \<and>
   (\<exists>t. 0 + ComputeLatency fresh_disk_hw 40 True = 500 * t \<and> t mod 32 = (40 + 1) mod 32)"
proof -
  have z: "totalTicks (stats fresh_disk_hw) = 0" "lastSector (disk (world fresh_disk_hw)) = 0"
    by (simp_all add: fresh_disk_hw_def Interrupt_new_def Statistics_new_def)
  have "(0::int) \<le> 0" "(0::int) \<le> 40" "(40::int) < 1024" "(0::int) < 1024" "True \<or> (40::int) div 32 \<noteq> 0 div 32"
    by simp_all
  note latency_is_physical [of fresh_disk_hw 40 True, unfolded z, OF this(1-3,1,4), THEN conjunct2,
      THEN conjunct2, rule_format, OF this(5)]
  moreover have "ComputeLatency fresh_disk_hw 40 True = 4500"
    by (simp add: ComputeLatency_def TimeToSeek_def ModuloDiff_def z sdiv_nonneg_eq smod_nonneg_eq)
  ultimately show ?thesis by blast
qed

text \<open>
  C39. The synchronous disk implements an array of sectors: called when the disk is idle,
  \<open>ReadSector\<close> and \<open>WriteSector\<close> return (the wait for the interrupt ends) with the disk idle and
  the lock free again, the value read is that of the sector and the write changes that sector
  only; the clock has advanced by the latency of the request and three system ticks. A sector
  number outside the disk fails an assertion.
\<close>

theorem synch_disk_implements_sectors:
  assumes "disk_idle s" "length data = 128"
  defines "d \<equiv> file_sectors (dfile (disk (world s)))"
  shows "if 0 \<le> n \<and> n < NumSectors then
      (\<exists>s' bs. SynchDisk_ReadSector n s = Some (Inr (bs, s')) \<and> ReadSector d n = Inr bs \<and> disk_idle s' \<and>
         file_sectors (dfile (disk (world s'))) = d \<and> 530 \<le> totalTicks (stats s') - totalTicks (stats s)) \<and>
      (\<exists>s'. SynchDisk_WriteSector n data s = Some (Inr s') \<and> disk_idle s' \<and>
         WriteSector d n data = Inr (file_sectors (dfile (disk (world s')))) \<and>
         530 \<le> totalTicks (stats s') - totalTicks (stats s))
    else SynchDisk_ReadSector n s = Some (Inl AssertionFailed) \<and> ReadSector d n = Inl AssertionFailed \<and>
      SynchDisk_WriteSector n data s = Some (Inl AssertionFailed) \<and> WriteSector d n data = Inl AssertionFailed"
proof -
  obtain s1 where s1: "synch_Acquire s = Some (Inr s1)" "quiet_hw IntOn s1"
    "world s1 = (world s)\<lparr>synch_locked := True\<rparr>" "totalTicks (stats s1) = totalTicks (stats s) + 10"
    using synch_Acquire_quiet [of s] assms(1) by (auto simp: disk_idle_def)
  have w: "disk_ok (world s1)" "\<not> active (disk (world s1))" "0 \<le> totalTicks (stats s1)"
    "synch_value (world s1) = 0"
    using s1(3,4) assms(1) by (auto simp: disk_idle_def disk_ok_def)
  have f: "length (dfile (disk (world s))) = 131076" and dd: "sectors_ok d"
    using assms(1) by (simp_all add: disk_idle_def disk_ok_def d_def file_sectors_ok)
  show ?thesis
  proof (cases "0 \<le> n \<and> n < 1024")
    case True
    then have n: "0 \<le> n" "n < 1024" by simp_all
    have lat: "500 \<le> ComputeLatency s1 n wr" for wr
      using ComputeLatency_bounds(1) [OF w(3) n, of wr] w(1) by (simp add: disk_ok_def)
    obtain s2 where s2: "ReadRequest n s1 = Inr (d ! nat n, s2)"
      "requested n (dfile (disk (world s))) (ComputeLatency s1 n False) s1 s2"
      using Request_quiet(1) [OF s1(2) w(1-3) n] s1(3) by (auto simp: d_def)
    obtain s' where "bindO (synch_P s2) synch_Release = Some (Inr s')" "disk_idle s'"
      "dfile (disk (world s')) = dfile (disk (world s))"
      "totalTicks (stats s') = totalTicks (stats s1) + ComputeLatency s1 n False + 20"
      using finish_request [OF s2(2) n f w(3) _ w(4)] lat [of False] by auto
    then have rd: "\<exists>s' bs. SynchDisk_ReadSector n s = Some (Inr (bs, s')) \<and> ReadSector d n = Inr bs \<and>
        disk_idle s' \<and> file_sectors (dfile (disk (world s'))) = d \<and>
        530 \<le> totalTicks (stats s') - totalTicks (stats s)"
      using s1(1,4) s2(1) ReadSector_ok [OF dd n] lat [of False]
      by (intro exI [of _ s'] exI [of _ "d ! nat n"])
        (auto simp: SynchDisk_ReadSector_def d_def bindO_def split: option.splits sum.splits)
    obtain s3 f' where s3: "WriteRequest n data s1 = Inr s3" "length f' = 131076"
      "file_sectors f' = d[nat n := data]" "requested n f' (ComputeLatency s1 n True) s1 s3"
      using Request_quiet(2) [OF s1(2) w(1-3) n assms(2)] s1(3) by (auto simp: d_def)
    obtain s'' where "bindO (synch_P s3) synch_Release = Some (Inr s'')" "disk_idle s''"
      "dfile (disk (world s'')) = f'"
      "totalTicks (stats s'') = totalTicks (stats s1) + ComputeLatency s1 n True + 20"
      using finish_request [OF s3(4) n s3(2) w(3) _ w(4)] lat [of True] by auto
    then have "\<exists>s'. SynchDisk_WriteSector n data s = Some (Inr s') \<and> disk_idle s' \<and>
         WriteSector d n data = Inr (file_sectors (dfile (disk (world s')))) \<and>
         530 \<le> totalTicks (stats s') - totalTicks (stats s)"
      using s1(1,4) s3(1,3) WriteSector_ok [OF dd n assms(2)] lat [of True]
      by (intro exI [of _ s'']) (auto simp: SynchDisk_WriteSector_def)
    with rd show ?thesis using True by simp
  next
    case False
    then have "ReadRequest n s1 = Inl AssertionFailed" "WriteRequest n data s1 = Inl AssertionFailed"
      using w(2) by (auto simp: ReadRequest_def WriteRequest_def Let_def ASSERT_def)
    then show ?thesis
      using False s1(1) Sector_error by (auto simp: SynchDisk_ReadSector_def SynchDisk_WriteSector_def)
  qed
qed

theorem synch_disk_implements_sectors_witness:
  "(\<exists>s'. SynchDisk_WriteSector 40 (replicate 128 7) fresh_disk_hw = Some (Inr s') \<and> disk_idle s') \<and>
   SynchDisk_ReadSector 1024 fresh_disk_hw = Some (Inl AssertionFailed)"
  using synch_disk_implements_sectors [OF fresh_disk_idle, of "replicate 128 7" 40]
    synch_disk_implements_sectors [OF fresh_disk_idle, of "replicate 128 7" 1024] by auto

end
