(* ===== verification/Nachos_OpenFile.thy ===== *)
theory Nachos_OpenFile
  imports Nachos_Disk
begin

text \<open>
  File headers (\<^verbatim>\<open>filesys/filehdr.cc\<close>) and open files (\<^verbatim>\<open>filesys/openfile.cc\<close>): a file is a
  header of one sector that names its data sectors; reading and writing at any byte position is
  built from reads and writes of whole sectors. The abstract object is the sequence of the
  file's bytes.

  Memory that C++ does not initialise (\<^verbatim>\<open>new char[...]\<close>, a new \<open>FileHeader\<close>) has arbitrary contents,
  parameters of the model. The sum of a position and a length is an \<^verbatim>\<open>int\<close>; when it does not fit,
  the result is undefined and the model fails with \<open>UndefinedArithmetic\<close>.
\<close>

section \<open>File headers\<close>

abbreviation NumDirect :: int where "NumDirect \<equiv> 30"
abbreviation MaxFileSize :: int where "MaxFileSize \<equiv> 3840"

record FileHeader =
  numBytes :: int
  numSectors :: int
  dataSectors :: "int list"

text \<open>A header in memory is the image of its sector: 32 integers of four bytes.\<close>

definition hdr_bytes :: "FileHeader \<Rightarrow> byte list" where
  "hdr_bytes h = concat (map (\<lambda>i. word_bytes (word_of_int i)) (numBytes h # numSectors h # dataSectors h))"

definition bytes_hdr :: "byte list \<Rightarrow> FileHeader" where
  "bytes_hdr bs =
     (let ws = map sint (bytes_words bs)
      in \<lparr>numBytes = ws ! 0, numSectors = ws ! 1, dataSectors = drop 2 ws\<rparr>)"

definition alloc_step :: "int \<Rightarrow> FileHeader \<times> BitMap \<Rightarrow> (FileHeader \<times> BitMap) res" where
  "alloc_step = (\<lambda>i (h, b).
     bindE (Find b) (\<lambda>(s, b').
     bindE (array_set (dataSectors h) i s) (\<lambda>ds. Inr (h\<lparr>dataSectors := ds\<rparr>, b'))))"

definition Allocate :: "FileHeader \<Rightarrow> BitMap \<Rightarrow> int \<Rightarrow> (bool \<times> FileHeader \<times> BitMap) res" where
  "Allocate h freeMap fileSize =
     (let h1 = h\<lparr>numBytes := fileSize, numSectors := divRoundUp fileSize SectorSize\<rparr> in
      bindE (NumClear freeMap) (\<lambda>free.
        if free < numSectors h1 then Inr (False, h1, freeMap)
        else bindE (foldE alloc_step [0..numSectors h1 - 1] (h1, freeMap)) (\<lambda>(h2, b2). Inr (True, h2, b2))))"

definition Deallocate :: "FileHeader \<Rightarrow> BitMap \<Rightarrow> BitMap res" where
  "Deallocate h freeMap =
     foldE (\<lambda>i b.
         bindE (array_get (dataSectors h) i) (\<lambda>s.
         bindE (Test b s) (\<lambda>marked.
         bindE (ASSERT marked) (\<lambda>_. Clear b s))))
       [0..numSectors h - 1] freeMap"

definition Header_FetchFrom :: "sectors \<Rightarrow> int \<Rightarrow> FileHeader res" where
  "Header_FetchFrom d sector = bindE (ReadSector d sector) (\<lambda>bs. Inr (bytes_hdr bs))"

definition Header_WriteBack :: "sectors \<Rightarrow> FileHeader \<Rightarrow> int \<Rightarrow> sectors res" where
  "Header_WriteBack d h sector = WriteSector d sector (hdr_bytes h)"

definition ByteToSector :: "FileHeader \<Rightarrow> int \<Rightarrow> int res" where
  "ByteToSector h offset = array_get (dataSectors h) (offset sdiv SectorSize)"

definition FileLength :: "FileHeader \<Rightarrow> int" where
  "FileLength h = numBytes h"

section \<open>Open files\<close>

record OpenFile =
  hdr :: FileHeader
  seekPosition :: int

definition OpenFile_new :: "sectors \<Rightarrow> int \<Rightarrow> OpenFile res" where
  "OpenFile_new d sector = bindE (Header_FetchFrom d sector) (\<lambda>h. Inr \<lparr>hdr = h, seekPosition = 0\<rparr>)"

definition Seek :: "OpenFile \<Rightarrow> int \<Rightarrow> OpenFile" where
  "Seek f position = f\<lparr>seekPosition := position\<rparr>"

definition OpenFile_Length :: "OpenFile \<Rightarrow> int" where
  "OpenFile_Length f = FileLength (hdr f)"

definition int_add :: "int \<Rightarrow> int \<Rightarrow> int res" where
  "int_add a b = (if - (2 ^ 31) \<le> a + b \<and> a + b < 2 ^ 31 then Inr (a + b) else Inl UndefinedArithmetic)"

text \<open>\<^verbatim>\<open>bcopy\<close> out of a buffer and into one.\<close>

definition bcopy_out :: "byte list \<Rightarrow> int \<Rightarrow> int \<Rightarrow> byte list res" where
  "bcopy_out buf off n =
     (if 0 \<le> off \<and> 0 \<le> n \<and> off + n \<le> int (length buf)
      then Inr (take (nat n) (drop (nat off) buf)) else Inl OutOfRange)"

definition bcopy_in :: "byte list \<Rightarrow> int \<Rightarrow> byte list \<Rightarrow> byte list res" where
  "bcopy_in buf off data =
     (if 0 \<le> off \<and> off + int (length data) \<le> int (length buf)
      then Inr (take (nat off) buf @ data @ drop (nat off + length data) buf) else Inl OutOfRange)"

text \<open>The size of a request after the checks at the start of \<open>ReadAt\<close> and \<open>WriteAt\<close>.\<close>

definition clip_request :: "int \<Rightarrow> int \<Rightarrow> int \<Rightarrow> int res" where
  "clip_request fileLength n position =
     (if n \<le> 0 \<or> position \<ge> fileLength then Inr 0
      else bindE (int_add position n) (\<lambda>stop.
        Inr (if stop > fileLength then fileLength - position else n)))"

definition ReadAt :: "(nat \<Rightarrow> byte) \<Rightarrow> sectors \<Rightarrow> OpenFile \<Rightarrow> int \<Rightarrow> int \<Rightarrow> (int \<times> byte list) res" where
  "ReadAt junk d f nbytes position =
     bindE (clip_request (FileLength (hdr f)) nbytes position) (\<lambda>n.
       if n = 0 then Inr (0, [])
       else
        (let firstSector = divRoundDown position SectorSize;
             lastSector = divRoundDown (position + n - 1) SectorSize;
             nsectors = 1 + lastSector - firstSector;
             buf = map junk [0..<nat (nsectors * SectorSize)]
         in bindE (foldE (\<lambda>i buf.
                bindE (ByteToSector (hdr f) (i * SectorSize)) (\<lambda>s.
                bindE (ReadSector d s) (\<lambda>data. bcopy_in buf ((i - firstSector) * SectorSize) data)))
              [firstSector..lastSector] buf) (\<lambda>buf.
            bindE (bcopy_out buf (position - firstSector * SectorSize) n) (\<lambda>bs. Inr (n, bs)))))"

definition WriteAt :: "(nat \<Rightarrow> byte) \<Rightarrow> sectors \<Rightarrow> OpenFile \<Rightarrow> byte list \<Rightarrow> int \<Rightarrow> int \<Rightarrow> (int \<times> sectors) res" where
  "WriteAt junk d f from nbytes position =
     bindE (clip_request (FileLength (hdr f)) nbytes position) (\<lambda>n.
       if n = 0 then Inr (0, d)
       else
        (let firstSector = divRoundDown position SectorSize;
             lastSector = divRoundDown (position + n - 1) SectorSize;
             nsectors = 1 + lastSector - firstSector;
             buf = map junk [0..<nat (nsectors * SectorSize)];
             firstAligned = (position = firstSector * SectorSize);
             lastAligned = (position + n = (lastSector + 1) * SectorSize)
         in bindE (if \<not> firstAligned
                   then bindE (ReadAt junk d f SectorSize (firstSector * SectorSize)) (\<lambda>(_, bs). bcopy_in buf 0 bs)
                   else Inr buf) (\<lambda>buf.
            bindE (if \<not> lastAligned \<and> (firstSector \<noteq> lastSector \<or> firstAligned)
                   then bindE (ReadAt junk d f SectorSize (lastSector * SectorSize)) (\<lambda>(_, bs).
                          bcopy_in buf ((lastSector - firstSector) * SectorSize) bs)
                   else Inr buf) (\<lambda>buf.
            bindE (bcopy_out from 0 n) (\<lambda>bs.
            bindE (bcopy_in buf (position - firstSector * SectorSize) bs) (\<lambda>buf.
            bindE (foldE (\<lambda>i d.
                bindE (ByteToSector (hdr f) (i * SectorSize)) (\<lambda>s.
                bindE (bcopy_out buf ((i - firstSector) * SectorSize) SectorSize) (\<lambda>data.
                  WriteSector d s data)))
              [firstSector..lastSector] d) (\<lambda>d. Inr (n, d))))))))"

definition OpenFile_Read :: "(nat \<Rightarrow> byte) \<Rightarrow> sectors \<Rightarrow> OpenFile \<Rightarrow> int \<Rightarrow> (int \<times> byte list \<times> OpenFile) res" where
  "OpenFile_Read junk d f nbytes =
     bindE (ReadAt junk d f nbytes (seekPosition f)) (\<lambda>(result, bs).
       Inr (result, bs, f\<lparr>seekPosition := seekPosition f + result\<rparr>))"

definition OpenFile_Write ::
    "(nat \<Rightarrow> byte) \<Rightarrow> sectors \<Rightarrow> OpenFile \<Rightarrow> byte list \<Rightarrow> int \<Rightarrow> (int \<times> sectors \<times> OpenFile) res" where
  "OpenFile_Write junk d f from nbytes =
     bindE (WriteAt junk d f from nbytes (seekPosition f)) (\<lambda>(result, d').
       Inr (result, d', f\<lparr>seekPosition := seekPosition f + result\<rparr>))"

section \<open>The bytes of a file\<close>

definition data_of :: "FileHeader \<Rightarrow> int list" where
  "data_of h = take (nat (numSectors h)) (dataSectors h)"

definition hdr_ok :: "FileHeader \<Rightarrow> bool" where
  "hdr_ok h \<longleftrightarrow> 0 \<le> numBytes h \<and> numBytes h \<le> MaxFileSize \<and>
     numSectors h = divRoundUp (numBytes h) SectorSize \<and> length (dataSectors h) = 30 \<and>
     distinct (data_of h) \<and> set (data_of h) \<subseteq> {0..<NumSectors}"

definition byte_at :: "sectors \<Rightarrow> FileHeader \<Rightarrow> nat \<Rightarrow> byte" where
  "byte_at d h k = d ! nat (dataSectors h ! (k div 128)) ! (k mod 128)"

definition file_bytes :: "sectors \<Rightarrow> FileHeader \<Rightarrow> byte list" where
  "file_bytes d h = map (byte_at d h) [0..<nat (numBytes h)]"

lemma length_file_bytes [simp]: "length (file_bytes d h) = nat (numBytes h)"
  by (simp add: file_bytes_def)

lemma hdr_ok_sectors:
  assumes "hdr_ok h"
  shows "0 \<le> numSectors h" "numSectors h \<le> 30" "length (data_of h) = nat (numSectors h)"
    "numBytes h \<le> numSectors h * 128"
proof -
  have "numBytes h \<le> numSectors h * 128" "numSectors h * 128 < numBytes h + 128"
    using divRoundUp_bounds [of "numBytes h" 128] assms by (simp_all add: hdr_ok_def)
  moreover have "0 \<le> numBytes h" "numBytes h \<le> 3840" using assms by (simp_all add: hdr_ok_def)
  ultimately show "0 \<le> numSectors h" "numSectors h \<le> 30" "numBytes h \<le> numSectors h * 128" by linarith+
  then show "length (data_of h) = nat (numSectors h)" using assms by (simp add: data_of_def hdr_ok_def)
qed

lemma data_of_nth:
  assumes "hdr_ok h" "i < nat (numSectors h)"
  shows "data_of h ! i = dataSectors h ! i" "dataSectors h ! i \<in> set (data_of h)"
    "0 \<le> dataSectors h ! i" "dataSectors h ! i < 1024"
proof -
  show eq: "data_of h ! i = dataSectors h ! i" using assms by (simp add: data_of_def)
  have "i < length (data_of h)" using hdr_ok_sectors(3) [OF assms(1)] assms(2) by simp
  then show "dataSectors h ! i \<in> set (data_of h)" using eq nth_mem by metis
  then show "0 \<le> dataSectors h ! i" "dataSectors h ! i < 1024" using assms(1) by (auto simp: hdr_ok_def)
qed

lemma dataSectors_inj:
  assumes "hdr_ok h" "i < nat (numSectors h)" "j < nat (numSectors h)"
    "nat (dataSectors h ! i) = nat (dataSectors h ! j)"
  shows "i = j"
proof -
  have "data_of h ! i = data_of h ! j"
    using data_of_nth [OF assms(1,2)] data_of_nth [OF assms(1,3)] assms(4) by simp
  then show ?thesis
    using assms(1-3) hdr_ok_sectors(3) [OF assms(1)] by (simp add: hdr_ok_def nth_eq_iff_index_eq)
qed

text \<open>A file's bytes depend only on its data sectors.\<close>

lemma file_bytes_cong:
  assumes "hdr_ok h" "\<forall>s\<in>set (data_of h). d' ! nat s = d ! nat s"
  shows "file_bytes d' h = file_bytes d h"
proof -
  have "byte_at d' h k = byte_at d h k" if "k < nat (numBytes h)" for k
  proof -
    have "k div 128 < nat (numSectors h)" using that hdr_ok_sectors [OF assms(1)] by linarith
    then show ?thesis using data_of_nth(2) [OF assms(1)] assms(2) by (simp add: byte_at_def)
  qed
  then show ?thesis by (simp add: file_bytes_def)
qed

section \<open>Reading\<close>

lemma upto_split:
  assumes "[a..b] = xs @ i # rest"
  shows "i = a + int (length xs)" "a \<le> i" "i \<le> b"
proof -
  have "i \<in> set [a..b]" unfolding assms by simp
  then show "a \<le> i" "i \<le> b" by simp_all
  have "length xs < length [a..b]" unfolding assms by simp
  then have "[a..b] ! length xs = a + int (length xs)" by (intro nth_upto) auto
  then show "i = a + int (length xs)" unfolding assms by simp
qed

lemma bcopy_in_ok:
  assumes "0 \<le> off" "off + int (length data) \<le> int (length buf)"
  obtains buf' where "bcopy_in buf off data = Inr buf'" "length buf' = length buf"
    "\<And>k. k < length buf \<Longrightarrow> buf' ! k =
       (if nat off \<le> k \<and> k < nat off + length data then data ! (k - nat off) else buf ! k)"
proof -
  have "nat off + length data \<le> length buf" using assms by linarith
  then have "(take (nat off) buf @ data @ drop (nat off + length data) buf) ! k =
      (if nat off \<le> k \<and> k < nat off + length data then data ! (k - nat off) else buf ! k)" for k
    by (auto simp: nth_append)
  then show ?thesis
    using that [of "take (nat off) buf @ data @ drop (nat off + length data) buf"] assms
      \<open>nat off + length data \<le> length buf\<close>
    by (simp add: bcopy_in_def)
qed

lemma ByteToSector_ok:
  assumes "hdr_ok h" "0 \<le> i" "i < numSectors h"
  shows "ByteToSector h (i * 128) = Inr (dataSectors h ! nat i)"
proof -
  have "i < 30" "length (dataSectors h) = 30"
    using hdr_ok_sectors(2) [OF assms(1)] assms by (simp_all add: hdr_ok_def)
  then show ?thesis using assms(2) by (simp add: ByteToSector_def array_get_def sdiv_nonneg_eq)
qed

lemma byte_at_sector: "j < 128 \<Longrightarrow> byte_at d h (i * 128 + j) = d ! nat (dataSectors h ! i) ! j"
  by (simp add: byte_at_def)

lemma read_loop:
  assumes h: "hdr_ok h" and d: "sectors_ok d" and a: "0 \<le> a" and b: "b < numSectors h"
    and buf: "length buf = nat ((1 + b - a) * 128)"
  shows "\<exists>buf'. foldE (\<lambda>i buf. bindE (ByteToSector h (i * 128)) (\<lambda>s. bindE (ReadSector d s)
        (\<lambda>data. bcopy_in buf ((i - a) * 128) data))) [a..b] buf = Inr buf' \<and>
      (length buf' = length buf \<and> (\<forall>k < 128 * length [a..b]. buf' ! k = byte_at d h (nat a * 128 + k)))"
proof (rule foldE_rule [where I = "\<lambda>xs buf'. length buf' = length buf \<and>
    (\<forall>k < 128 * length xs. buf' ! k = byte_at d h (nat a * 128 + k))"])
  fix xs i rest bf
  assume split: "[a..b] = xs @ i # rest"
    and I: "length bf = length buf \<and> (\<forall>k<128 * length xs. bf ! k = byte_at d h (nat a * 128 + k))"
  have i: "i = a + int (length xs)" "a \<le> i" "i \<le> b" using upto_split [OF split] by simp_all
  let ?s = "dataSectors h ! nat i"
  have "0 \<le> i" "i < numSectors h" using i(2,3) a b by linarith+
  from ByteToSector_ok [OF h this] have bs: "ByteToSector h (i * 128) = Inr ?s" .
  have s: "0 \<le> ?s" "?s < 1024" using data_of_nth(3,4) [OF h, of "nat i"] i a b by auto
  have rd: "ReadSector d ?s = Inr (d ! nat ?s)" "length (d ! nat ?s) = 128"
    using ReadSector_ok [OF d s] sectors_ok_nth [OF d] s by auto
  have fits: "0 \<le> (i - a) * 128" "(i - a) * 128 + int (length (d ! nat ?s)) \<le> int (length bf)"
    using i I buf rd(2) by auto
  obtain bf' where bf': "bcopy_in bf ((i - a) * 128) (d ! nat ?s) = Inr bf'" "length bf' = length bf"
    "\<And>k. k < length bf \<Longrightarrow> bf' ! k = (if nat ((i - a) * 128) \<le> k \<and>
        k < nat ((i - a) * 128) + length (d ! nat ?s) then d ! nat ?s ! (k - nat ((i - a) * 128)) else bf ! k)"
    using bcopy_in_ok [OF fits] by blast
  have off: "nat ((i - a) * 128) = 128 * length xs" using i(1) by simp
  have len: "128 * Suc (length xs) \<le> length bf" using fits(2) off rd(2) i(1) by simp
  have "bf' ! k = byte_at d h (nat a * 128 + k)" if k: "k < 128 * length (xs @ [i])" for k
  proof (cases "k < 128 * length xs")
    case True
    then show ?thesis using bf'(3) [of k] I off len by simp
  next
    case False
    define j where "j = k - 128 * length xs"
    have "nat a * 128 + k = nat i * 128 + j" "j < 128" using False i a k by (auto simp: j_def)
    then have "byte_at d h (nat a * 128 + k) = d ! nat ?s ! j" using byte_at_sector by presburger
    moreover have "bf' ! k = d ! nat ?s ! j"
      using bf'(3) [of k] off len k False rd(2) by (simp add: j_def)
    ultimately show ?thesis by simp
  qed
  then show "\<exists>s'. bindE (ByteToSector h (i * 128)) (\<lambda>s. bindE (ReadSector d s)
      (\<lambda>data. bcopy_in bf ((i - a) * 128) data)) = Inr s' \<and> length s' = length buf \<and>
      (\<forall>k<128 * length (xs @ [i]). s' ! k = byte_at d h (nat a * 128 + k))"
    using bs rd(1) bf'(1,2) I by simp
qed simp

text \<open>How many bytes a request transfers.\<close>

definition clip :: "int \<Rightarrow> int \<Rightarrow> int \<Rightarrow> int" where
  "clip len n position = (if n \<le> 0 \<or> position \<ge> len then 0 else min n (len - position))"

lemma clip_request_ok:
  assumes "0 \<le> position" "position + n < 2 ^ 31"
  shows "clip_request len n position = Inr (clip len n position)"
  using assms by (auto simp: clip_request_def clip_def int_add_def)

lemma clip_bounds:
  "clip len n position \<noteq> 0 \<Longrightarrow> 0 < clip len n position \<and> position + clip len n position \<le> len \<and>
     clip len n position \<le> n"
  by (auto simp: clip_def split: if_splits)

lemma request_sectors:
  assumes "hdr_ok h" "0 \<le> p" "0 < n" "p + n \<le> numBytes h"
  shows "divRoundDown p 128 = p div 128" "divRoundDown (p + n - 1) 128 = (p + n - 1) div 128"
    "p div 128 \<le> (p + n - 1) div 128" "(p + n - 1) div 128 < numSectors h"
  using assms hdr_ok_sectors(4) [OF assms(1)]
  by (simp_all add: divRoundDown_def sdiv_nonneg_eq zdiv_mono1)

lemma request_offset:
  fixes p n :: int
  assumes "0 \<le> p" "0 < n"
  shows "0 \<le> p - p div 128 * 128" "p - p div 128 * 128 + n \<le> (1 + (p + n - 1) div 128 - p div 128) * 128"
    "nat (p div 128) * 128 + nat (p - p div 128 * 128) = nat p"
proof -
  have "p - p div 128 * 128 = p mod 128" "(p + n - 1) - (p + n - 1) div 128 * 128 = (p + n - 1) mod 128"
    by (simp_all add: minus_div_mult_eq_mod)
  moreover have "0 \<le> p mod 128" "(p + n - 1) mod 128 < 128" by simp_all
  ultimately show "0 \<le> p - p div 128 * 128"
    "p - p div 128 * 128 + n \<le> (1 + (p + n - 1) div 128 - p div 128) * 128"
    unfolding left_diff_distrib distrib_right by linarith+
  then show "nat (p div 128) * 128 + nat (p - p div 128 * 128) = nat p" using assms by linarith
qed

lemma request_offset_nat:
  fixes p n :: int
  assumes "0 \<le> p" "0 < n"
  shows "nat (p div 128) * 128 \<le> nat p"
    "nat p + nat n \<le> nat (p div 128) * 128 + nat ((1 + (p + n - 1) div 128 - p div 128) * 128)"
proof -
  define off L where "off = p - p div 128 * 128" and "L = (1 + (p + n - 1) div 128 - p div 128) * 128"
  have off: "0 \<le> off" "off + n \<le> L" "nat (p div 128) * 128 + nat off = nat p"
    using request_offset [OF assms] unfolding off_def L_def by simp_all
  then show "nat (p div 128) * 128 \<le> nat p" by linarith
  have "nat off + nat n \<le> nat L" using off(1,2) assms(2) by linarith
  then show "nat p + nat n \<le> nat (p div 128) * 128 + nat L" using off(3) by linarith
qed

lemma ReadAt_slice:
  assumes h: "hdr_ok (hdr f)" and d: "sectors_ok d" and p: "0 \<le> position" "position + nbytes < 2 ^ 31"
  defines "n \<equiv> clip (numBytes (hdr f)) nbytes position"
  shows "ReadAt junk d f nbytes position =
    Inr (n, take (nat n) (drop (nat position) (file_bytes d (hdr f))))"
proof (cases "n = 0")
  case True
  then show ?thesis using clip_request_ok [OF p] by (simp add: ReadAt_def FileLength_def n_def)
next
  case False
  then have n: "0 < n" "position + n \<le> numBytes (hdr f)" using clip_bounds unfolding n_def by simp_all
  let ?h = "hdr f" and ?a = "position div 128" and ?b = "(position + n - 1) div 128"
  note rs = request_sectors [OF h p(1) n]
  let ?buf = "map junk [0..<nat ((1 + ?b - ?a) * 128)]"
  have a0: "0 \<le> ?a" using p(1) by simp
  obtain buf where buf: "foldE (\<lambda>i buf. bindE (ByteToSector ?h (i * 128)) (\<lambda>s. bindE (ReadSector d s)
        (\<lambda>data. bcopy_in buf ((i - ?a) * 128) data))) [?a..?b] ?buf = Inr buf"
    "length buf = nat ((1 + ?b - ?a) * 128)"
    "\<And>k. k < 128 * length [?a..?b] \<Longrightarrow> buf ! k = byte_at d ?h (nat ?a * 128 + k)"
    using read_loop [OF h d a0 rs(4), of ?buf] by auto
  define off where "off = position - ?a * 128"
  note off = request_offset [OF p(1) n(1), folded off_def]
  have len: "int (length buf) = (1 + ?b - ?a) * 128" using buf(2) rs(3) by simp
  have lenb: "length buf = 128 * length [?a..?b]" using len rs(3) by simp
  have out: "bcopy_out buf off n = Inr (take (nat n) (drop (nat off) buf))"
    using off(1,2) n(1) len by (simp add: bcopy_out_def)
  have room: "nat off + nat n \<le> length buf" "nat position + nat n \<le> nat (numBytes ?h)"
    using off(1,2) n p(1) len by (simp_all flip: nat_add_distrib add: nat_le_iff)
  have "take (nat n) (drop (nat off) buf) = take (nat n) (drop (nat position) (file_bytes d ?h))"
  proof (rule nth_equalityI)
    show "length (take (nat n) (drop (nat off) buf)) = length (take (nat n) (drop (nat position) (file_bytes d ?h)))"
      using room by simp
  next
    fix k assume "k < length (take (nat n) (drop (nat off) buf))"
    then have k: "k < nat n" "nat off + k < length buf" by auto
    then have "buf ! (nat off + k) = byte_at d ?h (nat ?a * 128 + (nat off + k))"
      using lenb by (intro buf(3)) simp
    also have "nat ?a * 128 + (nat off + k) = nat position + k" using off(3) by simp
    finally show "take (nat n) (drop (nat off) buf) ! k = take (nat n) (drop (nat position) (file_bytes d ?h)) ! k"
      using k n p(1) by (simp add: file_bytes_def nth_map)
  qed
  then show ?thesis
    using False clip_request_ok [OF p] buf(1) out rs(1,2)
    by (simp add: ReadAt_def FileLength_def n_def [symmetric] Let_def off_def)
qed

section \<open>Writing\<close>

text \<open>Reading one sector's worth of the file into the buffer that starts at sector \<open>a\<close>.\<close>

lemma read_into:
  assumes h: "hdr_ok (hdr f)" and d: "sectors_ok d" and q: "0 \<le> a" "a \<le> q" "q * 128 < numBytes (hdr f)"
    and len: "(q - a) * 128 + 128 \<le> int (length buf)"
  obtains buf' where "bindE (ReadAt junk d f 128 (q * 128)) (\<lambda>(_, bs). bcopy_in buf ((q - a) * 128) bs) = Inr buf'"
    "length buf' = length buf"
    "\<And>k. k < length buf \<Longrightarrow> buf' ! k =
       (if nat (q - a) * 128 \<le> k \<and> k < nat (q - a) * 128 + 128 \<and> nat a * 128 + k < nat (numBytes (hdr f))
        then byte_at d (hdr f) (nat a * 128 + k) else buf ! k)"
proof -
  let ?n = "clip (numBytes (hdr f)) 128 (q * 128)" and ?fb = "file_bytes d (hdr f)"
  let ?bs = "take (nat ?n) (drop (nat (q * 128)) ?fb)"
  have "numBytes (hdr f) \<le> 3840" using h by (simp add: hdr_ok_def)
  then have rd: "ReadAt junk d f 128 (q * 128) = Inr (?n, ?bs)"
    using q by (intro ReadAt_slice [OF h d]) auto
  have n: "?n = min 128 (numBytes (hdr f) - q * 128)" using q by (simp add: clip_def)
  have lbs: "int (length ?bs) = ?n" "?n \<le> 128" using n q by auto
  then have fits: "0 \<le> (q - a) * 128" "(q - a) * 128 + int (length ?bs) \<le> int (length buf)"
    using q len by auto
  obtain buf' where b: "bcopy_in buf ((q - a) * 128) ?bs = Inr buf'" "length buf' = length buf"
    "\<And>k. k < length buf \<Longrightarrow> buf' ! k = (if nat ((q - a) * 128) \<le> k \<and>
        k < nat ((q - a) * 128) + length ?bs then ?bs ! (k - nat ((q - a) * 128)) else buf ! k)"
    using bcopy_in_ok [OF fits] by blast
  have off: "nat ((q - a) * 128) = nat (q - a) * 128" using q by (simp add: nat_mult_distrib)
  have pos: "nat a * 128 + k = nat (q * 128) + (k - nat (q - a) * 128)" if "nat (q - a) * 128 \<le> k" for k
    using that q by (simp add: nat_diff_distrib nat_mult_distrib)
  have "buf' ! k =
       (if nat (q - a) * 128 \<le> k \<and> k < nat (q - a) * 128 + 128 \<and> nat a * 128 + k < nat (numBytes (hdr f))
        then byte_at d (hdr f) (nat a * 128 + k) else buf ! k)" if k: "k < length buf" for k
  proof (cases "nat (q - a) * 128 \<le> k")
    case True
    define j where "j = k - nat (q - a) * 128"
    have j: "nat a * 128 + k = nat (q * 128) + j" using pos [OF True] by (simp add: j_def)
    have "j < length ?bs \<longleftrightarrow> k < nat (q - a) * 128 + 128 \<and> nat a * 128 + k < nat (numBytes (hdr f))"
    proof -
      have "j < length ?bs \<longleftrightarrow> int j < 128 \<and> int j < numBytes (hdr f) - q * 128" using lbs(1) n by linarith
      moreover have "int j < 128 \<longleftrightarrow> k < nat (q - a) * 128 + 128" using True by (auto simp: j_def)
      moreover have "int j < numBytes (hdr f) - q * 128 \<longleftrightarrow> nat a * 128 + k < nat (numBytes (hdr f))"
        unfolding j using q by linarith
      ultimately show ?thesis by blast
    qed
    moreover have "k < nat (q - a) * 128 + length ?bs \<longleftrightarrow> j < length ?bs"
      unfolding j_def using less_diff_conv2 [OF True] by (simp only: add.commute)
    moreover have "?bs ! j = byte_at d (hdr f) (nat (q * 128) + j)" if "j < length ?bs"
    proof -
      have "nat (q * 128) + j < nat (numBytes (hdr f))" using that by auto
      then show ?thesis using that by (simp add: file_bytes_def)
    qed
    ultimately show ?thesis using b(3) [OF k, unfolded off, folded j_def] True j by argo
  next
    case False
    then show ?thesis using b(3) [OF k, unfolded off] by argo
  qed
  then show ?thesis using that rd b(1,2) by simp
qed

lemma write_loop:
  assumes h: "hdr_ok h" and d: "sectors_ok d" and a: "0 \<le> a" and b: "b < numSectors h"
    and buf: "length buf = nat ((1 + b - a) * 128)"
  shows "\<exists>d'. foldE (\<lambda>i d. bindE (ByteToSector h (i * 128)) (\<lambda>s. bindE (bcopy_out buf ((i - a) * 128) 128)
        (\<lambda>data. WriteSector d s data))) [a..b] d = Inr d' \<and>
      (sectors_ok d' \<and> (\<forall>s. s \<notin> set (data_of h) \<longrightarrow> 0 \<le> s \<longrightarrow> d' ! nat s = d ! nat s) \<and>
       (\<forall>k < nat (numSectors h) * 128. byte_at d' h k =
          (if nat a * 128 \<le> k \<and> k < nat a * 128 + 128 * length [a..b] then buf ! (k - nat a * 128)
           else byte_at d h k)))"
proof (rule foldE_rule [where I = "\<lambda>xs d'. sectors_ok d' \<and>
    (\<forall>s. s \<notin> set (data_of h) \<longrightarrow> 0 \<le> s \<longrightarrow> d' ! nat s = d ! nat s) \<and>
    (\<forall>k < nat (numSectors h) * 128. byte_at d' h k =
      (if nat a * 128 \<le> k \<and> k < nat a * 128 + 128 * length xs then buf ! (k - nat a * 128)
       else byte_at d h k))"])
  fix xs i rest d1
  assume split: "[a..b] = xs @ i # rest" and I: "sectors_ok d1 \<and>
    (\<forall>s. s \<notin> set (data_of h) \<longrightarrow> 0 \<le> s \<longrightarrow> d1 ! nat s = d ! nat s) \<and>
    (\<forall>k < nat (numSectors h) * 128. byte_at d1 h k =
      (if nat a * 128 \<le> k \<and> k < nat a * 128 + 128 * length xs then buf ! (k - nat a * 128)
       else byte_at d h k))"
  have i: "i = a + int (length xs)" "a \<le> i" "i \<le> b" using upto_split [OF split] by simp_all
  let ?s = "dataSectors h ! nat i" and ?bs = "take 128 (drop (128 * length xs) buf)"
  have i2: "0 \<le> i" "i < numSectors h" using i(2,3) a b by linarith+
  then have i3: "nat i < nat (numSectors h)" by simp
  have ni: "nat i = nat a + length xs" using i a by simp
  have bs: "ByteToSector h (i * 128) = Inr ?s" using ByteToSector_ok [OF h i2] .
  note s = data_of_nth(2-4) [OF h i3]
  have room: "128 * length xs + 128 \<le> length buf" using buf i by simp
  then have out: "bcopy_out buf ((i - a) * 128) 128 = Inr ?bs" "length ?bs = 128"
    using i(1) by (simp_all add: bcopy_out_def nat_mult_distrib mult.commute)
  let ?d = "d1[nat ?s := ?bs]"
  have wr: "WriteSector d1 ?s ?bs = Inr ?d" "sectors_ok ?d"
    using WriteSector_ok [OF _ s(2,3) out(2)] I by simp_all
  have slen: "nat ?s < length d1" using I s(2,3) by (simp add: sectors_ok_def)
  have "?d ! nat t = d ! nat t" if "t \<notin> set (data_of h)" "0 \<le> t" for t
  proof -
    have "t \<noteq> ?s" using that(1) s(1) by auto
    then have "nat t \<noteq> nat ?s" using that(2) s(2) by simp
    then show ?thesis using I that by simp
  qed
  moreover have "byte_at ?d h k =
      (if nat a * 128 \<le> k \<and> k < nat a * 128 + 128 * length (xs @ [i]) then buf ! (k - nat a * 128)
       else byte_at d h k)" if k: "k < nat (numSectors h) * 128" for k
  proof -
    have kd: "k div 128 < nat (numSectors h)" using k by (simp add: less_mult_imp_div_less)
    show ?thesis
    proof (cases "k div 128 = nat i")
      case True
      then have k3: "k = (nat a + length xs) * 128 + k mod 128" using ni by (metis div_mult_mod_eq)
      have "k mod 128 < 128" by simp
      then have "byte_at ?d h k = buf ! (128 * length xs + k mod 128)"
        using True slen room by (simp add: byte_at_def)
      moreover have "k - nat a * 128 = 128 * length xs + k mod 128" using k3 by simp
      moreover have "nat a * 128 \<le> k \<and> k < nat a * 128 + 128 * length (xs @ [i])"
        using k3 \<open>k mod 128 < 128\<close> by (simp add: algebra_simps)
      ultimately show ?thesis by simp
    next
      case False
      then have "nat (dataSectors h ! (k div 128)) \<noteq> nat ?s"
        using dataSectors_inj [OF h kd i3] by blast
      then have "byte_at ?d h k = byte_at d1 h k" by (simp add: byte_at_def)
      moreover have "k < nat a * 128 + 128 * length (xs @ [i]) \<longleftrightarrow> k < nat a * 128 + 128 * length xs"
        using False ni by (auto simp: nat_add_distrib)
      ultimately show ?thesis using I k by simp
    qed
  qed
  ultimately show "\<exists>d'. bindE (ByteToSector h (i * 128)) (\<lambda>s. bindE (bcopy_out buf ((i - a) * 128) 128)
        (\<lambda>data. WriteSector d1 s data)) = Inr d' \<and> sectors_ok d' \<and>
    (\<forall>s. s \<notin> set (data_of h) \<longrightarrow> 0 \<le> s \<longrightarrow> d' ! nat s = d ! nat s) \<and>
    (\<forall>k < nat (numSectors h) * 128. byte_at d' h k =
      (if nat a * 128 \<le> k \<and> k < nat a * 128 + 128 * length (xs @ [i]) then buf ! (k - nat a * 128)
       else byte_at d h k))"
    using bs out(1) wr by simp
qed (use d in simp)

text \<open>The buffer just before the sectors are written: the old bytes around the new ones.\<close>

lemma write_buffer:
  fixes f :: OpenFile and junk :: "nat \<Rightarrow> byte"
  assumes h: "hdr_ok (hdr f)" and d: "sectors_ok d" and p: "0 \<le> p"
    and n: "0 < n" "p + n \<le> numBytes (hdr f)" "n \<le> int (length from)"
  defines "a \<equiv> p div 128" and "b \<equiv> (p + n - 1) div 128"
  defines "buf0 \<equiv> map junk [0..<nat ((1 + b - a) * 128)]"
  obtains buf1 buf2 buf where
    "(if p \<noteq> a * 128 then bindE (ReadAt junk d f 128 (a * 128)) (\<lambda>(_, bs). bcopy_in buf0 0 bs)
      else Inr buf0) = Inr buf1"
    "(if p + n \<noteq> (b + 1) * 128 \<and> (a \<noteq> b \<or> p = a * 128)
      then bindE (ReadAt junk d f 128 (b * 128)) (\<lambda>(_, bs). bcopy_in buf1 ((b - a) * 128) bs)
      else Inr buf1) = Inr buf2"
    "bcopy_out from 0 n = Inr (take (nat n) from)"
    "bcopy_in buf2 (p - a * 128) (take (nat n) from) = Inr buf"
    "length buf = nat ((1 + b - a) * 128)"
    "\<And>k. k < nat ((1 + b - a) * 128) \<Longrightarrow> nat a * 128 + k < nat (numBytes (hdr f)) \<Longrightarrow>
       buf ! k = (if nat p \<le> nat a * 128 + k \<and> nat a * 128 + k < nat (p + n) then from ! (nat a * 128 + k - nat p)
                  else byte_at d (hdr f) (nat a * 128 + k))"
proof -
  let ?L = "nat ((1 + b - a) * 128)" and ?N = "nat (numBytes (hdr f))"
  have ab: "0 \<le> a" "a \<le> b" "a * 128 \<le> p" "p < a * 128 + 128" "b * 128 \<le> p + n - 1" "p + n - 1 < b * 128 + 128"
    using p n(1) by (auto simp: a_def b_def zdiv_mono1)
  have sizes: "(a - a) * 128 + 128 \<le> int ?L" "(b - a) * 128 + 128 \<le> int ?L" using ab(2) by auto
  have len0: "length buf0 = ?L" by (simp add: buf0_def)
  obtain buf1 where b1: "(if p \<noteq> a * 128 then bindE (ReadAt junk d f 128 (a * 128)) (\<lambda>(_, bs). bcopy_in buf0 0 bs)
      else Inr buf0) = Inr buf1" "length buf1 = ?L"
    "\<And>k. k < ?L \<Longrightarrow> p \<noteq> a * 128 \<Longrightarrow> k < 128 \<Longrightarrow> nat a * 128 + k < ?N \<Longrightarrow> buf1 ! k = byte_at d (hdr f) (nat a * 128 + k)"
  proof (cases "p = a * 128")
    case False
    have "a * 128 < numBytes (hdr f)" using ab n by linarith
    from read_into [OF h d ab(1) order_refl this, of buf0 junk] obtain buf1 where
      "bindE (ReadAt junk d f 128 (a * 128)) (\<lambda>(_, bs). bcopy_in buf0 0 bs) = Inr buf1" "length buf1 = ?L"
      "\<And>k. k < ?L \<Longrightarrow> buf1 ! k = (if k < 128 \<and> nat a * 128 + k < ?N then byte_at d (hdr f) (nat a * 128 + k) else buf0 ! k)"
      using sizes(1) len0 by auto
    then show ?thesis using that False by auto
  qed (use that len0 in auto)
  obtain buf2 where b2: "(if p + n \<noteq> (b + 1) * 128 \<and> (a \<noteq> b \<or> p = a * 128)
      then bindE (ReadAt junk d f 128 (b * 128)) (\<lambda>(_, bs). bcopy_in buf1 ((b - a) * 128) bs)
      else Inr buf1) = Inr buf2" "length buf2 = ?L"
    "\<And>k. k < ?L \<Longrightarrow> nat a * 128 + k < ?N \<Longrightarrow> buf2 ! k = buf1 ! k \<or> buf2 ! k = byte_at d (hdr f) (nat a * 128 + k)"
    "\<And>k. k < ?L \<Longrightarrow> nat a * 128 + k < ?N \<Longrightarrow> p + n \<noteq> (b + 1) * 128 \<and> (a \<noteq> b \<or> p = a * 128) \<Longrightarrow>
       nat (b - a) * 128 \<le> k \<Longrightarrow> k < nat (b - a) * 128 + 128 \<Longrightarrow> buf2 ! k = byte_at d (hdr f) (nat a * 128 + k)"
  proof (cases "p + n \<noteq> (b + 1) * 128 \<and> (a \<noteq> b \<or> p = a * 128)")
    case True
    have "b * 128 < numBytes (hdr f)" using ab n by linarith
    from read_into [OF h d ab(1,2) this, of buf1 junk] obtain buf2 where
      "bindE (ReadAt junk d f 128 (b * 128)) (\<lambda>(_, bs). bcopy_in buf1 ((b - a) * 128) bs) = Inr buf2" "length buf2 = ?L"
      "\<And>k. k < ?L \<Longrightarrow> buf2 ! k = (if nat (b - a) * 128 \<le> k \<and> k < nat (b - a) * 128 + 128 \<and> nat a * 128 + k < ?N
         then byte_at d (hdr f) (nat a * 128 + k) else buf1 ! k)"
      using sizes(2) b1(2) by auto
    then show ?thesis using that [of buf2] True by auto
  next
    case False
    then show ?thesis using that [of buf1] b1(2) by auto
  qed
  have old: "buf2 ! k = byte_at d (hdr f) (nat a * 128 + k)"
    if k: "k < ?L" "nat a * 128 + k < ?N" and out: "nat a * 128 + k < nat p \<or> nat (p + n) \<le> nat a * 128 + k" for k
  proof (cases "nat a * 128 + k < nat p")
    case True
    then have "k < 128" "p \<noteq> a * 128" using ab by linarith+
    then show ?thesis using b1(3) [OF k(1) _ _ k(2)] b2(3) [OF k] by auto
  next
    case False
    then have le: "nat (p + n) \<le> nat a * 128 + k" using out by simp
    have kL: "int k < (1 + b - a) * 128" using k(1) by linarith
    have ks: "nat (b - a) * 128 \<le> k" "k < nat (b - a) * 128 + 128" "p + n \<noteq> (b + 1) * 128"
      using le ab kL by (simp_all add: nat_diff_distrib left_diff_distrib distrib_right)
    show ?thesis
    proof (cases "a \<noteq> b \<or> p = a * 128")
      case True
      then show ?thesis using b2(4) [OF k] ks by simp
    next
      case False
      then have "k < 128" "p \<noteq> a * 128" using ks(2) by simp_all
      then show ?thesis using b1(3) [OF k(1) _ _ k(2)] b2(3) [OF k] by auto
    qed
  qed
  have fits: "0 \<le> p - a * 128" "p - a * 128 + int (length (take (nat n) from)) \<le> int (length buf2)"
    using ab b2(2) n by (simp_all add: left_diff_distrib distrib_right)
  obtain buf where b3: "bcopy_in buf2 (p - a * 128) (take (nat n) from) = Inr buf" "length buf = length buf2"
    "\<And>k. k < length buf2 \<Longrightarrow> buf ! k = (if nat (p - a * 128) \<le> k \<and> k < nat (p - a * 128) + length (take (nat n) from)
        then take (nat n) from ! (k - nat (p - a * 128)) else buf2 ! k)"
    using bcopy_in_ok [OF fits] by blast
  have "buf ! k = (if nat p \<le> nat a * 128 + k \<and> nat a * 128 + k < nat (p + n) then from ! (nat a * 128 + k - nat p)
                  else byte_at d (hdr f) (nat a * 128 + k))" if k: "k < ?L" "nat a * 128 + k < ?N" for k
  proof -
    define o1 where "o1 = nat (p - a * 128)"
    have o1: "nat p = nat a * 128 + o1" using ab by (simp add: o1_def nat_diff_distrib nat_mult_distrib nat_le_eq_zle)
    have pn: "nat (p + n) = nat p + nat n" using p n(1) by (simp add: nat_add_distrib)
    have ln: "length (take (nat n) from) = nat n" using n(3) by (simp add: nat_le_iff)
    show ?thesis
    proof (cases "o1 \<le> k \<and> k < o1 + nat n")
      case True
      then have "k - o1 < nat n" by auto
      then have "buf ! k = from ! (k - o1)"
        using b3(3) [of k] k b2(2) ln True by (simp add: o1_def [symmetric])
      then show ?thesis using True o1 pn by simp
    next
      case False
      then have "buf ! k = buf2 ! k"
        using b3(3) [of k, folded o1_def, unfolded ln] k(1) b2(2) by presburger
      then show ?thesis using False o1 pn old [OF k] by auto
    qed
  qed
  moreover have "bcopy_out from 0 n = Inr (take (nat n) from)" using n by (simp add: bcopy_out_def)
  ultimately show ?thesis using that b1(1) b2(1,2) b3(1,2) by simp
qed

lemma map_patch:
  assumes "p + n \<le> N" "n \<le> length xs"
    and "\<And>k. k < N \<Longrightarrow> g k = (if p \<le> k \<and> k < p + n then xs ! (k - p) else f k)"
  shows "map g [0..<N] = take p (map f [0..<N]) @ take n xs @ drop (p + n) (map f [0..<N])"
proof (rule nth_equalityI)
  show "length (map g [0..<N]) = length (take p (map f [0..<N]) @ take n xs @ drop (p + n) (map f [0..<N]))"
    using assms(1,2) by simp
next
  fix k assume "k < length (map g [0..<N])"
  then have k: "k < N" by simp
  consider "k < p" | "p \<le> k" "k < p + n" | "p + n \<le> k" by linarith
  then show "map g [0..<N] ! k = (take p (map f [0..<N]) @ take n xs @ drop (p + n) (map f [0..<N])) ! k"
    using k assms(1,2) assms(3) [OF k] by cases (simp_all add: nth_append less_diff_conv2)
qed

lemma WriteAt_spec:
  assumes h: "hdr_ok (hdr f)" and d: "sectors_ok d" and p: "0 \<le> position" "position + nbytes < 2 ^ 31"
    and "from": "nbytes \<le> int (length from)"
  defines "n \<equiv> clip (numBytes (hdr f)) nbytes position"
  obtains d' where "WriteAt junk d f from nbytes position = Inr (n, d')" "sectors_ok d'"
    "\<And>s. s \<notin> set (data_of (hdr f)) \<Longrightarrow> 0 \<le> s \<Longrightarrow> d' ! nat s = d ! nat s"
    "file_bytes d' (hdr f) = take (nat position) (file_bytes d (hdr f)) @ take (nat n) from @
       drop (nat position + nat n) (file_bytes d (hdr f))"
proof (cases "n = 0")
  case True
  then show ?thesis using clip_request_ok [OF p] that [of d] d by (simp add: WriteAt_def FileLength_def n_def)
next
  case False
  then have n: "0 < n" "position + n \<le> numBytes (hdr f)" "n \<le> int (length from)"
    using clip_bounds "from" unfolding n_def by force+
  let ?h = "hdr f" and ?a = "position div 128" and ?b = "(position + n - 1) div 128"
  note rs = request_sectors [OF h p(1) n(1,2)]
  have a0: "0 \<le> ?a" using p(1) by simp
  obtain buf1 buf2 buf where b:
    "(if position \<noteq> ?a * 128 then bindE (ReadAt junk d f 128 (?a * 128))
        (\<lambda>(_, bs). bcopy_in (map junk [0..<nat ((1 + ?b - ?a) * 128)]) 0 bs)
      else Inr (map junk [0..<nat ((1 + ?b - ?a) * 128)])) = Inr buf1"
    "(if position + n \<noteq> (?b + 1) * 128 \<and> (?a \<noteq> ?b \<or> position = ?a * 128)
      then bindE (ReadAt junk d f 128 (?b * 128)) (\<lambda>(_, bs). bcopy_in buf1 ((?b - ?a) * 128) bs)
      else Inr buf1) = Inr buf2"
    "bcopy_out from 0 n = Inr (take (nat n) from)"
    "bcopy_in buf2 (position - ?a * 128) (take (nat n) from) = Inr buf"
    "length buf = nat ((1 + ?b - ?a) * 128)"
    "\<And>k. k < nat ((1 + ?b - ?a) * 128) \<Longrightarrow> nat ?a * 128 + k < nat (numBytes ?h) \<Longrightarrow>
       buf ! k = (if nat position \<le> nat ?a * 128 + k \<and> nat ?a * 128 + k < nat (position + n)
                  then from ! (nat ?a * 128 + k - nat position) else byte_at d ?h (nat ?a * 128 + k))"
    using write_buffer [OF h d p(1) n, where junk = junk] by blast
  from write_loop [OF h d a0 rs(4) b(5)] obtain d' where d':
    "foldE (\<lambda>i d. bindE (ByteToSector ?h (i * 128)) (\<lambda>s. bindE (bcopy_out buf ((i - ?a) * 128) 128)
        (\<lambda>data. WriteSector d s data))) [?a..?b] d = Inr d'" "sectors_ok d'"
    "\<forall>s. s \<notin> set (data_of ?h) \<longrightarrow> 0 \<le> s \<longrightarrow> d' ! nat s = d ! nat s"
    "\<forall>k < nat (numSectors ?h) * 128. byte_at d' ?h k =
          (if nat ?a * 128 \<le> k \<and> k < nat ?a * 128 + 128 * length [?a..?b] then buf ! (k - nat ?a * 128)
           else byte_at d ?h k)"
    by blast
  have L: "nat ((1 + ?b - ?a) * 128) = 128 * length [?a..?b]" using rs(3) by (simp add: nat_mult_distrib algebra_simps)
  have pn: "nat (position + n) = nat position + nat n" using p n(1) by (simp add: nat_add_distrib)
  have rng: "nat ?a * 128 \<le> nat position" "nat position + nat n \<le> nat ?a * 128 + 128 * length [?a..?b]"
    using request_offset_nat [OF p(1) n(1)] L by simp_all
  have bytes: "byte_at d' ?h k = (if nat position \<le> k \<and> k < nat position + nat n then from ! (k - nat position)
      else byte_at d ?h k)" if k: "k < nat (numBytes ?h)" for k
  proof -
    have "k < nat (numSectors ?h) * 128" using k hdr_ok_sectors [OF h] by linarith
    then have e: "byte_at d' ?h k =
        (if nat ?a * 128 \<le> k \<and> k < nat ?a * 128 + 128 * length [?a..?b] then buf ! (k - nat ?a * 128)
         else byte_at d ?h k)" using d'(4) by blast
    show ?thesis
    proof (cases "nat ?a * 128 \<le> k \<and> k < nat ?a * 128 + 128 * length [?a..?b]")
      case True
      then have k': "k - nat ?a * 128 < nat ((1 + ?b - ?a) * 128)" "nat ?a * 128 + (k - nat ?a * 128) = k"
        unfolding L by linarith+
      show ?thesis using b(6) [OF k'(1)] e True k unfolding k'(2) pn by presburger
    next
      case False
      then have "\<not> (nat position \<le> k \<and> k < nat position + nat n)" using rng by linarith
      then show ?thesis using e False by presburger
    qed
  qed
  have pos: "nat position + nat n \<le> nat (numBytes ?h)" "nat n \<le> length from"
    using n p(1) by (simp_all flip: nat_add_distrib add: nat_le_iff)
  have "file_bytes d' ?h = take (nat position) (file_bytes d ?h) @ take (nat n) from @
       drop (nat position + nat n) (file_bytes d ?h)"
    unfolding file_bytes_def using pos bytes by (intro map_patch) simp_all
  moreover have "WriteAt junk d f from nbytes position = Inr (n, d')"
    using False clip_request_ok [OF p] rs(1,2) b(1-4) d'(1)
    by (simp add: WriteAt_def FileLength_def n_def [symmetric] Let_def)
  ultimately show ?thesis using that d'(2,3) by blast
qed

section \<open>Allocating and freeing the data sectors\<close>

text \<open>A header as it can be in memory: thirty slots, every field a 32-bit integer.\<close>

definition int32 :: "int \<Rightarrow> bool" where
  "int32 i \<longleftrightarrow> - (2 ^ 31) \<le> i \<and> i < 2 ^ 31"

definition hdr_fits :: "FileHeader \<Rightarrow> bool" where
  "hdr_fits h \<longleftrightarrow> length (dataSectors h) = 30 \<and> int32 (numBytes h) \<and> int32 (numSectors h) \<and>
     (\<forall>i\<in>set (dataSectors h). int32 i)"

lemma sint_word_of_int32: "int32 i \<Longrightarrow> sint (word_of_int i :: 32 word) = i"
  by (simp add: int32_def sint_sbintrunc' signed_take_bit_int_eq_self_iff)

lemma bytes_words_words: "bytes_words (concat (map word_bytes ws)) = ws"
  using bytes_words_concat [of ws] by simp

lemma length_words_bytes: "length (concat (map word_bytes ws)) = 4 * length ws"
  by (induction ws) simp_all

lemma hdr_roundtrip:
  assumes "hdr_fits h"
  shows "bytes_hdr (hdr_bytes h) = h" "length (hdr_bytes h) = 128"
proof -
  let ?is = "numBytes h # numSectors h # dataSectors h"
  have e: "hdr_bytes h = concat (map word_bytes (map word_of_int ?is))"
    by (simp add: hdr_bytes_def comp_def)
  have "map sint (bytes_words (hdr_bytes h)) = ?is"
    using assms unfolding e bytes_words_words by (auto simp: hdr_fits_def sint_word_of_int32 intro: map_idI)
  then show "bytes_hdr (hdr_bytes h) = h" by (simp add: bytes_hdr_def)
  show "length (hdr_bytes h) = 128" using assms unfolding e length_words_bytes by (simp add: hdr_fits_def)
qed

text \<open>What a run of the allocation loop has reached after it took the sectors \<open>ss\<close>.\<close>

definition allocated :: "FileHeader \<Rightarrow> BitMap \<Rightarrow> int list \<Rightarrow> FileHeader \<times> BitMap \<Rightarrow> bool" where
  "allocated h b ss = (\<lambda>(h', b').
     h' = h\<lparr>dataSectors := ss @ drop (length ss) (dataSectors h)\<rparr> \<and> bm_wf b' \<and> numBits b' = numBits b \<and>
     distinct ss \<and> set ss \<subseteq> {0..<numBits b} - used b \<and> used b' = used b \<union> set ss)"

lemma alloc_step_ok:
  assumes "allocated h b ss (h', b')" "int (card (used b)) + int (length ss) < numBits b"
  shows "\<exists>s b''. Find b' = Inr (s, b'') \<and>
    (length ss < length (dataSectors h) \<longrightarrow>
      alloc_step (int (length ss)) (h', b') = Inr (h'\<lparr>dataSectors := (dataSectors h')[length ss := s]\<rparr>, b'') \<and>
      allocated h b (ss @ [s]) (h'\<lparr>dataSectors := (dataSectors h')[length ss := s]\<rparr>, b'')) \<and>
    (length (dataSectors h) \<le> length ss \<longrightarrow> alloc_step (int (length ss)) (h', b') = Inl OutOfRange)"
proof -
  have inv: "h' = h\<lparr>dataSectors := ss @ drop (length ss) (dataSectors h)\<rparr>" "bm_wf b'" "numBits b' = numBits b"
    "distinct ss" "set ss \<subseteq> {0..<numBits b} - used b" "used b' = used b \<union> set ss"
    using assms(1) by (simp_all add: allocated_def)
  have "card (used b') = card (used b) + length ss"
    unfolding inv(6) using inv(4,5) by (subst card_Un_disjoint) (auto simp: distinct_card)
  then have "int (card (used b')) + int 1 \<le> numBits b'" using assms(2) inv(3) by simp
  from bm.find_free [OF inv(2) bm.room_not_full [OF inv(2) this]]
  obtain s b'' where s: "Find b' = Inr (s, b'')" "bm_wf b''" "numBits b'' = numBits b" "s \<in> {0..<numBits b} - used b'"
    "used b'' = insert s (used b')"
    using inv(3) by auto
  have len: "length (dataSectors h') = max (length ss) (length (dataSectors h))" using inv(1) by simp
  show ?thesis
  proof (intro exI conjI impI)
    assume lt: "length ss < length (dataSectors h)"
    then have "(ss @ drop (length ss) (dataSectors h))[length ss := s] = (ss @ [s]) @ drop (length (ss @ [s])) (dataSectors h)"
      by (simp add: list_update_append Cons_nth_drop_Suc [symmetric])
    then show "allocated h b (ss @ [s]) (h'\<lparr>dataSectors := (dataSectors h')[length ss := s]\<rparr>, b'')"
      using s inv unfolding allocated_def by auto
    show "alloc_step (int (length ss)) (h', b') = Inr (h'\<lparr>dataSectors := (dataSectors h')[length ss := s]\<rparr>, b'')"
      using s(1) len lt by (simp add: alloc_step_def array_set_def)
  next
    assume "length (dataSectors h) \<le> length ss"
    then show "alloc_step (int (length ss)) (h', b') = Inl OutOfRange"
      using s(1) len by (simp add: alloc_step_def array_set_def)
  qed (rule s(1))
qed

lemma alloc_loop:
  assumes "bm_wf b" "int (card (used b)) + n \<le> numBits b" "n \<le> int (length (dataSectors h))"
  shows "\<exists>ss hb. foldE alloc_step [0..n - 1] (h, b) = Inr hb \<and> length ss = nat n \<and> allocated h b ss hb"
proof -
  have "\<exists>hb. foldE alloc_step [0..n - 1] (h, b) = Inr hb \<and>
      (\<exists>ss. length ss = length [0..n - 1] \<and> allocated h b ss hb)"
  proof (rule foldE_rule [where I = "\<lambda>xs hb. \<exists>ss. length ss = length xs \<and> allocated h b ss hb"])
    show "\<exists>ss. length ss = length [] \<and> allocated h b ss (h, b)" using assms by (simp add: allocated_def)
  next
    fix xs i rest hb
    assume split: "[0..n - 1] = xs @ i # rest" and "\<exists>ss. length ss = length xs \<and> allocated h b ss hb"
    then obtain ss h' b' where ss: "length ss = length xs" "allocated h b ss (h', b')" "hb = (h', b')"
      by (cases hb) auto
    have i: "i = int (length ss)" "i \<le> n - 1" using upto_split [OF split] ss(1) by auto
    have "int (card (used b)) + int (length ss) < numBits b" "length ss < length (dataSectors h)"
      using i assms(2,3) by linarith+
    from alloc_step_ok [OF ss(2) this(1)] this(2) show "\<exists>hb'. alloc_step i hb = Inr hb' \<and> (\<exists>ss. length ss = length (xs @ [i]) \<and> allocated h b ss hb')"
      using i(1) ss(1,3) by (metis length_append_singleton)
  qed
  then show ?thesis by auto
qed

lemma divRoundUp_nonneg: "0 \<le> n \<Longrightarrow> 0 \<le> divRoundUp n 128"
  using divRoundUp_bounds(1) [of n 128] by simp

lemma Allocate_ok:
  assumes "bm_wf b" "0 \<le> sz" "divRoundUp sz 128 \<le> numBits b - int (card (used b))"
    "divRoundUp sz 128 \<le> int (length (dataSectors h))"
  obtains ss h' b' where "Allocate h b sz = Inr (True, h', b')" "int (length ss) = divRoundUp sz 128"
    "allocated (h\<lparr>numBytes := sz, numSectors := divRoundUp sz 128\<rparr>) b ss (h', b')"
proof -
  let ?h = "h\<lparr>numBytes := sz, numSectors := divRoundUp sz 128\<rparr>"
  have "int (card (used b)) + divRoundUp sz 128 \<le> numBits b" "divRoundUp sz 128 \<le> int (length (dataSectors ?h))"
    using assms by simp_all
  from alloc_loop [OF assms(1) this] obtain ss hb where
    "foldE alloc_step [0..divRoundUp sz 128 - 1] (?h, b) = Inr hb" "length ss = nat (divRoundUp sz 128)"
    "allocated ?h b ss hb" by blast
  then show ?thesis
    using that [of "fst hb" "snd hb" ss] NumClear_used [OF assms(1)] assms(3) divRoundUp_nonneg [OF assms(2)]
    by (auto simp: Allocate_def Let_def split: prod.splits)
qed

lemma Allocate_no_room:
  assumes "bm_wf b" "numBits b - int (card (used b)) < divRoundUp sz 128"
  shows "Allocate h b sz = Inr (False, h\<lparr>numBytes := sz, numSectors := divRoundUp sz 128\<rparr>, b)"
  using NumClear_used [OF assms(1)] assms(2) by (simp add: Allocate_def)

lemma Allocate_overflow:
  assumes b: "bm_wf b" and room: "divRoundUp sz 128 \<le> numBits b - int (card (used b))"
    and big: "int (length (dataSectors h)) < divRoundUp sz 128"
  shows "Allocate h b sz = Inl OutOfRange"
proof -
  let ?h = "h\<lparr>numBytes := sz, numSectors := divRoundUp sz 128\<rparr>" and ?n = "divRoundUp sz 128"
  let ?m = "int (length (dataSectors h))"
  have "int (card (used b)) + ?m \<le> numBits b" "?m \<le> int (length (dataSectors ?h))" using room big by simp_all
  from alloc_loop [OF b this] obtain ss h' b' where ss:
    "foldE alloc_step [0..?m - 1] (?h, b) = Inr (h', b')" "length ss = length (dataSectors h)"
    "allocated ?h b ss (h', b')" by auto
  have "int (card (used b)) + int (length ss) < numBits b" using room big ss(2) by simp
  from alloc_step_ok [OF ss(3) this] have "alloc_step ?m (h', b') = Inl OutOfRange" using ss(2) by simp
  moreover have "[0..?n - 1] = [0..?m - 1] @ ?m # [?m + 1..?n - 1]"
    using upto_split3 [of 0 "?m" "?n - 1"] big by simp
  ultimately have "foldE alloc_step [0..?n - 1] (?h, b) = Inl OutOfRange" using ss(1) by (simp add: foldE_append)
  then show ?thesis using NumClear_used [OF b] room by (simp add: Allocate_def Let_def)
qed

lemma allocated_hdr_ok:
  assumes "allocated (h\<lparr>numBytes := sz, numSectors := divRoundUp sz 128\<rparr>) b ss (h', b')" "numBits b = 1024"
    "0 \<le> sz" "sz \<le> 3840" "int (length ss) = divRoundUp sz 128" "length (dataSectors h) = 30"
  shows "hdr_ok h'" "data_of h' = ss" "numBytes h' = sz" "hdr_fits h \<Longrightarrow> hdr_fits h'"
proof -
  have h': "h' = h\<lparr>numBytes := sz, numSectors := divRoundUp sz 128, dataSectors := ss @ drop (length ss) (dataSectors h)\<rparr>"
    and ss: "distinct ss" "set ss \<subseteq> {0..<1024}"
    using assms(1,2) by (auto simp: allocated_def)
  have le: "divRoundUp sz 128 \<le> 30"
    using divRoundUp_bounds(2) [of sz 128] assms(3,4) by linarith
  then have len: "length ss \<le> 30" using assms(5) by linarith
  have n: "nat (divRoundUp sz 128) = length ss" using assms(5) by linarith
  show d: "data_of h' = ss" by (simp add: h' data_of_def n)
  show "numBytes h' = sz" by (simp add: h')
  show "hdr_ok h'" unfolding hdr_ok_def d using assms(3,4,6) ss len by (simp add: h')
  assume "hdr_fits h"
  moreover have "\<forall>i\<in>set ss. int32 i" using ss(2) by (auto simp: int32_def)
  moreover have "int32 sz" "int32 (divRoundUp sz 128)"
    using assms(3,4) le divRoundUp_nonneg [OF assms(3)] by (simp_all add: int32_def)
  ultimately show "hdr_fits h'" using len by (auto simp: h' hdr_fits_def dest: in_set_dropD)
qed

lemma Deallocate_ok:
  assumes b: "bm_wf b" and h: "hdr_ok h" and n: "numBits b = 1024" and marked: "set (data_of h) \<subseteq> used b"
  obtains b' where "Deallocate h b = Inr b'" "bm_wf b'" "numBits b' = numBits b" "used b' = used b - set (data_of h)"
proof -
  let ?f = "\<lambda>i b. bindE (array_get (dataSectors h) i) (\<lambda>s. bindE (Test b s) (\<lambda>m. bindE (ASSERT m) (\<lambda>_. Clear b s)))"
  let ?I = "\<lambda>xs b'. bm_wf b' \<and> numBits b' = 1024 \<and> used b' = used b - set (take (length xs) (data_of h))"
  have "\<exists>b'. foldE ?f [0..numSectors h - 1] b = Inr b' \<and> ?I [0..numSectors h - 1] b'"
  proof (rule foldE_rule [where I = ?I])
    fix xs i rest b1
    assume split: "[0..numSectors h - 1] = xs @ i # rest" and I: "?I xs b1"
    have i: "i = int (length xs)" "length xs < nat (numSectors h)" using upto_split [OF split] by auto
    let ?s = "dataSectors h ! length xs"
    have len: "length xs < length (data_of h)" using i(2) hdr_ok_sectors(3) [OF h] by simp
    note s = data_of_nth [OF h i(2)]
    have "?s \<notin> set (take (length xs) (data_of h))"
    proof
      assume "?s \<in> set (take (length xs) (data_of h))"
      then obtain j where "j < length xs" "data_of h ! j = data_of h ! length xs"
        using len s(1) by (auto simp: in_set_conv_nth)
      then show False using h len nth_eq_iff_index_eq [of "data_of h" j "length xs"] by (simp add: hdr_ok_def)
    qed
    then have "?s \<in> used b1" using I s(2) marked by auto
    then have t: "Test b1 ?s = Inr True" using Test_used [of b1 ?s] I s(3,4) by simp
    obtain b2 where "Clear b1 ?s = Inr b2" "bm_wf b2" "numBits b2 = 1024" "used b2 = used b1 - {?s}"
      using Clear_used [of b1 ?s] I s(3,4) by auto
    moreover have "set (take (length (xs @ [i])) (data_of h)) = insert ?s (set (take (length xs) (data_of h)))"
      using len s(1) by (simp add: take_Suc_conv_app_nth)
    moreover have "array_get (dataSectors h) i = Inr ?s"
      using i hdr_ok_sectors(2) [OF h] h by (simp add: array_get_def hdr_ok_def)
    ultimately show "\<exists>b2. ?f i b1 = Inr b2 \<and> ?I (xs @ [i]) b2" using I t by auto
  qed (use b n in simp)
  moreover have "length [0..numSectors h - 1] = length (data_of h)" using hdr_ok_sectors(3) [OF h] by simp
  ultimately show ?thesis using that n by (auto simp: Deallocate_def)
qed

section \<open>Properties of headers and open files\<close>

text \<open>
  C30. An open file is a sequence of bytes: for a request at a position inside the integers,
  \<open>ReadAt\<close> returns exactly the bytes of the file that the request covers, cut at the end of the
  file; \<open>WriteAt\<close> replaces exactly those bytes, whatever the alignment of the request and
  whatever the temporary buffer held before, and leaves every sector that is not the file's alone.
\<close>

theorem open_file_implements_bytes:
  assumes "hdr_ok (hdr f)" "sectors_ok d" "0 \<le> position" "position + n < 2 ^ 31" "n \<le> int (length from)"
  defines "m \<equiv> (if n \<le> 0 \<or> position \<ge> OpenFile_Length f then 0 else min n (OpenFile_Length f - position))"
  shows "ReadAt junk d f n position = Inr (m, take (nat m) (drop (nat position) (file_bytes d (hdr f)))) \<and>
    (\<exists>d'. WriteAt junk d f from n position = Inr (m, d') \<and> sectors_ok d' \<and>
      file_bytes d' (hdr f) = take (nat position) (file_bytes d (hdr f)) @ take (nat m) from @
        drop (nat position + nat m) (file_bytes d (hdr f)) \<and>
      (\<forall>s. s \<notin> set (data_of (hdr f)) \<longrightarrow> 0 \<le> s \<longrightarrow> d' ! nat s = d ! nat s))"
proof -
  have m: "m = clip (numBytes (hdr f)) n position"
    by (simp add: m_def clip_def OpenFile_Length_def FileLength_def)
  obtain d' where "WriteAt junk d f from n position = Inr (m, d')" "sectors_ok d'"
    "\<And>s. s \<notin> set (data_of (hdr f)) \<Longrightarrow> 0 \<le> s \<Longrightarrow> d' ! nat s = d ! nat s"
    "file_bytes d' (hdr f) = take (nat position) (file_bytes d (hdr f)) @ take (nat m) from @
       drop (nat position + nat m) (file_bytes d (hdr f))"
    using WriteAt_spec [OF assms(1-5)] unfolding m by blast
  then show ?thesis using ReadAt_slice [OF assms(1-4)] unfolding m by blast
qed

text \<open>
  What \<open>Write\<close> wrote at the current position, \<open>Read\<close> returns after seeking back, and both
  move the position by the number of bytes transferred.
\<close>

theorem write_seek_read:
  assumes "hdr_ok (hdr f)" "sectors_ok d" "0 \<le> seekPosition f" "seekPosition f + n < 2 ^ 31"
    "n = int (length from)"
  shows "\<exists>m d' f'. OpenFile_Write junk d f from n = Inr (m, d', f') \<and>
    seekPosition f' = seekPosition f + m \<and>
    OpenFile_Read junk' d' (Seek f' (seekPosition f)) m = Inr (m, take (nat m) from, f')"
proof -
  define m where "m = clip (numBytes (hdr f)) n (seekPosition f)"
  let ?p = "seekPosition f"
  obtain d' where d': "WriteAt junk d f from n ?p = Inr (m, d')" "sectors_ok d'"
    "file_bytes d' (hdr f) = take (nat ?p) (file_bytes d (hdr f)) @ take (nat m) from @
       drop (nat ?p + nat m) (file_bytes d (hdr f))"
    using WriteAt_spec [OF assms(1-4) eq_refl [OF assms(5)], where junk = junk] unfolding m_def by metis
  have m: "m = 0 \<or> 0 < m \<and> ?p + m \<le> numBytes (hdr f) \<and> m \<le> n" using clip_bounds m_def by blast
  then have "m \<le> n \<or> m = 0" by blast
  have again: "clip (numBytes (hdr f)) m ?p = m" using m by (auto simp: clip_def)
  have "take (nat m) (drop (nat ?p) (file_bytes d' (hdr f))) = take (nat m) from"
  proof (cases "m = 0")
    case False
    then have "nat ?p \<le> nat (numBytes (hdr f))" "nat m \<le> length from" using m assms(5) by linarith+
    then show ?thesis unfolding d'(3) by simp
  qed simp
  moreover have "?p + m < 2 ^ 31"
  proof (cases "m = 0")
    case True
    have "numBytes (hdr f) \<le> 3840" using assms(1) by (simp add: hdr_ok_def)
    then show ?thesis using True assms(4,5) by linarith
  next
    case False
    then show ?thesis using m assms(4) by linarith
  qed
  ultimately have "ReadAt junk' d' (Seek (f\<lparr>seekPosition := ?p + m\<rparr>) ?p) m ?p = Inr (m, take (nat m) from)"
    using ReadAt_slice [of "Seek (f\<lparr>seekPosition := ?p + m\<rparr>) ?p" d' ?p m junk'] d'(2) assms(1,3) again
    by (simp add: Seek_def)
  then show ?thesis using d'(1) by (simp add: OpenFile_Write_def OpenFile_Read_def Seek_def)
qed

text \<open>
  \<open>Allocate\<close> for a file of a legal size gives it \<open>\<lceil>size / 128\<rceil>\<close> different sectors that were
  free, marks exactly these, and the header's sector image holds the header; with too little
  space it returns \<open>FALSE\<close> and allocates nothing. \<open>Deallocate\<close> frees exactly these sectors again.
\<close>

theorem Allocate_Deallocate:
  assumes "bm_wf b" "numBits b = NumSectors" "0 \<le> sz" "sz \<le> MaxFileSize" "hdr_fits h"
  shows "if divRoundUp sz SectorSize \<le> NumSectors - int (card (used b)) then
      \<exists>h' b'. Allocate h b sz = Inr (True, h', b') \<and> hdr_ok h' \<and> FileLength h' = sz \<and>
        bytes_hdr (hdr_bytes h') = h' \<and> length (data_of h') = nat (divRoundUp sz SectorSize) \<and>
        set (data_of h') \<inter> used b = {} \<and> used b' = used b \<union> set (data_of h') \<and>
        (\<exists>b''. Deallocate h' b' = Inr b'' \<and> bm_wf b'' \<and> used b'' = used b)
    else \<exists>h'. Allocate h b sz = Inr (False, h', b)"
proof (cases "divRoundUp sz 128 \<le> 1024 - int (card (used b))")
  case True
  have len: "length (dataSectors h) = 30" using assms(5) by (simp add: hdr_fits_def)
  have "divRoundUp sz 128 \<le> 30" using divRoundUp_bounds(2) [of sz 128] assms(3,4) by linarith
  then have "divRoundUp sz 128 \<le> numBits b - int (card (used b))"
    "divRoundUp sz 128 \<le> int (length (dataSectors h))"
    unfolding assms(2) len using True by simp_all
  from Allocate_ok [OF assms(1,3) this]
  obtain ss h' b' where a: "Allocate h b sz = Inr (True, h', b')" "int (length ss) = divRoundUp sz 128"
    "allocated (h\<lparr>numBytes := sz, numSectors := divRoundUp sz 128\<rparr>) b ss (h', b')" .
  note h' = allocated_hdr_ok [OF a(3) assms(2-4) a(2) len]
  have ss: "distinct ss" "set ss \<inter> used b = {}" "used b' = used b \<union> set ss" "bm_wf b'" "numBits b' = 1024"
    using a(3) assms(2) by (auto simp: allocated_def)
  have "set (data_of h') \<subseteq> used b'" using ss(3) h'(2) by simp
  then obtain b'' where b'': "Deallocate h' b' = Inr b''" "bm_wf b''" "used b'' = used b' - set (data_of h')"
    using Deallocate_ok [OF ss(4) h'(1) ss(5)] by metis
  have "used b'' = used b" using b''(3) ss(2,3) h'(2) by auto
  moreover have "length (data_of h') = nat (divRoundUp sz 128)" using a(2) h'(2) by simp
  ultimately show ?thesis
    unfolding if_P [OF True]
    using a(1) h'(1-3) ss(2,3) b''(1,2) hdr_roundtrip(1) [OF h'(4) [OF assms(5)]]
    by (intro exI [of _ h'] exI [of _ b'] conjI exI [of _ b'']) (simp_all add: FileLength_def)
next
  case False
  then show ?thesis using Allocate_no_room [of b sz h] assms(1,2) by auto
qed

text \<open>
  \<open>Allocate\<close> does not check the capacity of the header: for a file of more than
  \<open>MaxFileSize\<close> bytes on a disk with enough free sectors it writes behind the thirty entries of
  \<open>dataSectors\<close>.
\<close>

theorem Allocate_writes_past_header:
  assumes "bm_wf b" "numBits b = NumSectors" "hdr_fits h"
    "MaxFileSize < sz" "divRoundUp sz SectorSize \<le> NumSectors - int (card (used b))"
  shows "Allocate h b sz = Inl OutOfRange"
proof -
  have "30 < divRoundUp sz 128" using divRoundUp_bounds(1) [of sz 128] assms(4) by linarith
  then show ?thesis using Allocate_overflow [of b sz h] assms by (simp add: hdr_fits_def)
qed

section \<open>The properties at a concrete disk\<close>

definition blank_sectors :: sectors where
  "blank_sectors = replicate 1024 (replicate 128 0)"

definition small_hdr :: FileHeader where
  "small_hdr = \<lparr>numBytes = 200, numSectors = 2, dataSectors = [5, 9] @ replicate 28 0\<rparr>"

definition empty_map :: BitMap where
  "empty_map = \<lparr>numBits = 1024, numWords = 32, bmap = replicate 32 0\<rparr>"

lemma blank_sectors_ok: "sectors_ok blank_sectors"
  by (simp add: sectors_ok_def blank_sectors_def)

lemma small_hdr_ok: "hdr_ok small_hdr" "hdr_fits small_hdr"
  by (simp_all add: hdr_ok_def hdr_fits_def int32_def small_hdr_def data_of_def divRoundUp_def sdiv_nonneg_eq
      smod_nonneg_eq)

lemma empty_map_ok: "bm_wf empty_map" "numBits empty_map = 1024" "used empty_map = {}"
proof -
  show "bm_wf empty_map" by (simp add: bm_wf_def empty_map_def divRoundUp_def sdiv_nonneg_eq smod_nonneg_eq)
  have "bit (replicate 32 (0 :: 32 word) ! nat (i div 32)) (nat (i mod 32)) = False" if "0 \<le> i" "i < 1024" for i :: int
  proof -
    have "nat (i div 32) < 32" using that by linarith
    then show ?thesis by simp
  qed
  then show "used empty_map = {}" by (auto simp: used_def empty_map_def)
qed (simp add: empty_map_def)

theorem open_file_implements_bytes_witness:
  "\<exists>d'. WriteAt (\<lambda>_. 3) blank_sectors \<lparr>hdr = small_hdr, seekPosition = 0\<rparr> [1, 2, 3, 4] 4 126 = Inr (4, d') \<and>
     d' ! 7 = blank_sectors ! 7"
proof -
  let ?f = "\<lparr>hdr = small_hdr, seekPosition = 0\<rparr>"
  have "hdr_ok (hdr ?f)" "(0 :: int) \<le> 126" "(126 :: int) + 4 < 2 ^ 31" "(4 :: int) \<le> int (length [1, 2, 3, 4 :: byte])"
    using small_hdr_ok by simp_all
  note open_file_implements_bytes [OF this(1) blank_sectors_ok this(2-4), of "\<lambda>_. 3", THEN conjunct2]
  moreover have "OpenFile_Length ?f = 200" by (simp add: OpenFile_Length_def FileLength_def small_hdr_def)
  moreover have "(7 :: int) \<notin> set (data_of small_hdr)" by (simp add: data_of_def small_hdr_def)
  ultimately obtain d' where "WriteAt (\<lambda>_. 3) blank_sectors ?f [1, 2, 3, 4] 4 126 = Inr (4, d')" "d' ! nat 7 = blank_sectors ! nat 7"
    by force
  then show ?thesis by (intro exI [of _ d']) simp
qed

theorem write_seek_read_witness:
  "\<exists>m d' f'. OpenFile_Write (\<lambda>_. 3) blank_sectors \<lparr>hdr = small_hdr, seekPosition = 198\<rparr> [1, 2, 3, 4] 4 = Inr (m, d', f') \<and>
     OpenFile_Read (\<lambda>_. 9) d' (Seek f' 198) m = Inr (m, take (nat m) [1, 2, 3, 4], f')"
proof -
  let ?f = "\<lparr>hdr = small_hdr, seekPosition = 198\<rparr>"
  have "hdr_ok (hdr ?f)" "0 \<le> seekPosition ?f" "seekPosition ?f + 4 < 2 ^ 31" "4 = int (length [1, 2, 3, 4 :: byte])"
    using small_hdr_ok by simp_all
  from write_seek_read [OF this(1) blank_sectors_ok this(2-4), of "\<lambda>_. 3" "\<lambda>_. 9"]
  show ?thesis unfolding OpenFile.select_convs by blast
qed

theorem Allocate_Deallocate_witness:
  "\<exists>h' b'. Allocate small_hdr empty_map 300 = Inr (True, h', b') \<and> FileLength h' = 300 \<and> card (used b') = 3"
proof -
  have d: "divRoundUp 300 128 = 3" by (simp add: divRoundUp_def sdiv_nonneg_eq smod_nonneg_eq)
  have "(0 :: int) \<le> 300" "(300 :: int) \<le> 3840" by simp_all
  note Allocate_Deallocate [OF empty_map_ok(1,2) this small_hdr_ok(2), unfolded d empty_map_ok(3)]
  then obtain h' b' where "Allocate small_hdr empty_map 300 = Inr (True, h', b')" "FileLength h' = 300" "hdr_ok h'"
    "length (data_of h') = 3" "used b' = set (data_of h')"
    by auto
  moreover from this have "card (used b') = 3" using distinct_card [of "data_of h'"] by (simp add: hdr_ok_def)
  ultimately show ?thesis by blast
qed

theorem Allocate_writes_past_header_witness: "Allocate small_hdr empty_map 3841 = Inl OutOfRange"
  by (rule Allocate_writes_past_header)
    (simp_all add: empty_map_ok small_hdr_ok divRoundUp_def sdiv_nonneg_eq smod_nonneg_eq)

end
