(* ===== verification/Nachos_Directory.thy ===== *)
theory Nachos_Directory
  imports Nachos_OpenFile
begin

text \<open>
  The directory of \<^verbatim>\<open>filesys/directory.cc\<close>: a table of a fixed number of entries, kept in a file.
  The abstract object is the relation \<open>listed\<close> between file names and the sectors of their
  headers. Names are C strings, here lists of bytes read as if a NUL followed; only their first
  nine characters count.

  In the file an entry has the layout of a 32-bit ABI: the flag in one byte, three bytes of
  padding, the sector in four bytes, ten bytes of name and two of padding. The padding is part of
  the model because it travels through the file.
\<close>

section \<open>C strings\<close>

definition str_head :: "byte list \<Rightarrow> byte" where
  "str_head s = (case s of [] \<Rightarrow> 0 | c # _ \<Rightarrow> c)"

text \<open>\<^verbatim>\<open>!strncmp(a, b, n)\<close>\<close>

primrec strncmp_zero :: "byte list \<Rightarrow> byte list \<Rightarrow> nat \<Rightarrow> bool" where
  "strncmp_zero a b 0 = True"
| "strncmp_zero a b (Suc n) =
     (str_head a = str_head b \<and> (str_head a = 0 \<or> strncmp_zero (tl a) (tl b) n))"

definition strncpy :: "byte list \<Rightarrow> byte list \<Rightarrow> nat \<Rightarrow> byte list" where
  "strncpy dst src n = take n (takeWhile (\<lambda>c. c \<noteq> 0) src @ replicate n 0) @ drop n dst"

section \<open>State and operations\<close>

abbreviation FileNameMaxLen :: nat where "FileNameMaxLen \<equiv> 9"

record DirectoryEntry =
  inUse :: bool
  esector :: int
  ename :: "byte list"
  epad :: "byte list"

record Directory =
  tableSize :: int
  dtable :: "DirectoryEntry list"

definition Directory_new :: "(nat \<Rightarrow> DirectoryEntry) \<Rightarrow> int \<Rightarrow> Directory" where
  "Directory_new garbage n =
     \<lparr>tableSize = n, dtable = map (\<lambda>i. (garbage i)\<lparr>inUse := False\<rparr>) [0..<nat n]\<rparr>"

definition entry_bytes :: "DirectoryEntry \<Rightarrow> byte list" where
  "entry_bytes e =
     [if inUse e then 1 else 0] @ take 3 (epad e) @ word_bytes (word_of_int (esector e)) @ ename e @ drop 3 (epad e)"

definition bytes_entry :: "byte list \<Rightarrow> DirectoryEntry" where
  "bytes_entry bs =
     \<lparr>inUse = (bs ! 0 \<noteq> 0), esector = sint (bytes_word (take 4 (drop 4 bs))),
      ename = take 10 (drop 8 bs), epad = take 3 (drop 1 bs) @ take 2 (drop 18 bs)\<rparr>"

definition table_bytes :: "DirectoryEntry list \<Rightarrow> byte list" where
  "table_bytes es = concat (map entry_bytes es)"

definition bytes_table :: "nat \<Rightarrow> byte list \<Rightarrow> DirectoryEntry list" where
  "bytes_table n bs = map (\<lambda>i. bytes_entry (take 20 (drop (20 * i) bs))) [0..<n]"

text \<open>\<open>ReadAt\<close> overwrites as much of the table in memory as it read.\<close>

definition Directory_FetchFrom :: "(nat \<Rightarrow> byte) \<Rightarrow> sectors \<Rightarrow> OpenFile \<Rightarrow> Directory \<Rightarrow> Directory res" where
  "Directory_FetchFrom junk d file dir =
     bindE (ReadAt junk d file (tableSize dir * 20) 0) (\<lambda>(_, bs).
       Inr (dir\<lparr>dtable := bytes_table (length (dtable dir)) (bs @ drop (length bs) (table_bytes (dtable dir)))\<rparr>))"

definition Directory_WriteBack :: "(nat \<Rightarrow> byte) \<Rightarrow> sectors \<Rightarrow> OpenFile \<Rightarrow> Directory \<Rightarrow> sectors res" where
  "Directory_WriteBack junk d file dir =
     bindE (WriteAt junk d file (table_bytes (dtable dir)) (tableSize dir * 20) 0) (\<lambda>(_, d'). Inr d')"

definition FindIndex :: "Directory \<Rightarrow> byte list \<Rightarrow> int res" where
  "FindIndex dir name =
     search_from (\<lambda>i. bindE (array_get (dtable dir) i) (\<lambda>e.
       Inr (inUse e \<and> strncmp_zero (ename e) name FileNameMaxLen))) (tableSize dir) 0"

definition Directory_Find :: "Directory \<Rightarrow> byte list \<Rightarrow> int res" where
  "Directory_Find dir name =
     bindE (FindIndex dir name) (\<lambda>i.
       if i \<noteq> -1 then bindE (array_get (dtable dir) i) (\<lambda>e. Inr (esector e)) else Inr (-1))"

definition Directory_Add :: "Directory \<Rightarrow> byte list \<Rightarrow> int \<Rightarrow> (bool \<times> Directory) res" where
  "Directory_Add dir name newSector =
     bindE (FindIndex dir name) (\<lambda>i.
       if i \<noteq> -1 then Inr (False, dir)
       else bindE (search_from (\<lambda>i. bindE (array_get (dtable dir) i) (\<lambda>e. Inr (\<not> inUse e))) (tableSize dir) 0) (\<lambda>i.
         if i = -1 then Inr (False, dir)
         else
           bindE (array_get (dtable dir) i) (\<lambda>e.
           bindE (array_set (dtable dir) i
                    (e\<lparr>inUse := True, ename := strncpy (ename e) name FileNameMaxLen, esector := newSector\<rparr>)) (\<lambda>es.
             Inr (True, dir\<lparr>dtable := es\<rparr>)))))"

definition Directory_Remove :: "Directory \<Rightarrow> byte list \<Rightarrow> (bool \<times> Directory) res" where
  "Directory_Remove dir name =
     bindE (FindIndex dir name) (\<lambda>i.
       if i = -1 then Inr (False, dir)
       else
         bindE (array_get (dtable dir) i) (\<lambda>e.
         bindE (array_set (dtable dir) i (e\<lparr>inUse := False\<rparr>)) (\<lambda>es. Inr (True, dir\<lparr>dtable := es\<rparr>))))"

text \<open>\<open>List\<close>: the names it prints, each up to its NUL (of the ten bytes kept).\<close>

definition Directory_List :: "Directory \<Rightarrow> byte list list" where
  "Directory_List dir = map (\<lambda>e. takeWhile (\<lambda>c. c \<noteq> 0) (ename e)) (filter inUse (dtable dir))"

section \<open>Names\<close>

definition key :: "byte list \<Rightarrow> byte list" where
  "key s = takeWhile (\<lambda>c. c \<noteq> 0) (take 9 s)"

lemma takeWhile_take_Cons:
  "takeWhile (\<lambda>c. c \<noteq> (0::byte)) (take (Suc n) s) =
     (if str_head s = 0 then [] else str_head s # takeWhile (\<lambda>c. c \<noteq> 0) (take n (tl s)))"
  by (cases s) (simp_all add: str_head_def)

lemma strncmp_zero_iff:
  "strncmp_zero a b n \<longleftrightarrow> takeWhile (\<lambda>c. c \<noteq> 0) (take n a) = takeWhile (\<lambda>c. c \<noteq> 0) (take n b)"
proof (induction n arbitrary: a b)
  case (Suc n)
  then show ?case by (auto simp: takeWhile_take_Cons simp del: take_Suc)
qed simp

lemma strncmp_key: "strncmp_zero a b 9 \<longleftrightarrow> key a = key b"
  by (simp add: strncmp_zero_iff key_def)

lemma takeWhile_take_zeros:
  "takeWhile (\<lambda>c. c \<noteq> (0::byte)) (take n (takeWhile (\<lambda>c. c \<noteq> 0) s @ replicate m 0)) =
     takeWhile (\<lambda>c. c \<noteq> 0) (take n s)"
proof (induction s arbitrary: n)
  case Nil
  show ?case by (cases "min n m") (simp_all add: takeWhile_eq_Nil_iff)
next
  case (Cons c s)
  show ?case
  proof (cases n)
    case (Suc k)
    then show ?thesis using Cons.IH [of k] by (cases "c = 0"; cases m) simp_all
  qed simp
qed

lemma key_strncpy: "key (strncpy dst src 9) = key src"
proof -
  have "take 9 (strncpy dst src 9) = take 9 (takeWhile (\<lambda>c. c \<noteq> 0) src @ replicate 9 0)"
    by (simp add: strncpy_def)
  then show ?thesis unfolding key_def by (simp only: takeWhile_take_zeros)
qed

lemma length_strncpy: "length dst = 10 \<Longrightarrow> length (strncpy dst src 9) = 10"
  by (simp add: strncpy_def)

section \<open>Invariant and abstraction\<close>

definition entry_ok :: "DirectoryEntry \<Rightarrow> bool" where
  "entry_ok e \<longleftrightarrow> length (ename e) = 10 \<and> length (epad e) = 5 \<and> int32 (esector e)"

definition in_use :: "Directory \<Rightarrow> nat set" where
  "in_use dir = {i. i < length (dtable dir) \<and> inUse (dtable dir ! i)}"

definition dir_ok :: "Directory \<Rightarrow> bool" where
  "dir_ok dir \<longleftrightarrow> tableSize dir = int (length (dtable dir)) \<and> (\<forall>e\<in>set (dtable dir). entry_ok e) \<and>
     inj_on (\<lambda>i. key (ename (dtable dir ! i))) (in_use dir)"

definition listed :: "Directory \<Rightarrow> byte list \<Rightarrow> int \<Rightarrow> bool" where
  "listed dir k s \<longleftrightarrow> (\<exists>i\<in>in_use dir. key (ename (dtable dir ! i)) = k \<and> esector (dtable dir ! i) = s)"

definition named :: "Directory \<Rightarrow> byte list \<Rightarrow> bool" where
  "named dir k \<longleftrightarrow> (\<exists>s. listed dir k s)"

lemma listed_unique: "dir_ok dir \<Longrightarrow> listed dir k s \<Longrightarrow> listed dir k s' \<Longrightarrow> s = s'"
  unfolding dir_ok_def listed_def inj_on_def by metis

lemma in_use_lt: "i \<in> in_use dir \<Longrightarrow> i < length (dtable dir)"
  by (simp add: in_use_def)

lemma FindIndex_cases:
  assumes "dir_ok dir"
  obtains (found) i where "FindIndex dir name = Inr (int i)" "i \<in> in_use dir" "key (ename (dtable dir ! i)) = key name"
  | (absent) "FindIndex dir name = Inr (-1)" "\<And>i. i \<in> in_use dir \<Longrightarrow> key (ename (dtable dir ! i)) \<noteq> key name"
proof -
  let ?p = "\<lambda>k. inUse (dtable dir ! nat k) \<and> key (ename (dtable dir ! nat k)) = key name"
  have size: "tableSize dir = int (length (dtable dir))" using assms by (simp add: dir_ok_def)
  have "bindE (array_get (dtable dir) k) (\<lambda>e. Inr (inUse e \<and> strncmp_zero (ename e) name FileNameMaxLen)) = Inr (?p k)"
    if "0 \<le> k" "k < tableSize dir" for k
    using that size by (simp add: array_get_def strncmp_key)
  then have "\<forall>k. 0 \<le> k \<and> k < tableSize dir \<longrightarrow> bindE (array_get (dtable dir) k)
      (\<lambda>e. Inr (inUse e \<and> strncmp_zero (ename e) name FileNameMaxLen)) = Inr (?p k)" by blast
  from search_from_spec [OF this]
  consider (found) k where "FindIndex dir name = Inr k" "0 \<le> k" "k < tableSize dir" "?p k"
    | (none) "FindIndex dir name = Inr (-1)" "\<forall>j. 0 \<le> j \<and> j < tableSize dir \<longrightarrow> \<not> ?p j"
    unfolding FindIndex_def by blast
  then show ?thesis
  proof cases
    case (found k)
    then show ?thesis using that(1) [of "nat k"] size by (auto simp: in_use_def)
  next
    case none
    then have "key (ename (dtable dir ! i)) \<noteq> key name" if "i \<in> in_use dir" for i
      using that size none(2) [rule_format, of "int i"] by (auto simp: in_use_def)
    then show ?thesis using that(2) none(1) by blast
  qed
qed

lemma Directory_Find_listed:
  assumes "dir_ok dir"
  shows "if named dir (key name) then \<exists>s. Directory_Find dir name = Inr s \<and> listed dir (key name) s
    else Directory_Find dir name = Inr (-1)"
  using assms
proof (cases rule: FindIndex_cases [of dir name])
  case (found i)
  then have "Directory_Find dir name = Inr (esector (dtable dir ! i))"
    using in_use_lt by (simp add: Directory_Find_def array_get_def)
  moreover have "listed dir (key name) (esector (dtable dir ! i))" using found by (auto simp: listed_def)
  ultimately show ?thesis by (auto simp: named_def)
next
  case absent
  then show ?thesis by (auto simp: named_def listed_def Directory_Find_def)
qed

lemma dir_update_ok:
  assumes "dir_ok dir" "i < length (dtable dir)" "entry_ok e"
    and "inUse e \<Longrightarrow> \<forall>j\<in>in_use dir. j \<noteq> i \<longrightarrow> key (ename (dtable dir ! j)) \<noteq> key (ename e)"
  defines "dir' \<equiv> dir\<lparr>dtable := (dtable dir)[i := e]\<rparr>"
  shows "dir_ok dir'" "in_use dir' = (if inUse e then insert i (in_use dir) else in_use dir - {i})"
    "\<And>j. j \<noteq> i \<Longrightarrow> dtable dir' ! j = dtable dir ! j" "dtable dir' ! i = e"
proof -
  show nth: "\<And>j. j \<noteq> i \<Longrightarrow> dtable dir' ! j = dtable dir ! j" "dtable dir' ! i = e"
    using assms(2) by (simp_all add: dir'_def)
  show use: "in_use dir' = (if inUse e then insert i (in_use dir) else in_use dir - {i})"
    using assms(2) by (auto simp: in_use_def dir'_def nth_list_update)
  have "inj_on (\<lambda>j. key (ename (dtable dir' ! j))) (in_use dir')"
  proof (rule inj_onI)
    fix x y assume xy: "x \<in> in_use dir'" "y \<in> in_use dir'" "key (ename (dtable dir' ! x)) = key (ename (dtable dir' ! y))"
    have inj: "inj_on (\<lambda>i. key (ename (dtable dir ! i))) (in_use dir)" using assms(1) by (simp add: dir_ok_def)
    show "x = y"
    proof (cases "x = i \<or> y = i")
      case True
      then show ?thesis using xy assms(4) nth use by (cases "inUse e") (force split: if_splits)+
    next
      case False
      then show ?thesis using xy nth use inj_onD [OF inj, of x y] by (auto split: if_splits)
    qed
  qed
  moreover have "\<forall>e'\<in>set (dtable dir'). entry_ok e'"
    using assms(1,3) by (auto simp: dir'_def dir_ok_def dest: set_update_subset_insert [THEN subsetD])
  ultimately show "dir_ok dir'" using assms(1) by (simp add: dir_ok_def dir'_def)
qed

lemma Directory_Add_cases:
  assumes d: "dir_ok dir" and s: "int32 s"
  obtains (added) dir' i where "Directory_Add dir name s = Inr (True, dir')" "dir_ok dir'"
      "length (dtable dir') = length (dtable dir)" "i \<notin> in_use dir" "in_use dir' = insert i (in_use dir)"
      "\<And>j. j \<noteq> i \<Longrightarrow> dtable dir' ! j = dtable dir ! j" "esector (dtable dir' ! i) = s"
      "key (ename (dtable dir' ! i)) = key name" "\<not> named dir (key name)"
  | (refused) "Directory_Add dir name s = Inr (False, dir)"
      "named dir (key name) \<or> in_use dir = {0..<length (dtable dir)}"
  using d
proof (cases rule: FindIndex_cases [of dir name])
  case (found i)
  then have "Directory_Add dir name s = Inr (False, dir)" by (simp add: Directory_Add_def)
  moreover have "named dir (key name)" using found by (auto simp: named_def listed_def)
  ultimately show ?thesis using refused by simp
next
  case absent
  have size: "tableSize dir = int (length (dtable dir))" using d by (simp add: dir_ok_def)
  let ?p = "\<lambda>k. \<not> inUse (dtable dir ! nat k)" and ?P = "\<lambda>i. bindE (array_get (dtable dir) i) (\<lambda>e. Inr (\<not> inUse e))"
  have "\<forall>k. 0 \<le> k \<and> k < tableSize dir \<longrightarrow> ?P k = Inr (?p k)" using size by (simp add: array_get_def)
  from search_from_spec [OF this]
  consider (found) k where "search_from ?P (tableSize dir) 0 = Inr k" "0 \<le> k" "k < tableSize dir" "?p k"
    | (none) "search_from ?P (tableSize dir) 0 = Inr (-1)" "\<forall>j. 0 \<le> j \<and> j < tableSize dir \<longrightarrow> \<not> ?p j"
    by blast
  then show ?thesis
  proof cases
    case (found k)
    let ?i = "nat k" and ?e = "(dtable dir ! nat k)\<lparr>inUse := True, ename := strncpy (ename (dtable dir ! nat k)) name 9, esector := s\<rparr>"
    let ?dir = "dir\<lparr>dtable := (dtable dir)[nat k := ?e]\<rparr>"
    have i: "?i < length (dtable dir)" "?i \<notin> in_use dir" using found size by (auto simp: in_use_def)
    have "entry_ok (dtable dir ! ?i)" using d i(1) by (auto simp: dir_ok_def)
    then have e: "entry_ok ?e" using s by (simp add: entry_ok_def length_strncpy)
    have k: "key (ename ?e) = key name" by (simp add: key_strncpy)
    note u = dir_update_ok [OF d i(1) e]
    have "Directory_Add dir name s = Inr (True, ?dir)"
      using absent(1) found size i(1) by (simp add: Directory_Add_def array_get_def array_set_def)
    moreover have "\<not> named dir (key name)" using absent(2) by (auto simp: named_def listed_def)
    ultimately show ?thesis using added [of ?dir ?i] u i k absent(2) by simp
  next
    case none
    have "inUse (dtable dir ! i)" if "i < length (dtable dir)" for i
      using none(2) [rule_format, of "int i"] size that by simp
    then have "in_use dir = {0..<length (dtable dir)}" by (auto simp: in_use_def)
    then show ?thesis using refused absent(1) none(1) by (simp add: Directory_Add_def)
  qed
qed

lemma Directory_Remove_cases:
  assumes d: "dir_ok dir"
  obtains (removed) dir' i where "Directory_Remove dir name = Inr (True, dir')" "dir_ok dir'"
      "length (dtable dir') = length (dtable dir)" "i \<in> in_use dir" "in_use dir' = in_use dir - {i}"
      "\<And>j. j \<noteq> i \<Longrightarrow> dtable dir' ! j = dtable dir ! j" "key (ename (dtable dir ! i)) = key name"
  | (absent) "Directory_Remove dir name = Inr (False, dir)" "\<not> named dir (key name)"
  using d
proof (cases rule: FindIndex_cases [of dir name])
  case (found i)
  let ?e = "(dtable dir ! i)\<lparr>inUse := False\<rparr>" and ?dir = "dir\<lparr>dtable := (dtable dir)[i := (dtable dir ! i)\<lparr>inUse := False\<rparr>]\<rparr>"
  have i: "i < length (dtable dir)" using found in_use_lt by blast
  then have "entry_ok (dtable dir ! i)" using d by (auto simp: dir_ok_def)
  then have "entry_ok ?e" by (simp add: entry_ok_def)
  note u = dir_update_ok [OF d i this]
  have "Directory_Remove dir name = Inr (True, ?dir)"
    using found i by (simp add: Directory_Remove_def array_get_def array_set_def)
  then show ?thesis using removed [of ?dir i] u found by simp
next
  case absent
  then show ?thesis using that(2) by (auto simp: named_def listed_def Directory_Remove_def)
qed

section \<open>The table in the file\<close>

lemma entry_roundtrip:
  assumes "entry_ok e"
  shows "length (entry_bytes e) = 20" "bytes_entry (entry_bytes e) = e"
proof -
  let ?w = "word_bytes (word_of_int (esector e))"
  have len: "length (take 3 (epad e)) = 3" "length ?w = 4" "length (ename e) = 10" "length (drop 3 (epad e)) = 2"
    using assms by (simp_all add: entry_ok_def)
  then show "length (entry_bytes e) = 20" by (simp add: entry_bytes_def)
  have "take 4 (drop 4 (entry_bytes e)) = ?w" "take 10 (drop 8 (entry_bytes e)) = ename e"
    "take 3 (drop 1 (entry_bytes e)) = take 3 (epad e)" "take 2 (drop 18 (entry_bytes e)) = drop 3 (epad e)"
    "entry_bytes e ! 0 \<noteq> 0 \<longleftrightarrow> inUse e"
    using len by (simp_all add: entry_bytes_def)
  then show "bytes_entry (entry_bytes e) = e"
    using assms by (simp add: bytes_entry_def bytes_word_bytes sint_word_of_int32 entry_ok_def)
qed

lemma table_bytes_slice:
  assumes "\<forall>e\<in>set es. entry_ok e" "i < length es"
  shows "take 20 (drop (20 * i) (table_bytes es)) = entry_bytes (es ! i)"
  using assms
proof (induction es arbitrary: i)
  case (Cons e es)
  then have "length (entry_bytes e) = 20" using entry_roundtrip(1) by simp
  then show ?case using Cons by (cases i) (simp_all add: table_bytes_def)
qed simp

lemma table_roundtrip:
  assumes "\<forall>e\<in>set es. entry_ok e"
  shows "length (table_bytes es) = 20 * length es" "bytes_table (length es) (table_bytes es) = es"
proof -
  show "length (table_bytes es) = 20 * length es"
    using assms by (induction es) (simp_all add: table_bytes_def entry_roundtrip(1))
  show "bytes_table (length es) (table_bytes es) = es"
    using assms table_bytes_slice [OF assms] entry_roundtrip(2)
    by (intro nth_equalityI) (simp_all add: bytes_table_def)
qed

lemma sint32: "int32 (sint (w :: 32 word))"
  using sint_range_size [of w] by (simp add: int32_def word_size)

lemma bytes_table_ok:
  assumes "20 * n \<le> length bs"
  shows "length (bytes_table n bs) = n" "\<forall>e\<in>set (bytes_table n bs). entry_ok e"
proof -
  show "length (bytes_table n bs) = n" by (simp add: bytes_table_def)
  have "entry_ok (bytes_entry (take 20 (drop (20 * i) bs)))" if "i < n" for i
  proof -
    have "20 * i + 20 \<le> length bs" using assms that by linarith
    then show ?thesis by (simp add: entry_ok_def bytes_entry_def sint32)
  qed
  then show "\<forall>e\<in>set (bytes_table n bs). entry_ok e" by (auto simp: bytes_table_def)
qed

section \<open>Properties of the directory\<close>

text \<open>
  C36. The directory implements a finite map from names (their first nine characters) to sectors:
  \<open>Find\<close> returns the sector listed under the name or \<open>-1\<close>; \<open>Add\<close> succeeds exactly when the name
  is new and an entry is free, and then lists it and nothing else; \<open>Remove\<close> succeeds exactly when the
  name is listed and then unlists it and nothing else. The names stay distinct.
\<close>

theorem directory_implements_map:
  assumes "dir_ok dir" "int32 s"
  shows "(if named dir (key name) then \<exists>t. Directory_Find dir name = Inr t \<and> listed dir (key name) t
      else Directory_Find dir name = Inr (-1)) \<and>
    (\<exists>ok dir'. Directory_Add dir name s = Inr (ok, dir') \<and> dir_ok dir' \<and>
      (ok \<longleftrightarrow> \<not> named dir (key name) \<and> (\<exists>e\<in>set (dtable dir). \<not> inUse e)) \<and>
      (\<forall>k t. listed dir' k t \<longleftrightarrow> listed dir k t \<or> ok \<and> k = key name \<and> t = s)) \<and>
    (\<exists>ok dir'. Directory_Remove dir name = Inr (ok, dir') \<and> dir_ok dir' \<and> (ok \<longleftrightarrow> named dir (key name)) \<and>
      (\<forall>k t. listed dir' k t \<longleftrightarrow> listed dir k t \<and> k \<noteq> key name))"
proof (intro conjI)
  show "if named dir (key name) then \<exists>t. Directory_Find dir name = Inr t \<and> listed dir (key name) t
      else Directory_Find dir name = Inr (-1)" by (rule Directory_Find_listed [OF assms(1)])
  have full: "in_use dir = {0..<length (dtable dir)} \<longleftrightarrow> \<not> (\<exists>e\<in>set (dtable dir). \<not> inUse e)"
    unfolding in_use_def set_eq_iff by (simp add: all_set_conv_all_nth) blast
  from assms show "\<exists>ok dir'. Directory_Add dir name s = Inr (ok, dir') \<and> dir_ok dir' \<and>
      (ok \<longleftrightarrow> \<not> named dir (key name) \<and> (\<exists>e\<in>set (dtable dir). \<not> inUse e)) \<and>
      (\<forall>k t. listed dir' k t \<longleftrightarrow> listed dir k t \<or> ok \<and> k = key name \<and> t = s)"
  proof (cases rule: Directory_Add_cases [of dir s name])
    case (added dir' i)
    have "i < length (dtable dir)" using added(3,5) in_use_lt [of i dir'] by simp
    moreover from this have "\<not> inUse (dtable dir ! i)" using added(4) by (simp add: in_use_def)
    ultimately have "\<exists>e\<in>set (dtable dir). \<not> inUse e" using nth_mem by blast
    moreover have "listed dir' k t \<longleftrightarrow> listed dir k t \<or> k = key name \<and> t = s" for k t
    proof -
      have same: "dtable dir' ! j = dtable dir ! j" if "j \<in> in_use dir" for j using added(4) that by (intro added(6)) blast
      have "(\<exists>j\<in>in_use dir. key (ename (dtable dir' ! j)) = k \<and> esector (dtable dir' ! j) = t) \<longleftrightarrow> listed dir k t"
        unfolding listed_def by (rule bex_cong) (simp_all add: same)
      then show ?thesis unfolding listed_def [of dir'] added(5) bex_simps(5) added(7,8) by blast
    qed
    ultimately show ?thesis using added(1,2,9) by (intro exI [of _ True] exI [of _ dir']) simp
  next
    case refused
    then show ?thesis using full assms(1) by (intro exI [of _ False] exI [of _ dir]) blast
  qed
  from assms(1) show "\<exists>ok dir'. Directory_Remove dir name = Inr (ok, dir') \<and> dir_ok dir' \<and> (ok \<longleftrightarrow> named dir (key name)) \<and>
      (\<forall>k t. listed dir' k t \<longleftrightarrow> listed dir k t \<and> k \<noteq> key name)"
  proof (cases rule: Directory_Remove_cases [of dir name])
    case (removed dir' i)
    have inj: "inj_on (\<lambda>i. key (ename (dtable dir ! i))) (in_use dir)" using assms(1) by (simp add: dir_ok_def)
    have "j \<noteq> i \<longleftrightarrow> key (ename (dtable dir ! j)) \<noteq> key name" if "j \<in> in_use dir" for j
      using inj_onD [OF inj, of i j] removed(4,7) that by auto
    then have other: "in_use dir - {i} = {j \<in> in_use dir. key (ename (dtable dir ! j)) \<noteq> key name}" by blast
    have "listed dir' k t \<longleftrightarrow> (\<exists>j\<in>in_use dir - {i}. key (ename (dtable dir ! j)) = k \<and> esector (dtable dir ! j) = t)" for k t
      unfolding listed_def removed(5) by (rule bex_cong) (simp_all add: removed(6))
    then have "listed dir' k t \<longleftrightarrow> listed dir k t \<and> k \<noteq> key name" for k t
      unfolding other listed_def [of dir] by blast
    moreover have "named dir (key name)" using removed(4,7) by (auto simp: named_def listed_def)
    ultimately show ?thesis using removed(1,2) by (intro exI [of _ True] exI [of _ dir']) simp
  next
    case absent
    then have "\<not> listed dir (key name) t" for t by (simp add: named_def)
    then show ?thesis using absent assms(1) by (intro exI [of _ False] exI [of _ dir]) blast
  qed
qed

definition two_entries :: Directory where
  "two_entries = \<lparr>tableSize = 2, dtable =
     [\<lparr>inUse = True, esector = 5, ename = [97, 98, 0, 0, 0, 0, 0, 0, 0, 0], epad = [0, 0, 0, 0, 0]\<rparr>,
      \<lparr>inUse = False, esector = 7, ename = [99, 0, 0, 0, 0, 0, 0, 0, 0, 0], epad = [0, 0, 0, 0, 0]\<rparr>]\<rparr>"

theorem directory_implements_map_witness:
  "\<exists>dir'. Directory_Add two_entries [99] 9 = Inr (True, dir') \<and> listed dir' (key [99]) 9 \<and>
     listed dir' (key [97, 98]) 5"
proof -
  have use: "in_use two_entries = {0}"
    by (auto simp: in_use_def two_entries_def less_Suc_eq numeral_2_eq_2)
  have ok: "dir_ok two_entries" "int32 9"
    unfolding dir_ok_def use by (simp_all add: two_entries_def entry_ok_def int32_def)
  have l: "listed two_entries k t \<longleftrightarrow> k = key [97, 98] \<and> t = 5" for k t
    unfolding listed_def use by (auto simp: two_entries_def key_def)
  have "\<not> named two_entries (key [99])" by (simp add: named_def l key_def)
  moreover have "\<exists>e\<in>set (dtable two_entries). \<not> inUse e" by (simp add: two_entries_def)
  ultimately show ?thesis using directory_implements_map [OF ok, of "[99]"] l by auto
qed

end
