(* ===== verification/Nachos_FileSys.thy ===== *)
theory Nachos_FileSys
  imports Nachos_Directory
begin

text \<open>
  The file system of \<^verbatim>\<open>filesys/filesys.cc\<close> (the build without \<open>FILESYS_STUB\<close>): sector 0 holds the
  header of the file with the bitmap of the sectors, sector 1 that of the file with the
  directory; both files are kept open. Each operation reads what it needs into memory and writes
  the changes back. The invariant says who owns which sector: every sector that is marked belongs
  to exactly one file.
\<close>

section \<open>State and operations\<close>

abbreviation FreeMapSector :: int where "FreeMapSector \<equiv> 0"
abbreviation DirectorySector :: int where "DirectorySector \<equiv> 1"
abbreviation FreeMapFileSize :: int where "FreeMapFileSize \<equiv> 128"
abbreviation NumDirEntries :: int where "NumDirEntries \<equiv> 10"
abbreviation DirectoryFileSize :: int where "DirectoryFileSize \<equiv> 200"

record FileSystem =
  fs_disk :: sectors
  freeMapFile :: OpenFile
  directoryFile :: OpenFile

text \<open>What freshly allocated memory holds, for each kind of object.\<close>

record heap_junk =
  j_bytes :: "nat \<Rightarrow> byte"
  j_words :: "nat \<Rightarrow> 32 word"
  j_hdr :: FileHeader
  j_entry :: "nat \<Rightarrow> DirectoryEntry"

text \<open>\<open>BitMap::FetchFrom\<close> and \<open>BitMap::WriteBack\<close> on a file.\<close>

definition Map_FetchFrom :: "(nat \<Rightarrow> byte) \<Rightarrow> sectors \<Rightarrow> OpenFile \<Rightarrow> BitMap \<Rightarrow> BitMap res" where
  "Map_FetchFrom junk d file b =
     bindE (ReadAt junk d file (numWords b * 4) 0) (\<lambda>(_, bs). Inr (BitMap_FetchFrom b bs))"

definition Map_WriteBack :: "(nat \<Rightarrow> byte) \<Rightarrow> sectors \<Rightarrow> OpenFile \<Rightarrow> BitMap \<Rightarrow> sectors res" where
  "Map_WriteBack junk d file b =
     bindE (WriteAt junk d file (BitMap_WriteBack b) (numWords b * 4) 0) (\<lambda>(_, d'). Inr d')"

definition FileSystem_new :: "heap_junk \<Rightarrow> bool \<Rightarrow> sectors \<Rightarrow> FileSystem res" where
  "FileSystem_new J format d =
     (if format then
        bindE (BitMap_new (j_words J) NumSectors) (\<lambda>freeMap.
        let directory = Directory_new (j_entry J) NumDirEntries in
        bindE (Mark freeMap FreeMapSector) (\<lambda>freeMap.
        bindE (Mark freeMap DirectorySector) (\<lambda>freeMap.
        bindE (Allocate (j_hdr J) freeMap FreeMapFileSize) (\<lambda>(ok, mapHdr, freeMap).
        bindE (ASSERT ok) (\<lambda>_.
        bindE (Allocate (j_hdr J) freeMap DirectoryFileSize) (\<lambda>(ok, dirHdr, freeMap).
        bindE (ASSERT ok) (\<lambda>_.
        bindE (Header_WriteBack d mapHdr FreeMapSector) (\<lambda>d.
        bindE (Header_WriteBack d dirHdr DirectorySector) (\<lambda>d.
        bindE (OpenFile_new d FreeMapSector) (\<lambda>mapFile.
        bindE (OpenFile_new d DirectorySector) (\<lambda>dirFile.
        bindE (Map_WriteBack (j_bytes J) d mapFile freeMap) (\<lambda>d.
        bindE (Directory_WriteBack (j_bytes J) d dirFile directory) (\<lambda>d.
          Inr \<lparr>fs_disk = d, freeMapFile = mapFile, directoryFile = dirFile\<rparr>)))))))))))))
      else
        bindE (OpenFile_new d FreeMapSector) (\<lambda>mapFile.
        bindE (OpenFile_new d DirectorySector) (\<lambda>dirFile.
          Inr \<lparr>fs_disk = d, freeMapFile = mapFile, directoryFile = dirFile\<rparr>)))"

definition FileSystem_Create :: "heap_junk \<Rightarrow> FileSystem \<Rightarrow> byte list \<Rightarrow> int \<Rightarrow> (bool \<times> FileSystem) res" where
  "FileSystem_Create J fs name initialSize =
     bindE (Directory_FetchFrom (j_bytes J) (fs_disk fs) (directoryFile fs)
              (Directory_new (j_entry J) NumDirEntries)) (\<lambda>directory.
     bindE (Directory_Find directory name) (\<lambda>sector.
       if sector \<noteq> -1 then Inr (False, fs)
       else
         bindE (BitMap_new (j_words J) NumSectors) (\<lambda>freeMap.
         bindE (Map_FetchFrom (j_bytes J) (fs_disk fs) (freeMapFile fs) freeMap) (\<lambda>freeMap.
         bindE (Find freeMap) (\<lambda>(sector, freeMap).
           if sector = -1 then Inr (False, fs)
           else
             bindE (Directory_Add directory name sector) (\<lambda>(added, directory).
               if \<not> added then Inr (False, fs)
               else
                 bindE (Allocate (j_hdr J) freeMap initialSize) (\<lambda>(ok, hdr, freeMap).
                   if \<not> ok then Inr (False, fs)
                   else
                     bindE (Header_WriteBack (fs_disk fs) hdr sector) (\<lambda>d.
                     bindE (Directory_WriteBack (j_bytes J) d (directoryFile fs) directory) (\<lambda>d.
                     bindE (Map_WriteBack (j_bytes J) d (freeMapFile fs) freeMap) (\<lambda>d.
                       Inr (True, fs\<lparr>fs_disk := d\<rparr>)))))))))))"

definition FileSystem_Open :: "heap_junk \<Rightarrow> FileSystem \<Rightarrow> byte list \<Rightarrow> OpenFile option res" where
  "FileSystem_Open J fs name =
     bindE (Directory_FetchFrom (j_bytes J) (fs_disk fs) (directoryFile fs)
              (Directory_new (j_entry J) NumDirEntries)) (\<lambda>directory.
     bindE (Directory_Find directory name) (\<lambda>sector.
       if sector \<ge> 0 then bindE (OpenFile_new (fs_disk fs) sector) (\<lambda>f. Inr (Some f)) else Inr None))"

definition FileSystem_Remove :: "heap_junk \<Rightarrow> FileSystem \<Rightarrow> byte list \<Rightarrow> (bool \<times> FileSystem) res" where
  "FileSystem_Remove J fs name =
     bindE (Directory_FetchFrom (j_bytes J) (fs_disk fs) (directoryFile fs)
              (Directory_new (j_entry J) NumDirEntries)) (\<lambda>directory.
     bindE (Directory_Find directory name) (\<lambda>sector.
       if sector = -1 then Inr (False, fs)
       else
         bindE (Header_FetchFrom (fs_disk fs) sector) (\<lambda>fileHdr.
         bindE (BitMap_new (j_words J) NumSectors) (\<lambda>freeMap.
         bindE (Map_FetchFrom (j_bytes J) (fs_disk fs) (freeMapFile fs) freeMap) (\<lambda>freeMap.
         bindE (Deallocate fileHdr freeMap) (\<lambda>freeMap.
         bindE (Clear freeMap sector) (\<lambda>freeMap.
         bindE (Directory_Remove directory name) (\<lambda>(_, directory).
         bindE (Map_WriteBack (j_bytes J) (fs_disk fs) (freeMapFile fs) freeMap) (\<lambda>d.
         bindE (Directory_WriteBack (j_bytes J) d (directoryFile fs) directory) (\<lambda>d.
           Inr (True, fs\<lparr>fs_disk := d\<rparr>)))))))))))"

definition FileSystem_List :: "heap_junk \<Rightarrow> FileSystem \<Rightarrow> byte list list res" where
  "FileSystem_List J fs =
     bindE (Directory_FetchFrom (j_bytes J) (fs_disk fs) (directoryFile fs)
              (Directory_new (j_entry J) NumDirEntries)) (\<lambda>directory. Inr (Directory_List directory))"

section \<open>What the disk holds\<close>

definition hdr_at :: "sectors \<Rightarrow> int \<Rightarrow> FileHeader" where
  "hdr_at d s = bytes_hdr (d ! nat s)"

definition fs_dir :: "FileSystem \<Rightarrow> Directory" where
  "fs_dir fs = \<lparr>tableSize = 10, dtable = bytes_table 10 (file_bytes (fs_disk fs) (hdr (directoryFile fs)))\<rparr>"

definition fs_map :: "FileSystem \<Rightarrow> BitMap" where
  "fs_map fs = \<lparr>numBits = 1024, numWords = 32, bmap = bytes_words (file_bytes (fs_disk fs) (hdr (freeMapFile fs)))\<rparr>"

datatype owner = MapFile | DirFile | Entry nat

primrec header_sector :: "FileSystem \<Rightarrow> owner \<Rightarrow> int" where
  "header_sector fs MapFile = FreeMapSector"
| "header_sector fs DirFile = DirectorySector"
| "header_sector fs (Entry i) = esector (dtable (fs_dir fs) ! i)"

definition owned_hdr :: "FileSystem \<Rightarrow> owner \<Rightarrow> FileHeader" where
  "owned_hdr fs x = hdr_at (fs_disk fs) (header_sector fs x)"

definition blocks :: "FileSystem \<Rightarrow> owner \<Rightarrow> int set" where
  "blocks fs x = insert (header_sector fs x) (set (data_of (owned_hdr fs x)))"

definition owners :: "FileSystem \<Rightarrow> owner set" where
  "owners fs = {MapFile, DirFile} \<union> Entry ` in_use (fs_dir fs)"

definition fs_ok :: "FileSystem \<Rightarrow> bool" where
  "fs_ok fs \<longleftrightarrow> sectors_ok (fs_disk fs) \<and> dir_ok (fs_dir fs) \<and>
     hdr (freeMapFile fs) = owned_hdr fs MapFile \<and> numBytes (owned_hdr fs MapFile) = FreeMapFileSize \<and>
     hdr (directoryFile fs) = owned_hdr fs DirFile \<and> numBytes (owned_hdr fs DirFile) = DirectoryFileSize \<and>
     (\<forall>x\<in>owners fs. hdr_ok (owned_hdr fs x) \<and> 0 \<le> header_sector fs x \<and> header_sector fs x < NumSectors \<and>
        header_sector fs x \<notin> set (data_of (owned_hdr fs x))) \<and>
     (\<forall>x\<in>owners fs. \<forall>y\<in>owners fs. x \<noteq> y \<longrightarrow> blocks fs x \<inter> blocks fs y = {}) \<and>
     used (fs_map fs) = (\<Union>x\<in>owners fs. blocks fs x)"

text \<open>The file with a given name: the sector of its header and its contents.\<close>

definition has_file :: "FileSystem \<Rightarrow> byte list \<Rightarrow> int \<Rightarrow> byte list \<Rightarrow> bool" where
  "has_file fs k s bs \<longleftrightarrow> listed (fs_dir fs) k s \<and> bs = file_bytes (fs_disk fs) (hdr_at (fs_disk fs) s)"

definition junk_ok :: "heap_junk \<Rightarrow> bool" where
  "junk_ok J \<longleftrightarrow> hdr_fits (j_hdr J) \<and> (\<forall>i. entry_ok (j_entry J i))"

section \<open>Reading and writing the two system files\<close>

lemma length_bytes_words: "length (bytes_words bs) = length bs div 4"
  by (induction bs rule: bytes_words.induct) simp_all

lemma words32: "divRoundUp 1024 32 = 32"
  by (simp add: divRoundUp_def sdiv_nonneg_eq smod_nonneg_eq)

lemma fs_ok_files:
  assumes "fs_ok fs"
  shows "sectors_ok (fs_disk fs)" "hdr_ok (hdr (freeMapFile fs))" "numBytes (hdr (freeMapFile fs)) = 128"
    "hdr_ok (hdr (directoryFile fs))" "numBytes (hdr (directoryFile fs)) = 200" "dir_ok (fs_dir fs)"
    "length (dtable (fs_dir fs)) = 10"
  using assms by (auto simp: fs_ok_def owners_def fs_dir_def bytes_table_ok(1))

lemma fs_map_wf: "fs_ok fs \<Longrightarrow> bm_wf (fs_map fs)"
  using fs_ok_files(3) [of fs] by (simp add: bm_wf_def fs_map_def words32 length_bytes_words)

lemma numBits_fs_map [simp]: "numBits (fs_map fs) = 1024"
  by (simp add: fs_map_def)

lemma fetch_whole:
  assumes "sectors_ok d" "hdr_ok (hdr f)" "numBytes (hdr f) = n" "0 < n" "n < 2 ^ 31"
  shows "ReadAt junk d f n 0 = Inr (n, file_bytes d (hdr f))"
  using ReadAt_slice [OF assms(2,1), of 0 n junk] assms(3-5) by (simp add: clip_def)

lemma write_whole:
  assumes "sectors_ok d" "hdr_ok (hdr f)" "numBytes (hdr f) = n" "0 < n" "n < 2 ^ 31" "int (length bs) = n"
  obtains d' where "WriteAt junk d f bs n 0 = Inr (n, d')" "sectors_ok d'" "file_bytes d' (hdr f) = bs"
    "\<And>s. s \<notin> set (data_of (hdr f)) \<Longrightarrow> 0 \<le> s \<Longrightarrow> d' ! nat s = d ! nat s"
proof -
  have c: "clip (numBytes (hdr f)) n 0 = n" using assms(3,4) by (simp add: clip_def)
  have z: "(0 :: int) \<le> 0" "0 + n < 2 ^ 31" "n \<le> int (length bs)" using assms by simp_all
  from WriteAt_spec [OF assms(2,1) z, where junk = junk, unfolded c]
  obtain d' where "WriteAt junk d f bs n 0 = Inr (n, d')" "sectors_ok d'"
    "\<And>s. s \<notin> set (data_of (hdr f)) \<Longrightarrow> 0 \<le> s \<Longrightarrow> d' ! nat s = d ! nat s"
    "file_bytes d' (hdr f) = take (nat 0) (file_bytes d (hdr f)) @ take (nat n) bs @ drop (nat 0 + nat n) (file_bytes d (hdr f))"
    by blast
  then show ?thesis using that [of d'] assms(3,6) by simp
qed

lemma dir_fetch:
  assumes "fs_ok fs" "junk_ok J"
  shows "Directory_FetchFrom (j_bytes J) (fs_disk fs) (directoryFile fs) (Directory_new (j_entry J) 10) = Inr (fs_dir fs)"
proof -
  let ?es = "dtable (Directory_new (j_entry J) 10)"
  have "\<forall>e\<in>set ?es. entry_ok e" using assms(2) by (auto simp: Directory_new_def junk_ok_def entry_ok_def)
  then have "length (table_bytes ?es) = 200" "length ?es = 10"
    using table_roundtrip(1) [of ?es] by (simp_all add: Directory_new_def)
  moreover have "ReadAt (j_bytes J) (fs_disk fs) (directoryFile fs) 200 0 =
      Inr (200, file_bytes (fs_disk fs) (hdr (directoryFile fs)))"
    using fs_ok_files [OF assms(1)] by (intro fetch_whole) simp_all
  ultimately show ?thesis
    using fs_ok_files(5) [OF assms(1)] by (simp add: Directory_FetchFrom_def Directory_new_def fs_dir_def)
qed

lemma map_fetch:
  assumes "fs_ok fs"
  obtains b where "BitMap_new (j_words J) 1024 = Inr b"
    "Map_FetchFrom (j_bytes J) (fs_disk fs) (freeMapFile fs) b = Inr (fs_map fs)"
proof -
  obtain b where b: "BitMap_new (j_words J) 1024 = Inr b" "bm_wf b" "numBits b = 1024"
    using BitMap_new_used [of 1024 "j_words J"] by auto
  have nw: "numWords b = 32" using b(2,3) words32 by (simp add: bm_wf_def)
  have "ReadAt (j_bytes J) (fs_disk fs) (freeMapFile fs) 128 0 =
      Inr (128, file_bytes (fs_disk fs) (hdr (freeMapFile fs)))"
    using fs_ok_files [OF assms(1)] by (intro fetch_whole) simp_all
  then have "Map_FetchFrom (j_bytes J) (fs_disk fs) (freeMapFile fs) b = Inr (fs_map fs)"
    using nw b(3) fs_ok_files(3) [OF assms] by (simp add: Map_FetchFrom_def BitMap_FetchFrom_def fs_map_def)
  then show ?thesis using that b(1) by blast
qed

lemma dir_write:
  assumes "sectors_ok d" "hdr_ok (hdr f)" "numBytes (hdr f) = 200" "dir_ok dir" "length (dtable dir) = 10"
  obtains d' where "Directory_WriteBack junk d f dir = Inr d'" "sectors_ok d'"
    "bytes_table 10 (file_bytes d' (hdr f)) = dtable dir"
    "\<And>s. s \<notin> set (data_of (hdr f)) \<Longrightarrow> 0 \<le> s \<Longrightarrow> d' ! nat s = d ! nat s"
proof -
  have es: "\<forall>e\<in>set (dtable dir). entry_ok e" "tableSize dir = 10" using assms(4,5) by (simp_all add: dir_ok_def)
  note rt = table_roundtrip [OF es(1), unfolded assms(5)]
  obtain d' where "WriteAt junk d f (table_bytes (dtable dir)) 200 0 = Inr (200, d')" "sectors_ok d'"
    "file_bytes d' (hdr f) = table_bytes (dtable dir)"
    "\<And>s. s \<notin> set (data_of (hdr f)) \<Longrightarrow> 0 \<le> s \<Longrightarrow> d' ! nat s = d ! nat s"
    using write_whole [OF assms(1-3), of "table_bytes (dtable dir)" junk] rt(1) by auto
  then show ?thesis using that [of d'] rt(2) es(2) by (simp add: Directory_WriteBack_def)
qed

lemma map_write:
  assumes "sectors_ok d" "hdr_ok (hdr f)" "numBytes (hdr f) = 128" "bm_wf b" "numBits b = 1024"
  obtains d' where "Map_WriteBack junk d f b = Inr d'" "sectors_ok d'"
    "\<lparr>numBits = 1024, numWords = 32, bmap = bytes_words (file_bytes d' (hdr f))\<rparr> = b"
    "\<And>s. s \<notin> set (data_of (hdr f)) \<Longrightarrow> 0 \<le> s \<Longrightarrow> d' ! nat s = d ! nat s"
proof -
  have nw: "numWords b = 32" "length (bmap b) = 32" using assms(4,5) words32 by (simp_all add: bm_wf_def)
  have len: "length (BitMap_WriteBack b) = 128" using nw(2) by (simp add: BitMap_WriteBack_def length_words_bytes)
  obtain d' where d': "WriteAt junk d f (BitMap_WriteBack b) 128 0 = Inr (128, d')" "sectors_ok d'"
    "file_bytes d' (hdr f) = BitMap_WriteBack b"
    "\<And>s. s \<notin> set (data_of (hdr f)) \<Longrightarrow> 0 \<le> s \<Longrightarrow> d' ! nat s = d ! nat s"
    using write_whole [OF assms(1-3), of "BitMap_WriteBack b" junk] len by auto
  have "bytes_words (BitMap_WriteBack b) = bmap b" by (simp add: BitMap_WriteBack_def bytes_words_words)
  then have "\<lparr>numBits = 1024, numWords = 32, bmap = bytes_words (file_bytes d' (hdr f))\<rparr> = b"
    using d'(3) nw(1) assms(5) by simp
  then show ?thesis using that [of d'] d' nw(1) by (simp add: Map_WriteBack_def)
qed

section \<open>Owners of sectors\<close>

lemma fs_ok_owner:
  assumes "fs_ok fs" "x \<in> owners fs"
  shows "hdr_ok (owned_hdr fs x)" "0 \<le> header_sector fs x" "header_sector fs x < 1024"
    "header_sector fs x \<notin> set (data_of (owned_hdr fs x))" "header_sector fs x \<in> blocks fs x"
    "set (data_of (owned_hdr fs x)) \<subseteq> blocks fs x" "blocks fs x \<subseteq> used (fs_map fs)"
  using assms by (auto simp: fs_ok_def blocks_def)

lemma fs_ok_disjoint:
  "fs_ok fs \<Longrightarrow> x \<in> owners fs \<Longrightarrow> y \<in> owners fs \<Longrightarrow> x \<noteq> y \<Longrightarrow> blocks fs x \<inter> blocks fs y = {}"
  by (simp add: fs_ok_def)

lemma system_owners [simp]: "MapFile \<in> owners fs" "DirFile \<in> owners fs"
  by (simp_all add: owners_def)

text \<open>
  A change of the disk that touches only the two system files and sectors that nobody owned leaves
  the headers of the files alone, and the contents of the ordinary files.
\<close>

definition changed_only :: "FileSystem \<Rightarrow> FileSystem \<Rightarrow> int set \<Rightarrow> bool" where
  "changed_only fs fs' S \<longleftrightarrow> sectors_ok (fs_disk fs') \<and> freeMapFile fs' = freeMapFile fs \<and>
     directoryFile fs' = directoryFile fs \<and>
     (\<forall>s. 0 \<le> s \<longrightarrow> s \<notin> set (data_of (hdr (freeMapFile fs))) \<longrightarrow> s \<notin> set (data_of (hdr (directoryFile fs))) \<longrightarrow>
        s \<notin> S \<longrightarrow> fs_disk fs' ! nat s = fs_disk fs ! nat s)"

lemma kept_owner:
  assumes fs: "fs_ok fs" and x: "x \<in> owners fs" and ch: "changed_only fs fs' S" "S \<inter> used (fs_map fs) = {}"
    and same: "header_sector fs' x = header_sector fs x"
  shows "owned_hdr fs' x = owned_hdr fs x" "blocks fs' x = blocks fs x"
    "x \<noteq> MapFile \<Longrightarrow> x \<noteq> DirFile \<Longrightarrow> file_bytes (fs_disk fs') (owned_hdr fs x) = file_bytes (fs_disk fs) (owned_hdr fs x)"
proof -
  note ow = fs_ok_owner [OF fs]
  have mf: "set (data_of (hdr (freeMapFile fs))) \<subseteq> blocks fs MapFile"
    and df: "set (data_of (hdr (directoryFile fs))) \<subseteq> blocks fs DirFile"
    using fs by (auto simp: fs_ok_def blocks_def)
  have outside: "s \<notin> set (data_of (hdr (freeMapFile fs)))" "s \<notin> set (data_of (hdr (directoryFile fs)))" "s \<notin> S"
    if "s = header_sector fs x \<or> s \<in> set (data_of (owned_hdr fs x)) \<and> x \<noteq> MapFile \<and> x \<noteq> DirFile" for s
  proof -
    have s: "s \<in> blocks fs x" using that ow(5,6) [OF x] by auto
    show "s \<notin> S" using s ow(7) [OF x] ch(2) by auto
    show "s \<notin> set (data_of (hdr (freeMapFile fs)))"
    proof (cases "x = MapFile")
      case True
      then show ?thesis using that ow(4) [OF x] fs by (auto simp: fs_ok_def)
    qed (use s mf fs_ok_disjoint [OF fs x system_owners(1)] in auto)
    show "s \<notin> set (data_of (hdr (directoryFile fs)))"
    proof (cases "x = DirFile")
      case True
      then show ?thesis using that ow(4) [OF x] fs by (auto simp: fs_ok_def)
    qed (use s df fs_ok_disjoint [OF fs x system_owners(2)] in auto)
  qed
  have unchanged: "fs_disk fs' ! nat s = fs_disk fs ! nat s"
    if "s = header_sector fs x \<or> s \<in> set (data_of (owned_hdr fs x)) \<and> x \<noteq> MapFile \<and> x \<noteq> DirFile" "0 \<le> s" for s
    using outside [OF that(1)] that(2) ch(1) by (simp add: changed_only_def)
  show h: "owned_hdr fs' x = owned_hdr fs x"
    using unchanged [of "header_sector fs x"] ow(2) [OF x] same by (simp add: owned_hdr_def hdr_at_def)
  show "blocks fs' x = blocks fs x" using h same by (simp add: blocks_def)
  assume "x \<noteq> MapFile" "x \<noteq> DirFile"
  moreover have "0 \<le> s" if "s \<in> set (data_of (owned_hdr fs x))" for s
    using that ow(1) [OF x] by (auto simp: hdr_ok_def)
  ultimately show "file_bytes (fs_disk fs') (owned_hdr fs x) = file_bytes (fs_disk fs) (owned_hdr fs x)"
    using unchanged by (intro file_bytes_cong [OF ow(1) [OF x]]) blast
qed

text \<open>Writing both system files, in either order.\<close>

definition system_written :: "FileSystem \<Rightarrow> sectors \<Rightarrow> Directory \<Rightarrow> BitMap \<Rightarrow> sectors \<Rightarrow> bool" where
  "system_written fs d dir b d' \<longleftrightarrow> sectors_ok d' \<and>
     bytes_table 10 (file_bytes d' (hdr (directoryFile fs))) = dtable dir \<and>
     \<lparr>numBits = 1024, numWords = 32, bmap = bytes_words (file_bytes d' (hdr (freeMapFile fs)))\<rparr> = b \<and>
     (\<forall>s. 0 \<le> s \<longrightarrow> s \<notin> set (data_of (hdr (freeMapFile fs))) \<longrightarrow> s \<notin> set (data_of (hdr (directoryFile fs))) \<longrightarrow>
        d' ! nat s = d ! nat s)"

lemma system_files_disjoint:
  assumes "fs_ok fs"
  shows "set (data_of (hdr (freeMapFile fs))) \<inter> set (data_of (hdr (directoryFile fs))) = {}"
  using fs_ok_disjoint [OF assms system_owners] assms by (auto simp: fs_ok_def blocks_def)

lemma write_system:
  assumes f: "hdr_ok (hdr (freeMapFile fs))" "numBytes (hdr (freeMapFile fs)) = 128"
      "hdr_ok (hdr (directoryFile fs))" "numBytes (hdr (directoryFile fs)) = 200"
    and dis: "set (data_of (hdr (freeMapFile fs))) \<inter> set (data_of (hdr (directoryFile fs))) = {}"
    and d: "sectors_ok d" and dir: "dir_ok dir" "length (dtable dir) = 10"
    and b: "bm_wf b" "numBits b = 1024"
  shows "\<exists>d1 d2. Directory_WriteBack junk d (directoryFile fs) dir = Inr d1 \<and>
      Map_WriteBack junk d1 (freeMapFile fs) b = Inr d2 \<and> system_written fs d dir b d2"
    and "\<exists>d1 d2. Map_WriteBack junk d (freeMapFile fs) b = Inr d1 \<and>
      Directory_WriteBack junk d1 (directoryFile fs) dir = Inr d2 \<and> system_written fs d dir b d2"
proof -
  have pos: "0 \<le> s" if "s \<in> set (data_of (hdr (freeMapFile fs))) \<or> s \<in> set (data_of (hdr (directoryFile fs)))" for s
    using that f(1,3) by (auto simp: hdr_ok_def)
  obtain d1 where d1: "Directory_WriteBack junk d (directoryFile fs) dir = Inr d1" "sectors_ok d1"
    "bytes_table 10 (file_bytes d1 (hdr (directoryFile fs))) = dtable dir"
    "\<And>s. s \<notin> set (data_of (hdr (directoryFile fs))) \<Longrightarrow> 0 \<le> s \<Longrightarrow> d1 ! nat s = d ! nat s"
    using dir_write [OF d f(3,4) dir] by metis
  obtain d2 where d2: "Map_WriteBack junk d1 (freeMapFile fs) b = Inr d2" "sectors_ok d2"
    "\<lparr>numBits = 1024, numWords = 32, bmap = bytes_words (file_bytes d2 (hdr (freeMapFile fs)))\<rparr> = b"
    "\<And>s. s \<notin> set (data_of (hdr (freeMapFile fs))) \<Longrightarrow> 0 \<le> s \<Longrightarrow> d2 ! nat s = d1 ! nat s"
    using map_write [OF d1(2) f(1,2) b] by metis
  have "file_bytes d2 (hdr (directoryFile fs)) = file_bytes d1 (hdr (directoryFile fs))"
    using d2(4) dis pos by (intro file_bytes_cong [OF f(3)]) blast
  then show "\<exists>d1 d2. Directory_WriteBack junk d (directoryFile fs) dir = Inr d1 \<and>
      Map_WriteBack junk d1 (freeMapFile fs) b = Inr d2 \<and> system_written fs d dir b d2"
    using d1 d2 by (auto simp: system_written_def)
next
  have pos: "0 \<le> s" if "s \<in> set (data_of (hdr (freeMapFile fs))) \<or> s \<in> set (data_of (hdr (directoryFile fs)))" for s
    using that f(1,3) by (auto simp: hdr_ok_def)
  obtain d1 where d1: "Map_WriteBack junk d (freeMapFile fs) b = Inr d1" "sectors_ok d1"
    "\<lparr>numBits = 1024, numWords = 32, bmap = bytes_words (file_bytes d1 (hdr (freeMapFile fs)))\<rparr> = b"
    "\<And>s. s \<notin> set (data_of (hdr (freeMapFile fs))) \<Longrightarrow> 0 \<le> s \<Longrightarrow> d1 ! nat s = d ! nat s"
    using map_write [OF d f(1,2) b] by metis
  obtain d2 where d2: "Directory_WriteBack junk d1 (directoryFile fs) dir = Inr d2" "sectors_ok d2"
    "bytes_table 10 (file_bytes d2 (hdr (directoryFile fs))) = dtable dir"
    "\<And>s. s \<notin> set (data_of (hdr (directoryFile fs))) \<Longrightarrow> 0 \<le> s \<Longrightarrow> d2 ! nat s = d1 ! nat s"
    using dir_write [OF d1(2) f(3,4) dir] by metis
  have "file_bytes d2 (hdr (freeMapFile fs)) = file_bytes d1 (hdr (freeMapFile fs))"
    using d2(4) dis pos by (intro file_bytes_cong [OF f(1)]) blast
  then show "\<exists>d1 d2. Map_WriteBack junk d (freeMapFile fs) b = Inr d1 \<and>
      Directory_WriteBack junk d1 (directoryFile fs) dir = Inr d2 \<and> system_written fs d dir b d2"
    using d1 d2 by (auto simp: system_written_def)
qed

text \<open>How a file system stays consistent when owners are dropped or one is added.\<close>

lemma fs_system:
  assumes "fs_ok fs"
  shows "owned_hdr fs MapFile = hdr (freeMapFile fs)" "owned_hdr fs DirFile = hdr (directoryFile fs)"
    "numBytes (hdr (freeMapFile fs)) = 128" "numBytes (hdr (directoryFile fs)) = 200"
  using assms by (simp_all add: fs_ok_def)

lemma fs_ok_change:
  assumes fs: "fs_ok fs" and ch: "changed_only fs fs' S" "S \<inter> used (fs_map fs) = {}" and dir: "dir_ok (fs_dir fs')"
    and X: "X \<subseteq> owners fs" "MapFile \<in> X" "DirFile \<in> X" "\<And>x. x \<in> X \<Longrightarrow> header_sector fs' x = header_sector fs x"
    and N: "owners fs' = X \<union> N" "\<And>x. x \<in> N \<Longrightarrow> hdr_ok (owned_hdr fs' x) \<and> 0 \<le> header_sector fs' x \<and>
        header_sector fs' x < 1024 \<and> header_sector fs' x \<notin> set (data_of (owned_hdr fs' x)) \<and>
        blocks fs' x \<inter> used (fs_map fs) = {}" "\<And>x y. x \<in> N \<Longrightarrow> y \<in> N \<Longrightarrow> x = y"
    and map: "used (fs_map fs') = (\<Union>x\<in>X. blocks fs x) \<union> (\<Union>x\<in>N. blocks fs' x)"
  shows "fs_ok fs'"
proof -
  have kept: "owned_hdr fs' x = owned_hdr fs x" "blocks fs' x = blocks fs x" if "x \<in> X" for x
    by (rule kept_owner [OF fs subsetD [OF X(1) that] ch X(4) [OF that]])+
  note ow = fs_ok_owner [OF fs subsetD [OF X(1)]]
  have each: "hdr_ok (owned_hdr fs' x) \<and> 0 \<le> header_sector fs' x \<and> header_sector fs' x < 1024 \<and>
      header_sector fs' x \<notin> set (data_of (owned_hdr fs' x))" if "x \<in> owners fs'" for x
  proof (cases "x \<in> X")
    case True
    then show ?thesis using kept(1) [OF True] X(4) [OF True] ow(1-4) [OF True] by simp
  next
    case False
    then show ?thesis using that N(1) N(2) [of x] by blast
  qed
  have disj: "blocks fs' x \<inter> blocks fs' y = {}" if "x \<in> owners fs'" "y \<in> owners fs'" "x \<noteq> y" for x y
  proof -
    have new_old: "blocks fs' u \<inter> blocks fs' v = {}" if "u \<in> N" "v \<in> X" for u v
      using N(2) [OF that(1)] ow(7) [OF that(2)] kept(2) [OF that(2)] by blast
    have "x \<in> X \<or> x \<in> N" "y \<in> X \<or> y \<in> N" using that(1,2) by (simp_all add: N(1))
    then consider "x \<in> X" "y \<in> X" | "x \<in> N" "y \<in> X" | "x \<in> X" "y \<in> N" | "x \<in> N" "y \<in> N"
      by argo
    then show ?thesis
    proof cases
      case 1
      then show ?thesis
        unfolding kept(2) [OF 1(1)] kept(2) [OF 1(2)] using X(1) that(3) by (intro fs_ok_disjoint [OF fs]) auto
    next
      case 2
      then show ?thesis by (rule new_old)
    next
      case 3
      then show ?thesis using new_old [of y x] by (simp add: Int_commute)
    next
      case 4
      then show ?thesis using N(3) [of x y] that(3) by simp
    qed
  qed
  have system: "freeMapFile fs' = freeMapFile fs" "directoryFile fs' = directoryFile fs" "sectors_ok (fs_disk fs')"
    using ch(1) by (simp_all add: changed_only_def)
  have "used (fs_map fs') = (\<Union>x\<in>owners fs'. blocks fs' x)" unfolding map N(1) UN_Un using kept(2) by simp
  moreover have "hdr (freeMapFile fs') = owned_hdr fs' MapFile" "numBytes (owned_hdr fs' MapFile) = 128"
    "hdr (directoryFile fs') = owned_hdr fs' DirFile" "numBytes (owned_hdr fs' DirFile) = 200"
    using kept(1) [OF X(2)] kept(1) [OF X(3)] system(1,2) fs_system [OF fs] by simp_all
  ultimately show ?thesis unfolding fs_ok_def using system(3) dir each disj by blast
qed

section \<open>The operations keep the file system consistent\<close>

lemma has_file_entry:
  "has_file fs k s bs \<longleftrightarrow> (\<exists>i\<in>in_use (fs_dir fs). key (ename (dtable (fs_dir fs) ! i)) = k \<and>
     header_sector fs (Entry i) = s \<and> bs = file_bytes (fs_disk fs) (owned_hdr fs (Entry i)))"
  by (auto simp: has_file_def listed_def owned_hdr_def)

lemma owner_entry: "i \<in> in_use (fs_dir fs) \<Longrightarrow> Entry i \<in> owners fs"
  by (simp add: owners_def)

lemma fs_dir_written: "system_written fs d dir b d' \<Longrightarrow> dir_ok dir \<Longrightarrow> length (dtable dir) = 10 \<Longrightarrow>
    fs_dir (fs\<lparr>fs_disk := d'\<rparr>) = dir \<and> fs_map (fs\<lparr>fs_disk := d'\<rparr>) = b"
  by (simp add: system_written_def fs_dir_def fs_map_def dir_ok_def)

text \<open>The successful end of \<open>Create\<close>: a free sector, a free entry and enough data sectors were found.\<close>

lemma Create_writes:
  assumes fs: "fs_ok fs" and J: "hdr_fits h" and sz: "0 \<le> sz" "sz \<le> 3840"
    and s: "0 \<le> s" "s < 1024" "s \<notin> used (fs_map fs)"
    and b1: "bm_wf b1" "numBits b1 = 1024" "used b1 = insert s (used (fs_map fs))"
    and al: "allocated (h0\<lparr>numBytes := sz, numSectors := divRoundUp sz 128\<rparr>) b1 ss (h, b2)"
      "int (length ss) = divRoundUp sz 128" "length (dataSectors h0) = 30"
    and dir: "dir_ok dir" "length (dtable dir) = 10" "i \<notin> in_use (fs_dir fs)" "in_use dir = insert i (in_use (fs_dir fs))"
      "\<And>j. j \<noteq> i \<Longrightarrow> dtable dir ! j = dtable (fs_dir fs) ! j" "esector (dtable dir ! i) = s"
  obtains d1 d2 d3 fs' where "Header_WriteBack (fs_disk fs) h s = Inr d1"
    "Directory_WriteBack junk d1 (directoryFile fs) dir = Inr d2"
    "Map_WriteBack junk d2 (freeMapFile fs) b2 = Inr d3" "fs' = fs\<lparr>fs_disk := d3\<rparr>"
    "fs_ok fs'" "changed_only fs fs' {s}" "fs_dir fs' = dir" "fs_map fs' = b2" "hdr_at d3 s = h"
proof -
  note ho = allocated_hdr_ok [OF al(1) b1(2) sz al(2,3)]
  have ss: "set ss \<subseteq> {0..<1024} - used b1" "used b2 = used b1 \<union> set ss" "bm_wf b2" "numBits b2 = 1024"
    using al(1) b1(2) by (auto simp: allocated_def)
  let ?d1 = "(fs_disk fs)[nat s := hdr_bytes h]"
  have d1: "Header_WriteBack (fs_disk fs) h s = Inr ?d1" "sectors_ok ?d1"
    using WriteSector_ok [OF fs_ok_files(1) [OF fs] s(1,2) hdr_roundtrip(2) [OF J]]
    by (simp_all add: Header_WriteBack_def)
  obtain d2 d3 where w: "Directory_WriteBack junk ?d1 (directoryFile fs) dir = Inr d2"
    "Map_WriteBack junk d2 (freeMapFile fs) b2 = Inr d3" "system_written fs ?d1 dir b2 d3"
    using write_system(1) [OF fs_ok_files(2-5) [OF fs] system_files_disjoint [OF fs] d1(2) dir(1,2) ss(3,4)] by blast
  define fs' where "fs' = fs\<lparr>fs_disk := d3\<rparr>"
  have dm: "fs_dir fs' = dir" "fs_map fs' = b2"
    using fs_dir_written [OF w(3) dir(1,2)] by (simp_all add: fs'_def)
  have len: "nat s < length (fs_disk fs)" using s fs_ok_files(1) [OF fs] by (simp add: sectors_ok_def)
  have ch: "changed_only fs fs' {s}"
    using w(3) s(1) by (auto simp: changed_only_def fs'_def system_written_def nth_list_update nat_eq_iff)
  have free: "s \<notin> set (data_of (hdr (freeMapFile fs)))" "s \<notin> set (data_of (hdr (directoryFile fs)))"
    using fs_ok_owner(6,7) [OF fs system_owners(1)] fs_ok_owner(6,7) [OF fs system_owners(2)] s(3) fs_system [OF fs] by auto
  have "d3 ! nat s = ?d1 ! nat s" using w(3) free s(1) by (simp add: system_written_def)
  then have "d3 ! nat s = hdr_bytes h" using len by simp
  then have hs: "hdr_at d3 s = h" using hdr_roundtrip(1) [OF J] by (simp add: hdr_at_def)
  have new: "header_sector fs' (Entry i) = s" "owned_hdr fs' (Entry i) = h" "blocks fs' (Entry i) = insert s (set ss)"
    using dm(1) dir(6) hs ho(2) by (simp_all add: owned_hdr_def blocks_def fs'_def)
  have "header_sector fs' x = header_sector fs x" if "x \<in> owners fs" for x
  proof (cases x)
    case (Entry j)
    then have "j \<noteq> i" using that dir(3) by (auto simp: owners_def)
    then show ?thesis using Entry dm(1) dir(5) by simp
  qed simp_all
  moreover have "owners fs' = owners fs \<union> {Entry i}" using dm(1) dir(4) by (auto simp: owners_def)
  moreover have "used (fs_map fs') = (\<Union>x\<in>owners fs. blocks fs x) \<union> (\<Union>x\<in>{Entry i}. blocks fs' x)"
    using dm(2) ss(2) b1(3) new(3) fs by (auto simp: fs_ok_def)
  moreover have "s \<notin> set ss" "insert s (set ss) \<inter> used (fs_map fs) = {}" using ss(1) b1(3) s(3) by auto
  ultimately have "fs_ok fs'"
    using s new ho(1,2) dm dir(1) by (intro fs_ok_change [OF fs ch, where X = "owners fs" and N = "{Entry i}"]) simp_all
  then show ?thesis using that [OF d1(1) w(1,2) fs'_def] ch dm hs by blast
qed

text \<open>Files that are not touched keep their sector and contents.\<close>

lemma has_file_kept:
  assumes fs: "fs_ok fs" and ch: "changed_only fs fs' S" "S \<inter> used (fs_map fs) = {}"
    and i: "i \<in> in_use (fs_dir fs)" and same: "dtable (fs_dir fs') ! i = dtable (fs_dir fs) ! i"
  shows "header_sector fs' (Entry i) = header_sector fs (Entry i) \<and>
    file_bytes (fs_disk fs') (owned_hdr fs' (Entry i)) = file_bytes (fs_disk fs) (owned_hdr fs (Entry i))"
proof -
  have h: "header_sector fs' (Entry i) = header_sector fs (Entry i)" using same by simp
  note k = kept_owner [OF fs owner_entry [OF i] ch h]
  then show ?thesis using h k(3) by simp
qed

lemma listed_nonneg:
  assumes "fs_ok fs" "listed (fs_dir fs) k s"
  shows "0 \<le> s"
proof -
  obtain i where "i \<in> in_use (fs_dir fs)" "s = header_sector fs (Entry i)"
    using assms(2) by (auto simp: listed_def)
  then show ?thesis using fs_ok_owner(2) [OF assms(1) owner_entry] by simp
qed

lemma Create_created:
  assumes fs: "fs_ok fs" and J: "junk_ok J" and sz: "0 \<le> sz" "sz \<le> 3840"
    and new: "\<not> named (fs_dir fs) (key name)" "in_use (fs_dir fs) \<noteq> {0..<10}"
    and room: "divRoundUp sz 128 + 1 \<le> 1024 - int (card (used (fs_map fs)))"
  obtains fs' s h ss i where "FileSystem_Create J fs name sz = Inr (True, fs')" "fs_ok fs'"
    "changed_only fs fs' {s}" "s \<notin> used (fs_map fs)" "i \<notin> in_use (fs_dir fs)"
    "in_use (fs_dir fs') = insert i (in_use (fs_dir fs))"
    "\<And>j. j \<noteq> i \<Longrightarrow> dtable (fs_dir fs') ! j = dtable (fs_dir fs) ! j"
    "key (ename (dtable (fs_dir fs') ! i)) = key name" "header_sector fs' (Entry i) = s"
    "numBytes (owned_hdr fs' (Entry i)) = sz"
    "used (fs_map fs') = insert s (used (fs_map fs)) \<union> set ss" "int (length ss) = divRoundUp sz 128"
    "distinct ss" "set ss \<inter> insert s (used (fs_map fs)) = {}"
proof -
  let ?b = "fs_map fs" and ?dir = "fs_dir fs"
  note f = fs_ok_files [OF fs]
  have n0: "0 \<le> divRoundUp sz 128" using divRoundUp_nonneg [OF sz(1)] .
  obtain b0 where b0: "BitMap_new (j_words J) 1024 = Inr b0"
    "Map_FetchFrom (j_bytes J) (fs_disk fs) (freeMapFile fs) b0 = Inr ?b"
    using map_fetch [OF fs] by metis
  have "int (card (used ?b)) + int 1 \<le> numBits ?b" using room n0 by simp
  from bm.find_free [OF fs_map_wf [OF fs] bm.room_not_full [OF fs_map_wf [OF fs] this]]
  obtain s b1 where s: "Find ?b = Inr (s, b1)" "bm_wf b1" "numBits b1 = 1024" "s \<in> {0..<1024} - used ?b"
    "used b1 = insert s (used ?b)" by auto
  have s32: "int32 s" using s(4) by (auto simp: int32_def)
  have card1: "card (used b1) = Suc (card (used ?b))" using s(4,5) by simp
  from f(6) s32 obtain dir i where add: "Directory_Add ?dir name s = Inr (True, dir)" "dir_ok dir"
    "length (dtable dir) = 10" "i \<notin> in_use ?dir" "in_use dir = insert i (in_use ?dir)"
    "\<And>j. j \<noteq> i \<Longrightarrow> dtable dir ! j = dtable ?dir ! j" "esector (dtable dir ! i) = s"
    "key (ename (dtable dir ! i)) = key name"
  proof (cases rule: Directory_Add_cases [of ?dir s name])
    case refused
    then show ?thesis using new f(7) by simp
  qed (use f(7) that in simp)
  have h0: "hdr_fits (j_hdr J)" "length (dataSectors (j_hdr J)) = 30" using J by (simp_all add: junk_ok_def hdr_fits_def)
  have "divRoundUp sz 128 \<le> 30" using divRoundUp_bounds(2) [of sz 128] sz by linarith
  then have "divRoundUp sz 128 \<le> numBits b1 - int (card (used b1))"
    "divRoundUp sz 128 \<le> int (length (dataSectors (j_hdr J)))" using room card1 s(3) h0(2) by simp_all
  from Allocate_ok [OF s(2) sz(1) this] obtain ss h b2 where al: "Allocate (j_hdr J) b1 sz = Inr (True, h, b2)"
    "int (length ss) = divRoundUp sz 128"
    "allocated ((j_hdr J)\<lparr>numBytes := sz, numSectors := divRoundUp sz 128\<rparr>) b1 ss (h, b2)" .
  note ho = allocated_hdr_ok [OF al(3) s(3) sz al(2) h0(2)]
  have s': "0 \<le> s" "s < 1024" "s \<notin> used ?b" using s(4) by auto
  obtain d1 d2 d3 fs' where w: "Header_WriteBack (fs_disk fs) h s = Inr d1"
    "Directory_WriteBack (j_bytes J) d1 (directoryFile fs) dir = Inr d2"
    "Map_WriteBack (j_bytes J) d2 (freeMapFile fs) b2 = Inr d3" "fs' = fs\<lparr>fs_disk := d3\<rparr>"
    "fs_ok fs'" "changed_only fs fs' {s}" "fs_dir fs' = dir" "fs_map fs' = b2" "hdr_at d3 s = h"
    using Create_writes [OF fs ho(4) [OF h0(1)] sz s' s(2,3,5) al(3,2) h0(2) add(2-7), where junk = "j_bytes J"]
    by blast
  have "Directory_Find ?dir name = Inr (-1)" using Directory_Find_listed [OF f(6), of name] new(1) by simp
  then have run: "FileSystem_Create J fs name sz = Inr (True, fs')"
    using dir_fetch [OF fs J] b0 s(1) add(1) al(1) w(1-4) s'(1) by (simp add: FileSystem_Create_def)
  have "set ss \<inter> insert s (used ?b) = {}" "distinct ss" "used b2 = insert s (used ?b) \<union> set ss"
    using al(3) s(5) by (auto simp: allocated_def)
  then show ?thesis
    using that [OF run w(5,6) s'(3) add(4)] w(4,7-9) add(5-8) ho(3) al(2) by (simp add: owned_hdr_def)
qed

lemma Create_refused:
  assumes fs: "fs_ok fs" and J: "junk_ok J" and sz: "0 \<le> sz"
    and no: "named (fs_dir fs) (key name) \<or> in_use (fs_dir fs) = {0..<10} \<or>
      1024 - int (card (used (fs_map fs))) < divRoundUp sz 128 + 1"
  shows "FileSystem_Create J fs name sz = Inr (False, fs)"
proof -
  let ?b = "fs_map fs" and ?dir = "fs_dir fs"
  note f = fs_ok_files [OF fs]
  obtain b0 where b0: "BitMap_new (j_words J) 1024 = Inr b0"
    "Map_FetchFrom (j_bytes J) (fs_disk fs) (freeMapFile fs) b0 = Inr ?b"
    using map_fetch [OF fs] by metis
  have start: "FileSystem_Create J fs name sz = (if named ?dir (key name) then Inr (False, fs) else
      bindE (Find ?b) (\<lambda>(sector, freeMap).
           if sector = -1 then Inr (False, fs)
           else
             bindE (Directory_Add ?dir name sector) (\<lambda>(added, directory).
               if \<not> added then Inr (False, fs)
               else
                 bindE (Allocate (j_hdr J) freeMap sz) (\<lambda>(ok, hdr, freeMap).
                   if \<not> ok then Inr (False, fs)
                   else
                     bindE (Header_WriteBack (fs_disk fs) hdr sector) (\<lambda>d.
                     bindE (Directory_WriteBack (j_bytes J) d (directoryFile fs) directory) (\<lambda>d.
                     bindE (Map_WriteBack (j_bytes J) d (freeMapFile fs) freeMap) (\<lambda>d.
                       Inr (True, fs\<lparr>fs_disk := d\<rparr>))))))))"
    using Directory_Find_listed [OF f(6), of name] dir_fetch [OF fs J] b0 listed_nonneg [OF fs, of "key name" "-1"]
    by (auto simp: FileSystem_Create_def)
  show ?thesis
  proof (cases "named ?dir (key name)")
    case False
    from fs_map_wf [OF fs] obtain s b1 where s: "Find ?b = Inr (s, b1)" "bm_wf b1" "numBits b1 = 1024"
      "s = -1 \<and> b1 = ?b \<or> s \<in> {0..<1024} - used ?b \<and> used b1 = insert s (used ?b)"
      by (rule bm.find_never_fails) auto
    show ?thesis
    proof (cases "s = -1")
      case False
      then have s1: "s \<in> {0..<1024} - used ?b" "used b1 = insert s (used ?b)" using s(4) by auto
      have s32: "int32 s" using s1(1) by (auto simp: int32_def)
      have card1: "card (used b1) = Suc (card (used ?b))" using s1 by simp
      from f(6) s32 show ?thesis
      proof (cases rule: Directory_Add_cases [of ?dir s name])
        case (added dir i)
        have "i < 10" using added(3,5) f(7) in_use_lt [of i dir] by simp
        then have "in_use ?dir \<noteq> {0..<10}" using added(4) by auto
        then have "numBits b1 - int (card (used b1)) < divRoundUp sz 128"
          using no \<open>\<not> named ?dir (key name)\<close> card1 s(3) by simp
        from Allocate_no_room [OF s(2) this] show ?thesis
          using start s(1) False added(1) \<open>\<not> named ?dir (key name)\<close> by simp
      next
        case refused
        then show ?thesis using start s(1) False by simp
      qed
    qed (use start s(1) in simp)
  qed (use start in simp)
qed

lemma Header_FetchFrom_ok:
  assumes "sectors_ok d" "0 \<le> s" "s < 1024"
  shows "Header_FetchFrom d s = Inr (hdr_at d s)" "OpenFile_new d s = Inr \<lparr>hdr = hdr_at d s, seekPosition = 0\<rparr>"
  using ReadSector_ok [OF assms] by (simp_all add: Header_FetchFrom_def OpenFile_new_def hdr_at_def)

lemma Remove_absent:
  assumes "fs_ok fs" "junk_ok J" "\<not> named (fs_dir fs) (key name)"
  shows "FileSystem_Remove J fs name = Inr (False, fs)"
  using dir_fetch [OF assms(1,2)] Directory_Find_listed [OF fs_ok_files(6) [OF assms(1)], of name] assms(3)
  by (simp add: FileSystem_Remove_def)

lemma Remove_removed:
  assumes fs: "fs_ok fs" and J: "junk_ok J" and nm: "named (fs_dir fs) (key name)"
  obtains fs' i where "FileSystem_Remove J fs name = Inr (True, fs')" "fs_ok fs'" "changed_only fs fs' {}"
    "i \<in> in_use (fs_dir fs)" "key (ename (dtable (fs_dir fs) ! i)) = key name"
    "in_use (fs_dir fs') = in_use (fs_dir fs) - {i}"
    "\<And>j. j \<noteq> i \<Longrightarrow> dtable (fs_dir fs') ! j = dtable (fs_dir fs) ! j"
    "used (fs_map fs') = used (fs_map fs) - blocks fs (Entry i)"
proof -
  let ?b = "fs_map fs" and ?dir = "fs_dir fs"
  note f = fs_ok_files [OF fs]
  from f(6) obtain dir i where rm: "Directory_Remove ?dir name = Inr (True, dir)" "dir_ok dir"
    "length (dtable dir) = 10" "i \<in> in_use ?dir" "in_use dir = in_use ?dir - {i}"
    "\<And>j. j \<noteq> i \<Longrightarrow> dtable dir ! j = dtable ?dir ! j" "key (ename (dtable ?dir ! i)) = key name"
  proof (cases rule: Directory_Remove_cases [of ?dir name])
    case absent
    then show ?thesis using nm by simp
  qed (use f(7) that in simp)
  let ?x = "Entry i" and ?s = "header_sector fs (Entry i)" and ?h = "owned_hdr fs (Entry i)"
  note x = owner_entry [OF rm(4)]
  note ow = fs_ok_owner [OF fs x]
  have "listed ?dir (key name) ?s" using rm(4,7) by (auto simp: listed_def)
  then have fd: "Directory_Find ?dir name = Inr ?s"
    using Directory_Find_listed [OF f(6), of name] nm listed_unique [OF f(6)] by auto
  obtain b0 where b0: "BitMap_new (j_words J) 1024 = Inr b0"
    "Map_FetchFrom (j_bytes J) (fs_disk fs) (freeMapFile fs) b0 = Inr ?b"
    using map_fetch [OF fs] by metis
  have "set (data_of ?h) \<subseteq> used ?b" using ow(6,7) by blast
  then obtain b1 where b1: "Deallocate ?h ?b = Inr b1" "bm_wf b1" "numBits b1 = 1024" "used b1 = used ?b - set (data_of ?h)"
    using Deallocate_ok [OF fs_map_wf [OF fs] ow(1)] by auto
  obtain b2 where b2: "Clear b1 ?s = Inr b2" "bm_wf b2" "numBits b2 = 1024" "used b2 = used b1 - {?s}"
    using Clear_used [OF b1(2) ow(2)] ow(3) b1(3) by auto
  obtain d1 d2 where w: "Map_WriteBack (j_bytes J) (fs_disk fs) (freeMapFile fs) b2 = Inr d1"
    "Directory_WriteBack (j_bytes J) d1 (directoryFile fs) dir = Inr d2" "system_written fs (fs_disk fs) dir b2 d2"
    using write_system(2) [OF f(2-5) system_files_disjoint [OF fs] f(1) rm(2,3) b2(2,3)] by blast
  define fs' where "fs' = fs\<lparr>fs_disk := d2\<rparr>"
  have dm: "fs_dir fs' = dir" "fs_map fs' = b2"
    using fs_dir_written [OF w(3) rm(2,3)] by (simp_all add: fs'_def)
  have ch: "changed_only fs fs' {}" using w(3) by (simp add: changed_only_def fs'_def system_written_def)
  have run: "FileSystem_Remove J fs name = Inr (True, fs')"
    using dir_fetch [OF fs J] fd Header_FetchFrom_ok(1) [OF f(1) ow(2,3)] b0 b1(1) b2(1) rm(1) w(1,2) ow(2)
    by (simp add: FileSystem_Remove_def fs'_def owned_hdr_def)
  have us: "used b2 = used ?b - blocks fs ?x" using b1(4) b2(4) by (auto simp: blocks_def)
  have "used ?b = (\<Union>y\<in>owners fs. blocks fs y)" using fs by (simp add: fs_ok_def)
  then have "used b2 = (\<Union>y\<in>owners fs - {?x}. blocks fs y)"
    unfolding us using fs_ok_disjoint [OF fs x] by blast
  moreover have "owners fs' = (owners fs - {?x}) \<union> {}" using dm(1) rm(5) by (auto simp: owners_def)
  moreover have "header_sector fs' y = header_sector fs y" if "y \<in> owners fs - {?x}" for y
    using that dm(1) rm(6) by (cases y) auto
  ultimately have "fs_ok fs'"
    using dm rm(2) by (intro fs_ok_change [OF fs ch, where X = "owners fs - {?x}" and N = "{}"]) simp_all
  then show ?thesis using that [OF run _ ch rm(4,7)] dm rm(5,6) us by simp
qed

section \<open>Formatting and mounting\<close>

lemma new_directory_ok:
  assumes "junk_ok J"
  shows "dir_ok (Directory_new (j_entry J) 10)" "length (dtable (Directory_new (j_entry J) 10)) = 10"
    "in_use (Directory_new (j_entry J) 10) = {}"
proof -
  show u: "in_use (Directory_new (j_entry J) 10) = {}" by (auto simp: in_use_def Directory_new_def)
  show "length (dtable (Directory_new (j_entry J) 10)) = 10" by (simp add: Directory_new_def)
  show "dir_ok (Directory_new (j_entry J) 10)"
    unfolding dir_ok_def u using assms by (auto simp: Directory_new_def junk_ok_def entry_ok_def)
qed

lemma system_sizes: "divRoundUp 128 128 = 1" "divRoundUp 200 128 = 2"
  by (simp_all add: divRoundUp_def sdiv_nonneg_eq smod_nonneg_eq)

text \<open>The bitmap and the two headers that formatting sets up.\<close>

lemma format_allocates:
  assumes J: "junk_ok J"
  obtains b0 b1 b2 b3 b4 mh dh where "BitMap_new (j_words J) 1024 = Inr b0" "Mark b0 0 = Inr b1" "Mark b1 1 = Inr b2"
    "Allocate (j_hdr J) b2 128 = Inr (True, mh, b3)" "Allocate (j_hdr J) b3 200 = Inr (True, dh, b4)"
    "bm_wf b4" "numBits b4 = 1024" "hdr_ok mh" "hdr_fits mh" "numBytes mh = 128" "hdr_ok dh" "hdr_fits dh"
    "numBytes dh = 200" "used b4 = {0, 1} \<union> set (data_of mh) \<union> set (data_of dh)"
    "set (data_of mh) \<inter> {0, 1} = {}" "set (data_of dh) \<inter> ({0, 1} \<union> set (data_of mh)) = {}" "card (used b4) = 5"
proof -
  obtain b0 where b0: "BitMap_new (j_words J) 1024 = Inr b0" "bm_wf b0" "numBits b0 = 1024" "used b0 = {}"
    using BitMap_new_used [of 1024 "j_words J"] by auto
  obtain b1 where b1: "Mark b0 0 = Inr b1" "bm_wf b1" "numBits b1 = 1024" "used b1 = {0}"
    using Mark_used [OF b0(2), of 0] b0(3,4) by auto
  obtain b2 where b2: "Mark b1 1 = Inr b2" "bm_wf b2" "numBits b2 = 1024" "used b2 = {1, 0}"
    using Mark_used [OF b1(2), of 1] b1(3,4) by auto
  have h0: "hdr_fits (j_hdr J)" "length (dataSectors (j_hdr J)) = 30" using J by (simp_all add: junk_ok_def hdr_fits_def)
  have "(0 :: int) \<le> 128" "divRoundUp 128 128 \<le> numBits b2 - int (card (used b2))"
    "divRoundUp 128 128 \<le> int (length (dataSectors (j_hdr J)))"
    using b2(3,4) h0(2) by (simp_all add: system_sizes)
  from Allocate_ok [OF b2(2) this] obtain s1 mh b3 where a1: "Allocate (j_hdr J) b2 128 = Inr (True, mh, b3)"
    "int (length s1) = divRoundUp 128 128"
    "allocated ((j_hdr J)\<lparr>numBytes := 128, numSectors := divRoundUp 128 128\<rparr>) b2 s1 (mh, b3)" .
  have m: "hdr_ok mh" "data_of mh = s1" "numBytes mh = 128" "hdr_fits mh"
    using allocated_hdr_ok [OF a1(3) b2(3) _ _ a1(2) h0(2)] h0(1) by simp_all
  have b3: "bm_wf b3" "numBits b3 = 1024" "used b3 = {1, 0} \<union> set s1" "distinct s1" "set s1 \<inter> {1, 0} = {}"
    using a1(3) b2(3,4) by (auto simp: allocated_def)
  then have c3: "card (used b3) = 3" using a1(2) by (simp add: card_Un_disjoint Int_commute distinct_card system_sizes)
  have "(0 :: int) \<le> 200" "divRoundUp 200 128 \<le> numBits b3 - int (card (used b3))"
    "divRoundUp 200 128 \<le> int (length (dataSectors (j_hdr J)))"
    using b3(2) c3 h0(2) by (simp_all add: system_sizes)
  from Allocate_ok [OF b3(1) this] obtain s2 dh b4 where a2: "Allocate (j_hdr J) b3 200 = Inr (True, dh, b4)"
    "int (length s2) = divRoundUp 200 128"
    "allocated ((j_hdr J)\<lparr>numBytes := 200, numSectors := divRoundUp 200 128\<rparr>) b3 s2 (dh, b4)" .
  have d: "hdr_ok dh" "data_of dh = s2" "numBytes dh = 200" "hdr_fits dh"
    using allocated_hdr_ok [OF a2(3) b3(2) _ _ a2(2) h0(2)] h0(1) by simp_all
  have b4: "bm_wf b4" "numBits b4 = 1024" "used b4 = used b3 \<union> set s2" "distinct s2" "set s2 \<inter> used b3 = {}"
    using a2(3) b3(2) by (auto simp: allocated_def)
  then have "card (used b4) = 5" using a2(2) c3 by (simp add: card_Un_disjoint Int_commute distinct_card system_sizes)
  moreover have "used b4 = {0, 1} \<union> set (data_of mh) \<union> set (data_of dh)" "set (data_of mh) \<inter> {0, 1} = {}"
    "set (data_of dh) \<inter> ({0, 1} \<union> set (data_of mh)) = {}"
    using b4(3,5) b3(3,5) m(2) d(2) by auto
  ultimately show ?thesis
    using that [OF b0(1) b1(1) b2(1) a1(1) a2(1) b4(1,2) m(1,4,3) d(1,4,3)] by blast
qed

lemma format_ok:
  assumes J: "junk_ok J" and d: "sectors_ok d"
  obtains fs where "FileSystem_new J True d = Inr fs" "fs_ok fs" "in_use (fs_dir fs) = {}" "card (used (fs_map fs)) = 5"
proof -
  obtain b0 b1 b2 b3 b4 mh dh where a: "BitMap_new (j_words J) 1024 = Inr b0" "Mark b0 0 = Inr b1" "Mark b1 1 = Inr b2"
    "Allocate (j_hdr J) b2 128 = Inr (True, mh, b3)" "Allocate (j_hdr J) b3 200 = Inr (True, dh, b4)"
    and b4: "bm_wf b4" "numBits b4 = 1024" and mh: "hdr_ok mh" "hdr_fits mh" "numBytes mh = 128"
    and dh: "hdr_ok dh" "hdr_fits dh" "numBytes dh = 200"
    and us: "used b4 = {0, 1} \<union> set (data_of mh) \<union> set (data_of dh)"
      "set (data_of mh) \<inter> {0, 1} = {}" "set (data_of dh) \<inter> ({0, 1} \<union> set (data_of mh)) = {}" "card (used b4) = 5"
    by (rule format_allocates [OF J])
  let ?dir = "Directory_new (j_entry J) 10"
  let ?d1 = "d[0 := hdr_bytes mh]"
  let ?d2 = "?d1[1 := hdr_bytes dh]"
  have d1: "WriteSector d 0 (hdr_bytes mh) = Inr ?d1" "sectors_ok ?d1"
    using WriteSector_ok [OF d _ _ hdr_roundtrip(2) [OF mh(2)], of 0] by simp_all
  have d2: "WriteSector ?d1 1 (hdr_bytes dh) = Inr ?d2" "sectors_ok ?d2"
    using WriteSector_ok [OF d1(2) _ _ hdr_roundtrip(2) [OF dh(2)], of 1] by simp_all
  have len: "length d = 1024" using d by (simp add: sectors_ok_def)
  have at: "hdr_at ?d2 0 = mh" "hdr_at ?d2 1 = dh"
    using len hdr_roundtrip(1) [OF mh(2)] hdr_roundtrip(1) [OF dh(2)] by (simp_all add: hdr_at_def)
  define fs0 where "fs0 = \<lparr>fs_disk = ?d2, freeMapFile = \<lparr>hdr = mh, seekPosition = 0\<rparr>,
    directoryFile = \<lparr>hdr = dh, seekPosition = 0\<rparr>\<rparr>"
  have "hdr_ok (hdr (freeMapFile fs0))" "numBytes (hdr (freeMapFile fs0)) = 128"
    "hdr_ok (hdr (directoryFile fs0))" "numBytes (hdr (directoryFile fs0)) = 200"
    "set (data_of (hdr (freeMapFile fs0))) \<inter> set (data_of (hdr (directoryFile fs0))) = {}"
    using mh dh us(3) by (auto simp: fs0_def)
  from write_system(2) [OF this d2(2) new_directory_ok(1,2) [OF J] b4, of "j_bytes J"]
  obtain d3 d4 where w: "Map_WriteBack (j_bytes J) ?d2 (freeMapFile fs0) b4 = Inr d3"
    "Directory_WriteBack (j_bytes J) d3 (directoryFile fs0) ?dir = Inr d4" "system_written fs0 ?d2 ?dir b4 d4"
    by blast
  define fs where "fs = fs0\<lparr>fs_disk := d4\<rparr>"
  have dm: "fs_dir fs = ?dir" "fs_map fs = b4"
    using fs_dir_written [OF w(3) new_directory_ok(1,2) [OF J]] by (simp_all add: fs_def)
  have "d4 ! nat s = ?d2 ! nat s" if "s \<in> {0, 1}" for s
  proof -
    have "0 \<le> s" "s \<notin> set (data_of mh)" "s \<notin> set (data_of dh)" using that us(2,3) by auto
    then show ?thesis using w(3) by (simp add: system_written_def fs0_def)
  qed
  then have "d4 ! nat 0 = ?d2 ! nat 0" "d4 ! nat 1 = ?d2 ! nat 1" by blast+
  then have "hdr_at d4 0 = mh" "hdr_at d4 1 = dh" using at by (simp_all add: hdr_at_def)
  then have own: "owned_hdr fs MapFile = mh" "owned_hdr fs DirFile = dh" by (simp_all add: owned_hdr_def fs_def)
  then have bl: "blocks fs MapFile = insert 0 (set (data_of mh))" "blocks fs DirFile = insert 1 (set (data_of dh))"
    by (simp_all add: blocks_def)
  have os: "owners fs = {MapFile, DirFile}" using dm(1) new_directory_ok(3) [OF J] by (simp add: owners_def)
  have "blocks fs MapFile \<inter> blocks fs DirFile = {}" "used b4 = blocks fs MapFile \<union> blocks fs DirFile"
    "0 \<notin> set (data_of mh)" "1 \<notin> set (data_of dh)"
    unfolding bl using us(1-3) by auto
  moreover have "sectors_ok (fs_disk fs)" "hdr (freeMapFile fs) = mh" "hdr (directoryFile fs) = dh"
    using w(3) by (simp_all add: system_written_def fs_def fs0_def)
  ultimately have "fs_ok fs"
    unfolding fs_ok_def os dm using own mh dh new_directory_ok(1) [OF J] by (simp add: Int_commute)
  moreover have "FileSystem_new J True d = Inr fs"
    using a d1(1) d2(1) w(1,2) Header_FetchFrom_ok(2) [OF d2(2), of 0] Header_FetchFrom_ok(2) [OF d2(2), of 1] at
    by (simp add: FileSystem_new_def Header_WriteBack_def fs_def fs0_def Let_def)
  ultimately show ?thesis using that dm us(4) new_directory_ok(3) [OF J] by simp
qed

lemma mount_ok:
  assumes "fs_ok fs"
  shows "FileSystem_new J False (fs_disk fs) = Inr (fs\<lparr>freeMapFile := (freeMapFile fs)\<lparr>seekPosition := 0\<rparr>,
    directoryFile := (directoryFile fs)\<lparr>seekPosition := 0\<rparr>\<rparr>)"
proof -
  have "hdr_at (fs_disk fs) 0 = hdr (freeMapFile fs)" "hdr_at (fs_disk fs) 1 = hdr (directoryFile fs)"
    using fs_system(1,2) [OF assms] by (simp_all add: owned_hdr_def)
  then show ?thesis
    using Header_FetchFrom_ok(2) [OF fs_ok_files(1) [OF assms], of 0]
      Header_FetchFrom_ok(2) [OF fs_ok_files(1) [OF assms], of 1]
    by (simp add: FileSystem_new_def)
qed

section \<open>Writing to an open file\<close>

text \<open>Changing only data sectors of one ordinary file.\<close>

lemma write_one_file:
  assumes fs: "fs_ok fs" and i: "i \<in> in_use (fs_dir fs)" and d: "sectors_ok d'"
    and ch: "\<forall>s. s \<notin> set (data_of (owned_hdr fs (Entry i))) \<longrightarrow> 0 \<le> s \<longrightarrow> d' ! nat s = fs_disk fs ! nat s"
  defines "fs' \<equiv> fs\<lparr>fs_disk := d'\<rparr>"
  shows "fs_ok fs'" "fs_dir fs' = fs_dir fs" "\<And>x. x \<in> owners fs \<Longrightarrow> owned_hdr fs' x = owned_hdr fs x"
    "\<And>x. x \<in> owners fs \<Longrightarrow> x \<noteq> Entry i \<Longrightarrow> file_bytes d' (owned_hdr fs x) = file_bytes (fs_disk fs) (owned_hdr fs x)"
proof -
  let ?D = "set (data_of (owned_hdr fs (Entry i)))"
  note x = owner_entry [OF i]
  note ow = fs_ok_owner [OF fs]
  show other: "file_bytes d' (owned_hdr fs y) = file_bytes (fs_disk fs) (owned_hdr fs y)"
    if "y \<in> owners fs" "y \<noteq> Entry i" for y
  proof (rule file_bytes_cong [OF ow(1) [OF that(1)]], intro ballI ch [rule_format])
    fix s assume s: "s \<in> set (data_of (owned_hdr fs y))"
    then show "s \<notin> ?D" using ow(6) [OF that(1)] ow(6) [OF x] fs_ok_disjoint [OF fs that(1) x that(2)] by blast
    show "0 \<le> s" using s ow(1) [OF that(1)] by (auto simp: hdr_ok_def)
  qed
  show dir: "fs_dir fs' = fs_dir fs"
    using other [OF system_owners(2)] fs_system(2) [OF fs] by (simp add: fs_dir_def fs'_def)
  have map: "fs_map fs' = fs_map fs"
    using other [OF system_owners(1)] fs_system(1) [OF fs] by (simp add: fs_map_def fs'_def)
  have hs: "header_sector fs' y = header_sector fs y" for y using dir by (cases y) simp_all
  show own: "owned_hdr fs' y = owned_hdr fs y" if y: "y \<in> owners fs" for y
  proof -
    have "header_sector fs y \<notin> ?D"
    proof (cases "y = Entry i")
      case True
      then show ?thesis using ow(4) [OF y] by simp
    next
      case False
      then show ?thesis using ow(5) [OF y] ow(6) [OF x] fs_ok_disjoint [OF fs y x] by blast
    qed
    then show ?thesis using ch ow(2) [OF y] hs by (simp add: owned_hdr_def hdr_at_def fs'_def)
  qed
  have os: "owners fs' = owners fs" using dir by (simp add: owners_def)
  have bl: "blocks fs' y = blocks fs y" if "y \<in> owners fs" for y using own [OF that] hs by (simp add: blocks_def)
  show "fs_ok fs'"
    unfolding fs_ok_def os dir map
    using fs d own bl hs by (simp add: fs_ok_def fs'_def)
qed

section \<open>Properties of the file system\<close>

text \<open>
  C34. Formatting a disk, whatever it and the memory held before, gives a consistent and empty file
  system with five sectors in use; and the disk of any consistent file system can be mounted
  again with the same directory, free map and files.
\<close>

theorem format_and_mount:
  assumes "junk_ok J"
  shows "(sectors_ok d \<longrightarrow> (\<exists>fs. FileSystem_new J True d = Inr fs \<and> fs_ok fs \<and> (\<forall>k s bs. \<not> has_file fs k s bs) \<and>
      card (used (fs_map fs)) = 5)) \<and>
    (fs_ok fs1 \<longrightarrow> (\<exists>fs2. FileSystem_new J False (fs_disk fs1) = Inr fs2 \<and> fs_ok fs2 \<and>
      (\<forall>k s bs. has_file fs2 k s bs \<longleftrightarrow> has_file fs1 k s bs) \<and> fs_map fs2 = fs_map fs1))"
proof (intro conjI impI)
  assume "sectors_ok d"
  from format_ok [OF assms this] obtain fs where "FileSystem_new J True d = Inr fs" "fs_ok fs" "in_use (fs_dir fs) = {}"
    "card (used (fs_map fs)) = 5" .
  then show "\<exists>fs. FileSystem_new J True d = Inr fs \<and> fs_ok fs \<and> (\<forall>k s bs. \<not> has_file fs k s bs) \<and>
      card (used (fs_map fs)) = 5"
    by (intro exI [of _ fs]) (simp add: has_file_entry)
next
  assume fs1: "fs_ok fs1"
  define fs2 where "fs2 = fs1\<lparr>freeMapFile := (freeMapFile fs1)\<lparr>seekPosition := 0\<rparr>,
    directoryFile := (directoryFile fs1)\<lparr>seekPosition := 0\<rparr>\<rparr>"
  have e: "fs_dir fs2 = fs_dir fs1" "fs_map fs2 = fs_map fs1" "fs_disk fs2 = fs_disk fs1"
    "hdr (freeMapFile fs2) = hdr (freeMapFile fs1)" "hdr (directoryFile fs2) = hdr (directoryFile fs1)"
    by (simp_all add: fs2_def fs_dir_def fs_map_def)
  have h: "header_sector fs2 x = header_sector fs1 x" for x using e(1) by (cases x) simp_all
  then have "owned_hdr fs2 = owned_hdr fs1" "blocks fs2 = blocks fs1" "owners fs2 = owners fs1"
    using e by (simp_all add: owned_hdr_def blocks_def owners_def fun_eq_iff)
  then have "fs_ok fs2" using fs1 e h by (simp add: fs_ok_def)
  then show "\<exists>fs2. FileSystem_new J False (fs_disk fs1) = Inr fs2 \<and> fs_ok fs2 \<and>
      (\<forall>k s bs. has_file fs2 k s bs \<longleftrightarrow> has_file fs1 k s bs) \<and> fs_map fs2 = fs_map fs1"
    using mount_ok [OF fs1, of J] e by (intro exI [of _ fs2]) (simp add: fs2_def [symmetric] has_file_def)
qed

text \<open>
  C31. \<open>Create\<close> with a legal size returns \<open>TRUE\<close> exactly when the name is new, a directory entry is
  free and enough sectors are; otherwise nothing changes. After a success the file system is
  consistent, the new file exists with that size, it took exactly one sector for its header and
  those for its data, and every other file keeps its place and contents.
\<close>

theorem Create_correct:
  assumes "fs_ok fs" "junk_ok J" "0 \<le> sz" "sz \<le> MaxFileSize"
  shows "\<exists>ok fs'. FileSystem_Create J fs name sz = Inr (ok, fs') \<and> fs_ok fs' \<and>
    (ok \<longleftrightarrow> \<not> named (fs_dir fs) (key name) \<and> in_use (fs_dir fs) \<noteq> {0..<10} \<and>
       divRoundUp sz SectorSize + 1 \<le> NumSectors - int (card (used (fs_map fs)))) \<and>
    (\<not> ok \<longrightarrow> fs' = fs) \<and>
    (ok \<longrightarrow> (\<exists>s bs. has_file fs' (key name) s bs \<and> int (length bs) = sz) \<and>
       int (card (used (fs_map fs'))) = int (card (used (fs_map fs))) + 1 + divRoundUp sz SectorSize \<and>
       (\<forall>k s bs. k \<noteq> key name \<longrightarrow> (has_file fs' k s bs \<longleftrightarrow> has_file fs k s bs)))"
proof (cases "\<not> named (fs_dir fs) (key name) \<and> in_use (fs_dir fs) \<noteq> {0..<10} \<and>
       divRoundUp sz 128 + 1 \<le> 1024 - int (card (used (fs_map fs)))")
  case False
  then have "FileSystem_Create J fs name sz = Inr (False, fs)"
    by (intro Create_refused [OF assms(1-3)]) linarith
  then show ?thesis using False assms(1) by (intro exI [of _ False] exI [of _ fs]) simp
next
  case True
  then obtain fs' s h ss i where c: "FileSystem_Create J fs name sz = Inr (True, fs')" "fs_ok fs'"
    "changed_only fs fs' {s}" "s \<notin> used (fs_map fs)" "i \<notin> in_use (fs_dir fs)"
    "in_use (fs_dir fs') = insert i (in_use (fs_dir fs))"
    "\<And>j. j \<noteq> i \<Longrightarrow> dtable (fs_dir fs') ! j = dtable (fs_dir fs) ! j"
    "key (ename (dtable (fs_dir fs') ! i)) = key name" "header_sector fs' (Entry i) = s"
    "numBytes (owned_hdr fs' (Entry i)) = sz"
    "used (fs_map fs') = insert s (used (fs_map fs)) \<union> set ss" "int (length ss) = divRoundUp sz 128"
    "distinct ss" "set ss \<inter> insert s (used (fs_map fs)) = {}"
    using Create_created [OF assms] by metis
  have "card (used (fs_map fs')) = Suc (card (used (fs_map fs))) + length ss"
    unfolding c(11) using c(4,13,14) by (subst card_Un_disjoint) (auto simp: distinct_card)
  moreover have "has_file fs' (key name) s (file_bytes (fs_disk fs') (owned_hdr fs' (Entry i)))"
    unfolding has_file_entry c(6) using c(8,9) by blast
  then have "\<exists>s bs. has_file fs' (key name) s bs \<and> int (length bs) = sz"
    using c(10) assms(3) by (metis length_file_bytes int_nat_eq)
  moreover have "has_file fs' k t bs \<longleftrightarrow> has_file fs k t bs" if "k \<noteq> key name" for k t bs
  proof -
    have "(\<exists>j\<in>in_use (fs_dir fs). key (ename (dtable (fs_dir fs') ! j)) = k \<and> header_sector fs' (Entry j) = t \<and>
        bs = file_bytes (fs_disk fs') (owned_hdr fs' (Entry j))) \<longleftrightarrow> has_file fs k t bs"
      unfolding has_file_entry
    proof (rule bex_cong [OF refl])
      fix j assume j: "j \<in> in_use (fs_dir fs)"
      then have "j \<noteq> i" using c(5) by blast
      then have "dtable (fs_dir fs') ! j = dtable (fs_dir fs) ! j" by (rule c(7))
      moreover from this have "header_sector fs' (Entry j) = header_sector fs (Entry j) \<and>
          file_bytes (fs_disk fs') (owned_hdr fs' (Entry j)) = file_bytes (fs_disk fs) (owned_hdr fs (Entry j))"
        using c(4) by (intro has_file_kept [OF assms(1) c(3) _ j]) simp_all
      ultimately show "(key (ename (dtable (fs_dir fs') ! j)) = k \<and> header_sector fs' (Entry j) = t \<and>
          bs = file_bytes (fs_disk fs') (owned_hdr fs' (Entry j))) =
        (key (ename (dtable (fs_dir fs) ! j)) = k \<and> header_sector fs (Entry j) = t \<and>
          bs = file_bytes (fs_disk fs) (owned_hdr fs (Entry j)))" by simp
    qed
    then show ?thesis unfolding has_file_entry [of fs'] c(6) using c(8) that by auto
  qed
  ultimately show ?thesis
    using c(1,2,12) True by (intro exI [of _ True] exI [of _ fs']) simp
qed

text \<open>
  C32. \<open>Remove\<close> returns \<open>TRUE\<close> exactly when the name is in the directory; then the file is gone, its
  header sector and its data sectors are free again and no other sector is, the file system is
  consistent and every other file keeps its place and contents. Otherwise nothing changes.
\<close>

theorem Remove_correct:
  assumes "fs_ok fs" "junk_ok J"
  shows "\<exists>ok fs'. FileSystem_Remove J fs name = Inr (ok, fs') \<and> fs_ok fs' \<and>
    (ok \<longleftrightarrow> named (fs_dir fs) (key name)) \<and> (\<not> ok \<longrightarrow> fs' = fs) \<and> \<not> named (fs_dir fs') (key name) \<and>
    (ok \<longrightarrow> (\<forall>s. listed (fs_dir fs) (key name) s \<longrightarrow>
       used (fs_map fs') = used (fs_map fs) - insert s (set (data_of (hdr_at (fs_disk fs) s))))) \<and>
    (\<forall>k s bs. k \<noteq> key name \<longrightarrow> (has_file fs' k s bs \<longleftrightarrow> has_file fs k s bs))"
proof (cases "named (fs_dir fs) (key name)")
  case False
  then show ?thesis
    using Remove_absent [OF assms] assms(1) by (intro exI [of _ False] exI [of _ fs]) simp
next
  case True
  obtain fs' i where r: "FileSystem_Remove J fs name = Inr (True, fs')" "fs_ok fs'" "changed_only fs fs' {}"
    "i \<in> in_use (fs_dir fs)" "key (ename (dtable (fs_dir fs) ! i)) = key name"
    "in_use (fs_dir fs') = in_use (fs_dir fs) - {i}"
    "\<And>j. j \<noteq> i \<Longrightarrow> dtable (fs_dir fs') ! j = dtable (fs_dir fs) ! j"
    "used (fs_map fs') = used (fs_map fs) - blocks fs (Entry i)"
    using Remove_removed [OF assms True] by blast
  note dir = fs_ok_files(6) [OF assms(1)]
  have inj: "inj_on (\<lambda>i. key (ename (dtable (fs_dir fs) ! i))) (in_use (fs_dir fs))" using dir by (simp add: dir_ok_def)
  have ne: "j \<noteq> i \<longleftrightarrow> key (ename (dtable (fs_dir fs) ! j)) \<noteq> key name" if "j \<in> in_use (fs_dir fs)" for j
    using inj_onD [OF inj, of i j] r(4,5) that by auto
  have files: "has_file fs' k t bs \<longleftrightarrow> (\<exists>j\<in>in_use (fs_dir fs) - {i}. key (ename (dtable (fs_dir fs) ! j)) = k \<and>
      header_sector fs (Entry j) = t \<and> bs = file_bytes (fs_disk fs) (owned_hdr fs (Entry j)))" for k t bs
    unfolding has_file_entry r(6)
  proof (rule bex_cong [OF refl])
    fix j assume j: "j \<in> in_use (fs_dir fs) - {i}"
    then have e: "dtable (fs_dir fs') ! j = dtable (fs_dir fs) ! j" by (intro r(7)) blast
    from j have "header_sector fs' (Entry j) = header_sector fs (Entry j) \<and>
        file_bytes (fs_disk fs') (owned_hdr fs' (Entry j)) = file_bytes (fs_disk fs) (owned_hdr fs (Entry j))"
      using e by (intro has_file_kept [OF assms(1) r(3)]) simp_all
    then show "(key (ename (dtable (fs_dir fs') ! j)) = k \<and> header_sector fs' (Entry j) = t \<and>
          bs = file_bytes (fs_disk fs') (owned_hdr fs' (Entry j))) =
        (key (ename (dtable (fs_dir fs) ! j)) = k \<and> header_sector fs (Entry j) = t \<and>
          bs = file_bytes (fs_disk fs) (owned_hdr fs (Entry j)))" using e by simp
  qed
  have other: "in_use (fs_dir fs) - {i} = {j \<in> in_use (fs_dir fs). key (ename (dtable (fs_dir fs) ! j)) \<noteq> key name}"
    using ne by blast
  have "has_file fs' k t bs \<longleftrightarrow> has_file fs k t bs" if "k \<noteq> key name" for k t bs
    unfolding files other unfolding has_file_entry using that by blast
  moreover have "\<not> named (fs_dir fs') (key name)"
    using files [of "key name"] other by (auto simp: named_def has_file_def)
  moreover have "blocks fs (Entry i) = insert s (set (data_of (hdr_at (fs_disk fs) s)))"
    if "listed (fs_dir fs) (key name) s" for s
  proof -
    have "listed (fs_dir fs) (key name) (header_sector fs (Entry i))" using r(4,5) by (auto simp: listed_def)
    then show ?thesis using listed_unique [OF dir that] by (simp add: blocks_def owned_hdr_def)
  qed
  ultimately show ?thesis using r(1,2,8) True by (intro exI [of _ True] exI [of _ fs']) simp
qed

text \<open>
  C33. \<open>Open\<close> returns \<open>NULL\<close> for a name that is not in the directory and otherwise the file with its
  current contents; a write through it (at any position, of any length) changes the bytes of this
  file as \<open>WriteAt\<close> promises and leaves the file system consistent, the directory the same and
  every other file unchanged.
\<close>

theorem Open_write_isolated:
  assumes "fs_ok fs" "junk_ok J" "0 \<le> position" "position + n < 2 ^ 31" "n \<le> int (length from)"
  shows "if named (fs_dir fs) (key name) then
      \<exists>f s bs m d'. FileSystem_Open J fs name = Inr (Some f) \<and> has_file fs (key name) s bs \<and>
        WriteAt junk (fs_disk fs) f from n position = Inr (m, d') \<and> fs_ok (fs\<lparr>fs_disk := d'\<rparr>) \<and>
        has_file (fs\<lparr>fs_disk := d'\<rparr>) (key name) s
          (take (nat position) bs @ take (nat m) from @ drop (nat position + nat m) bs) \<and>
        (\<forall>k t cs. k \<noteq> key name \<longrightarrow> (has_file (fs\<lparr>fs_disk := d'\<rparr>) k t cs \<longleftrightarrow> has_file fs k t cs))
    else FileSystem_Open J fs name = Inr None"
proof (cases "named (fs_dir fs) (key name)")
  case False
  then show ?thesis
    using dir_fetch [OF assms(1,2)] Directory_Find_listed [OF fs_ok_files(6) [OF assms(1)], of name]
    by (simp add: FileSystem_Open_def)
next
  case True
  note ff = fs_ok_files [OF assms(1)]
  obtain i where i: "i \<in> in_use (fs_dir fs)" "key (ename (dtable (fs_dir fs) ! i)) = key name"
    using True by (auto simp: named_def listed_def)
  let ?s = "header_sector fs (Entry i)" and ?h = "owned_hdr fs (Entry i)"
  note ow = fs_ok_owner [OF assms(1) owner_entry [OF i(1)]]
  have "listed (fs_dir fs) (key name) ?s" using i by (auto simp: listed_def)
  then have "Directory_Find (fs_dir fs) name = Inr ?s"
    using Directory_Find_listed [OF ff(6), of name] True listed_unique [OF ff(6)] by auto
  then have op: "FileSystem_Open J fs name = Inr (Some \<lparr>hdr = ?h, seekPosition = 0\<rparr>)"
    using dir_fetch [OF assms(1,2)] ow(2) Header_FetchFrom_ok(2) [OF ff(1) ow(2,3)]
    by (simp add: FileSystem_Open_def owned_hdr_def)
  let ?f = "\<lparr>hdr = ?h, seekPosition = 0\<rparr>"
  have "hdr_ok (hdr ?f)" using ow(1) by simp
  from WriteAt_spec [OF this ff(1) assms(3-5), where junk = junk, unfolded OpenFile.select_convs]
  obtain m d' where w: "WriteAt junk (fs_disk fs) ?f from n position = Inr (m, d')" "sectors_ok d'"
    "\<And>s. s \<notin> set (data_of ?h) \<Longrightarrow> 0 \<le> s \<Longrightarrow> d' ! nat s = fs_disk fs ! nat s"
    "file_bytes d' ?h = take (nat position) (file_bytes (fs_disk fs) ?h) @ take (nat m) from @
       drop (nat position + nat m) (file_bytes (fs_disk fs) ?h)"
    by metis
  let ?fs = "fs\<lparr>fs_disk := d'\<rparr>"
  have "\<forall>s. s \<notin> set (data_of ?h) \<longrightarrow> 0 \<le> s \<longrightarrow> d' ! nat s = fs_disk fs ! nat s" using w(3) by blast
  note wo = write_one_file [OF assms(1) i(1) w(2) this]
  have hs: "header_sector ?fs x = header_sector fs x" for x using wo(2) by (cases x) simp_all
  have "has_file fs (key name) ?s (file_bytes (fs_disk fs) ?h)" unfolding has_file_entry using i by blast
  moreover have "has_file ?fs (key name) ?s (file_bytes d' ?h)"
    unfolding has_file_entry wo(2) hs using i wo(3) [OF owner_entry [OF i(1)]] by (auto intro: bexI [of _ i])
  moreover have "has_file ?fs k t cs \<longleftrightarrow> has_file fs k t cs" if "k \<noteq> key name" for k t cs
    unfolding has_file_entry wo(2) hs
  proof (rule bex_cong [OF refl])
    fix j assume j: "j \<in> in_use (fs_dir fs)"
    have "file_bytes d' (owned_hdr fs (Entry j)) = file_bytes (fs_disk fs) (owned_hdr fs (Entry j))"
      if "key (ename (dtable (fs_dir fs) ! j)) = k"
    proof (rule wo(4) [OF owner_entry [OF j]])
      show "Entry j \<noteq> Entry i" using \<open>k \<noteq> key name\<close> that i(2) by auto
    qed
    then show "(key (ename (dtable (fs_dir fs) ! j)) = k \<and> header_sector fs (Entry j) = t \<and>
        cs = file_bytes (fs_disk ?fs) (owned_hdr ?fs (Entry j))) =
      (key (ename (dtable (fs_dir fs) ! j)) = k \<and> header_sector fs (Entry j) = t \<and>
        cs = file_bytes (fs_disk fs) (owned_hdr fs (Entry j)))"
      using wo(3) [OF owner_entry [OF j]] by auto
  qed
  ultimately show ?thesis
    unfolding if_P [OF True] using op w(1,4) wo(1)
    by (intro exI [of _ ?f] exI [of _ ?s] exI [of _ "file_bytes (fs_disk fs) ?h"] exI [of _ m] exI [of _ d']) simp
qed

section \<open>The properties on a freshly formatted disk\<close>

definition junk0 :: heap_junk where
  "junk0 = \<lparr>j_bytes = (\<lambda>_. 255), j_words = (\<lambda>_. 1), j_hdr = small_hdr,
     j_entry = (\<lambda>_. \<lparr>inUse = True, esector = 77, ename = replicate 10 65, epad = replicate 5 1\<rparr>)\<rparr>"

lemma junk0_ok: "junk_ok junk0"
  using small_hdr_ok by (simp add: junk_ok_def junk0_def entry_ok_def int32_def)

lemma formatted: 
  obtains fs where "FileSystem_new junk0 True blank_sectors = Inr fs" "fs_ok fs" "in_use (fs_dir fs) = {}"
    "card (used (fs_map fs)) = 5"
  by (rule format_ok [OF junk0_ok blank_sectors_ok])

theorem format_and_mount_witness: "\<exists>fs. FileSystem_new junk0 True blank_sectors = Inr fs \<and> fs_ok fs"
  using format_and_mount [OF junk0_ok, of blank_sectors] blank_sectors_ok by blast

theorem Create_correct_witness:
  "\<exists>fs fs' s bs. FileSystem_new junk0 True blank_sectors = Inr fs \<and>
     FileSystem_Create junk0 fs [97, 46, 99] 300 = Inr (True, fs') \<and> fs_ok fs' \<and>
     has_file fs' [97, 46, 99] s bs \<and> length bs = 300"
proof -
  obtain fs where fs: "FileSystem_new junk0 True blank_sectors = Inr fs" "fs_ok fs" "in_use (fs_dir fs) = {}"
    "card (used (fs_map fs)) = 5" by (rule formatted)
  have "divRoundUp 300 128 = 3" by (simp add: divRoundUp_def sdiv_nonneg_eq smod_nonneg_eq)
  moreover have "\<not> named (fs_dir fs) (key [97, 46, 99])" using fs(3) by (simp add: named_def listed_def)
  moreover have "(0 :: int) \<le> 300" "(300 :: int) \<le> 3840" by simp_all
  moreover have "key [97, 46, 99] = [97, 46, 99]" by (simp add: key_def)
  ultimately show ?thesis
    using Create_correct [OF fs(2) junk0_ok, of 300 "[97, 46, 99]"] fs(1,3,4) by auto
qed

lemma with_file:
  obtains fs0 fs where "FileSystem_new junk0 True blank_sectors = Inr fs0"
    "FileSystem_Create junk0 fs0 [97] 300 = Inr (True, fs)" "fs_ok fs" "named (fs_dir fs) (key [97])"
proof -
  obtain fs0 where fs: "FileSystem_new junk0 True blank_sectors = Inr fs0" "fs_ok fs0" "in_use (fs_dir fs0) = {}"
    "card (used (fs_map fs0)) = 5" by (rule formatted)
  have "divRoundUp 300 128 = 3" by (simp add: divRoundUp_def sdiv_nonneg_eq smod_nonneg_eq)
  then have "divRoundUp 300 128 + 1 \<le> 1024 - int (card (used (fs_map fs0)))" using fs(4) by simp
  moreover have "\<not> named (fs_dir fs0) (key [97])" "in_use (fs_dir fs0) \<noteq> {0..<10}"
    using fs(3) by (simp_all add: named_def listed_def)
  moreover have "(0 :: int) \<le> 300" "(300 :: int) \<le> 3840" by simp_all
  ultimately obtain fs' i where "FileSystem_Create junk0 fs0 [97] 300 = Inr (True, fs')" "fs_ok fs'"
    "in_use (fs_dir fs') = insert i (in_use (fs_dir fs0))" "key (ename (dtable (fs_dir fs') ! i)) = key [97]"
    using Create_created [OF fs(2) junk0_ok, of 300 "[97]"] by metis
  moreover from this have "named (fs_dir fs') (key [97])" unfolding named_def listed_def by blast
  ultimately show ?thesis using that fs(1) by blast
qed

theorem Remove_correct_witness:
  "\<exists>fs0 fs fs'. FileSystem_new junk0 True blank_sectors = Inr fs0 \<and>
     FileSystem_Create junk0 fs0 [97] 300 = Inr (True, fs) \<and> FileSystem_Remove junk0 fs [97] = Inr (True, fs') \<and> fs_ok fs'"
proof -
  obtain fs0 fs where fs: "FileSystem_new junk0 True blank_sectors = Inr fs0"
    "FileSystem_Create junk0 fs0 [97] 300 = Inr (True, fs)" "fs_ok fs" "named (fs_dir fs) (key [97])"
    by (rule with_file)
  then show ?thesis using Remove_correct [OF fs(3) junk0_ok, of "[97]"] by auto
qed

theorem Open_write_isolated_witness:
  "\<exists>fs0 fs f m d'. FileSystem_new junk0 True blank_sectors = Inr fs0 \<and>
     FileSystem_Create junk0 fs0 [97] 300 = Inr (True, fs) \<and> FileSystem_Open junk0 fs [97] = Inr (Some f) \<and>
     WriteAt (\<lambda>_. 0) (fs_disk fs) f [65, 66] 2 127 = Inr (m, d') \<and> fs_ok (fs\<lparr>fs_disk := d'\<rparr>)"
proof -
  obtain fs0 fs where fs: "FileSystem_new junk0 True blank_sectors = Inr fs0"
    "FileSystem_Create junk0 fs0 [97] 300 = Inr (True, fs)" "fs_ok fs" "named (fs_dir fs) (key [97])"
    by (rule with_file)
  have "(0 :: int) \<le> 127" "(127 :: int) + 2 < 2 ^ 31" "(2 :: int) \<le> int (length [65, 66 :: byte])" by simp_all
  from Open_write_isolated [OF fs(3) junk0_ok this, of "[97]" "\<lambda>_. 0", unfolded if_P [OF fs(4)]]
  show ?thesis using fs(1,2) by blast
qed

end
