(* ===== verification/Nachos_VM.thy ===== *)
theory Nachos_VM
  imports Nachos_Machine Nachos_Table
begin

text \<open>
  Virtual memory: \<^verbatim>\<open>userprog/addrspace.cc\<close>, the page-fault half of
  \<^verbatim>\<open>userprog/exception.cc\<close> and the globals of \<^verbatim>\<open>threads/system.cc\<close> they share: the inverted
  page table \<open>ipt\<close>, the frame bitmap \<open>bm\<close>, the swap file with its bitmap \<open>sfBM\<close>, the FIFO queue of
  frames and the round-robin counter of the TLB.

  Pointers to processes and address spaces are numbers, resolved by the heaps \<open>procs\<close> and \<open>spaces\<close>,
  so that an eviction that hits the faulting process's own page table is an alias in the model as
  it is in the code. Storage that \<^verbatim>\<open>new\<close> leaves uninitialised is a parameter. The loops
  \<^verbatim>\<open>for (i = 0; i <= TLBSize; i++)\<close> touch one entry past the TLB: that storage is the field
  \<open>past_tlb\<close>, and \<open>None\<close> means that touching it is an error. \<open>SetLevel(IntOff)\<close> and the restoring
  call around a few statements do not appear, as nothing in between can be interrupted.
  \<open>rand()\<close> is the argument \<open>rnd\<close>.
\<close>

section \<open>State\<close>

abbreviation UserStackPages :: "32 word" where "UserStackPages \<equiv> 8"

record IPT =
  ipt_virtualPage :: int
  ipt_physicalPage :: int
  ipt_valid :: bool
  ipt_readOnly :: bool
  ipt_use :: bool
  ipt_dirty :: bool
  ipt_pid :: int

record PageEntry =
  pe_virtualPage :: int
  pe_physicalPage :: int
  pe_valid :: bool
  pe_readOnly :: bool
  pe_use :: bool
  pe_dirty :: bool
  pe_pid :: int
  pe_status :: int
  pe_diskLocation :: "32 word"

text \<open>An address space; \<open>as_exec\<close> is the contents of the executable, which this code only reads.\<close>

record AddrSpace =
  as_exec :: "8 word list"
  fileTable :: "nat Table"
  as_pageTable :: "PageEntry list"
  numPages :: "32 word"
  firstThreadStartVPN :: int
  codeandinitNumPages :: "32 word"
  codeandinitDataSize :: "32 word"

record Process =
  PName :: "8 word list"
  ProcessID :: int
  addrSpace :: nat
  MainThread :: "nat option"
  ChildThread :: "nat Table"
  ChildThreadCounter :: int

datatype policy = FIFO | RAND

record VM =
  machine :: Machine
  past_tlb :: "TranslationEntry option"
  ipt :: "IPT list"
  bm :: BitMap
  sfBM :: BitMap
  swapFile :: "8 word list"
  fifoQueue :: "int list"
  TLBCounter :: int
  ChoiceOfReplacementPolicy :: policy
  ProcessTable :: "nat Table"
  procs :: "nat \<rightharpoonup> Process"
  spaces :: "nat \<rightharpoonup> AddrSpace"
  IPTLock :: "nat option"
  currentThread :: nat
  parentProcess :: nat
  thread_space :: nat

definition deref :: "(nat \<rightharpoonup> 'a) \<Rightarrow> nat \<Rightarrow> 'a res" where
  "deref heap p = (case heap p of Some x \<Rightarrow> Inr x | None \<Rightarrow> Inl NullDereference)"

section \<open>Memory, files and the lock\<close>

text \<open>A UNIX file behind the stub \<open>OpenFile\<close>: a gap left by a write past the end reads as zeros.\<close>

definition Lseek :: "int \<Rightarrow> unit res" where
  "Lseek offset = ASSERT (offset \<ge> 0)"

definition stub_ReadAt :: "8 word list \<Rightarrow> nat \<Rightarrow> int \<Rightarrow> 8 word list res" where
  "stub_ReadAt file numBytes position =
     bindE (Lseek position) (\<lambda>_. Inr (take numBytes (drop (nat position) file)))"

definition stub_WriteAt :: "8 word list \<Rightarrow> 8 word list \<Rightarrow> int \<Rightarrow> 8 word list res" where
  "stub_WriteAt file bytes position =
     bindE (Lseek position) (\<lambda>_.
       let p = nat position in
       Inr (take p file @ replicate (p - length file) 0 @ bytes @ drop (p + length bytes) file))"

definition frame_bytes :: "(nat \<Rightarrow> 8 word) \<Rightarrow> int \<Rightarrow> 8 word list" where
  "frame_bytes mem p = map (\<lambda>i. mem (nat p * 128 + i)) [0..<128]"

text \<open>Bytes stored from an address on, as \<^verbatim>\<open>bzero\<close> and the reads of a file do.\<close>

definition store_bytes :: "int \<Rightarrow> 8 word list \<Rightarrow> VM \<Rightarrow> VM res" where
  "store_bytes a bs vm =
     (if 0 \<le> a \<and> a + int (length bs) \<le> MemorySize then
        Inr (vm\<lparr>machine := (machine vm)\<lparr>mainMemory :=
          (\<lambda>i. if nat a \<le> i \<and> i < nat a + length bs then bs ! (i - nat a) else mainMemory (machine vm) i)\<rparr>\<rparr>)
      else Inl OutOfRange)"

definition load_frame :: "int \<Rightarrow> VM \<Rightarrow> 8 word list res" where
  "load_frame p vm =
     (if 0 \<le> p \<and> p * PageSize + PageSize \<le> MemorySize
      then Inr (frame_bytes (mainMemory (machine vm)) p) else Inl OutOfRange)"

definition bzero_frame :: "int \<Rightarrow> VM \<Rightarrow> VM res" where
  "bzero_frame p vm = store_bytes (p * PageSize) (replicate 128 0) vm"

text \<open>
  The owner of \<open>IPTLock\<close>. A thread that would go to sleep on it is the result \<open>WouldBlock\<close>, so that
  nobody waits when it is released; the queue of a lock is in \<open>Nachos_Synch\<close>.
\<close>

definition IPTLock_Acquire :: "VM \<Rightarrow> VM res" where
  "IPTLock_Acquire vm =
     (if IPTLock vm = Some (currentThread vm) then Inr vm
      else if IPTLock vm = None then Inr (vm\<lparr>IPTLock := Some (currentThread vm)\<rparr>)
      else Inl WouldBlock)"

definition IPTLock_Release :: "VM \<Rightarrow> VM" where
  "IPTLock_Release vm = (if IPTLock vm = Some (currentThread vm) then vm\<lparr>IPTLock := None\<rparr> else vm)"

section \<open>The executable's header\<close>

record Segment =
  virtualAddr :: "32 word"
  inFileAddr :: "32 word"
  seg_size :: "32 word"

record NoffHeader =
  noffMagic :: "32 word"
  seg_code :: Segment
  initData :: Segment
  uninitData :: Segment

abbreviation NOFFMAGIC :: "32 word" where "NOFFMAGIC \<equiv> 0xbadfad"

definition swap_segment :: "bool \<Rightarrow> Segment \<Rightarrow> Segment" where
  "swap_segment big s =
     \<lparr>virtualAddr = WordToHost big (virtualAddr s), inFileAddr = WordToHost big (inFileAddr s),
      seg_size = WordToHost big (seg_size s)\<rparr>"

definition SwapHeader :: "bool \<Rightarrow> NoffHeader \<Rightarrow> NoffHeader" where
  "SwapHeader big h =
     \<lparr>noffMagic = WordToHost big (noffMagic h), seg_code = swap_segment big (seg_code h),
      initData = swap_segment big (initData h), uninitData = swap_segment big (uninitData h)\<rparr>"

text \<open>
  The 40 bytes of the header as the host reads them into the structure; the bytes that a shorter
  file does not supply keep what was on the stack.
\<close>

definition host_segment :: "bool \<Rightarrow> (nat \<Rightarrow> 8 word) \<Rightarrow> nat \<Rightarrow> Segment" where
  "host_segment big b a =
     \<lparr>virtualAddr = host_load4 big b a, inFileAddr = host_load4 big b (a + 4), seg_size = host_load4 big b (a + 8)\<rparr>"

definition host_header :: "bool \<Rightarrow> (nat \<Rightarrow> 8 word) \<Rightarrow> NoffHeader" where
  "host_header big b =
     \<lparr>noffMagic = host_load4 big b 0, seg_code = host_segment big b 4,
      initData = host_segment big b 16, uninitData = host_segment big b 28\<rparr>"

section \<open>Address spaces\<close>

text \<open>\<open>divRoundUp\<close> on unsigned operands.\<close>

definition udivRoundUp :: "32 word \<Rightarrow> 32 word \<Rightarrow> 32 word" where
  "udivRoundUp n s = n div s + (if n mod s > 0 then 1 else 0)"

definition blank_page :: "PageEntry \<Rightarrow> int \<Rightarrow> int \<Rightarrow> PageEntry" where
  "blank_page garbage i st =
     garbage\<lparr>pe_virtualPage := i, pe_valid := False, pe_use := False, pe_dirty := False,
       pe_readOnly := False, pe_status := st\<rparr>"

definition AddrSpace_new ::
    "bool \<Rightarrow> (nat \<Rightarrow> 8 word) \<Rightarrow> (nat \<Rightarrow> 32 word) \<Rightarrow> (nat \<Rightarrow> nat option) \<Rightarrow> (nat \<Rightarrow> PageEntry) \<Rightarrow>
     8 word list \<Rightarrow> AddrSpace res" where
  "AddrSpace_new big stack gbits gfiles gpages executable =
     bindE (Table_new gbits gfiles 256) (\<lambda>t0.
     bindE (Table_Put t0 None) (\<lambda>(_, t1).
     bindE (Table_Put t1 None) (\<lambda>(_, t2).
     bindE (stub_ReadAt executable 40 0) (\<lambda>bytes.
       let raw = host_header big (\<lambda>i. if i < length bytes then bytes ! i else stack i);
           noffH = (if noffMagic raw \<noteq> NOFFMAGIC \<and> WordToHost big (noffMagic raw) = NOFFMAGIC
                    then SwapHeader big raw else raw)
       in bindE (ASSERT (noffMagic noffH = NOFFMAGIC)) (\<lambda>_.
         let sz = seg_size (seg_code noffH) + seg_size (initData noffH) + seg_size (uninitData noffH);
             dataSize = seg_size (seg_code noffH) + seg_size (initData noffH);
             dataPages = udivRoundUp dataSize 128;
             pages = udivRoundUp sz 128 + UserStackPages
         in if dataPages > pages then Inl OutOfRange
            else Inr \<lparr>as_exec = executable, fileTable = t2,
              as_pageTable = map (\<lambda>i. if i < unat dataPages
                 then (blank_page (gpages i) (int i) 0)\<lparr>pe_diskLocation :=
                        inFileAddr (seg_code noffH) + of_nat i * 128\<rparr>
                 else blank_page (gpages i) (int i) 3) [0..<unat pages],
              numPages = pages, firstThreadStartVPN = sint (udivRoundUp sz 128),
              codeandinitNumPages = dataPages, codeandinitDataSize = dataSize\<rparr>)))))"

definition InitRegisters :: "nat \<Rightarrow> VM \<Rightarrow> VM res" where
  "InitRegisters this vm =
     bindE (deref (spaces vm) this) (\<lambda>as.
     bindE (foldE (\<lambda>i m. WriteRegister m i 0) [0..int NumTotalRegs - 1] (machine vm)) (\<lambda>m1.
     bindE (WriteRegister m1 (int PCReg) 0) (\<lambda>m2.
     bindE (WriteRegister m2 (int NextPCReg) 4) (\<lambda>m3.
     bindE (WriteRegister m3 (int StackReg) (numPages as * 128 - 16)) (\<lambda>m4.
       Inr (vm\<lparr>machine := m4\<rparr>))))))"

definition SaveState :: "VM \<Rightarrow> VM" where
  "SaveState vm = vm"

text \<open>One iteration of the loops over the TLB.\<close>

definition touch_tlb :: "(TranslationEntry \<Rightarrow> TranslationEntry) \<Rightarrow> int \<Rightarrow> VM \<Rightarrow> VM res" where
  "touch_tlb f i vm =
     (case tlb (machine vm) of
        None \<Rightarrow> Inl NullDereference
      | Some t \<Rightarrow>
          if i < int (length t) then
            Inr (vm\<lparr>machine := (machine vm)\<lparr>tlb := Some (t[nat i := f (t ! nat i)])\<rparr>\<rparr>)
          else (case past_tlb vm of None \<Rightarrow> Inl OutOfRange | Some e \<Rightarrow> Inr (vm\<lparr>past_tlb := Some (f e)\<rparr>)))"

definition RestoreState :: "VM \<Rightarrow> VM res" where
  "RestoreState vm = foldE (touch_tlb (\<lambda>e. e\<lparr>valid := False\<rparr>)) [0..TLBSize] vm"

definition IncrementStackSpace :: "(nat \<Rightarrow> PageEntry) \<Rightarrow> nat \<Rightarrow> VM \<Rightarrow> (32 word \<times> VM) res" where
  "IncrementStackSpace gpages this vm =
     bindE (deref (spaces vm) this) (\<lambda>as.
       let n = numPages as + 8;
           old = as_pageTable as;
           pt = map (\<lambda>i. if i < unat (n - 8) then (old ! i)\<lparr>pe_pid := pe_pid (gpages i)\<rparr>
                         else blank_page (gpages i) (int i) 3) [0..<unat n]
       in if unat (n - 8) > unat n \<or> unat (n - 8) > length old then Inl OutOfRange
          else Inr (n * 128 - 16, vm\<lparr>spaces := (spaces vm)(this \<mapsto> as\<lparr>numPages := n, as_pageTable := pt\<rparr>)\<rparr>))"

definition page_entry :: "nat \<Rightarrow> int \<Rightarrow> VM \<Rightarrow> PageEntry res" where
  "page_entry this vpn vm =
     bindE (deref (spaces vm) this) (\<lambda>as. array_get (as_pageTable as) vpn)"

definition set_page :: "nat \<Rightarrow> int \<Rightarrow> (PageEntry \<Rightarrow> PageEntry) \<Rightarrow> VM \<Rightarrow> VM res" where
  "set_page this vpn f vm =
     bindE (deref (spaces vm) this) (\<lambda>as.
     bindE (array_get (as_pageTable as) vpn) (\<lambda>e.
     bindE (array_set (as_pageTable as) vpn (f e)) (\<lambda>pt.
       Inr (vm\<lparr>spaces := (spaces vm)(this \<mapsto> as\<lparr>as_pageTable := pt\<rparr>)\<rparr>))))"

definition release_frame :: "nat \<Rightarrow> int \<Rightarrow> VM \<Rightarrow> VM res" where
  "release_frame this i vm =
     bindE (page_entry this i vm) (\<lambda>e.
       if pe_valid e then bindE (Clear (bm vm) (pe_physicalPage e)) (\<lambda>b. Inr (vm\<lparr>bm := b\<rparr>)) else Inr vm)"

definition DecreaseStackSpace :: "nat \<Rightarrow> int \<Rightarrow> VM \<Rightarrow> VM res" where
  "DecreaseStackSpace this numStackPage vm =
     foldE (\<lambda>i vm. bindE (release_frame this i vm) (set_page this i (\<lambda>e. e\<lparr>pe_valid := False\<rparr>)))
       [numStackPage..numStackPage + 7] vm"

definition DeleteSpace :: "nat \<Rightarrow> VM \<Rightarrow> VM res" where
  "DeleteSpace this vm =
     bindE (deref (spaces vm) this) (\<lambda>as. foldE (release_frame this) [0..uint (numPages as) - 1] vm)"

definition getFirstThreadStartVPN :: "nat \<Rightarrow> VM \<Rightarrow> int res" where
  "getFirstThreadStartVPN this vm = bindE (deref (spaces vm) this) (\<lambda>as. Inr (firstThreadStartVPN as))"

definition addTLB :: "int \<Rightarrow> VM \<Rightarrow> VM res" where
  "addTLB ppn vm =
     bindE (array_get (ipt vm) ppn) (\<lambda>t.
       let pt = \<lparr>virtualPage = word_of_int (ipt_virtualPage t), physicalPage = word_of_int ppn, valid = ipt_valid t,
                 readOnly = ipt_readOnly t, te_use = ipt_use t, dirty = ipt_dirty t\<rparr>
       in (case tlb (machine vm) of
             None \<Rightarrow> Inl NullDereference
           | Some entries \<Rightarrow>
               bindE (array_set entries (TLBCounter vm smod TLBSize) pt) (\<lambda>entries'.
                 if TLBCounter vm < 2 ^ 31 - 1
                 then Inr (vm\<lparr>machine := (machine vm)\<lparr>tlb := Some entries'\<rparr>, TLBCounter := TLBCounter vm + 1\<rparr>)
                 else Inl UndefinedArithmetic)))"

text \<open>\<^verbatim>\<open>loc * PageSize\<close> as it is stored in the unsigned \<^verbatim>\<open>diskLocation\<close>.\<close>

definition swap_addr :: "int \<Rightarrow> 32 word" where
  "swap_addr loc = word_of_int (loc * PageSize)"

definition pageToSwapFile :: "nat \<Rightarrow> int \<Rightarrow> int \<Rightarrow> VM \<Rightarrow> VM res" where
  "pageToSwapFile this vpn loc vm =
     set_page this vpn (\<lambda>e. e\<lparr>pe_status := 1, pe_diskLocation := swap_addr loc, pe_valid := False\<rparr>) vm"

section \<open>Replacement and page-in\<close>

text \<open>
  The steps both replacement policies take with the frame \<open>phy\<close> they chose; \<open>fifo'\<close> is the queue
  afterwards.
\<close>

definition evict :: "int \<Rightarrow> int list \<Rightarrow> VM \<Rightarrow> VM res" where
  "evict phy fifo' vm =
     bindE (foldE (touch_tlb (\<lambda>e. if sint (physicalPage e) = phy then e\<lparr>valid := False\<rparr> else e)) [0..TLBSize] vm) (\<lambda>vm1.
     bindE (Find (sfBM vm1)) (\<lambda>(locNum, sb).
     bindE (load_frame phy vm1) (\<lambda>bytes.
     bindE (stub_WriteAt (swapFile vm1) bytes (locNum * PageSize)) (\<lambda>swap.
     bindE (array_get (ipt vm1) phy) (\<lambda>t.
     bindE (Table_Get (ProcessTable vm1) (ipt_pid t)) (\<lambda>pp.
     bindE (case pp of None \<Rightarrow> Inl NullDereference | Some p \<Rightarrow> deref (procs vm1) p) (\<lambda>p.
     bindE (pageToSwapFile (addrSpace p) (ipt_virtualPage t) locNum (vm1\<lparr>sfBM := sb, swapFile := swap\<rparr>)) (\<lambda>vm2.
     bindE (bzero_frame phy (vm2\<lparr>fifoQueue := fifo'\<rparr>)) (\<lambda>vm3.
     bindE (Clear (bm vm3) phy) (\<lambda>b. Inr (vm3\<lparr>bm := b\<rparr>)))))))))))"

definition writeOneToSwapFile :: "int \<Rightarrow> VM \<Rightarrow> VM res" where
  "writeOneToSwapFile rnd vm =
     (case ChoiceOfReplacementPolicy vm of
        RAND \<Rightarrow> evict (rnd smod 32) (fifoQueue vm) vm
      | FIFO \<Rightarrow> (case fifoQueue vm of [] \<Rightarrow> Inl OutOfRange | phy # rest \<Rightarrow> evict phy rest vm))"

text \<open>\<open>pageTable[vpn].physicalPage = bm->Find()\<close>, with an eviction and a second search when memory is full.\<close>

definition find_frame :: "nat \<Rightarrow> int \<Rightarrow> VM \<Rightarrow> VM res" where
  "find_frame this vpn vm =
     bindE (Find (bm vm)) (\<lambda>(p, b). set_page this vpn (\<lambda>e. e\<lparr>pe_physicalPage := p\<rparr>) (vm\<lparr>bm := b\<rparr>))"

definition new_frame :: "int \<Rightarrow> nat \<Rightarrow> int \<Rightarrow> VM \<Rightarrow> VM res" where
  "new_frame rnd this vpn vm =
     bindE (find_frame this vpn vm) (\<lambda>vm1.
     bindE (page_entry this vpn vm1) (\<lambda>e.
       if pe_physicalPage e = -1
       then bindE (writeOneToSwapFile rnd vm1) (find_frame this vpn)
       else Inr vm1))"

text \<open>The inverted page table entry of the frame, the FIFO queue and the valid bit.\<close>

definition enter_ipt :: "nat \<Rightarrow> int \<Rightarrow> int \<Rightarrow> VM \<Rightarrow> VM res" where
  "enter_ipt this vpn pid vm =
     bindE (page_entry this vpn vm) (\<lambda>e.
     bindE (array_get (ipt vm) (pe_physicalPage e)) (\<lambda>t.
     bindE (array_set (ipt vm) (pe_physicalPage e)
              (t\<lparr>ipt_physicalPage := pe_physicalPage e, ipt_virtualPage := vpn, ipt_valid := True,
                 ipt_use := pe_use e, ipt_dirty := pe_dirty e, ipt_pid := pid\<rparr>)) (\<lambda>a.
       set_page this vpn (\<lambda>e. e\<lparr>pe_valid := True\<rparr>)
         (vm\<lparr>ipt := a, fifoQueue :=
           (if ChoiceOfReplacementPolicy vm = FIFO then fifoQueue vm @ [pe_physicalPage e] else fifoQueue vm)\<rparr>))))"

text \<open>What is read into the frame of a page that is not in the swap file.\<close>

definition load_executable :: "nat \<Rightarrow> int \<Rightarrow> VM \<Rightarrow> VM res" where
  "load_executable this vpn vm =
     bindE (deref (spaces vm) this) (\<lambda>as.
     bindE (page_entry this vpn vm) (\<lambda>e.
       if vpn < uint (codeandinitNumPages as) then
         bindE (bzero_frame (pe_physicalPage e) vm) (\<lambda>vm1.
         bindE (stub_ReadAt (as_exec as)
                  (if vpn = uint (codeandinitNumPages as - 1)
                   then unat (codeandinitDataSize as - (codeandinitNumPages as - 1) * 128) else 128)
                  (sint (pe_diskLocation e))) (\<lambda>bytes.
           store_bytes (pe_physicalPage e * PageSize) bytes vm1))
       else Inr vm))"

definition load_swapped :: "nat \<Rightarrow> int \<Rightarrow> VM \<Rightarrow> VM res" where
  "load_swapped this vpn vm =
     bindE (page_entry this vpn vm) (\<lambda>e.
       let diskloc = sint (pe_diskLocation e) in
       bindE (bzero_frame (pe_physicalPage e) vm) (\<lambda>vm1.
       bindE (stub_ReadAt (swapFile vm1) 128 diskloc) (\<lambda>bytes.
       bindE (store_bytes (pe_physicalPage e * PageSize) bytes vm1) (\<lambda>vm2.
       bindE (Clear (sfBM vm2) (diskloc sdiv PageSize)) (\<lambda>sb.
         Inr (vm2\<lparr>sfBM := sb\<rparr>))))))"

definition updateIPT :: "int \<Rightarrow> nat \<Rightarrow> 32 word \<Rightarrow> int \<Rightarrow> VM \<Rightarrow> VM res" where
  "updateIPT rnd this vaddr pid vm =
     bindE (IPTLock_Acquire vm) (\<lambda>vm0.
       let vpn = int (unat vaddr div 128) in
       bindE (deref (spaces vm0) this) (\<lambda>as.
         if vpn \<ge> uint (numPages as) then Inr vm0
         else
           bindE (page_entry this vpn vm0) (\<lambda>e.
           bindE (new_frame rnd this vpn vm0) (\<lambda>vm1.
           bindE (if pe_status e \<noteq> 1 then load_executable this vpn vm1 else load_swapped this vpn vm1) (\<lambda>vm2.
           bindE (enter_ipt this vpn pid vm2) (\<lambda>vm3.
             Inr (IPTLock_Release vm3)))))))"

definition setPIDToIPT :: "nat \<Rightarrow> int \<Rightarrow> VM \<Rightarrow> VM res" where
  "setPIDToIPT this pid vm =
     bindE (deref (spaces vm) this) (\<lambda>as.
       foldE (\<lambda>i vm. bindE (page_entry this i vm) (\<lambda>e.
                     bindE (array_get (ipt vm) (pe_physicalPage e)) (\<lambda>t.
                     bindE (array_set (ipt vm) (pe_physicalPage e) (t\<lparr>ipt_pid := pid\<rparr>)) (\<lambda>a.
                       Inr (vm\<lparr>ipt := a\<rparr>)))))
         [0..uint (numPages as) - 1] vm)"

section \<open>The page-fault handler\<close>

definition findIPTIndex :: "int \<Rightarrow> VM \<Rightarrow> (int \<times> VM) res" where
  "findIPTIndex vpn vm =
     bindE (IPTLock_Acquire vm) (\<lambda>vm0.
     bindE (deref (procs vm0) (parentProcess vm0)) (\<lambda>p.
     bindE (search_from (\<lambda>k. bindE (array_get (ipt vm0) k) (\<lambda>t.
              Inr (ipt_valid t \<and> ipt_pid t = ProcessID p \<and> ipt_virtualPage t = vpn))) NumPhysPages 0) (\<lambda>k.
       Inr (k, IPTLock_Release vm0))))"

definition updateTLB :: "int \<Rightarrow> 32 word \<Rightarrow> VM \<Rightarrow> VM res" where
  "updateTLB rnd vaddr vm =
     bindE (deref (procs vm) (parentProcess vm)) (\<lambda>p.
     bindE (findIPTIndex (int (unat vaddr div 128)) vm) (\<lambda>(ppn, vm1).
       if ppn = -1 then updateIPT rnd (thread_space vm1) vaddr (ProcessID p) vm1
       else addTLB ppn vm1))"

end
