(* ===== verification/Nachos_Paging.thy ===== *)
theory Nachos_Paging
  imports Nachos_VM
begin

text \<open>
  The paging invariant of \<^verbatim>\<open>userprog/addrspace.cc\<close> and that eviction and page-in keep it. The
  argument has two levels: on the function from pages to page table entries (\<open>evict_abstract\<close>,
  \<open>load_abstract\<close>), where page tables, frames and swap slots are sets and maps; and on the state of
  the code, where every routine is shown to perform such an abstract step. The contents of a page
  (\<open>page_bytes\<close>) are what a process may rely on, wherever the page lives.
\<close>

section \<open>Paging, abstractly\<close>

text \<open>
  The pages of all processes as a function \<open>P\<close> from process number and virtual page to page table
  entry. \<open>frames_ok\<close>: the frames in use and the resident pages are in bijection, and the inverted
  page table is that bijection. \<open>swap_ok\<close>: every page that is swapped out has a swap slot of its own
  inside the swap file.
\<close>

type_synonym pages = "int \<Rightarrow> nat \<Rightarrow> PageEntry option"

definition upd :: "pages \<Rightarrow> int \<Rightarrow> nat \<Rightarrow> PageEntry \<Rightarrow> pages" where
  "upd P pid v e = (\<lambda>q w. if q = pid \<and> w = v then Some e else P q w)"

definition frames_ok :: "pages \<Rightarrow> IPT list \<Rightarrow> int set \<Rightarrow> bool" where
  "frames_ok P I U \<longleftrightarrow>
     (\<forall>k\<in>U. \<exists>v e. ipt_valid (I ! nat k) \<and> ipt_virtualPage (I ! nat k) = int v \<and>
        P (ipt_pid (I ! nat k)) v = Some e \<and> pe_valid e \<and> pe_physicalPage e = k) \<and>
     (\<forall>pid v e. P pid v = Some e \<and> pe_valid e \<longrightarrow>
        pe_physicalPage e \<in> U \<and> ipt_valid (I ! nat (pe_physicalPage e)) \<and>
        ipt_pid (I ! nat (pe_physicalPage e)) = pid \<and> ipt_virtualPage (I ! nat (pe_physicalPage e)) = int v)"

definition swapped :: "PageEntry \<Rightarrow> bool" where
  "swapped e \<longleftrightarrow> \<not> pe_valid e \<and> pe_status e = 1"

definition swap_ok :: "pages \<Rightarrow> int set \<Rightarrow> nat \<Rightarrow> bool" where
  "swap_ok P S n \<longleftrightarrow>
     (\<forall>pid v e. P pid v = Some e \<and> swapped e \<longrightarrow>
        (\<exists>loc\<in>S. pe_diskLocation e = swap_addr loc \<and> (loc + 1) * 128 \<le> int n)) \<and>
     (\<forall>pid v e pid' v' e'. P pid v = Some e \<and> swapped e \<and> P pid' v' = Some e' \<and> swapped e' \<and>
        pe_diskLocation e = pe_diskLocation e' \<longrightarrow> pid = pid' \<and> v = v')"

text \<open>
  The contents of a page: its frame, its swap slot, or else what \<open>X\<close> says of pages that were never
  loaded (the image in the executable, or nothing).
\<close>

definition bytes_of ::
    "(int \<Rightarrow> nat \<Rightarrow> PageEntry \<Rightarrow> 8 word list option) \<Rightarrow> pages \<Rightarrow> (nat \<Rightarrow> 8 word) \<Rightarrow> 8 word list \<Rightarrow>
     int \<Rightarrow> nat \<Rightarrow> 8 word list option" where
  "bytes_of X P mem swap pid v =
     (case P pid v of
        None \<Rightarrow> None
      | Some e \<Rightarrow>
          if pe_valid e then Some (frame_bytes mem (pe_physicalPage e))
          else if pe_status e = 1 then Some (take 128 (drop (unat (pe_diskLocation e)) swap))
          else X pid v e)"

lemma swap_address:
  assumes "0 \<le> loc" "loc < 4096"
  shows "unat (swap_addr loc) = nat loc * 128" and "sint (swap_addr loc) = loc * 128"
proof -
  have r: "0 \<le> loc * 128" "loc * 128 < 2 ^ 31" using assms by simp_all
  have u: "uint (swap_addr loc) = loc * 128"
    unfolding swap_addr_def by (rule word_of_int_inverse [OF refl]) (use r in simp_all)
  have "int (unat (swap_addr loc)) = int (nat loc * 128)" using u assms by simp
  then show "unat (swap_addr loc) = nat loc * 128" by (simp only: of_nat_eq_iff)
  show "sint (swap_addr loc) = loc * 128"
    unfolding sint_uint u using r by (simp add: signed_take_bit_int_eq_self)
qed

lemma frame_bytes_outside:
  assumes "\<forall>i. \<not> (nat k * 128 \<le> i \<and> i < nat k * 128 + 128) \<longrightarrow> mem' i = mem i" "0 \<le> k" "0 \<le> q" "q \<noteq> k"
  shows "frame_bytes mem' q = frame_bytes mem q"
proof -
  have "nat q < nat k \<or> nat k < nat q" using assms by linarith
  then have "\<not> (nat k * 128 \<le> nat q * 128 + i \<and> nat q * 128 + i < nat k * 128 + 128)" if "i < 128" for i
    using that by linarith
  then have "mem' (nat q * 128 + i) = mem (nat q * 128 + i)" if "i < 128" for i
    using assms(1) that by blast
  then show ?thesis by (auto simp: frame_bytes_def)
qed

lemma length_frame_bytes [simp]: "length (frame_bytes mem p) = 128"
  by (simp add: frame_bytes_def)

text \<open>A write to one slot of the swap file.\<close>

definition put_slot :: "8 word list \<Rightarrow> nat \<Rightarrow> 8 word list \<Rightarrow> 8 word list" where
  "put_slot file p bytes = take p file @ replicate (p - length file) 0 @ bytes @ drop (p + length bytes) file"

lemma length_put_slot: "length (put_slot file p bytes) = max (length file) (p + length bytes)"
  by (auto simp: put_slot_def)

lemma put_slot_same: "take (length bytes) (drop p (put_slot file p bytes)) = bytes"
  by (simp add: put_slot_def)

lemma put_slot_other:
  assumes "q + n \<le> p \<or> p + length bytes \<le> q" "q + n \<le> length file"
  shows "take n (drop q (put_slot file p bytes)) = take n (drop q file)"
  using assms(1)
proof
  assume "q + n \<le> p"
  then show ?thesis using assms(2) by (auto simp: put_slot_def take_drop min_def)
next
  assume a: "p + length bytes \<le> q"
  then have "p \<le> length file" using assms(2) by simp
  then show ?thesis using a by (auto simp: put_slot_def)
qed

lemma evict_abstract:
  assumes F: "frames_ok P I U" and S: "swap_ok P S (length swap)"
    and U: "U \<subseteq> {0..<4096}" and SS: "S \<subseteq> {0..<4096}"
    and e: "P pid v = Some e" "pe_valid e" "pe_physicalPage e = k"
    and loc: "0 \<le> loc" "loc < 4096" "loc \<notin> S"
    and mem: "\<forall>i. \<not> (nat k * 128 \<le> i \<and> i < nat k * 128 + 128) \<longrightarrow> mem' i = mem i"
  defines "e' \<equiv> e\<lparr>pe_status := 1, pe_diskLocation := swap_addr loc, pe_valid := False\<rparr>"
    and "swap' \<equiv> put_slot swap (nat (loc * 128)) (frame_bytes mem k)"
  shows "frames_ok (upd P pid v e') I (U - {k})"
    and "swap_ok (upd P pid v e') (insert loc S) (length swap')"
    and "bytes_of X (upd P pid v e') mem' swap' q w = bytes_of X P mem swap q w"
proof -
  have own: "ipt_pid (I ! nat k) = pid" "ipt_virtualPage (I ! nat k) = int v" "k \<in> U"
    using F e unfolding frames_ok_def by blast+
  have k: "0 \<le> k" "k < 4096" using own(3) U by auto
  have uniq: "pe_physicalPage d \<noteq> k" if "P q w = Some d" "pe_valid d" "\<not> (q = pid \<and> w = v)" for q w d
    using F that own(1,2) unfolding frames_ok_def by (metis of_nat_eq_iff)
  have sw': "swapped e'" "\<not> pe_valid e'" "pe_diskLocation e' = swap_addr loc" "pe_status e' = 1"
    by (simp_all add: e'_def swapped_def)
  show "frames_ok (upd P pid v e') I (U - {k})"
    unfolding frames_ok_def
  proof (intro conjI ballI allI impI; (elim conjE)?)
    fix j assume j: "j \<in> U - {k}"
    then obtain w d where d: "ipt_valid (I ! nat j)" "ipt_virtualPage (I ! nat j) = int w"
      "P (ipt_pid (I ! nat j)) w = Some d" "pe_valid d" "pe_physicalPage d = j"
      using F unfolding frames_ok_def by blast
    then have "\<not> (ipt_pid (I ! nat j) = pid \<and> w = v)" using e j by auto
    then show "\<exists>w d. ipt_valid (I ! nat j) \<and> ipt_virtualPage (I ! nat j) = int w \<and>
        upd P pid v e' (ipt_pid (I ! nat j)) w = Some d \<and> pe_valid d \<and> pe_physicalPage d = j"
      using d by (auto simp: upd_def)
  next
    fix q w d assume d: "upd P pid v e' q w = Some d" "pe_valid d"
    then have n: "\<not> (q = pid \<and> w = v)" "P q w = Some d" using sw'(2) by (auto simp: upd_def split: if_splits)
    show "pe_physicalPage d \<in> U - {k}" using F n d(2) uniq unfolding frames_ok_def by blast
    show "ipt_valid (I ! nat (pe_physicalPage d))" "ipt_pid (I ! nat (pe_physicalPage d)) = q"
      "ipt_virtualPage (I ! nat (pe_physicalPage d)) = int w"
      using F n d(2) unfolding frames_ok_def by blast+
  qed
  have slot: "\<exists>l\<in>S. pe_diskLocation d = swap_addr l \<and> (l + 1) * 128 \<le> int (length swap) \<and>
      unat (pe_diskLocation d) = nat l * 128 \<and> l \<noteq> loc \<and> 0 \<le> l"
    if d: "P q w = Some d" "swapped d" for q w d
  proof -
    obtain l where l: "l \<in> S" "pe_diskLocation d = swap_addr l" "(l + 1) * 128 \<le> int (length swap)"
      using S d unfolding swap_ok_def by blast
    moreover have "0 \<le> l" "l < 4096" using l(1) SS by auto
    ultimately show ?thesis using swap_address(1) loc(3) by metis
  qed
  have fresh: "pe_diskLocation d \<noteq> pe_diskLocation e'" if d: "P q w = Some d" "swapped d" for q w d
    using slot [OF d] sw'(3) swap_address(1) [OF loc(1,2)] loc(1) by auto
  show "swap_ok (upd P pid v e') (insert loc S) (length swap')"
    unfolding swap_ok_def
  proof (intro conjI allI impI; elim conjE)
    fix q w d assume d: "upd P pid v e' q w = Some d" "swapped d"
    show "\<exists>l\<in>insert loc S. pe_diskLocation d = swap_addr l \<and> (l + 1) * 128 \<le> int (length swap')"
    proof (cases "q = pid \<and> w = v")
      case True
      then show ?thesis using d sw' loc by (auto simp: upd_def swap'_def length_put_slot)
    next
      case False
      then have "P q w = Some d" using d(1) by (auto simp: upd_def split: if_splits)
      from slot [OF this d(2)] obtain l where l: "l \<in> S" "pe_diskLocation d = swap_addr l"
        "(l + 1) * 128 \<le> int (length swap)" by blast
      moreover have "int (length swap) \<le> int (length swap')" by (simp add: swap'_def length_put_slot)
      ultimately show ?thesis by (meson insertI2 order_trans)
    qed
  next
    fix q w d q' w' d'
    assume "upd P pid v e' q w = Some d" "swapped d" "upd P pid v e' q' w' = Some d'" "swapped d'"
      "pe_diskLocation d = pe_diskLocation d'"
    then have "(q = q' \<and> w = w')"
      using S fresh unfolding swap_ok_def upd_def by (auto split: if_splits) metis+
    then show "q = q'" "w = w'" by simp_all
  qed
  show "bytes_of X (upd P pid v e') mem' swap' q w = bytes_of X P mem swap q w"
  proof (cases "q = pid \<and> w = v")
    case True
    have "take 128 (drop (nat loc * 128) swap') = frame_bytes mem k"
      using put_slot_same [of "frame_bytes mem k" "nat loc * 128" swap] loc(1)
      by (simp add: swap'_def nat_mult_distrib)
    then show ?thesis
      using True e sw' swap_address(1) [OF loc(1,2)] by (simp add: bytes_of_def upd_def)
  next
    case False
    then have P: "upd P pid v e' q w = P q w" by (auto simp: upd_def)
    show ?thesis
    proof (cases "P q w")
      case (Some d)
      consider "pe_valid d" | "swapped d" | "\<not> pe_valid d" "pe_status d \<noteq> 1" by (auto simp: swapped_def)
      then show ?thesis
      proof cases
        case 1
        have "0 \<le> pe_physicalPage d" "pe_physicalPage d \<noteq> k"
          using F Some 1 U uniq False unfolding frames_ok_def by (fastforce, blast)
        then show ?thesis
          using frame_bytes_outside [OF mem k(1)] Some 1 by (simp add: bytes_of_def P)
      next
        case 2
        from slot [OF Some 2] obtain l where l: "l \<noteq> loc" "0 \<le> l" "(l + 1) * 128 \<le> int (length swap)"
          "unat (pe_diskLocation d) = nat l * 128" by blast
        have "nat l * 128 + 128 \<le> nat (loc * 128) \<or> nat (loc * 128) + 128 \<le> nat l * 128"
          using l(1,2) loc(1) by linarith
        moreover have "int (nat l * 128 + 128) \<le> int (length swap)" using l(2,3) by simp
        then have "nat l * 128 + 128 \<le> length swap" by (simp only: of_nat_le_iff)
        ultimately have "take 128 (drop (nat l * 128) swap') = take 128 (drop (nat l * 128) swap)"
          using put_slot_other [of "nat l * 128" 128 "nat (loc * 128)" "frame_bytes mem k" swap]
          by (simp add: swap'_def)
        then show ?thesis using Some 2 l(4) by (simp add: bytes_of_def P swapped_def)
      qed (simp add: bytes_of_def P Some)
    qed (simp add: bytes_of_def P)
  qed
qed


text \<open>
  Page-in: page \<open>v\<close> of process \<open>pid\<close> enters the free frame \<open>k\<close>. \<open>S'\<close> are the swap slots still taken:
  the page's own slot may have been given back.
\<close>

lemma load_abstract:
  assumes F: "frames_ok P I U" and S: "swap_ok P S n"
    and U: "U \<subseteq> {0..<4096}" and SS: "S \<subseteq> {0..<4096}" and I: "length I = 4096"
    and e: "P pid v = Some e" "\<not> pe_valid e"
    and k: "0 \<le> k" "k < 4096" "k \<notin> U"
    and S': "S - {loc. 0 \<le> loc \<and> loc < 4096 \<and> swapped e \<and> pe_diskLocation e = swap_addr loc} \<subseteq> S'"
    and t: "ipt_valid t" "ipt_pid t = pid" "ipt_virtualPage t = int v"
    and mem: "\<forall>i. \<not> (nat k * 128 \<le> i \<and> i < nat k * 128 + 128) \<longrightarrow> mem' i = mem i"
    and e': "pe_valid e'" "pe_physicalPage e' = k"
  shows "frames_ok (upd P pid v e') (I[nat k := t]) (insert k U)"
    and "swap_ok (upd P pid v e') S' n"
    and "\<not> (q = pid \<and> w = v) \<Longrightarrow> bytes_of X (upd P pid v e') mem' swap q w = bytes_of X P mem swap q w"
    and "bytes_of X (upd P pid v e') mem' swap pid v = Some (frame_bytes mem' k)"
proof -
  have other: "(I[nat k := t]) ! nat j = I ! nat j" if "j \<in> U" for j
  proof -
    have "0 \<le> j" "j \<noteq> k" using that U k(3) by auto
    then have "nat k \<noteq> nat j" using k(1) by linarith
    then show ?thesis by simp
  qed
  have here: "(I[nat k := t]) ! nat k = t" using I k by simp
  show "frames_ok (upd P pid v e') (I[nat k := t]) (insert k U)"
    unfolding frames_ok_def
  proof (intro conjI ballI allI impI; (elim conjE)?)
    fix j assume "j \<in> insert k U"
    then consider "j = k" | "j \<in> U" by blast
    then show "\<exists>w d. ipt_valid (I[nat k := t] ! nat j) \<and> ipt_virtualPage (I[nat k := t] ! nat j) = int w \<and>
        upd P pid v e' (ipt_pid (I[nat k := t] ! nat j)) w = Some d \<and> pe_valid d \<and> pe_physicalPage d = j"
    proof cases
      case 1
      then show ?thesis using here t e' by (auto simp: upd_def)
    next
      case 2
      then obtain w d where d: "ipt_valid (I ! nat j)" "ipt_virtualPage (I ! nat j) = int w"
        "P (ipt_pid (I ! nat j)) w = Some d" "pe_valid d" "pe_physicalPage d = j"
        using F unfolding frames_ok_def by blast
      then have "\<not> (ipt_pid (I ! nat j) = pid \<and> w = v)" using e by auto
      then show ?thesis using d other [OF 2] by (auto simp: upd_def)
    qed
  next
    fix q w d assume d: "upd P pid v e' q w = Some d" "pe_valid d"
    have "pe_physicalPage d \<in> insert k U \<and> ipt_valid (I[nat k := t] ! nat (pe_physicalPage d)) \<and>
      ipt_pid (I[nat k := t] ! nat (pe_physicalPage d)) = q \<and>
      ipt_virtualPage (I[nat k := t] ! nat (pe_physicalPage d)) = int w"
    proof (cases "q = pid \<and> w = v")
      case True
      then show ?thesis using d here t e' by (auto simp: upd_def)
    next
      case False
      then have "P q w = Some d" using d(1) by (auto simp: upd_def split: if_splits)
      then have "pe_physicalPage d \<in> U" "ipt_valid (I ! nat (pe_physicalPage d))"
        "ipt_pid (I ! nat (pe_physicalPage d)) = q" "ipt_virtualPage (I ! nat (pe_physicalPage d)) = int w"
        using F d(2) unfolding frames_ok_def by blast+
      then show ?thesis using other by auto
    qed
    then show "pe_physicalPage d \<in> insert k U" "ipt_valid (I[nat k := t] ! nat (pe_physicalPage d))"
      "ipt_pid (I[nat k := t] ! nat (pe_physicalPage d)) = q"
      "ipt_virtualPage (I[nat k := t] ! nat (pe_physicalPage d)) = int w" by simp_all
  qed
  have old: "P q w = Some d \<and> \<not> (q = pid \<and> w = v)" if "upd P pid v e' q w = Some d" "swapped d" for q w d
    using that e'(1) by (auto simp: upd_def swapped_def split: if_splits)
  show "swap_ok (upd P pid v e') S' n"
    unfolding swap_ok_def
  proof (intro conjI allI impI; elim conjE)
    fix q w d assume d: "upd P pid v e' q w = Some d" "swapped d"
    note o = old [OF d]
    obtain l where l: "l \<in> S" "pe_diskLocation d = swap_addr l" "(l + 1) * 128 \<le> int n"
      using S o d(2) unfolding swap_ok_def by blast
    have "\<not> (swapped e \<and> pe_diskLocation e = swap_addr l)"
      using S e(1) o d(2) l(2) unfolding swap_ok_def by metis
    then have "l \<in> S'" using S' l(1) by blast
    then show "\<exists>loc\<in>S'. pe_diskLocation d = swap_addr loc \<and> (loc + 1) * 128 \<le> int n" using l by blast
  next
    fix q w d q' w' d'
    assume "upd P pid v e' q w = Some d" "swapped d" "upd P pid v e' q' w' = Some d'" "swapped d'"
      "pe_diskLocation d = pe_diskLocation d'"
    then show "q = q'" "w = w'" using S old unfolding swap_ok_def by metis+
  qed
  show "bytes_of X (upd P pid v e') mem' swap pid v = Some (frame_bytes mem' k)"
    using e' by (simp add: bytes_of_def upd_def)
  show "bytes_of X (upd P pid v e') mem' swap q w = bytes_of X P mem swap q w" if "\<not> (q = pid \<and> w = v)"
  proof -
    have P: "upd P pid v e' q w = P q w" using that by (auto simp: upd_def)
    have "frame_bytes mem' (pe_physicalPage d) = frame_bytes mem (pe_physicalPage d)"
      if "P q w = Some d" "pe_valid d" for d
    proof -
      have "pe_physicalPage d \<in> U" using F that unfolding frames_ok_def by blast
      then have "0 \<le> pe_physicalPage d" "pe_physicalPage d \<noteq> k" using U k(3) by auto
      then show ?thesis using frame_bytes_outside [OF mem k(1)] by blast
    qed
    then show ?thesis by (auto simp: bytes_of_def P split: option.splits)
  qed
qed


section \<open>The invariant of the virtual memory\<close>

definition space_ptr :: "VM \<Rightarrow> int \<Rightarrow> nat option" where
  "space_ptr vm pid =
     (case table_map (ProcessTable vm) pid of
        Some (Some p) \<Rightarrow> map_option addrSpace (procs vm p)
      | _ \<Rightarrow> None)"

definition page_of :: "VM \<Rightarrow> pages" where
  "page_of vm pid v =
     (case space_ptr vm pid of
        None \<Rightarrow> None
      | Some s \<Rightarrow> (case spaces vm s of
          None \<Rightarrow> None
        | Some as \<Rightarrow> if v < length (as_pageTable as) then Some (as_pageTable as ! v) else None))"

text \<open>The image of a page in the executable, padded with zeros.\<close>

definition image :: "AddrSpace \<Rightarrow> nat \<Rightarrow> PageEntry \<Rightarrow> 8 word list" where
  "image as v e =
     (let n = (if int v = uint (codeandinitNumPages as - 1)
               then unat (codeandinitDataSize as - (codeandinitNumPages as - 1) * 128) else 128);
          bs = take n (drop (nat (sint (pe_diskLocation e))) (as_exec as))
      in bs @ replicate (128 - length bs) 0)"

definition never_loaded :: "VM \<Rightarrow> int \<Rightarrow> nat \<Rightarrow> PageEntry \<Rightarrow> 8 word list option" where
  "never_loaded vm pid v e =
     (case space_ptr vm pid of
        None \<Rightarrow> None
      | Some s \<Rightarrow> (case spaces vm s of
          None \<Rightarrow> None
        | Some as \<Rightarrow> if v < unat (codeandinitNumPages as) then Some (image as v e) else None))"

definition page_bytes :: "VM \<Rightarrow> int \<Rightarrow> nat \<Rightarrow> 8 word list option" where
  "page_bytes vm = bytes_of (never_loaded vm) (page_of vm) (mainMemory (machine vm)) (swapFile vm)"

definition as_ok :: "AddrSpace \<Rightarrow> bool" where
  "as_ok as \<longleftrightarrow>
     length (as_pageTable as) = unat (numPages as) \<and>
     codeandinitNumPages as = udivRoundUp (codeandinitDataSize as) 128 \<and>
     (\<forall>v < length (as_pageTable as). pe_status (as_pageTable as ! v) \<noteq> 1 \<and> v < unat (codeandinitNumPages as) \<longrightarrow>
        0 \<le> sint (pe_diskLocation (as_pageTable as ! v)))"

definition spaces_ok :: "VM \<Rightarrow> bool" where
  "spaces_ok vm \<longleftrightarrow>
     (\<forall>pid s. space_ptr vm pid = Some s \<longrightarrow> (\<exists>as. spaces vm s = Some as \<and> as_ok as)) \<and>
     (\<forall>pid pid' s. space_ptr vm pid = Some s \<and> space_ptr vm pid' = Some s \<longrightarrow> pid = pid')"

definition store_ok :: "VM \<Rightarrow> bool" where
  "store_ok vm \<longleftrightarrow>
     bm_wf (bm vm) \<and> numBits (bm vm) = 4096 \<and> bm_wf (sfBM vm) \<and> numBits (sfBM vm) = 4096 \<and>
     length (ipt vm) = 4096 \<and> table_wf (ProcessTable vm) \<and>
     (\<exists>t e. tlb (machine vm) = Some t \<and> length t = 4 \<and> pageTable (machine vm) = None \<and> past_tlb vm = Some e)"

definition fifo_ok :: "VM \<Rightarrow> bool" where
  "fifo_ok vm \<longleftrightarrow> ChoiceOfReplacementPolicy vm = FIFO \<longrightarrow>
     set (fifoQueue vm) \<subseteq> {0..<4096} \<and> used (bm vm) \<subseteq> set (fifoQueue vm)"

text \<open>The TLB agrees with the inverted page table about the process that runs.\<close>

definition tlb_ok :: "VM \<Rightarrow> int \<Rightarrow> bool" where
  "tlb_ok vm pid \<longleftrightarrow>
     (\<forall>t. tlb (machine vm) = Some t \<longrightarrow>
       (\<forall>e\<in>set t. valid e \<longrightarrow>
          sint (physicalPage e) \<in> used (bm vm) \<and> ipt_pid (ipt vm ! nat (sint (physicalPage e))) = pid \<and>
          virtualPage e = word_of_int (ipt_virtualPage (ipt vm ! nat (sint (physicalPage e))))))"

definition paging_ok :: "VM \<Rightarrow> bool" where
  "paging_ok vm \<longleftrightarrow> store_ok vm \<and> spaces_ok vm \<and> fifo_ok vm \<and>
     frames_ok (page_of vm) (ipt vm) (used (bm vm)) \<and>
     swap_ok (page_of vm) (used (sfBM vm)) (length (swapFile vm))"

text \<open>No stale entry in the inverted page table.\<close>

definition ipt_exact :: "VM \<Rightarrow> bool" where
  "ipt_exact vm \<longleftrightarrow> (\<forall>k. 0 \<le> k \<and> k < 4096 \<and> ipt_valid (ipt vm ! nat k) \<longrightarrow> k \<in> used (bm vm))"

definition current_ok :: "VM \<Rightarrow> int \<Rightarrow> bool" where
  "current_ok vm pid \<longleftrightarrow>
     (\<exists>p. procs vm (parentProcess vm) = Some p \<and> ProcessID p = pid) \<and> space_ptr vm pid = Some (thread_space vm)"

definition vm_inv :: "VM \<Rightarrow> int \<Rightarrow> bool" where
  "vm_inv vm pid \<longleftrightarrow> paging_ok vm \<and> ipt_exact vm \<and> tlb_ok vm pid \<and> current_ok vm pid"

text \<open>Which fields the view depends on.\<close>

lemma space_ptr_cong:
  "ProcessTable vm' = ProcessTable vm \<Longrightarrow> procs vm' = procs vm \<Longrightarrow> space_ptr vm' = space_ptr vm"
  by (rule ext) (simp add: space_ptr_def cong: option.case_cong)

lemma page_of_cong:
  "space_ptr vm' = space_ptr vm \<Longrightarrow> spaces vm' = spaces vm \<Longrightarrow> page_of vm' = page_of vm"
  by (intro ext) (simp add: page_of_def cong: option.case_cong)

lemma spaces_ok_cong:
  "space_ptr vm' = space_ptr vm \<Longrightarrow> spaces vm' = spaces vm \<Longrightarrow> spaces_ok vm' = spaces_ok vm"
  by (simp add: spaces_ok_def)

lemma never_loaded_cong:
  "space_ptr vm' = space_ptr vm \<Longrightarrow> spaces vm' = spaces vm \<Longrightarrow> never_loaded vm' = never_loaded vm"
  by (intro ext) (simp add: never_loaded_def cong: option.case_cong)

text \<open>One page table entry of an address space changes.\<close>

definition with_page :: "nat \<Rightarrow> nat \<Rightarrow> (PageEntry \<Rightarrow> PageEntry) \<Rightarrow> VM \<Rightarrow> VM" where
  "with_page this v f vm =
     vm\<lparr>spaces := (spaces vm)(this := map_option (\<lambda>as. as\<lparr>as_pageTable :=
        (as_pageTable as)[v := f (as_pageTable as ! v)]\<rparr>) (spaces vm this))\<rparr>"

lemma with_page_frame [simp]:
  "machine (with_page this v f vm) = machine vm" "past_tlb (with_page this v f vm) = past_tlb vm"
  "ipt (with_page this v f vm) = ipt vm" "bm (with_page this v f vm) = bm vm"
  "sfBM (with_page this v f vm) = sfBM vm" "swapFile (with_page this v f vm) = swapFile vm"
  "fifoQueue (with_page this v f vm) = fifoQueue vm" "TLBCounter (with_page this v f vm) = TLBCounter vm"
  "ChoiceOfReplacementPolicy (with_page this v f vm) = ChoiceOfReplacementPolicy vm"
  "ProcessTable (with_page this v f vm) = ProcessTable vm" "procs (with_page this v f vm) = procs vm"
  "IPTLock (with_page this v f vm) = IPTLock vm" "currentThread (with_page this v f vm) = currentThread vm"
  "parentProcess (with_page this v f vm) = parentProcess vm"
  "thread_space (with_page this v f vm) = thread_space vm"
  by (simp_all add: with_page_def)

lemma page_ofE:
  assumes "page_of vm pid v = Some e"
  obtains s as where "space_ptr vm pid = Some s" "spaces vm s = Some as" "v < length (as_pageTable as)"
    "e = as_pageTable as ! v"
  using assms by (auto simp: page_of_def split: option.splits if_splits)

lemma page_entry_ok:
  assumes "space_ptr vm pid = Some this" "page_of vm pid v = Some e"
  shows "page_entry this (int v) vm = Inr e"
    and "set_page this (int v) f vm = Inr (with_page this v f vm)"
  using assms
  by (auto simp: page_entry_def set_page_def with_page_def page_of_def deref_def array_get_def array_set_def
      split: option.splits if_splits)

lemma with_page_ptr [simp]: "space_ptr (with_page this v f vm) = space_ptr vm"
  by (rule space_ptr_cong) simp_all

lemma spaces_with_page:
  "spaces (with_page this v f vm) s =
     (if s = this then map_option (\<lambda>as. as\<lparr>as_pageTable := (as_pageTable as)[v := f (as_pageTable as ! v)]\<rparr>) (spaces vm s)
      else spaces vm s)"
  by (simp add: with_page_def)

lemma with_page_of:
  assumes "spaces_ok vm" "space_ptr vm pid = Some this" "page_of vm pid v = Some e"
  shows "page_of (with_page this v f vm) = upd (page_of vm) pid v (f e)"
proof (intro ext)
  fix q w
  from assms(2,3) obtain as where as: "spaces vm this = Some as" "v < length (as_pageTable as)" "e = as_pageTable as ! v"
    by (auto elim: page_ofE)
  show "page_of (with_page this v f vm) q w = upd (page_of vm) pid v (f e) q w"
  proof (cases "q = pid")
    case True
    then show ?thesis using as assms(2) by (simp add: page_of_def upd_def spaces_with_page)
  next
    case False
    then have "space_ptr vm q \<noteq> Some this" using assms(1,2) unfolding spaces_ok_def by blast
    then show ?thesis using False by (cases "space_ptr vm q") (simp_all add: page_of_def upd_def spaces_with_page)
  qed
qed

lemma with_page_spaces_ok:
  assumes ok: "spaces_ok vm" and "space_ptr vm pid = Some this" "page_of vm pid v = Some e"
    and "pe_status (f e) \<noteq> 1 \<Longrightarrow> pe_status e \<noteq> 1 \<and> pe_diskLocation (f e) = pe_diskLocation e"
  shows "spaces_ok (with_page this v f vm)"
proof -
  from assms(2,3) obtain as where as: "spaces vm this = Some as" "v < length (as_pageTable as)" "e = as_pageTable as ! v"
    by (auto elim: page_ofE)
  have "as_ok as" using ok assms(2) as(1) unfolding spaces_ok_def by fastforce
  then have "as_ok (as\<lparr>as_pageTable := (as_pageTable as)[v := f e]\<rparr>)"
    using as(2,3) assms(4) by (auto simp: as_ok_def nth_list_update)
  then show ?thesis
    using ok as unfolding spaces_ok_def with_page_ptr spaces_with_page by auto
qed

lemma with_page_never_loaded: "never_loaded (with_page this v f vm) = never_loaded vm"
proof (intro ext)
  fix pid w e
  show "never_loaded (with_page this v f vm) pid w e = never_loaded vm pid w e"
  proof (cases "space_ptr vm pid")
    case (Some s)
    then show ?thesis by (cases "spaces vm s") (auto simp: never_loaded_def image_def spaces_with_page)
  qed (simp add: never_loaded_def)
qed


section \<open>Eviction\<close>

text \<open>The frames and swap slots in use, together.\<close>

definition taken :: "VM \<Rightarrow> nat" where
  "taken vm = card (used (bm vm)) + card (used (sfBM vm))"

text \<open>The parts of the state that paging leaves alone.\<close>

definition same_control :: "VM \<Rightarrow> VM \<Rightarrow> bool" where
  "same_control vm' vm \<longleftrightarrow>
     procs vm' = procs vm \<and> ProcessTable vm' = ProcessTable vm \<and> IPTLock vm' = IPTLock vm \<and>
     currentThread vm' = currentThread vm \<and> parentProcess vm' = parentProcess vm \<and>
     thread_space vm' = thread_space vm \<and> ChoiceOfReplacementPolicy vm' = ChoiceOfReplacementPolicy vm \<and>
     TLBCounter vm' = TLBCounter vm"

lemma same_control_refl [simp]: "same_control vm vm"
  by (simp add: same_control_def)

lemma same_control_trans: "same_control a b \<Longrightarrow> same_control b c \<Longrightarrow> same_control a c"
  by (simp add: same_control_def)

lemma same_control_ptr: "same_control vm' vm \<Longrightarrow> space_ptr vm' = space_ptr vm"
  by (rule space_ptr_cong) (simp_all add: same_control_def)

lemma touch_loop:
  assumes "tlb (machine vm) = Some t" "length t = 4" "past_tlb vm = Some e"
  shows "foldE (touch_tlb f) [0..TLBSize] vm =
    Inr (vm\<lparr>machine := (machine vm)\<lparr>tlb := Some (map f t)\<rparr>, past_tlb := Some (f e)\<rparr>)"
proof -
  obtain a b c d where t: "t = [a, b, c, d]"
    using assms(2) by (auto simp: length_Suc_conv numeral_eq_Suc)
  have "[0..TLBSize] = [0, 1, 2, 3, 4]" by (simp add: upto_rec1)
  then show ?thesis using assms by (simp add: t touch_tlb_def)
qed

definition put_bytes :: "int \<Rightarrow> 8 word list \<Rightarrow> (nat \<Rightarrow> 8 word) \<Rightarrow> nat \<Rightarrow> 8 word" where
  "put_bytes k bs mem =
     (\<lambda>i. if nat k * 128 \<le> i \<and> i < nat k * 128 + length bs then bs ! (i - nat k * 128) else mem i)"

lemma store_bytes_frame:
  assumes "0 \<le> k" "k < 4096" "length bs \<le> 128"
  shows "store_bytes (k * PageSize) bs vm =
    Inr (vm\<lparr>machine := (machine vm)\<lparr>mainMemory := put_bytes k bs (mainMemory (machine vm))\<rparr>\<rparr>)"
proof -
  have "nat (k * PageSize) = nat k * 128" using assms(1) by (simp add: nat_mult_distrib)
  then show ?thesis unfolding store_bytes_def put_bytes_def using assms by (simp only:) simp
qed

definition zero_frame :: "int \<Rightarrow> (nat \<Rightarrow> 8 word) \<Rightarrow> nat \<Rightarrow> 8 word" where
  "zero_frame k mem = (\<lambda>i. if nat k * 128 \<le> i \<and> i < nat k * 128 + 128 then 0 else mem i)"

lemma bzero_frame_ok:
  assumes "0 \<le> k" "k < 4096"
  shows "bzero_frame k vm = Inr (vm\<lparr>machine := (machine vm)\<lparr>mainMemory := zero_frame k (mainMemory (machine vm))\<rparr>\<rparr>)"
proof -
  have "put_bytes k (replicate 128 0) mem = zero_frame k mem" for mem
    by (rule ext) (auto simp: put_bytes_def zero_frame_def intro!: nth_replicate)
  then show ?thesis using store_bytes_frame [OF assms, of "replicate 128 0" vm] by (simp add: bzero_frame_def)
qed

lemma load_frame_ok: "0 \<le> k \<Longrightarrow> k < 4096 \<Longrightarrow> load_frame k vm = Inr (frame_bytes (mainMemory (machine vm)) k)"
  by (simp add: load_frame_def)

lemma stub_WriteAt_slot:
  "0 \<le> loc \<Longrightarrow> stub_WriteAt file bytes (loc * PageSize) = Inr (put_slot file (nat (loc * 128)) bytes)"
  by (simp add: stub_WriteAt_def Lseek_def put_slot_def Let_def)

lemma Table_Get_space:
  assumes "table_wf (ProcessTable vm)" "space_ptr vm pid = Some s"
  shows "\<exists>p pr. Table_Get (ProcessTable vm) pid = Inr (Some p) \<and> procs vm p = Some pr \<and> addrSpace pr = s"
  using assms by (auto simp: Table_Get_map space_ptr_def split: option.splits)

text \<open>
  What an eviction does, written out: the page of frame \<open>phy\<close> goes to swap slot \<open>loc\<close>, the TLB forgets
  the frame, the frame is zeroed and free.
\<close>

definition evicted :: "int \<Rightarrow> int list \<Rightarrow> nat \<Rightarrow> int \<Rightarrow> BitMap \<Rightarrow> BitMap \<Rightarrow> VM \<Rightarrow> VM" where
  "evicted phy fifo' s loc b sb vm =
     (let f = (\<lambda>e. if sint (physicalPage e) = phy then e\<lparr>valid := False\<rparr> else e);
          vm1 = vm\<lparr>machine := (machine vm)\<lparr>tlb := map_option (map f) (tlb (machine vm)),
                   mainMemory := zero_frame phy (mainMemory (machine vm))\<rparr>,
                 past_tlb := map_option f (past_tlb vm), sfBM := sb,
                 swapFile := put_slot (swapFile vm) (nat (loc * 128)) (frame_bytes (mainMemory (machine vm)) phy),
                 fifoQueue := fifo', bm := b\<rparr>
      in with_page s (nat (ipt_virtualPage (ipt vm ! nat phy)))
           (\<lambda>e. e\<lparr>pe_status := 1, pe_diskLocation := swap_addr loc, pe_valid := False\<rparr>) vm1)"

lemma evict_result:
  assumes ok: "paging_ok vm" and phy: "phy \<in> used (bm vm)"
    and s: "space_ptr vm (ipt_pid (ipt vm ! nat phy)) = Some s"
    and sb: "Find (sfBM vm) = Inr (loc, sb)" "0 \<le> loc"
    and b: "Clear (bm vm) phy = Inr b"
  shows "evict phy fifo' vm = Inr (evicted phy fifo' s loc b sb vm)"
proof -
  have st: "store_ok vm" "spaces_ok vm" and F: "frames_ok (page_of vm) (ipt vm) (used (bm vm))"
    using ok by (simp_all add: paging_ok_def)
  obtain t e where t: "tlb (machine vm) = Some t" "length t = 4" "past_tlb vm = Some e"
    using st(1) by (auto simp: store_ok_def)
  have range: "0 \<le> phy" "phy < 4096" and I: "length (ipt vm) = 4096"
    using st(1) phy used_subset [of "bm vm"] by (auto simp: store_ok_def)
  obtain v pe where pe: "ipt_virtualPage (ipt vm ! nat phy) = int v"
      "page_of vm (ipt_pid (ipt vm ! nat phy)) v = Some pe"
    using F phy unfolding frames_ok_def by blast
  obtain p pr where p: "Table_Get (ProcessTable vm) (ipt_pid (ipt vm ! nat phy)) = Inr (Some p)"
      "procs vm p = Some pr" "addrSpace pr = s"
    using Table_Get_space [OF _ s] st(1) by (auto simp: store_ok_def)
  let ?vm1 = "vm\<lparr>machine := (machine vm)\<lparr>tlb := Some (map (\<lambda>e. if sint (physicalPage e) = phy then e\<lparr>valid := False\<rparr> else e) t)\<rparr>,
      past_tlb := Some (if sint (physicalPage e) = phy then e\<lparr>valid := False\<rparr> else e), sfBM := sb,
      swapFile := put_slot (swapFile vm) (nat (loc * 128)) (frame_bytes (mainMemory (machine vm)) phy)\<rparr>"
  have ptr: "space_ptr ?vm1 = space_ptr vm" by (rule space_ptr_cong) simp_all
  have pg: "page_of ?vm1 = page_of vm" by (rule page_of_cong [OF ptr]) simp
  have swap: "pageToSwapFile s (int v) loc ?vm1 = Inr (with_page s v
      (\<lambda>e. e\<lparr>pe_status := 1, pe_diskLocation := swap_addr loc, pe_valid := False\<rparr>) ?vm1)"
    unfolding pageToSwapFile_def
    by (rule page_entry_ok(2) [of _ "ipt_pid (ipt vm ! nat phy)" _ _ pe]) (simp_all only: ptr pg s pe(2))
  have get: "array_get (ipt vm) phy = Inr (ipt vm ! nat phy)" using range I by (simp add: array_get_def)
  have pp: "deref (procs vm) p = Inr pr" using p(2) by (simp add: deref_def)
  have v: "nat (ipt_virtualPage (ipt vm ! nat phy)) = v" using pe(1) by simp
  have "evict phy fifo' vm = bindE (pageToSwapFile s (int v) loc ?vm1) (\<lambda>vm2.
      bindE (bzero_frame phy (vm2\<lparr>fifoQueue := fifo'\<rparr>)) (\<lambda>vm3.
      bindE (Clear (bm vm3) phy) (\<lambda>b. Inr (vm3\<lparr>bm := b\<rparr>))))"
    unfolding evict_def touch_loop [OF t]
    by (simp add: sb(1) load_frame_ok [OF range] stub_WriteAt_slot [OF sb(2)] get p(1) pp pe(1) p(3))
  also have "\<dots> = Inr (evicted phy fifo' s loc b sb vm)"
    unfolding swap
    by (simp add: bzero_frame_ok [OF range] b evicted_def v Let_def t) (simp add: with_page_def)
  finally show ?thesis .
qed


lemma evict_ok:
  assumes ok: "paging_ok vm" and phy: "phy \<in> used (bm vm)"
    and room: "\<not> {0..<4096} \<subseteq> used (sfBM vm)"
    and fifo: "ChoiceOfReplacementPolicy vm = FIFO \<longrightarrow>
      set fifo' \<subseteq> {0..<4096} \<and> used (bm vm) - {phy} \<subseteq> set fifo'"
  obtains vm' where "evict phy fifo' vm = Inr vm'" "paging_ok vm'" "same_control vm' vm"
    "used (bm vm') = used (bm vm) - {phy}" "ipt vm' = ipt vm" "page_bytes vm' = page_bytes vm"
    "never_loaded vm' = never_loaded vm"
    "\<forall>pid. tlb_ok vm pid \<longrightarrow> tlb_ok vm' pid"
    "\<forall>pid v e. page_of vm pid v = Some e \<and> \<not> pe_valid e \<longrightarrow> page_of vm' pid v = Some e"
    "taken vm' = taken vm"
proof -
  have st: "store_ok vm" "spaces_ok vm" and F: "frames_ok (page_of vm) (ipt vm) (used (bm vm))"
    and S: "swap_ok (page_of vm) (used (sfBM vm)) (length (swapFile vm))"
    using ok by (simp_all add: paging_ok_def)
  have range: "0 \<le> phy" "phy < 4096"
    using st(1) phy used_subset [of "bm vm"] by (auto simp: store_ok_def)
  obtain v pe where pe: "ipt_virtualPage (ipt vm ! nat phy) = int v"
      "page_of vm (ipt_pid (ipt vm ! nat phy)) v = Some pe" "pe_valid pe" "pe_physicalPage pe = phy"
    using F phy unfolding frames_ok_def by blast
  let ?pid = "ipt_pid (ipt vm ! nat phy)"
  obtain s where s: "space_ptr vm ?pid = Some s" using pe(2) by (auto elim: page_ofE)
  have bms: "bm_wf (bm vm)" "bm_wf (sfBM vm)" "numBits (bm vm) = 4096" "numBits (sfBM vm) = 4096"
    using st(1) by (simp_all add: store_ok_def)
  obtain loc sb where sb: "Find (sfBM vm) = Inr (loc, sb)" "bm_wf sb" "numBits sb = 4096" "0 \<le> loc" "loc < 4096"
      "loc \<notin> used (sfBM vm)" "used sb = insert loc (used (sfBM vm))"
    using Find_free [OF bms(2)] room bms(4) by metis
  obtain b where b: "Clear (bm vm) phy = Inr b" "bm_wf b" "numBits b = 4096" "used b = used (bm vm) - {phy}"
    using Clear_used [OF bms(1) range(1)] range(2) bms(3) by metis
  define vm' where "vm' = evicted phy fifo' s loc b sb vm"
  define vm1 where "vm1 = vm\<lparr>machine := (machine vm)\<lparr>
      tlb := map_option (map (\<lambda>e. if sint (physicalPage e) = phy then e\<lparr>valid := False\<rparr> else e)) (tlb (machine vm)),
      mainMemory := zero_frame phy (mainMemory (machine vm))\<rparr>,
    past_tlb := map_option (\<lambda>e. if sint (physicalPage e) = phy then e\<lparr>valid := False\<rparr> else e) (past_tlb vm),
    sfBM := sb,
    swapFile := put_slot (swapFile vm) (nat (loc * 128)) (frame_bytes (mainMemory (machine vm)) phy),
    fifoQueue := fifo', bm := b\<rparr>"
  let ?f = "\<lambda>e. e\<lparr>pe_status := 1, pe_diskLocation := swap_addr loc, pe_valid := False\<rparr>"
  have vm': "vm' = with_page s v ?f vm1"
    unfolding vm'_def evicted_def Let_def vm1_def using pe(1) by simp
  have ptr1: "space_ptr vm1 = space_ptr vm" by (rule space_ptr_cong) (simp_all add: vm1_def)
  have sp1: "spaces vm1 = spaces vm" by (simp add: vm1_def)
  have pg1: "page_of vm1 = page_of vm" by (rule page_of_cong [OF ptr1 sp1])
  have nl1: "never_loaded vm1 = never_loaded vm" by (rule never_loaded_cong [OF ptr1 sp1])
  have so1: "spaces_ok vm1" using spaces_ok_cong [OF ptr1 sp1] st(2) by simp
  have pg: "page_of vm' = upd (page_of vm) ?pid v (?f pe)"
    unfolding vm' using with_page_of [OF so1, of ?pid s v pe ?f] ptr1 pg1 s pe(2) by simp
  have so: "spaces_ok vm'"
    unfolding vm' by (rule with_page_spaces_ok [OF so1, of ?pid _ _ pe]) (simp_all add: ptr1 pg1 s pe(2))
  have nl: "never_loaded vm' = never_loaded vm" unfolding vm' with_page_never_loaded nl1 ..
  have fields: "mainMemory (machine vm') = zero_frame phy (mainMemory (machine vm))" "ipt vm' = ipt vm"
      "swapFile vm' = put_slot (swapFile vm) (nat (loc * 128)) (frame_bytes (mainMemory (machine vm)) phy)"
      "bm vm' = b" "sfBM vm' = sb" "fifoQueue vm' = fifo'"
      "tlb (machine vm') = map_option (map (\<lambda>e. if sint (physicalPage e) = phy then e\<lparr>valid := False\<rparr> else e)) (tlb (machine vm))"
      "pageTable (machine vm') = pageTable (machine vm)"
      "past_tlb vm' = map_option (\<lambda>e. if sint (physicalPage e) = phy then e\<lparr>valid := False\<rparr> else e) (past_tlb vm)"
    unfolding vm' by (simp_all add: vm1_def)
  have ctl: "same_control vm' vm" unfolding vm' by (simp add: same_control_def vm1_def)
  have U: "used (bm vm) \<subseteq> {0..<4096}" "used (sfBM vm) \<subseteq> {0..<4096}"
    using used_subset bms(3,4) by metis+
  have mem: "\<forall>i. \<not> (nat phy * 128 \<le> i \<and> i < nat phy * 128 + 128) \<longrightarrow>
      mainMemory (machine vm') i = mainMemory (machine vm) i"
    by (simp add: fields zero_frame_def)
  note A = evict_abstract [OF F S U pe(2-4) sb(4-6) mem, folded fields(3), folded pg]
  have "store_ok vm'"
    using st(1) b sb ctl unfolding store_ok_def fields same_control_def by auto
  moreover have "fifo_ok vm'"
    using fifo ctl b(4) by (simp add: fifo_ok_def fields same_control_def)
  ultimately have good: "paging_ok vm'"
    using so A(1,2) by (simp add: paging_ok_def fields(2,4,5) b(4) sb(7))
  have bytes: "page_bytes vm' = page_bytes vm"
    by (intro ext) (simp only: page_bytes_def nl A(3))
  have tlb: "\<forall>pid. tlb_ok vm pid \<longrightarrow> tlb_ok vm' pid"
  proof (intro allI impI)
    fix pid assume ok: "tlb_ok vm pid"
    show "tlb_ok vm' pid"
      unfolding tlb_ok_def
    proof (intro allI impI ballI)
      fix t e assume "tlb (machine vm') = Some t" "e \<in> set t" "valid e"
      then obtain t0 where "tlb (machine vm) = Some t0" "e \<in> set t0" "sint (physicalPage e) \<noteq> phy"
        unfolding fields by (auto split: if_splits)
      then show "sint (physicalPage e) \<in> used (bm vm') \<and>
          ipt_pid (ipt vm' ! nat (sint (physicalPage e))) = pid \<and>
          virtualPage e = word_of_int (ipt_virtualPage (ipt vm' ! nat (sint (physicalPage e))))"
        using ok \<open>valid e\<close> unfolding tlb_ok_def fields b(4) by blast
    qed
  qed
  have keep: "\<forall>q w e. page_of vm q w = Some e \<and> \<not> pe_valid e \<longrightarrow> page_of vm' q w = Some e"
    using pe(2,3) unfolding pg upd_def by auto
  have ub: "used (bm vm') = used (bm vm) - {phy}" using b(4) fields(4) by simp
  have "card (used (bm vm)) = Suc (card (used (bm vm) - {phy}))"
    by (rule card.remove [OF finite_used phy])
  then have tk: "taken vm' = taken vm" using sb(6,7) by (simp add: taken_def ub fields(5))
  show ?thesis
    by (rule that [OF evict_result [OF ok phy s sb(1,4) b(1), of fifo', folded vm'_def]
          good ctl ub fields(2) bytes nl tlb keep tk])
qed


section \<open>Finding a frame\<close>

text \<open>The frame number of a page that is not resident means nothing.\<close>

lemma frames_ok_upd:
  assumes "P pid v = Some e" "\<not> pe_valid e" "\<not> pe_valid e'"
  shows "frames_ok (upd P pid v e') I U = frames_ok P I U"
proof -
  have "upd P pid v e' q w = Some d \<and> pe_valid d \<longleftrightarrow> P q w = Some d \<and> pe_valid d"
    and "upd P pid v e' q w = Some d \<and> pe_valid d \<and> R \<longleftrightarrow> P q w = Some d \<and> pe_valid d \<and> R" for q w d R
    using assms by (auto simp: upd_def)
  then show ?thesis unfolding frames_ok_def by (simp only:)
qed

lemma swap_ok_upd:
  assumes "P pid v = Some e" "swapped e' = swapped e" "pe_diskLocation e' = pe_diskLocation e" "swap_ok P S n"
  shows "swap_ok (upd P pid v e') S n"
proof -
  have old: "\<exists>d0. P q w = Some d0 \<and> swapped d0 \<and> pe_diskLocation d0 = pe_diskLocation d"
    if "upd P pid v e' q w = Some d" "swapped d" for q w d
    using that assms by (auto simp: upd_def split: if_splits)
  show ?thesis
    unfolding swap_ok_def
  proof (intro conjI allI impI; elim conjE)
    fix q w d assume "upd P pid v e' q w = Some d" "swapped d"
    from old [OF this] show "\<exists>loc\<in>S. pe_diskLocation d = swap_addr loc \<and> (loc + 1) * 128 \<le> int n"
      using assms(4) unfolding swap_ok_def by metis
  next
    fix q w d q' w' d'
    assume a: "upd P pid v e' q w = Some d" "swapped d" "upd P pid v e' q' w' = Some d'" "swapped d'"
      "pe_diskLocation d = pe_diskLocation d'"
    obtain d0 d0' where "P q w = Some d0" "swapped d0" "P q' w' = Some d0'" "swapped d0'"
      "pe_diskLocation d0 = pe_diskLocation d0'"
      using old [OF a(1,2)] old [OF a(3,4)] a(5) by auto
    then show "q = q'" "w = w'" using assms(4) unfolding swap_ok_def by blast+
  qed
qed

lemma frame_number_irrelevant:
  fixes p :: int
  assumes ok: "paging_ok vm" and ptr: "space_ptr vm pid = Some this"
    and e: "page_of vm pid v = Some e" "\<not> pe_valid e"
  defines "vm' \<equiv> with_page this v (\<lambda>e. e\<lparr>pe_physicalPage := p\<rparr>) vm"
  shows "paging_ok vm'" and "page_bytes vm' = page_bytes vm"
    and "page_of vm' = upd (page_of vm) pid v (e\<lparr>pe_physicalPage := p\<rparr>)"
    and "never_loaded vm' = never_loaded vm" and "same_control vm' vm" and "tlb_ok vm' q = tlb_ok vm q"
proof -
  have parts: "store_ok vm" "spaces_ok vm" "fifo_ok vm" "frames_ok (page_of vm) (ipt vm) (used (bm vm))"
    "swap_ok (page_of vm) (used (sfBM vm)) (length (swapFile vm))"
    using ok by (simp_all add: paging_ok_def)
  show pg: "page_of vm' = upd (page_of vm) pid v (e\<lparr>pe_physicalPage := p\<rparr>)"
    unfolding vm'_def by (rule with_page_of [OF parts(2) ptr e(1)])
  show nl: "never_loaded vm' = never_loaded vm" unfolding vm'_def by (rule with_page_never_loaded)
  show "same_control vm' vm" by (simp add: vm'_def same_control_def)
  show "tlb_ok vm' q = tlb_ok vm q" by (simp add: vm'_def tlb_ok_def)
  have "frames_ok (page_of vm') (ipt vm') (used (bm vm'))"
    unfolding pg using frames_ok_upd [of "page_of vm" pid v e] e parts(4) by (simp add: vm'_def)
  moreover have "swap_ok (page_of vm') (used (sfBM vm')) (length (swapFile vm'))"
    unfolding pg using swap_ok_upd [of "page_of vm" pid v e] e(1) parts(5) by (simp add: vm'_def swapped_def)
  moreover have "spaces_ok vm'"
    unfolding vm'_def by (rule with_page_spaces_ok [OF parts(2) ptr e(1)]) simp
  ultimately show "paging_ok vm'"
    using parts(1,3) by (simp add: paging_ok_def vm'_def store_ok_def fifo_ok_def)
  show "page_bytes vm' = page_bytes vm"
  proof (intro ext)
    fix q w
    have "image as v (e\<lparr>pe_physicalPage := p\<rparr>) = image as v e" for as by (simp add: image_def)
    then have "never_loaded vm pid v (e\<lparr>pe_physicalPage := p\<rparr>) = never_loaded vm pid v e"
      unfolding never_loaded_def by (simp only:)
    then show "page_bytes vm' q w = page_bytes vm q w"
      using e unfolding page_bytes_def nl pg by (simp add: bytes_of_def upd_def vm'_def)
  qed
qed

lemma writeOneToSwapFile_ok:
  assumes ok: "paging_ok vm" and full: "{0..<4096} \<subseteq> used (bm vm)"
    and room: "\<not> {0..<4096} \<subseteq> used (sfBM vm)" and rnd: "0 \<le> rnd"
  obtains vm' phy where "writeOneToSwapFile rnd vm = Inr vm'" "paging_ok vm'" "same_control vm' vm"
    "used (bm vm') = {0..<4096} - {phy}" "0 \<le> phy" "phy < 4096" "ipt vm' = ipt vm" "page_bytes vm' = page_bytes vm"
    "never_loaded vm' = never_loaded vm" "\<forall>pid. tlb_ok vm pid \<longrightarrow> tlb_ok vm' pid"
    "\<forall>pid v e. page_of vm pid v = Some e \<and> \<not> pe_valid e \<longrightarrow> page_of vm' pid v = Some e"
    "taken vm' = taken vm"
proof -
  have all: "used (bm vm) = {0..<4096}"
    using full ok used_subset [of "bm vm"] by (auto simp: paging_ok_def store_ok_def)
  have fifo: "fifo_ok vm" using ok by (simp add: paging_ok_def)
  obtain phy fifo' where w: "writeOneToSwapFile rnd vm = evict phy fifo' vm" "phy \<in> used (bm vm)"
    "ChoiceOfReplacementPolicy vm = FIFO \<longrightarrow> set fifo' \<subseteq> {0..<4096} \<and> used (bm vm) - {phy} \<subseteq> set fifo'"
  proof (cases "ChoiceOfReplacementPolicy vm")
    case RAND
    have "rnd smod 32 \<in> {0..<4096}" using rnd by (simp add: smod_nonneg_eq)
    then show ?thesis using that [of "rnd smod 32" "fifoQueue vm"] RAND all by (simp add: writeOneToSwapFile_def)
  next
    case FIFO
    have q: "set (fifoQueue vm) \<subseteq> {0..<4096}" "{0..<4096} \<subseteq> set (fifoQueue vm)"
      using fifo FIFO all by (simp_all add: fifo_ok_def)
    then obtain phy rest where "fifoQueue vm = phy # rest" by (cases "fifoQueue vm") auto
    then show ?thesis using that [of phy rest] FIFO all q by (auto simp: writeOneToSwapFile_def)
  qed
  have p: "0 \<le> phy" "phy < 4096" using w(2) all by auto
  from evict_ok [OF ok w(2) room w(3)] obtain vm' where
    r: "evict phy fifo' vm = Inr vm'" "paging_ok vm'" "same_control vm' vm"
    "used (bm vm') = used (bm vm) - {phy}" "ipt vm' = ipt vm" "page_bytes vm' = page_bytes vm"
    "never_loaded vm' = never_loaded vm" "\<forall>pid. tlb_ok vm pid \<longrightarrow> tlb_ok vm' pid"
    "\<forall>pid v e. page_of vm pid v = Some e \<and> \<not> pe_valid e \<longrightarrow> page_of vm' pid v = Some e"
    "taken vm' = taken vm" .
  show ?thesis
    by (rule that [OF r(1) [folded w(1)] r(2,3) r(4) [unfolded all] p r(5-10)])
qed

text \<open>The state in which a frame has been found for the page: \<open>vmA\<close> is the state before the last search.\<close>

definition frame_found :: "VM \<Rightarrow> int \<Rightarrow> nat \<Rightarrow> PageEntry \<Rightarrow> VM \<Rightarrow> int \<Rightarrow> BitMap \<Rightarrow> bool" where
  "frame_found vm pid v e vmA k b \<longleftrightarrow>
     paging_ok vmA \<and> same_control vmA vm \<and> ipt vmA = ipt vm \<and> page_bytes vmA = page_bytes vm \<and>
     never_loaded vmA = never_loaded vm \<and> taken vmA = taken vm \<and> (\<forall>q. tlb_ok vm q \<longrightarrow> tlb_ok vmA q) \<and>
     (\<exists>p. page_of vmA pid v = Some (e\<lparr>pe_physicalPage := p\<rparr>)) \<and>
     bm_wf b \<and> numBits b = 4096 \<and> 0 \<le> k \<and> k < 4096 \<and> k \<notin> used (bm vmA) \<and> used b = insert k (used (bm vmA)) \<and>
     (\<forall>j. 0 \<le> j \<and> j < 4096 \<and> ipt_valid (ipt vm ! nat j) \<longrightarrow> j \<in> insert k (used (bm vmA)))"

lemma find_frame_ok:
  assumes "paging_ok vm" "space_ptr vm pid = Some this" "page_of vm pid v = Some e" "Find (bm vm) = Inr (k, b)"
  shows "find_frame this (int v) vm = Inr (with_page this v (\<lambda>e. e\<lparr>pe_physicalPage := k\<rparr>) (vm\<lparr>bm := b\<rparr>))"
proof -
  have ptr: "space_ptr (vm\<lparr>bm := b\<rparr>) = space_ptr vm" by (rule space_ptr_cong) simp_all
  have "page_of (vm\<lparr>bm := b\<rparr>) = page_of vm" by (rule page_of_cong [OF ptr]) simp
  then show ?thesis
    using page_entry_ok(2) [of "vm\<lparr>bm := b\<rparr>" pid this v e] assms(2-4) ptr by (simp add: find_frame_def)
qed

lemma new_frame_ok:
  assumes ok: "paging_ok vm" "ipt_exact vm" and ptr: "space_ptr vm pid = Some this"
    and e: "page_of vm pid v = Some e" "\<not> pe_valid e"
    and room: "{0..<4096} \<subseteq> used (bm vm) \<longrightarrow> \<not> {0..<4096} \<subseteq> used (sfBM vm)" and rnd: "0 \<le> rnd"
  obtains vmA k b where "frame_found vm pid v e vmA k b"
    "new_frame rnd this (int v) vm = Inr (with_page this v (\<lambda>e. e\<lparr>pe_physicalPage := k\<rparr>) (vmA\<lparr>bm := b\<rparr>))"
proof (cases "{0..<4096} \<subseteq> used (bm vm)")
  case False
  have bm: "bm_wf (bm vm)" "numBits (bm vm) = 4096" using ok(1) by (simp_all add: paging_ok_def store_ok_def)
  obtain k b where b: "Find (bm vm) = Inr (k, b)" "bm_wf b" "numBits b = 4096" "0 \<le> k" "k < 4096"
      "k \<notin> used (bm vm)" "used b = insert k (used (bm vm))"
    using Find_free [OF bm(1)] False bm(2) by metis
  let ?vm1 = "with_page this v (\<lambda>e. e\<lparr>pe_physicalPage := k\<rparr>) (vm\<lparr>bm := b\<rparr>)"
  have f: "find_frame this (int v) vm = Inr ?vm1" by (rule find_frame_ok [OF ok(1) ptr e(1) b(1)])
  have "\<exists>as. spaces vm this = Some as \<and> v < length (as_pageTable as)"
    using e(1) ptr by (auto elim: page_ofE)
  then obtain d where d: "page_entry this (int v) ?vm1 = Inr d" "pe_physicalPage d = k"
    by (auto simp: page_entry_def deref_def spaces_with_page array_get_def)
  have "new_frame rnd this (int v) vm = Inr ?vm1" using f d b(4) by (simp add: new_frame_def)
  moreover have "\<exists>p. page_of vm pid v = Some (e\<lparr>pe_physicalPage := p\<rparr>)"
    using e(1) by (intro exI [of _ "pe_physicalPage e"]) simp
  then have "frame_found vm pid v e vm k b"
    using ok b by (auto simp: frame_found_def ipt_exact_def)
  ultimately show ?thesis using that by blast
next
  case True
  have bm: "bm_wf (bm vm)" "numBits (bm vm) = 4096" using ok(1) by (simp_all add: paging_ok_def store_ok_def)
  have full: "Find (bm vm) = Inr (-1, bm vm)" using Find_full [OF bm(1)] True bm(2) by simp
  let ?vm1 = "with_page this v (\<lambda>e. e\<lparr>pe_physicalPage := -1\<rparr>) vm"
  note irr = frame_number_irrelevant [OF ok(1) ptr e, of "-1"]
  have f: "find_frame this (int v) vm = Inr ?vm1" using find_frame_ok [OF ok(1) ptr e(1) full] by simp
  have p1: "space_ptr ?vm1 pid = Some this" using ptr by simp
  have e1: "page_of ?vm1 pid v = Some (e\<lparr>pe_physicalPage := -1\<rparr>)" using irr(3) by (simp add: upd_def)
  have room1: "\<not> {0..<4096} \<subseteq> used (sfBM ?vm1)" using room True by simp
  have full1: "{0..<4096} \<subseteq> used (bm ?vm1)" using True by simp
  from writeOneToSwapFile_ok [OF irr(1) full1 room1 rnd] obtain vmA phy where
    A: "writeOneToSwapFile rnd ?vm1 = Inr vmA" "paging_ok vmA" "same_control vmA ?vm1"
    "used (bm vmA) = {0..<4096} - {phy}" "0 \<le> phy" "phy < 4096" "ipt vmA = ipt ?vm1"
    "page_bytes vmA = page_bytes ?vm1" "never_loaded vmA = never_loaded ?vm1"
    "\<forall>q. tlb_ok ?vm1 q \<longrightarrow> tlb_ok vmA q"
    "\<forall>pid v e. page_of ?vm1 pid v = Some e \<and> \<not> pe_valid e \<longrightarrow> page_of vmA pid v = Some e"
    "taken vmA = taken ?vm1" .
  have pA: "space_ptr vmA pid = Some this" using same_control_ptr [OF A(3)] p1 by simp
  have eA: "page_of vmA pid v = Some (e\<lparr>pe_physicalPage := -1\<rparr>)" using A(11) e1 e(2) by simp
  have bmA: "bm_wf (bm vmA)" "numBits (bm vmA) = 4096" using A(2) by (simp_all add: paging_ok_def store_ok_def)
  have "phy \<in> {0..<4096}" "phy \<notin> used (bm vmA)" using A(4-6) by simp_all
  then have free: "\<not> {0..<4096} \<subseteq> used (bm vmA)" by blast
  obtain k b where b: "Find (bm vmA) = Inr (k, b)" "bm_wf b" "numBits b = 4096"
      "0 \<le> k" "k < 4096" "k \<notin> used (bm vmA)" "used b = insert k (used (bm vmA))"
    using Find_free [OF bmA(1)] free bmA(2) by metis
  have "k = phy" using b(4-6) A(4) by auto
  have "new_frame rnd this (int v) vm = Inr (with_page this v (\<lambda>e. e\<lparr>pe_physicalPage := k\<rparr>) (vmA\<lparr>bm := b\<rparr>))"
    using f A(1) find_frame_ok [OF A(2) pA eA b(1)] page_entry_ok(1) [OF p1 e1] by (simp add: new_frame_def)
  moreover have "frame_found vm pid v e vmA k b"
    unfolding frame_found_def
  proof (intro conjI)
    show "same_control vmA vm" by (rule same_control_trans [OF A(3) irr(5)])
    show "\<forall>q. tlb_ok vm q \<longrightarrow> tlb_ok vmA q" using A(10) irr(6) by simp
    show "\<forall>j. 0 \<le> j \<and> j < 4096 \<and> ipt_valid (ipt vm ! nat j) \<longrightarrow> j \<in> insert k (used (bm vmA))"
      using A(4) \<open>k = phy\<close> by auto
    show "ipt vmA = ipt vm" "page_bytes vmA = page_bytes vm" "never_loaded vmA = never_loaded vm"
      using A(7-9) irr(2,4) by simp_all
    show "\<exists>p. page_of vmA pid v = Some (e\<lparr>pe_physicalPage := p\<rparr>)" using eA by blast
    show "taken vmA = taken vm" using A(12) by (simp add: taken_def)
  qed (use A(2) b in simp_all)
  ultimately show ?thesis using that by blast
qed


section \<open>Page-in\<close>

definition fill_frame :: "int \<Rightarrow> 8 word list \<Rightarrow> (nat \<Rightarrow> 8 word) \<Rightarrow> nat \<Rightarrow> 8 word" where
  "fill_frame k bs mem = put_bytes k bs (zero_frame k mem)"

lemma fill_frame_bytes:
  assumes "length bs \<le> 128"
  shows "frame_bytes (fill_frame k bs mem) k = bs @ replicate (128 - length bs) 0"
  by (rule nth_equalityI) (use assms in \<open>auto simp: frame_bytes_def fill_frame_def put_bytes_def zero_frame_def nth_append\<close>)

lemma fill_frame_outside:
  assumes "length bs \<le> 128"
  shows "\<forall>i. \<not> (nat k * 128 \<le> i \<and> i < nat k * 128 + 128) \<longrightarrow> fill_frame k bs mem i = mem i"
  using assms by (auto simp: fill_frame_def put_bytes_def zero_frame_def)

lemma fill_frame_steps:
  assumes "0 \<le> k" "k < 4096" "length bs \<le> 128"
  shows "bindE (bzero_frame k vm) (\<lambda>vm1. bindE (Inr bs) (\<lambda>bytes. store_bytes (k * PageSize) bytes vm1)) =
    Inr (vm\<lparr>machine := (machine vm)\<lparr>mainMemory := fill_frame k bs (mainMemory (machine vm))\<rparr>\<rparr>)"
  by (simp add: bzero_frame_ok [OF assms(1,2)] store_bytes_frame [OF assms] fill_frame_def)

text \<open>The last page of code and initialised data holds at most a page of bytes.\<close>

lemma last_page_size:
  fixes n :: "32 word"
  assumes "p = udivRoundUp n 128" "p \<noteq> 0"
  shows "unat (n - (p - 1) * 128) \<le> 128"
proof -
  have m: "n = (n div 128) * 128 + n mod 128" by (simp only: div_mult_mod_eq)
  have small: "n mod 128 < 128" by (rule word_mod_less_divisor) simp
  show ?thesis
  proof (cases "n mod 128 = 0")
    case True
    then have "p - 1 = n div 128 - 1" using assms by (simp add: udivRoundUp_def)
    then have "n - (p - 1) * 128 = 128" using m True by (simp add: algebra_simps)
    then show ?thesis by simp
  next
    case False
    then have "p - 1 = n div 128" using assms by (simp add: udivRoundUp_def word_gt_0)
    then have "n - (p - 1) * 128 = n mod 128" using m by (metis add_diff_cancel_left')
    then show ?thesis using small by (simp add: word_less_nat_alt)
  qed
qed

lemma load_executable_ok:
  assumes as: "spaces vm this = Some as" "as_ok as" and e: "page_entry this (int v) vm = Inr e"
    "pe_status e \<noteq> 1" "v < length (as_pageTable as)" "e = as_pageTable as ! v"
    and k: "pe_physicalPage e = k" "0 \<le> k" "k < 4096"
  obtains mem where "load_executable this (int v) vm = Inr (vm\<lparr>machine := (machine vm)\<lparr>mainMemory := mem\<rparr>\<rparr>)"
    "\<forall>i. \<not> (nat k * 128 \<le> i \<and> i < nat k * 128 + 128) \<longrightarrow> mem i = mainMemory (machine vm) i"
    "v < unat (codeandinitNumPages as) \<longrightarrow> frame_bytes mem k = image as v e"
proof (cases "v < unat (codeandinitNumPages as)")
  case True
  define n where "n = (if int v = uint (codeandinitNumPages as - 1)
    then unat (codeandinitDataSize as - (codeandinitNumPages as - 1) * 128) else 128)"
  let ?bs = "take n (drop (nat (sint (pe_diskLocation e))) (as_exec as))"
  have "codeandinitNumPages as \<noteq> 0" using True by auto
  moreover have "codeandinitNumPages as = udivRoundUp (codeandinitDataSize as) 128" using as(2) unfolding as_ok_def by blast
  ultimately have last: "unat (codeandinitDataSize as - (codeandinitNumPages as - 1) * 128) \<le> 128"
    using last_page_size by blast
  have "n \<le> 128" unfolding n_def by (rule if_split [THEN iffD2]) (use last in blast)
  then have bs: "length ?bs \<le> 128" by simp
  have d: "0 \<le> sint (pe_diskLocation e)" using as(2) e(2-4) True unfolding as_ok_def by blast
  have lt: "int v < uint (codeandinitNumPages as)" using True by (simp only: uint_nat of_nat_less_iff not_False_eq_True)
  have read: "stub_ReadAt (as_exec as) n (sint (pe_diskLocation e)) = Inr ?bs"
    using d by (simp add: stub_ReadAt_def Lseek_def)
  have sp: "deref (spaces vm) this = Inr as" using as(1) by (simp add: deref_def)
  have "load_executable this (int v) vm =
      Inr (vm\<lparr>machine := (machine vm)\<lparr>mainMemory := fill_frame k ?bs (mainMemory (machine vm))\<rparr>\<rparr>)"
    unfolding load_executable_def sp e(1) bindE_simps if_P [OF lt] n_def [symmetric] read k(1)
    using fill_frame_steps [OF k(2,3) bs] unfolding bindE_simps .
  moreover have "frame_bytes (fill_frame k ?bs (mainMemory (machine vm))) k = image as v e"
    unfolding image_def Let_def n_def [symmetric] by (rule fill_frame_bytes [OF bs])
  ultimately show ?thesis using that fill_frame_outside [OF bs] by blast
next
  case False
  then have "\<not> int v < uint (codeandinitNumPages as)" by (simp only: uint_nat of_nat_less_iff not_False_eq_True)
  then have "load_executable this (int v) vm = Inr (vm\<lparr>machine := (machine vm)\<lparr>mainMemory := mainMemory (machine vm)\<rparr>\<rparr>)"
    using as(1) e(1) by (simp add: load_executable_def deref_def)
  then show ?thesis using that False by blast
qed

lemma load_swapped_ok:
  assumes e: "page_entry this (int v) vm = Inr e" "pe_diskLocation e = swap_addr loc"
    and loc: "0 \<le> loc" "loc < 4096" "(loc + 1) * 128 \<le> int (length (swapFile vm))"
    and k: "pe_physicalPage e = k" "0 \<le> k" "k < 4096"
    and sb: "Clear (sfBM vm) loc = Inr sb"
  obtains mem where "load_swapped this (int v) vm = Inr (vm\<lparr>machine := (machine vm)\<lparr>mainMemory := mem\<rparr>, sfBM := sb\<rparr>)"
    "\<forall>i. \<not> (nat k * 128 \<le> i \<and> i < nat k * 128 + 128) \<longrightarrow> mem i = mainMemory (machine vm) i"
    "frame_bytes mem k = take 128 (drop (unat (pe_diskLocation e)) (swapFile vm))"
proof -
  note a = swap_address [OF loc(1,2)]
  let ?bs = "take 128 (drop (unat (swap_addr loc)) (swapFile vm))"
  have "int (nat loc * 128 + 128) \<le> int (length (swapFile vm))" using loc(1,3) by simp
  then have "nat loc * 128 + 128 \<le> length (swapFile vm)" by (simp only: of_nat_le_iff)
  then have len: "length ?bs = 128" by (simp add: a)
  then have bs: "length ?bs \<le> 128" by simp
  have pos: "nat (loc * 128) = unat (swap_addr loc)" using a(1) loc(1) by (simp add: nat_mult_distrib)
  have read: "stub_ReadAt (swapFile vm) 128 (loc * 128) = Inr ?bs"
    using loc(1) pos by (simp add: stub_ReadAt_def Lseek_def)
  have "(loc * 128) sdiv 128 = loc" using loc(1) by (simp add: sdiv_nonneg_eq)
  then have "load_swapped this (int v) vm =
      Inr (vm\<lparr>machine := (machine vm)\<lparr>mainMemory := fill_frame k ?bs (mainMemory (machine vm))\<rparr>, sfBM := sb\<rparr>)"
    using sb by (simp add: load_swapped_def e a(2) k(1) bzero_frame_ok [OF k(2,3)] read
        store_bytes_frame [OF k(2,3) bs] fill_frame_def)
  moreover have "frame_bytes (fill_frame k ?bs (mainMemory (machine vm))) k = ?bs"
    unfolding fill_frame_bytes [OF bs] using len by simp
  ultimately show ?thesis using that fill_frame_outside [OF bs] e(2) by simp
qed


lemma lock_irrelevant [simp]:
  "space_ptr (vm\<lparr>IPTLock := x\<rparr>) = space_ptr vm" "page_of (vm\<lparr>IPTLock := x\<rparr>) = page_of vm"
  "never_loaded (vm\<lparr>IPTLock := x\<rparr>) = never_loaded vm" "page_bytes (vm\<lparr>IPTLock := x\<rparr>) = page_bytes vm"
  "paging_ok (vm\<lparr>IPTLock := x\<rparr>) = paging_ok vm" "ipt_exact (vm\<lparr>IPTLock := x\<rparr>) = ipt_exact vm"
  "tlb_ok (vm\<lparr>IPTLock := x\<rparr>) = tlb_ok vm"
proof -
  show ptr: "space_ptr (vm\<lparr>IPTLock := x\<rparr>) = space_ptr vm" by (rule space_ptr_cong) simp_all
  show pg: "page_of (vm\<lparr>IPTLock := x\<rparr>) = page_of vm" by (rule page_of_cong [OF ptr]) simp
  show nl: "never_loaded (vm\<lparr>IPTLock := x\<rparr>) = never_loaded vm" by (rule never_loaded_cong [OF ptr]) simp
  show "page_bytes (vm\<lparr>IPTLock := x\<rparr>) = page_bytes vm" by (simp add: page_bytes_def pg nl)
  have "spaces_ok (vm\<lparr>IPTLock := x\<rparr>) = spaces_ok vm" by (rule spaces_ok_cong [OF ptr]) simp
  then show "paging_ok (vm\<lparr>IPTLock := x\<rparr>) = paging_ok vm"
    by (simp add: paging_ok_def pg store_ok_def fifo_ok_def)
qed (simp_all add: ipt_exact_def tlb_ok_def fun_eq_iff)

text \<open>The state after the frame \<open>k\<close> was entered for the page: memory \<open>mem\<close>, frame bitmap \<open>b\<close>, swap bitmap \<open>sb\<close>.\<close>

definition paged_in :: "nat \<Rightarrow> nat \<Rightarrow> int \<Rightarrow> IPT \<Rightarrow> (nat \<Rightarrow> 8 word) \<Rightarrow> BitMap \<Rightarrow> BitMap \<Rightarrow> VM \<Rightarrow> VM" where
  "paged_in this v k t mem b sb vm =
     with_page this v (\<lambda>e. e\<lparr>pe_physicalPage := k, pe_valid := True\<rparr>)
       (vm\<lparr>machine := (machine vm)\<lparr>mainMemory := mem\<rparr>, ipt := (ipt vm)[nat k := t], bm := b, sfBM := sb,
          fifoQueue := (if ChoiceOfReplacementPolicy vm = FIFO then fifoQueue vm @ [k] else fifoQueue vm)\<rparr>)"

lemma paged_in_ok:
  assumes ok: "paging_ok vm" and ptr: "space_ptr vm pid = Some this"
    and e: "page_of vm pid v = Some e" "\<not> pe_valid e"
    and k: "0 \<le> k" "k < 4096" "k \<notin> used (bm vm)"
    and b: "bm_wf b" "numBits b = 4096" "used b = insert k (used (bm vm))"
    and sb: "bm_wf sb" "numBits sb = 4096"
      "used (sfBM vm) - {loc. 0 \<le> loc \<and> loc < 4096 \<and> swapped e \<and> pe_diskLocation e = swap_addr loc} \<subseteq> used sb"
    and t: "ipt_valid t" "ipt_pid t = pid" "ipt_virtualPage t = int v"
    and mem: "\<forall>i. \<not> (nat k * 128 \<le> i \<and> i < nat k * 128 + 128) \<longrightarrow> mem i = mainMemory (machine vm) i"
    and full: "\<forall>bs. page_bytes vm pid v = Some bs \<longrightarrow> frame_bytes mem k = bs"
    and ex: "\<forall>j. 0 \<le> j \<and> j < 4096 \<and> ipt_valid (ipt vm ! nat j) \<longrightarrow> j \<in> insert k (used (bm vm))"
  defines "vm' \<equiv> paged_in this v k t mem b sb vm"
  shows "paging_ok vm'" and "ipt_exact vm'" and "tlb_ok vm q \<Longrightarrow> tlb_ok vm' q"
    and "page_bytes vm p w = Some bs \<Longrightarrow> page_bytes vm' p w = Some bs"
    and "page_of vm' pid v = Some (e\<lparr>pe_physicalPage := k, pe_valid := True\<rparr>)"
    and "same_control vm' vm" and "ipt vm' ! nat k = t"
proof -
  have parts: "store_ok vm" "spaces_ok vm" "fifo_ok vm" "frames_ok (page_of vm) (ipt vm) (used (bm vm))"
    "swap_ok (page_of vm) (used (sfBM vm)) (length (swapFile vm))"
    using ok by (simp_all add: paging_ok_def)
  have U: "used (bm vm) \<subseteq> {0..<4096}" "used (sfBM vm) \<subseteq> {0..<4096}"
    using used_subset [of "bm vm"] used_subset [of "sfBM vm"] parts(1) by (simp_all add: store_ok_def)
  have I: "length (ipt vm) = 4096" using parts(1) by (simp add: store_ok_def)
  let ?f = "\<lambda>e. e\<lparr>pe_physicalPage := k, pe_valid := True\<rparr>"
  define vm1 where "vm1 = vm\<lparr>machine := (machine vm)\<lparr>mainMemory := mem\<rparr>, ipt := (ipt vm)[nat k := t], bm := b, sfBM := sb,
          fifoQueue := (if ChoiceOfReplacementPolicy vm = FIFO then fifoQueue vm @ [k] else fifoQueue vm)\<rparr>"
  have vm': "vm' = with_page this v ?f vm1" by (simp only: vm'_def paged_in_def vm1_def)
  have ptr1: "space_ptr vm1 = space_ptr vm" by (rule space_ptr_cong) (simp_all add: vm1_def)
  have sp1: "spaces vm1 = spaces vm" by (simp add: vm1_def)
  have pg1: "page_of vm1 = page_of vm" by (rule page_of_cong [OF ptr1 sp1])
  have so1: "spaces_ok vm1" using spaces_ok_cong [OF ptr1 sp1] parts(2) by simp
  have pg: "page_of vm' = upd (page_of vm) pid v (?f e)"
    unfolding vm' using with_page_of [OF so1, of pid this v e ?f] ptr1 pg1 ptr e(1) by simp
  have so: "spaces_ok vm'"
    unfolding vm' by (rule with_page_spaces_ok [OF so1, of pid _ _ e]) (simp_all add: ptr1 pg1 ptr e(1))
  have nl: "never_loaded vm' = never_loaded vm"
    unfolding vm' with_page_never_loaded by (rule never_loaded_cong [OF ptr1 sp1])
  have fields: "mainMemory (machine vm') = mem" "ipt vm' = (ipt vm)[nat k := t]" "swapFile vm' = swapFile vm"
      "bm vm' = b" "sfBM vm' = sb" "tlb (machine vm') = tlb (machine vm)" "past_tlb vm' = past_tlb vm"
      "pageTable (machine vm') = pageTable (machine vm)"
      "fifoQueue vm' = (if ChoiceOfReplacementPolicy vm = FIFO then fifoQueue vm @ [k] else fifoQueue vm)"
    unfolding vm' by (simp_all add: vm1_def)
  show ctl: "same_control vm' vm" unfolding vm' by (simp add: same_control_def vm1_def)
  have e': "pe_valid (?f e)" "pe_physicalPage (?f e) = k" by simp_all
  note L = load_abstract [where P = "page_of vm" and S' = "used sb", OF parts(4,5) U I e k sb(3) t mem e', folded pg]
  have "store_ok vm'"
    using parts(1) b sb ctl unfolding store_ok_def fields same_control_def by auto
  moreover have "fifo_ok vm'"
    using parts(3) ctl b(3) k by (auto simp: fifo_ok_def fields same_control_def)
  ultimately show "paging_ok vm'" using so L(1,2) by (simp add: paging_ok_def fields b(3))
  have other: "(ipt vm)[nat k := t] ! nat j = ipt vm ! nat j" if "0 \<le> j" "j \<noteq> k" for j
  proof -
    have "nat k \<noteq> nat j" using that k(1) by linarith
    then show ?thesis by simp
  qed
  show "ipt_exact vm'"
    unfolding ipt_exact_def fields b(3)
  proof (intro allI impI; elim conjE)
    fix j assume j: "0 \<le> j" "j < 4096" "ipt_valid ((ipt vm)[nat k := t] ! nat j)"
    then show "j \<in> insert k (used (bm vm))" using ex other [of j] by (cases "j = k") auto
  qed
  show "tlb_ok vm' q" if "tlb_ok vm q"
    unfolding tlb_ok_def fields b(3)
  proof (intro allI impI ballI)
    fix tl en assume "tlb (machine vm) = Some tl" "en \<in> set tl" "valid en"
    then have a: "sint (physicalPage en) \<in> used (bm vm)" "ipt_pid (ipt vm ! nat (sint (physicalPage en))) = q"
      "virtualPage en = word_of_int (ipt_virtualPage (ipt vm ! nat (sint (physicalPage en))))"
      using that unfolding tlb_ok_def by blast+
    then have "0 \<le> sint (physicalPage en)" "sint (physicalPage en) \<noteq> k" using U(1) k(3) by auto
    then show "sint (physicalPage en) \<in> insert k (used (bm vm)) \<and>
        ipt_pid ((ipt vm)[nat k := t] ! nat (sint (physicalPage en))) = q \<and>
        virtualPage en = word_of_int (ipt_virtualPage ((ipt vm)[nat k := t] ! nat (sint (physicalPage en))))"
      using a other by simp
  qed
  show "page_bytes vm' p w = Some bs" if "page_bytes vm p w = Some bs"
  proof (cases "p = pid \<and> w = v")
    case True
    then show ?thesis using that full L(4) by (simp add: page_bytes_def fields nl)
  next
    case False
    then show ?thesis using that L(3) [OF False] by (simp add: page_bytes_def fields nl)
  qed
  show "page_of vm' pid v = Some (?f e)" unfolding pg by (simp add: upd_def)
  show "ipt vm' ! nat k = t" using I k by (simp add: fields)
qed


section \<open>Page faults\<close>

definition ipt_entry :: "VM \<Rightarrow> int \<Rightarrow> nat \<Rightarrow> int \<Rightarrow> PageEntry \<Rightarrow> IPT" where
  "ipt_entry vm k v pid e =
     (ipt vm ! nat k)\<lparr>ipt_physicalPage := k, ipt_virtualPage := int v, ipt_valid := True,
        ipt_use := pe_use e, ipt_dirty := pe_dirty e, ipt_pid := pid\<rparr>"

lemma enter_ipt_ok:
  assumes as: "spaces vmA this = Some as" "v < length (as_pageTable as)" "as_pageTable as ! v = e"
    and k: "0 \<le> k" "k < 4096" "length (ipt vmA) = 4096"
  shows "enter_ipt this (int v) pid
      ((with_page this v (\<lambda>e. e\<lparr>pe_physicalPage := k\<rparr>) (vmA\<lparr>bm := b\<rparr>))\<lparr>
         machine := (machine vmA)\<lparr>mainMemory := mem\<rparr>, sfBM := sb\<rparr>) =
    Inr (paged_in this v k (ipt_entry vmA k v pid e) mem b sb vmA)"
  using assms
  by (simp add: enter_ipt_def page_entry_def set_page_def deref_def with_page_def array_get_def array_set_def
      paged_in_def ipt_entry_def)

text \<open>The two ways a page gets its contents, together: the frame holds what the page held before.\<close>

lemma load_page_ok:
  fixes vmA :: VM and v :: nat and b :: BitMap
  assumes A: "paging_ok vmA" and pA: "space_ptr vmA pid = Some this"
    and eA: "page_of vmA pid v = Some (e\<lparr>pe_physicalPage := p\<rparr>)" and e: "\<not> pe_valid e"
    and k: "0 \<le> k" "k < 4096"
  defines "vm1 \<equiv> with_page this v (\<lambda>e. e\<lparr>pe_physicalPage := k\<rparr>) (vmA\<lparr>bm := b\<rparr>)"
  obtains mem sb where
    "(if pe_status e \<noteq> 1 then load_executable this (int v) vm1 else load_swapped this (int v) vm1) =
       Inr (vm1\<lparr>machine := (machine vmA)\<lparr>mainMemory := mem\<rparr>, sfBM := sb\<rparr>)"
    "\<forall>i. \<not> (nat k * 128 \<le> i \<and> i < nat k * 128 + 128) \<longrightarrow> mem i = mainMemory (machine vmA) i"
    "\<forall>bs. page_bytes vmA pid v = Some bs \<longrightarrow> frame_bytes mem k = bs" "bm_wf sb" "numBits sb = 4096"
    "used (sfBM vmA) - {loc. 0 \<le> loc \<and> loc < 4096 \<and> swapped (e\<lparr>pe_physicalPage := p\<rparr>) \<and>
       pe_diskLocation (e\<lparr>pe_physicalPage := p\<rparr>) = swap_addr loc} \<subseteq> used sb"
    "used sb \<subseteq> used (sfBM vmA)"
proof -
  obtain as where as: "spaces vmA this = Some as" "v < length (as_pageTable as)"
      "as_pageTable as ! v = e\<lparr>pe_physicalPage := p\<rparr>"
    using page_ofE [OF eA] pA by (metis option.inject)
  have aok: "as_ok as" using A pA as(1) unfolding paging_ok_def spaces_ok_def by fastforce
  have st: "store_ok vmA" "swap_ok (page_of vmA) (used (sfBM vmA)) (length (swapFile vmA))"
    using A by (simp_all add: paging_ok_def)
  let ?as1 = "as\<lparr>as_pageTable := (as_pageTable as)[v := e\<lparr>pe_physicalPage := k\<rparr>]\<rparr>"
  have s1: "spaces vm1 this = Some ?as1" using as by (simp add: vm1_def with_page_def)
  have pe1: "page_entry this (int v) vm1 = Inr (e\<lparr>pe_physicalPage := k\<rparr>)"
    using as by (simp add: vm1_def page_entry_def deref_def with_page_def array_get_def)
  show ?thesis
  proof (cases "pe_status e = 1")
    case False
    have aok1: "as_ok ?as1" using aok as(2,3) by (auto simp: as_ok_def nth_list_update)
    have "v < length (as_pageTable ?as1)" "e\<lparr>pe_physicalPage := k\<rparr> = as_pageTable ?as1 ! v"
      "pe_status (e\<lparr>pe_physicalPage := k\<rparr>) \<noteq> 1" "pe_physicalPage (e\<lparr>pe_physicalPage := k\<rparr>) = k"
      using as(2) False by simp_all
    from load_executable_ok [OF s1 aok1 pe1 this(3,1,2,4) k(1,2)] obtain mem where
      mem: "load_executable this (int v) vm1 = Inr (vm1\<lparr>machine := (machine vm1)\<lparr>mainMemory := mem\<rparr>\<rparr>)"
        "\<forall>i. \<not> (nat k * 128 \<le> i \<and> i < nat k * 128 + 128) \<longrightarrow> mem i = mainMemory (machine vm1) i"
        "v < unat (codeandinitNumPages ?as1) \<longrightarrow> frame_bytes mem k = image ?as1 v (e\<lparr>pe_physicalPage := k\<rparr>)" .
    have same: "vm1\<lparr>machine := (machine vm1)\<lparr>mainMemory := mem\<rparr>\<rparr> =
        vm1\<lparr>machine := (machine vmA)\<lparr>mainMemory := mem\<rparr>, sfBM := sfBM vmA\<rparr>"
      by (simp add: vm1_def with_page_def)
    have "image as v (e\<lparr>pe_physicalPage := p\<rparr>) = image ?as1 v (e\<lparr>pe_physicalPage := k\<rparr>)"
      by (simp add: image_def)
    then have "frame_bytes mem k = bs" if "page_bytes vmA pid v = Some bs" for bs
      using that mem(3) False e as pA
      by (auto simp: page_bytes_def bytes_of_def eA never_loaded_def split: if_splits)
    then show ?thesis
      using that [of "sfBM vmA" mem] mem(1,2) False same st(1) by (simp add: store_ok_def vm1_def)
  next
    case True
    then have sw: "swapped (e\<lparr>pe_physicalPage := p\<rparr>)" using e by (simp add: swapped_def)
    then obtain loc where loc: "loc \<in> used (sfBM vmA)" "pe_diskLocation (e\<lparr>pe_physicalPage := p\<rparr>) = swap_addr loc"
        "(loc + 1) * 128 \<le> int (length (swapFile vmA))"
      using st(2) eA unfolding swap_ok_def by blast
    have sfb: "bm_wf (sfBM vmA)" "numBits (sfBM vmA) = 4096" using st(1) by (simp_all add: store_ok_def)
    have lr: "0 \<le> loc" "loc < 4096" using loc(1) used_subset [of "sfBM vmA"] sfb(2) by auto
    obtain sb where sb: "Clear (sfBM vmA) loc = Inr sb" "bm_wf sb" "numBits sb = 4096" "used sb = used (sfBM vmA) - {loc}"
      using Clear_used [OF sfb(1) lr(1)] lr(2) sfb(2) by metis
    have "pe_diskLocation (e\<lparr>pe_physicalPage := k\<rparr>) = swap_addr loc" "pe_physicalPage (e\<lparr>pe_physicalPage := k\<rparr>) = k"
      "(loc + 1) * 128 \<le> int (length (swapFile vm1))" "Clear (sfBM vm1) loc = Inr sb"
      using loc(2,3) sb(1) by (simp_all add: vm1_def)
    from load_swapped_ok [OF pe1 this(1) lr this(3,2) k(1,2) this(4)] obtain mem where
      mem: "load_swapped this (int v) vm1 = Inr (vm1\<lparr>machine := (machine vm1)\<lparr>mainMemory := mem\<rparr>, sfBM := sb\<rparr>)"
        "\<forall>i. \<not> (nat k * 128 \<le> i \<and> i < nat k * 128 + 128) \<longrightarrow> mem i = mainMemory (machine vm1) i"
        "frame_bytes mem k = take 128 (drop (unat (pe_diskLocation (e\<lparr>pe_physicalPage := k\<rparr>))) (swapFile vm1))" .
    have "frame_bytes mem k = bs" if "page_bytes vmA pid v = Some bs" for bs
      using that mem(3) True e by (simp add: page_bytes_def bytes_of_def eA vm1_def)
    moreover have "used (sfBM vmA) - {loc. 0 \<le> loc \<and> loc < 4096 \<and> swapped (e\<lparr>pe_physicalPage := p\<rparr>) \<and>
        pe_diskLocation (e\<lparr>pe_physicalPage := p\<rparr>) = swap_addr loc} \<subseteq> used sb"
      using sb(4) loc(2) sw lr by blast
    ultimately show ?thesis
      using that [of sb mem] mem(1,2) True sb(2-4) by (simp add: vm1_def)
  qed
qed

lemma updateIPT_ok:
  assumes ok: "paging_ok vm" "ipt_exact vm" and ptr: "space_ptr vm pid = Some this"
    and e: "page_of vm pid (unat vaddr div 128) = Some e" "\<not> pe_valid e"
    and room: "{0..<4096} \<subseteq> used (bm vm) \<longrightarrow> \<not> {0..<4096} \<subseteq> used (sfBM vm)" and rnd: "0 \<le> rnd"
    and lock: "IPTLock vm = None \<or> IPTLock vm = Some (currentThread vm)"
  obtains vm' k where "updateIPT rnd this vaddr pid vm = Inr vm'" "paging_ok vm'" "ipt_exact vm'"
    "\<forall>q. tlb_ok vm q \<longrightarrow> tlb_ok vm' q" "\<forall>q w bs. page_bytes vm q w = Some bs \<longrightarrow> page_bytes vm' q w = Some bs"
    "page_of vm' pid (unat vaddr div 128) = Some (e\<lparr>pe_physicalPage := k, pe_valid := True\<rparr>)"
    "same_control vm' (vm\<lparr>IPTLock := None\<rparr>)" "ipt_readOnly (ipt vm' ! nat k) = ipt_readOnly (ipt vm ! nat k)"
    "taken vm' \<le> Suc (taken vm)"
proof -
  let ?v = "unat vaddr div 128"
  define vm0 where "vm0 = vm\<lparr>IPTLock := Some (currentThread vm)\<rparr>"
  have acq: "IPTLock_Acquire vm = Inr vm0"
    using lock by (auto simp: IPTLock_Acquire_def vm0_def)
  have ok0: "paging_ok vm0" "ipt_exact vm0" "space_ptr vm0 pid = Some this" "page_of vm0 pid ?v = Some e"
    "{0..<4096} \<subseteq> used (bm vm0) \<longrightarrow> \<not> {0..<4096} \<subseteq> used (sfBM vm0)"
    using ok ptr e(1) room by (simp_all add: vm0_def)
  from new_frame_ok [OF ok0(1-4) e(2) ok0(5) rnd] obtain vmA k b where
    found: "frame_found vm0 pid ?v e vmA k b" and
    nf: "new_frame rnd this (int ?v) vm0 = Inr (with_page this ?v (\<lambda>e. e\<lparr>pe_physicalPage := k\<rparr>) (vmA\<lparr>bm := b\<rparr>))" .
  have A: "paging_ok vmA" "same_control vmA vm0" "ipt vmA = ipt vm0" "page_bytes vmA = page_bytes vm0"
      "\<forall>q. tlb_ok vm0 q \<longrightarrow> tlb_ok vmA q" "taken vmA = taken vm0"
    and b: "bm_wf b" "numBits b = 4096" "used b = insert k (used (bm vmA))"
    and k: "0 \<le> k" "k < 4096" "k \<notin> used (bm vmA)"
    and ex: "\<forall>j. 0 \<le> j \<and> j < 4096 \<and> ipt_valid (ipt vm0 ! nat j) \<longrightarrow> j \<in> insert k (used (bm vmA))"
    using found unfolding frame_found_def by blast+
  obtain p where eA: "page_of vmA pid ?v = Some (e\<lparr>pe_physicalPage := p\<rparr>)"
    using found unfolding frame_found_def by blast
  have pA: "space_ptr vmA pid = Some this" using same_control_ptr [OF A(2)] ok0(3) by simp
  obtain as where as: "spaces vmA this = Some as" "?v < length (as_pageTable as)"
      "as_pageTable as ! ?v = e\<lparr>pe_physicalPage := p\<rparr>"
    using page_ofE [OF eA] pA by (metis option.inject)
  have I: "length (ipt vmA) = 4096" using A(1) by (simp add: paging_ok_def store_ok_def)
  let ?vm1 = "with_page this ?v (\<lambda>e. e\<lparr>pe_physicalPage := k\<rparr>) (vmA\<lparr>bm := b\<rparr>)"
  let ?t = "ipt_entry vmA k ?v pid (e\<lparr>pe_physicalPage := p\<rparr>)"
  have nv: "\<not> pe_valid (e\<lparr>pe_physicalPage := p\<rparr>)" using e(2) by simp
  from load_page_ok [OF A(1) pA eA e(2) k(1,2)] obtain mem sb where
    ld: "(if pe_status e \<noteq> 1 then load_executable this (int ?v) ?vm1 else load_swapped this (int ?v) ?vm1) =
        Inr (?vm1\<lparr>machine := (machine vmA)\<lparr>mainMemory := mem\<rparr>, sfBM := sb\<rparr>)"
    and mem: "\<forall>i. \<not> (nat k * 128 \<le> i \<and> i < nat k * 128 + 128) \<longrightarrow> mem i = mainMemory (machine vmA) i"
      "\<forall>bs. page_bytes vmA pid ?v = Some bs \<longrightarrow> frame_bytes mem k = bs"
    and sb: "bm_wf sb" "numBits sb = 4096"
      "used (sfBM vmA) - {loc. 0 \<le> loc \<and> loc < 4096 \<and> swapped (e\<lparr>pe_physicalPage := p\<rparr>) \<and>
        pe_diskLocation (e\<lparr>pe_physicalPage := p\<rparr>) = swap_addr loc} \<subseteq> used sb"
      "used sb \<subseteq> used (sfBM vmA)" .
  define vm3 where "vm3 = paged_in this ?v k ?t mem b sb vmA"
  have t: "ipt_valid ?t" "ipt_pid ?t = pid" "ipt_virtualPage ?t = int ?v" by (simp_all add: ipt_entry_def)
  note fin = paged_in_ok [OF A(1) pA eA nv k b sb(1-3) t mem ex [folded A(3)], folded vm3_def]
  have rel: "IPTLock_Release vm3 = vm3\<lparr>IPTLock := None\<rparr>"
    using fin(6) A(2) by (simp add: IPTLock_Release_def same_control_def vm0_def)
  obtain as0 where as0: "spaces vm0 this = Some as0" "?v < length (as_pageTable as0)" "as_pageTable as0 ! ?v = e"
    using page_ofE [OF ok0(4)] ok0(3) by (metis option.inject)
  have "as_ok as0" using ok0(1,3) as0(1) unfolding paging_ok_def spaces_ok_def by fastforce
  then have "?v < unat (numPages as0)" using as0(2) by (simp add: as_ok_def)
  then have inb: "\<not> int ?v \<ge> uint (numPages as0)" by (simp only: uint_nat of_nat_le_iff not_le)
  have d0: "deref (spaces vm0) this = Inr as0" using as0(1) by (simp add: deref_def)
  have e0: "page_entry this (int ?v) vm0 = Inr e" by (rule page_entry_ok(1) [OF ok0(3,4)])
  have run: "updateIPT rnd this vaddr pid vm = Inr (vm3\<lparr>IPTLock := None\<rparr>)"
    unfolding updateIPT_def acq bindE_simps Let_def d0 if_not_P [OF inb] e0 nf ld
      enter_ipt_ok [OF as k(1,2) I] vm3_def [symmetric] rel ..
  show ?thesis
  proof (rule that [OF run])
    show "paging_ok (vm3\<lparr>IPTLock := None\<rparr>)" "ipt_exact (vm3\<lparr>IPTLock := None\<rparr>)" using fin(1,2) by simp_all
    show "\<forall>q. tlb_ok vm q \<longrightarrow> tlb_ok (vm3\<lparr>IPTLock := None\<rparr>) q" using fin(3) A(5) by (simp add: vm0_def)
    show "\<forall>q w bs. page_bytes vm q w = Some bs \<longrightarrow> page_bytes (vm3\<lparr>IPTLock := None\<rparr>) q w = Some bs"
      using fin(4) A(4) by (simp add: vm0_def)
    show "page_of (vm3\<lparr>IPTLock := None\<rparr>) pid ?v = Some (e\<lparr>pe_physicalPage := k, pe_valid := True\<rparr>)" using fin(5) by simp
    show "same_control (vm3\<lparr>IPTLock := None\<rparr>) (vm\<lparr>IPTLock := None\<rparr>)"
      using fin(6) A(2) by (simp add: same_control_def vm0_def)
    show "ipt_readOnly (ipt (vm3\<lparr>IPTLock := None\<rparr>) ! nat k) = ipt_readOnly (ipt vm ! nat k)"
      using fin(7) A(3) by (simp add: ipt_entry_def vm0_def)
    have "card (used sb) \<le> card (used (sfBM vmA))" by (rule card_mono [OF finite_used sb(4)])
    moreover have "card (used b) = Suc (card (used (bm vmA)))" using b(3) k(3) by simp
    moreover have "bm vm3 = b" "sfBM vm3 = sb" by (simp_all add: vm3_def paged_in_def)
    ultimately show "taken (vm3\<lparr>IPTLock := None\<rparr>) \<le> Suc (taken vm)"
      using A(6) by (simp add: taken_def vm0_def)
  qed
qed

end
