(* ===== verification/Nachos_PageFault.thy ===== *)
theory Nachos_PageFault
  imports Nachos_Paging
begin

text \<open>
  The page-fault handler (\<open>findIPTIndex\<close>, \<open>updateTLB\<close> of \<^verbatim>\<open>userprog/exception.cc\<close>) above the
  paging of \<open>Nachos_Paging\<close>, the TLB it fills, and the translation of the simulated machine that
  reads the TLB.
\<close>

section \<open>The search of the inverted page table\<close>

lemma current_ok_cong:
  "procs vm' = procs vm \<Longrightarrow> ProcessTable vm' = ProcessTable vm \<Longrightarrow> parentProcess vm' = parentProcess vm \<Longrightarrow>
   thread_space vm' = thread_space vm \<Longrightarrow> current_ok vm' pid = current_ok vm pid"
  using space_ptr_cong [of vm' vm] by (simp add: current_ok_def)

lemma vm_inv_parts:
  assumes "vm_inv vm pid"
  shows "paging_ok vm" "ipt_exact vm" "tlb_ok vm pid" "current_ok vm pid"
    "space_ptr vm pid = Some (thread_space vm)"
    "frames_ok (page_of vm) (ipt vm) (used (bm vm))" "length (ipt vm) = 4096" "used (bm vm) \<subseteq> {0..<4096}"
  using assms used_subset [of "bm vm"] by (auto simp: vm_inv_def current_ok_def paging_ok_def store_ok_def)

lemma vm_inv_lock [simp]: "vm_inv (vm\<lparr>IPTLock := x\<rparr>) pid = vm_inv vm pid"
  using current_ok_cong [of "vm\<lparr>IPTLock := x\<rparr>" vm pid] by (simp add: vm_inv_def)

definition lock_free :: "VM \<Rightarrow> bool" where
  "lock_free vm \<longleftrightarrow> IPTLock vm = None \<or> IPTLock vm = Some (currentThread vm)"

lemma acquire_release:
  assumes "lock_free vm"
  shows "IPTLock_Acquire vm = Inr (vm\<lparr>IPTLock := Some (currentThread vm)\<rparr>)"
    and "IPTLock_Release (vm\<lparr>IPTLock := Some (currentThread vm)\<rparr>) = vm\<lparr>IPTLock := None\<rparr>"
  using assms by (auto simp: lock_free_def IPTLock_Acquire_def IPTLock_Release_def)

text \<open>Under the invariant the search finds the frame of a resident page and nothing else.\<close>

lemma findIPTIndex_ok:
  assumes inv: "vm_inv vm pid" and lock: "lock_free vm" and e: "page_of vm pid v = Some e"
  shows "findIPTIndex (int v) vm = Inr (if pe_valid e then pe_physicalPage e else -1, vm\<lparr>IPTLock := None\<rparr>)"
proof -
  note i = vm_inv_parts [OF inv]
  obtain p where p: "procs vm (parentProcess vm) = Some p" "ProcessID p = pid"
    using i(4) by (auto simp: current_ok_def)
  let ?hit = "\<lambda>k. ipt_valid (ipt vm ! nat k) \<and> ipt_pid (ipt vm ! nat k) = pid \<and> ipt_virtualPage (ipt vm ! nat k) = int v"
  let ?P = "\<lambda>k. bindE (array_get (ipt vm) k) (\<lambda>t.
      Inr (ipt_valid t \<and> ipt_pid t = ProcessID p \<and> ipt_virtualPage t = int v))"
  have P: "\<forall>k. 0 \<le> k \<and> k < NumPhysPages \<longrightarrow> ?P k = Inr (?hit k)"
    using i(7) p(2) by (simp add: array_get_def)
  have hit: "?hit k \<longleftrightarrow> pe_valid e \<and> pe_physicalPage e = k" if "0 \<le> k" "k < 4096" for k
  proof
    assume h: "?hit k"
    then have "k \<in> used (bm vm)" using i(2) that unfolding ipt_exact_def by blast
    then show "pe_valid e \<and> pe_physicalPage e = k"
      using i(6) h e unfolding frames_ok_def by (metis of_nat_eq_iff option.inject)
  next
    assume "pe_valid e \<and> pe_physicalPage e = k"
    then show "?hit k" using i(6) e unfolding frames_ok_def by blast
  qed
  have frame: "0 \<le> pe_physicalPage e \<and> pe_physicalPage e < 4096" if "pe_valid e"
  proof -
    have "pe_physicalPage e \<in> used (bm vm)" using i(6) e that unfolding frames_ok_def by blast
    then show ?thesis using i(8) by auto
  qed
  have "search_from ?P NumPhysPages 0 = Inr (if pe_valid e then pe_physicalPage e else -1)"
    using search_from_spec [OF P] hit frame by (auto split: if_splits)
  then show ?thesis
    using p(1) by (simp add: findIPTIndex_def acquire_release [OF lock] deref_def)
qed

section \<open>Filling the TLB\<close>

lemma frame_word:
  assumes "0 \<le> k" "k < 4096"
  shows "sint (word_of_int k :: 32 word) = k" and "unat (word_of_int k :: 32 word) = nat k"
proof -
  have u: "uint (word_of_int k :: 32 word) = k" by (rule word_of_int_inverse [OF refl]) (use assms in simp_all)
  show "sint (word_of_int k :: 32 word) = k"
    unfolding sint_uint u using assms by (simp add: signed_take_bit_int_eq_self)
  have "int (unat (word_of_int k :: 32 word)) = int (nat k)" using u assms by simp
  then show "unat (word_of_int k :: 32 word) = nat k" by (simp only: of_nat_eq_iff)
qed

lemma addTLB_ok:
  assumes inv: "vm_inv vm pid" and e: "page_of vm pid v = Some e" "pe_valid e"
    and count: "0 \<le> TLBCounter vm" "TLBCounter vm < 2 ^ 31 - 1"
  obtains vm' t en where "addTLB (pe_physicalPage e) vm = Inr vm'" "vm_inv vm' pid"
    "tlb (machine vm') = Some t" "en \<in> set t" "valid en" "virtualPage en = word_of_int (int v)"
    "page_of vm' = page_of vm" "page_bytes vm' = page_bytes vm"
    "vm' = vm\<lparr>machine := (machine vm)\<lparr>tlb := Some t\<rparr>, TLBCounter := TLBCounter vm + 1\<rparr>"
proof -
  note i = vm_inv_parts [OF inv]
  let ?k = "pe_physicalPage e"
  have hit: "?k \<in> used (bm vm)" "ipt_valid (ipt vm ! nat ?k)" "ipt_pid (ipt vm ! nat ?k) = pid"
    "ipt_virtualPage (ipt vm ! nat ?k) = int v"
    using i(6) e unfolding frames_ok_def by blast+
  have k: "0 \<le> ?k" "?k < 4096" using hit(1) i(8) by auto
  obtain t0 x where t0: "tlb (machine vm) = Some t0" "length t0 = 4" "pageTable (machine vm) = None" "past_tlb vm = Some x"
    using i(1) by (auto simp: paging_ok_def store_ok_def)
  let ?c = "TLBCounter vm smod TLBSize"
  have c: "0 \<le> ?c" "?c < 4" using count(1) by (simp_all add: smod_nonneg_eq)
  let ?en = "\<lparr>virtualPage = word_of_int (int v), physicalPage = word_of_int ?k, valid = True,
      readOnly = ipt_readOnly (ipt vm ! nat ?k), te_use = ipt_use (ipt vm ! nat ?k), dirty = ipt_dirty (ipt vm ! nat ?k)\<rparr>"
  let ?t = "t0[nat ?c := ?en]"
  let ?vm' = "vm\<lparr>machine := (machine vm)\<lparr>tlb := Some ?t\<rparr>, TLBCounter := TLBCounter vm + 1\<rparr>"
  have get: "array_get (ipt vm) ?k = Inr (ipt vm ! nat ?k)" using k i(7) by (simp add: array_get_def)
  have set: "array_set t0 ?c ?en = Inr ?t" using c t0(2) by (simp add: array_set_def)
  have run: "addTLB ?k vm = Inr ?vm'"
    unfolding addTLB_def get bindE_simps Let_def hit(4) t0(1) option.case if_P [OF count(2)]
    using set hit(2) by simp
  have ptr: "space_ptr ?vm' = space_ptr vm" by (rule space_ptr_cong) simp_all
  have pg: "page_of ?vm' = page_of vm" by (rule page_of_cong [OF ptr]) simp
  have so: "spaces_ok ?vm' = spaces_ok vm" by (rule spaces_ok_cong [OF ptr]) simp
  have nl: "never_loaded ?vm' = never_loaded vm" by (rule never_loaded_cong [OF ptr]) simp
  have co: "current_ok ?vm' pid" using current_ok_cong [of ?vm' vm pid] i(4) by simp
  have po: "paging_ok ?vm'"
    using i(1) so pg t0 by (auto simp: paging_ok_def store_ok_def fifo_ok_def)
  have "tlb_ok ?vm' pid"
    unfolding tlb_ok_def
  proof (intro allI impI ballI)
    fix t en assume "tlb (machine ?vm') = Some t" "en \<in> set t" "valid en"
    then consider "en = ?en" | "en \<in> set t0" using set_update_subset_insert [of t0 "nat ?c" ?en] by auto
    then show "sint (physicalPage en) \<in> used (bm ?vm') \<and> ipt_pid (ipt ?vm' ! nat (sint (physicalPage en))) = pid \<and>
        virtualPage en = word_of_int (ipt_virtualPage (ipt ?vm' ! nat (sint (physicalPage en))))"
    proof cases
      case 1
      then show ?thesis using frame_word(1) [OF k] hit by simp
    next
      case 2
      then show ?thesis using i(3) t0(1) \<open>valid en\<close> by (simp add: tlb_ok_def)
    qed
  qed
  then have inv': "vm_inv ?vm' pid" using i(2) po co by (simp add: vm_inv_def ipt_exact_def)
  have mem: "?en \<in> set ?t" by (rule set_update_memI) (use c t0(2) in simp)
  have pb: "page_bytes ?vm' = page_bytes vm" unfolding page_bytes_def pg nl by simp
  have tl: "tlb (machine ?vm') = Some ?t" by simp
  show ?thesis by (rule that [OF run inv' tl mem _ _ pg pb refl]) simp_all
qed

section \<open>Translation under the invariant\<close>

lemma vm_inv_mach_ok: "vm_inv vm pid \<Longrightarrow> mach_ok (machine vm)"
  by (auto simp: vm_inv_def paging_ok_def store_ok_def mach_ok_def)

lemma page_number_small:
  assumes "paging_ok vm" "page_of vm pid v = Some e"
  shows "v < 2 ^ 32" and "unat (word_of_int (int v) :: 32 word) = v"
proof -
  obtain s as where s: "space_ptr vm pid = Some s" "spaces vm s = Some as" "v < length (as_pageTable as)"
    by (rule page_ofE [OF assms(2)])
  then have "as_ok as" using assms(1) unfolding paging_ok_def spaces_ok_def by fastforce
  then have "v < unat (numPages as)" using s(3) by (simp add: as_ok_def)
  then show "v < 2 ^ 32" using unsigned_less [of "numPages as", where ?'a = nat] by simp
  then show "unat (word_of_int (int v) :: 32 word) = v" by (simp add: unat_of_nat)
qed

text \<open>A valid TLB entry names the frame of the running process's own page.\<close>

lemma tlb_entry_page:
  assumes inv: "vm_inv vm pid" and en: "tlb (machine vm) = Some t" "en \<in> set t" "valid en"
  obtains d where "page_of vm pid (unat (virtualPage en)) = Some d" "pe_valid d"
    "pe_physicalPage d = int (unat (physicalPage en))" "unat (physicalPage en) < 4096"
proof -
  note i = vm_inv_parts [OF inv]
  let ?k = "sint (physicalPage en)"
  have k: "?k \<in> used (bm vm)" "ipt_pid (ipt vm ! nat ?k) = pid"
    "virtualPage en = word_of_int (ipt_virtualPage (ipt vm ! nat ?k))"
    using i(3) en unfolding tlb_ok_def by blast+
  obtain v d where d: "ipt_virtualPage (ipt vm ! nat ?k) = int v" "page_of vm pid v = Some d" "pe_valid d"
    "pe_physicalPage d = ?k"
    using i(6) k(1,2) unfolding frames_ok_def by blast
  have r: "0 \<le> ?k" "?k < 4096" using k(1) i(8) by auto
  have v: "unat (virtualPage en) = v" using page_number_small(2) [OF i(1) d(2)] k(3) d(1) by simp
  have "physicalPage en = word_of_int ?k" by simp
  then have "unat (physicalPage en) = nat ?k" using frame_word(2) [OF r] by simp
  then show ?thesis using that [of d] d v r by simp
qed

lemma frame_byte: "i < 128 \<Longrightarrow> 0 \<le> k \<Longrightarrow> frame_bytes mem k ! i = mem (nat k * 128 + i)"
  by (simp add: frame_bytes_def)


text \<open>
  A translation that succeeds for the running process reaches the frame of its own page, and the
  byte found there is the byte of that page.
\<close>

lemma translated_own_page:
  assumes inv: "vm_inv vm pid" and tr: "translated (machine vm) va sz w pa m'"
  obtains d where "page_of vm pid (unat va div 128) = Some d" "pe_valid d"
    "pa = pe_physicalPage d * 128 + int (unat va mod 128)" "0 \<le> pe_physicalPage d"
    "page_bytes vm pid (unat va div 128) = Some (frame_bytes (mainMemory (machine vm)) (pe_physicalPage d))"
proof -
  obtain t x where t: "tlb (machine vm) = Some t" "pageTable (machine vm) = None"
    using inv by (auto simp: vm_inv_def paging_ok_def store_ok_def)
  obtain kind i e where e: "i < length (table_of (machine vm) kind)" "table_of (machine vm) kind ! i = e" "valid e"
    "kind = In_TLB \<longrightarrow> unat (virtualPage e) = unat va div 128"
    "pa = int (unat (physicalPage e)) * 128 + int (unat va mod 128)"
    using tr unfolding translated_def by blast
  have kind: "kind = In_TLB" using e(1) t(2) by (cases kind) (simp_all add: table_of_def)
  then have "e \<in> set t" using e(1,2) t(1) by (auto simp: table_of_def)
  from tlb_entry_page [OF inv t(1) this e(3)] obtain d where
    d: "page_of vm pid (unat (virtualPage e)) = Some d" "pe_valid d" "pe_physicalPage d = int (unat (physicalPage e))" .
  show ?thesis
    using that [of d] d e(4,5) kind by (simp add: page_bytes_def bytes_of_def)
qed

lemma translated_own_byte:
  assumes "vm_inv vm pid" "translated (machine vm) va sz w pa m'"
  shows "\<forall>bytes. page_bytes vm pid (unat va div 128) = Some bytes \<longrightarrow>
    mainMemory (machine vm) (nat pa) = bytes ! (unat va mod 128)"
proof -
  from translated_own_page [OF assms] obtain d where d: "page_of vm pid (unat va div 128) = Some d" "pe_valid d"
    "pa = pe_physicalPage d * 128 + int (unat va mod 128)" "0 \<le> pe_physicalPage d"
    "page_bytes vm pid (unat va div 128) = Some (frame_bytes (mainMemory (machine vm)) (pe_physicalPage d))" .
  define r where "r = unat va mod 128"
  have r: "r < 128" by (simp add: r_def)
  have "nat pa = nat (pe_physicalPage d) * 128 + r"
    unfolding d(3) r_def [symmetric] using d(4) by (simp add: nat_add_distrib nat_mult_distrib)
  then show ?thesis
    using frame_byte [OF r d(4), of "mainMemory (machine vm)"] d(5) by (simp add: r_def [symmetric])
qed

lemma tlb_hit_translates:
  assumes inv: "vm_inv vm pid" and en: "tlb (machine vm) = Some t" "en \<in> set t" "valid en"
    "virtualPage en = word_of_int (int (unat va div 128))"
    and page: "page_of vm pid (unat va div 128) = Some d"
    and sz: "sz \<in> {1, 2, 4}" "\<not> misaligned va sz"
  obtains pa m' where "Translate (machine vm) va sz False = Inr (NoException, pa, m')"
    "translated (machine vm) va sz False pa m'"
proof -
  have ok: "mach_ok (machine vm)" by (rule vm_inv_mach_ok [OF inv])
  have len: "length t = 4" "pageTable (machine vm) = None" using inv en(1)
    by (auto simp: vm_inv_def paging_ok_def store_ok_def)
  have "unat (virtualPage en) = unat va div 128"
    using page_number_small(2) [OF _ page] vm_inv_parts(1) [OF inv] en(4) by simp
  then have "tlb_search t (unat va div 128) 0 \<noteq> None" using en(2,3) by (auto simp: tlb_search_None)
  then obtain i where i: "tlb_search t (unat va div 128) 0 = Some i" by blast
  have fe: "find_entry (machine vm) (unat va div 128) = Inr (Inr (In_TLB, i, t ! i))"
    using i len en(1) by (simp add: find_entry_def)
  have ti: "t ! i \<in> set t" "valid (t ! i)" using tlb_search_Some [OF i] by simp_all
  from tlb_entry_page [OF inv en(1) ti] have "unat (physicalPage (t ! i)) < 4096" by blast
  then have small: "\<not> 4096 \<le> int (unat (physicalPage (t ! i)))" by linarith
  have al: "\<not> (sz = 4 \<and> va AND 3 \<noteq> 0 \<or> sz = 2 \<and> va AND 1 \<noteq> 0)"
    using sz(2) unfolding aligned_iff [OF sz(1)] .
  show ?thesis
    using ok sz(1)
  proof (cases rule: Translate_cases [of "machine vm" sz va False])
    case (refused exc)
    have "Translate (machine vm) va sz False \<noteq> Inr (exc, 0, machine vm)"
      unfolding Translate_def if_not_P [OF al] Let_def fe using refused(2) small
      by (auto simp: bindE_def ASSERT_def)
    then show ?thesis using refused(1) by contradiction
  next
    case (success pa m')
    then show ?thesis using that by blast
  qed
qed

section \<open>Properties\<close>

text \<open>
  C4. Page-in is transparent. When a process faults on a page that is not resident, \<open>updateIPT\<close>
  succeeds as long as memory or the swap file has room, whichever replacement policy is in force: it
  keeps the invariant of the virtual memory (frames, page tables, inverted page table, swap slots,
  FIFO queue and TLB agree), makes the page resident, releases the lock, and the contents of every
  page of every process that had contents are the same as before, wherever the page was and is,
  including the page that was evicted.
\<close>

theorem updateIPT_transparent:
  assumes "vm_inv vm pid" "lock_free vm" "0 \<le> rnd"
    and "page_of vm pid (unat vaddr div 128) = Some e" "\<not> pe_valid e"
    and "\<not> {0..<NumPhysPages} \<subseteq> used (bm vm) \<or> \<not> {0..<4096} \<subseteq> used (sfBM vm)"
  shows "\<exists>vm'. updateIPT rnd (thread_space vm) vaddr pid vm = Inr vm' \<and> vm_inv vm' pid \<and> IPTLock vm' = None \<and>
    (\<exists>k. page_of vm' pid (unat vaddr div 128) = Some (e\<lparr>pe_physicalPage := k, pe_valid := True\<rparr>)) \<and>
    (\<forall>q v bytes. page_bytes vm q v = Some bytes \<longrightarrow> page_bytes vm' q v = Some bytes)"
proof -
  note i = vm_inv_parts [OF assms(1)]
  have room: "{0..<4096} \<subseteq> used (bm vm) \<longrightarrow> \<not> {0..<4096} \<subseteq> used (sfBM vm)" using assms(6) by blast
  from updateIPT_ok [OF i(1,2,5) assms(4,5) room assms(3) assms(2) [unfolded lock_free_def]]
  obtain vm' k where r: "updateIPT rnd (thread_space vm) vaddr pid vm = Inr vm'" "paging_ok vm'" "ipt_exact vm'"
    "\<forall>q. tlb_ok vm q \<longrightarrow> tlb_ok vm' q" "\<forall>q w bs. page_bytes vm q w = Some bs \<longrightarrow> page_bytes vm' q w = Some bs"
    "page_of vm' pid (unat vaddr div 128) = Some (e\<lparr>pe_physicalPage := k, pe_valid := True\<rparr>)"
    "same_control vm' (vm\<lparr>IPTLock := None\<rparr>)" "ipt_readOnly (ipt vm' ! nat k) = ipt_readOnly (ipt vm ! nat k)"
    "taken vm' \<le> Suc (taken vm)" .
  have "current_ok vm' pid"
    using current_ok_cong [of vm' vm pid] r(7) i(4) by (simp add: same_control_def)
  then have "vm_inv vm' pid" using r(2-4) i(3) by (simp add: vm_inv_def)
  moreover have "IPTLock vm' = None" using r(7) by (simp add: same_control_def)
  ultimately show ?thesis using r(1,5,6) by blast
qed


text \<open>
  A machine just started, with one process (number 0) whose executable has four bytes of code and
  whose only page has not been loaded.
\<close>

definition idle_entry :: TranslationEntry where
  "idle_entry = \<lparr>virtualPage = 0, physicalPage = 0, valid = False, readOnly = False, te_use = False, dirty = False\<rparr>"

definition idle_ipt :: "IPT list" where
  "idle_ipt = replicate 4096 \<lparr>ipt_virtualPage = 0, ipt_physicalPage = 0, ipt_valid = False, ipt_readOnly = False,
     ipt_use = False, ipt_dirty = False, ipt_pid = 0\<rparr>"

definition free_map :: BitMap where
  "free_map = \<lparr>numBits = 4096, numWords = 128, bmap = replicate 128 0\<rparr>"

definition one_page :: PageEntry where
  "one_page = \<lparr>pe_virtualPage = 0, pe_physicalPage = 0, pe_valid = False, pe_readOnly = False, pe_use = False,
     pe_dirty = False, pe_pid = 0, pe_status = 0, pe_diskLocation = 0\<rparr>"

definition one_space :: AddrSpace where
  "one_space = \<lparr>as_exec = [1, 2, 3, 4], fileTable = \<lparr>tmap = \<lparr>numBits = 0, numWords = 0, bmap = []\<rparr>, ttable = [], tsize = 0\<rparr>,
     as_pageTable = [one_page], numPages = 1, firstThreadStartVPN = 1, codeandinitNumPages = 1, codeandinitDataSize = 4\<rparr>"

definition one_process :: VM where
  "one_process = \<lparr>machine = Machine_new False True 0 (replicate 4 idle_entry), past_tlb = Some idle_entry,
     ipt = idle_ipt, bm = free_map, sfBM = free_map, swapFile = [], fifoQueue = [], TLBCounter = 0,
     ChoiceOfReplacementPolicy = FIFO,
     ProcessTable = \<lparr>tmap = \<lparr>numBits = 1, numWords = 1, bmap = [1]\<rparr>, ttable = [Some 0], tsize = 1\<rparr>,
     procs = [0 \<mapsto> \<lparr>PName = [], ProcessID = 0, addrSpace = 0, MainThread = None,
       ChildThread = \<lparr>tmap = \<lparr>numBits = 0, numWords = 0, bmap = []\<rparr>, ttable = [], tsize = 0\<rparr>, ChildThreadCounter = 1\<rparr>],
     spaces = [0 \<mapsto> one_space], IPTLock = None, currentThread = 0, parentProcess = 0, thread_space = 0\<rparr>"

lemma free_map_simps [simp]: "bm_wf free_map" "numBits free_map = 4096" "used free_map = {}"
proof -
  show "bm_wf free_map" by (simp add: free_map_def bm_wf_def divRoundUp_def sdiv_nonneg_eq smod_nonneg_eq)
  show "numBits free_map = 4096" by (simp add: free_map_def)
  have "\<not> bit (replicate 128 (0 :: 32 word) ! nat (i div 32)) n" if "0 \<le> i" "i < 4096" for i :: int and n
  proof -
    have "nat (i div 32) < 128" using that by linarith
    then show ?thesis by simp
  qed
  then show "used free_map = {}" by (auto simp: used_def free_map_def)
qed

lemma one_process_space: "space_ptr one_process q = (if q = 0 then Some 0 else None)"
proof -
  have "used \<lparr>numBits = 1, numWords = 1, bmap = [1]\<rparr> = {0}"
  proof -
    have "i = 0" if "0 \<le> i" "i < 1" for i :: int using that by simp
    then show ?thesis by (auto simp: used_def)
  qed
  then show ?thesis by (simp add: space_ptr_def table_map_def one_process_def)
qed

lemma one_process_page: "page_of one_process q v = (if q = 0 \<and> v = 0 then Some one_page else None)"
  using one_process_space [of q] by (simp add: page_of_def) (simp add: one_process_def one_space_def)

lemma one_process_inv: "vm_inv one_process 0"
proof -
  have I: "length idle_ipt = 4096" "\<And>k. k < 4096 \<Longrightarrow> \<not> ipt_valid (idle_ipt ! k)"
    by (simp_all add: idle_ipt_def)
  have ub: "used (bm one_process) = {}" by (simp add: one_process_def)
  have F: "frames_ok (page_of one_process) (ipt one_process) (used (bm one_process))"
    unfolding ub by (auto simp: frames_ok_def one_process_page one_page_def split: if_splits)
  have S: "swap_ok (page_of one_process) (used (sfBM one_process)) (length (swapFile one_process))"
    by (auto simp: swap_ok_def one_process_page one_page_def swapped_def split: if_splits)
  have "as_ok one_space"
    by (simp add: as_ok_def one_space_def one_page_def udivRoundUp_def)
  then have SP: "spaces_ok one_process"
    by (auto simp: spaces_ok_def one_process_space split: if_splits) (simp add: one_process_def)
  have pt: "bm_wf \<lparr>numBits = 1, numWords = 1, bmap = [1]\<rparr>"
    by (simp add: bm_wf_def divRoundUp_def sdiv_nonneg_eq smod_nonneg_eq)
  have ST: "store_ok one_process"
    using I(1) pt by (simp add: store_ok_def one_process_def Machine_new_def table_wf_def)
  have X: "ipt_exact one_process" using I(2) by (auto simp: ipt_exact_def one_process_def)
  have T: "tlb_ok one_process 0" by (auto simp: tlb_ok_def one_process_def Machine_new_def idle_entry_def)
  have C: "current_ok one_process 0"
    using one_process_space [of 0] by (simp add: current_ok_def one_process_def)
  have FF: "fifo_ok one_process" by (simp add: fifo_ok_def one_process_def)
  show ?thesis using F S SP ST X T C FF by (simp add: vm_inv_def paging_ok_def)
qed

theorem updateIPT_transparent_witness:
  "vm_inv one_process 0 \<and>
   (\<exists>vm' k. updateIPT 0 0 5 0 one_process = Inr vm' \<and> vm_inv vm' 0 \<and> page_bytes vm' 0 0 = page_bytes one_process 0 0 \<and>
     page_of vm' 0 0 = Some (one_page\<lparr>pe_physicalPage := k, pe_valid := True\<rparr>))"
proof -
  have p: "page_of one_process 0 (unat (5 :: 32 word) div 128) = Some one_page" by (simp add: one_process_page)
  have nv: "\<not> pe_valid one_page" by (simp add: one_page_def)
  have l: "lock_free one_process" "thread_space one_process = 0" by (simp_all add: lock_free_def one_process_def)
  have room: "\<not> {0..<NumPhysPages} \<subseteq> used (bm one_process) \<or> \<not> {0..<4096} \<subseteq> used (sfBM one_process)"
    by (simp add: one_process_def)
  obtain bytes where b: "page_bytes one_process 0 0 = Some bytes"
    using one_process_space [of 0]
    by (simp add: page_bytes_def bytes_of_def one_process_page one_page_def never_loaded_def)
      (simp add: one_process_def one_space_def)
  from updateIPT_transparent [OF one_process_inv l(1) _ p nv room, of 0] show ?thesis
    using b one_process_inv l(2) by auto
qed


text \<open>After the first page has been brought in, a translation succeeds; used as a concrete state below.\<close>

lemma one_process_running:
  obtains vm pa m where "vm_inv vm 0" "Translate (machine vm) 2 1 False = Inr (NoException, pa, m)"
proof -
  have l: "IPTLock one_process = None \<or> IPTLock one_process = Some (currentThread one_process)"
    "0 \<le> TLBCounter one_process" "TLBCounter one_process < 2 ^ 31 - 1"
    by (simp_all add: one_process_def)
  have room: "{0..<4096} \<subseteq> used (bm one_process) \<longrightarrow> \<not> {0..<4096} \<subseteq> used (sfBM one_process)"
    by (simp add: one_process_def)
  have nv: "\<not> pe_valid one_page" by (simp add: one_page_def)
  have p: "page_of one_process 0 (unat (2 :: 32 word) div 128) = Some one_page" by (simp add: one_process_page)
  note i = vm_inv_parts [OF one_process_inv]
  from updateIPT_ok [OF i(1,2,5) p nv room order_refl l(1)] obtain vm1 k where
    r: "paging_ok vm1" "ipt_exact vm1" "\<forall>q. tlb_ok one_process q \<longrightarrow> tlb_ok vm1 q"
    "page_of vm1 0 (unat (2 :: 32 word) div 128) = Some (one_page\<lparr>pe_physicalPage := k, pe_valid := True\<rparr>)"
    "same_control vm1 (one_process\<lparr>IPTLock := None\<rparr>)" by metis
  have c: "current_ok vm1 0"
    using current_ok_cong [of vm1 one_process 0] r(5) i(4) by (simp add: same_control_def)
  have i1: "vm_inv vm1 0" using r(1-3) i(3) c by (simp add: vm_inv_def)
  have t1: "0 \<le> TLBCounter vm1" "TLBCounter vm1 < 2 ^ 31 - 1" using r(5) l(2,3) by (simp_all add: same_control_def)
  have v1: "pe_valid (one_page\<lparr>pe_physicalPage := k, pe_valid := True\<rparr>)" by simp
  from addTLB_ok [OF i1 r(4) v1 t1] obtain vm2 t en where
    a: "vm_inv vm2 0" "tlb (machine vm2) = Some t" "en \<in> set t" "valid en"
    "virtualPage en = word_of_int (int (unat (2 :: 32 word) div 128))" "page_of vm2 = page_of vm1" by metis
  have sz: "(1 :: int) \<in> {1, 2, 4}" "\<not> misaligned 2 1" by (simp_all add: misaligned_def)
  have "page_of vm2 0 (unat (2 :: 32 word) div 128) = Some (one_page\<lparr>pe_physicalPage := k, pe_valid := True\<rparr>)"
    using a(6) r(4) by simp
  from tlb_hit_translates [OF a(1-5) this sz] show ?thesis using that a(1) by blast
qed

text \<open>A fault on a resident page enters it into the TLB, and then the address translates.\<close>

lemma fault_enters_tlb:
  assumes inv: "vm_inv vm pid" and lock: "lock_free vm"
    and page: "page_of vm pid (unat va div 128) = Some d" "pe_valid d"
    and count: "0 \<le> TLBCounter vm" "TLBCounter vm < 2 ^ 31 - 1"
    and sz: "sz \<in> {1, 2, 4}" "\<not> misaligned va sz"
  obtains vm2 pa m t where "updateTLB rnd va vm = Inr vm2" "vm_inv vm2 pid" "page_bytes vm2 = page_bytes vm"
    "Translate (machine vm2) va sz False = Inr (NoException, pa, m)" "translated (machine vm2) va sz False pa m"
    "vm2 = vm\<lparr>IPTLock := None, machine := (machine vm)\<lparr>tlb := Some t\<rparr>, TLBCounter := TLBCounter vm + 1\<rparr>"
proof -
  let ?v = "unat va div 128" and ?u = "vm\<lparr>IPTLock := None\<rparr>"
  have iu: "vm_inv ?u pid" "page_of ?u pid ?v = Some d" "0 \<le> TLBCounter ?u" "TLBCounter ?u < 2 ^ 31 - 1"
    using assms by simp_all
  obtain p where p: "procs vm (parentProcess vm) = Some p" "ProcessID p = pid"
    using vm_inv_parts(4) [OF inv] by (auto simp: current_ok_def)
  have "pe_physicalPage d \<in> used (bm vm)"
    using vm_inv_parts(6) [OF inv] page unfolding frames_ok_def by blast
  then have "pe_physicalPage d \<noteq> -1" using vm_inv_parts(8) [OF inv] by auto
  then have run: "updateTLB rnd va vm = addTLB (pe_physicalPage d) ?u"
    using findIPTIndex_ok [OF inv lock page(1)] page(2) p by (simp add: updateTLB_def deref_def)
  from addTLB_ok [OF iu(1,2) page(2) iu(3,4)] obtain vm2 t en where
    a: "addTLB (pe_physicalPage d) ?u = Inr vm2" "vm_inv vm2 pid" "tlb (machine vm2) = Some t" "en \<in> set t" "valid en"
    "virtualPage en = word_of_int (int ?v)" "page_of vm2 = page_of ?u" "page_bytes vm2 = page_bytes ?u"
    "vm2 = ?u\<lparr>machine := (machine ?u)\<lparr>tlb := Some t\<rparr>, TLBCounter := TLBCounter ?u + 1\<rparr>" .
  have "page_of vm2 pid ?v = Some d" using a(7) page(1) by simp
  from tlb_hit_translates [OF a(2-6) this sz] obtain pa m where
    tr: "Translate (machine vm2) va sz False = Inr (NoException, pa, m)" "translated (machine vm2) va sz False pa m" .
  have "page_bytes vm2 = page_bytes vm" using a(8) by simp
  moreover have "vm2 = vm\<lparr>IPTLock := None, machine := (machine vm)\<lparr>tlb := Some t\<rparr>, TLBCounter := TLBCounter vm + 1\<rparr>"
    using a(9) by simp
  ultimately show ?thesis using that [OF _ a(2) _ tr] run a(1) by simp
qed

text \<open>A fault on a page that is not resident brings it in.\<close>

lemma fault_loads_page:
  assumes inv: "vm_inv vm pid" and lock: "lock_free vm" and rnd: "0 \<le> rnd"
    and page: "page_of vm pid (unat va div 128) = Some e" "\<not> pe_valid e"
    and room: "\<not> {0..<NumPhysPages} \<subseteq> used (bm vm) \<or> \<not> {0..<4096} \<subseteq> used (sfBM vm)"
  obtains vm1 d where "updateTLB rnd va vm = Inr vm1" "vm_inv vm1 pid" "lock_free vm1" "TLBCounter vm1 = TLBCounter vm"
    "page_of vm1 pid (unat va div 128) = Some d" "pe_valid d"
    "\<forall>q w bs. page_bytes vm q w = Some bs \<longrightarrow> page_bytes vm1 q w = Some bs" "taken vm1 \<le> Suc (taken vm)"
    "same_control vm1 (vm\<lparr>IPTLock := None\<rparr>)"
proof -
  let ?v = "unat va div 128" and ?u = "vm\<lparr>IPTLock := None\<rparr>"
  obtain p where p: "procs vm (parentProcess vm) = Some p" "ProcessID p = pid"
    using vm_inv_parts(4) [OF inv] by (auto simp: current_ok_def)
  have run: "updateTLB rnd va vm = updateIPT rnd (thread_space ?u) va pid ?u"
    using findIPTIndex_ok [OF inv lock page(1)] page(2) p by (simp add: updateTLB_def deref_def)
  have room': "{0..<4096} \<subseteq> used (bm ?u) \<longrightarrow> \<not> {0..<4096} \<subseteq> used (sfBM ?u)" using room by simp
  have iu: "paging_ok ?u" "ipt_exact ?u" "space_ptr ?u pid = Some (thread_space ?u)" "page_of ?u pid ?v = Some e"
    "IPTLock ?u = None \<or> IPTLock ?u = Some (currentThread ?u)" "tlb_ok ?u pid"
    using vm_inv_parts [OF inv] page by simp_all
  from updateIPT_ok [OF iu(1-4) page(2) room' rnd iu(5)] obtain vm1 k where
    r: "updateIPT rnd (thread_space ?u) va pid ?u = Inr vm1" "paging_ok vm1" "ipt_exact vm1"
    "\<forall>q. tlb_ok ?u q \<longrightarrow> tlb_ok vm1 q" "\<forall>q w bs. page_bytes ?u q w = Some bs \<longrightarrow> page_bytes vm1 q w = Some bs"
    "page_of vm1 pid ?v = Some (e\<lparr>pe_physicalPage := k, pe_valid := True\<rparr>)"
    "same_control vm1 (?u\<lparr>IPTLock := None\<rparr>)" "ipt_readOnly (ipt vm1 ! nat k) = ipt_readOnly (ipt ?u ! nat k)"
    "taken vm1 \<le> Suc (taken ?u)" .
  have c: "current_ok vm1 pid"
    using current_ok_cong [of vm1 vm pid] r(7) vm_inv_parts(4) [OF inv] by (simp add: same_control_def)
  have i1: "vm_inv vm1 pid" using r(2-4) iu(6) c by (simp add: vm_inv_def)
  have l1: "lock_free vm1" "TLBCounter vm1 = TLBCounter vm"
    using r(7) by (simp_all add: lock_free_def same_control_def)
  have sc: "same_control vm1 ?u" using r(7) by simp
  have tk: "taken vm1 \<le> Suc (taken vm)" using r(9) by (simp add: taken_def)
  have keep: "\<forall>q w bs. page_bytes vm q w = Some bs \<longrightarrow> page_bytes vm1 q w = Some bs" using r(5) by simp
  have go: "updateTLB rnd va vm = Inr vm1" using run r(1) by (rule trans)
  show ?thesis by (rule that [OF go i1 l1 r(6) _ keep tk sc]) simp
qed

text \<open>
  C5. Page faults are served. If the running process faults on an address of one of its pages, then
  after one call of the handler \<open>updateTLB\<close>, or a second one when the page had to be brought in
  first, a read at that address translates without an exception, and the byte it reaches is the byte
  the page held before the fault; the invariant still holds and no page of any process has changed.
\<close>

theorem page_fault_served:
  assumes inv: "vm_inv vm pid" and lock: "lock_free vm" and rnd: "0 \<le> rnd"
    and page: "page_of vm pid (unat va div 128) = Some e"
    and room: "\<not> {0..<NumPhysPages} \<subseteq> used (bm vm) \<or> \<not> {0..<4096} \<subseteq> used (sfBM vm)"
    and count: "0 \<le> TLBCounter vm" "TLBCounter vm < 2 ^ 31 - 1"
    and sz: "sz \<in> {1, 2, 4}" "\<not> misaligned va sz"
  shows "\<exists>vm1 vm2 pa m. updateTLB rnd va vm = Inr vm1 \<and>
    (if pe_valid e then vm2 = vm1 else updateTLB rnd va vm1 = Inr vm2) \<and> vm_inv vm2 pid \<and>
    Translate (machine vm2) va sz False = Inr (NoException, pa, m) \<and>
    (\<forall>bytes. page_bytes vm pid (unat va div 128) = Some bytes \<longrightarrow>
       mainMemory (machine vm2) (nat pa) = bytes ! (unat va mod 128)) \<and>
    (\<forall>q v bytes. page_bytes vm q v = Some bytes \<longrightarrow> page_bytes vm2 q v = Some bytes)"
proof (cases "pe_valid e")
  case True
  from fault_enters_tlb [OF inv lock page True count sz, of rnd] obtain vm2 pa m t where
    r: "updateTLB rnd va vm = Inr vm2" "vm_inv vm2 pid" "page_bytes vm2 = page_bytes vm"
    "Translate (machine vm2) va sz False = Inr (NoException, pa, m)" "translated (machine vm2) va sz False pa m" .
  have "\<forall>bytes. page_bytes vm pid (unat va div 128) = Some bytes \<longrightarrow> mainMemory (machine vm2) (nat pa) = bytes ! (unat va mod 128)"
    using translated_own_byte [OF r(2,5)] r(3) by simp
  then show ?thesis using r True by (intro exI [of _ vm2] exI [of _ pa] exI [of _ m]) simp
next
  case False
  from fault_loads_page [OF inv lock rnd page False room] obtain vm1 d where
    l: "updateTLB rnd va vm = Inr vm1" "vm_inv vm1 pid" "lock_free vm1" "TLBCounter vm1 = TLBCounter vm"
    "page_of vm1 pid (unat va div 128) = Some d" "pe_valid d"
    "\<forall>q w bs. page_bytes vm q w = Some bs \<longrightarrow> page_bytes vm1 q w = Some bs" .
  have count1: "0 \<le> TLBCounter vm1" "TLBCounter vm1 < 2 ^ 31 - 1" using count l(4) by simp_all
  from fault_enters_tlb [OF l(2,3,5,6) count1 sz, of rnd] obtain vm2 pa m t where
    r: "updateTLB rnd va vm1 = Inr vm2" "vm_inv vm2 pid" "page_bytes vm2 = page_bytes vm1"
    "Translate (machine vm2) va sz False = Inr (NoException, pa, m)" "translated (machine vm2) va sz False pa m" .
  have "\<forall>bytes. page_bytes vm pid (unat va div 128) = Some bytes \<longrightarrow> mainMemory (machine vm2) (nat pa) = bytes ! (unat va mod 128)"
    using translated_own_byte [OF r(2,5)] r(3) l(7) by simp
  then show ?thesis
    using l(1,7) r False by (intro exI [of _ vm1] exI [of _ vm2] exI [of _ pa] exI [of _ m]) simp
qed

theorem page_fault_served_witness:
  "\<exists>vm1 vm2 pa m. updateTLB 0 2 one_process = Inr vm1 \<and> updateTLB 0 2 vm1 = Inr vm2 \<and>
     Translate (machine vm2) 2 1 False = Inr (NoException, pa, m) \<and> mainMemory (machine vm2) (nat pa) = 3"
proof -
  have p: "page_of one_process 0 (unat (2 :: 32 word) div 128) = Some one_page" by (simp add: one_process_page)
  have l: "lock_free one_process" "0 \<le> TLBCounter one_process" "TLBCounter one_process < 2 ^ 31 - 1"
    by (simp_all add: lock_free_def one_process_def)
  have room: "\<not> {0..<NumPhysPages} \<subseteq> used (bm one_process) \<or> \<not> {0..<4096} \<subseteq> used (sfBM one_process)"
    by (simp add: one_process_def)
  have b: "page_bytes one_process 0 0 = Some ([1, 2, 3, 4] @ replicate 124 0)"
    using one_process_space [of 0]
    by (simp add: page_bytes_def bytes_of_def one_process_page one_page_def never_loaded_def)
      (simp add: one_process_def one_space_def image_def)
  have sz: "(1 :: int) \<in> {1, 2, 4}" "\<not> misaligned 2 1" by (simp_all add: misaligned_def)
  from page_fault_served [OF one_process_inv l(1) order_refl p room l(2,3) sz] show ?thesis
    using b by (auto simp: one_page_def)
qed

text \<open>
  Under the invariant an address that translates (for reading or writing) leads into the frame of
  the running process's own page, never into a frame of another page of this or another process; and
  the bytes at that place are the bytes of that page.
\<close>

lemma translation_isolated:
  assumes inv: "vm_inv vm pid" and sz: "sz \<in> {1, 2, 4}"
    and tr: "Translate (machine vm) va sz w = Inr (NoException, pa, m)"
  shows "\<exists>e bytes. page_of vm pid (unat va div 128) = Some e \<and> pe_valid e \<and>
    pa div PageSize = pe_physicalPage e \<and> (pa + sz - 1) div PageSize = pe_physicalPage e \<and>
    page_bytes vm pid (unat va div 128) = Some bytes \<and>
    mainMemory (machine vm) (nat pa) = bytes ! (unat va mod 128) \<and>
    (\<forall>q v e'. page_of vm q v = Some e' \<and> pe_valid e' \<and> pe_physicalPage e' = pa div PageSize \<longrightarrow>
       q = pid \<and> v = unat va div 128)"
proof -
  from vm_inv_mach_ok [OF inv] sz have T: "translated (machine vm) va sz w pa m" "pa div 128 = (pa + sz - 1) div 128"
    by (cases rule: Translate_cases [of "machine vm" sz va w]; use tr in auto)+
  from translated_own_page [OF inv T(1)] obtain d where
    d: "page_of vm pid (unat va div 128) = Some d" "pe_valid d" "pa = pe_physicalPage d * 128 + int (unat va mod 128)"
    "0 \<le> pe_physicalPage d"
    "page_bytes vm pid (unat va div 128) = Some (frame_bytes (mainMemory (machine vm)) (pe_physicalPage d))" .
  have m: "0 \<le> int (unat va mod 128)" "int (unat va mod 128) < 128" by linarith+
  have frame: "pa div 128 = pe_physicalPage d" unfolding d(3) using m by linarith
  have own: "ipt_pid (ipt vm ! nat (pe_physicalPage d)) = pid"
    "ipt_virtualPage (ipt vm ! nat (pe_physicalPage d)) = int (unat va div 128)"
    using vm_inv_parts(6) [OF inv] d(1,2) unfolding frames_ok_def by blast+
  have "q = pid \<and> v = unat va div 128"
    if "page_of vm q v = Some e'" "pe_valid e'" "pe_physicalPage e' = pa div PageSize" for q v e'
  proof -
    have "ipt_pid (ipt vm ! nat (pe_physicalPage e')) = q" "ipt_virtualPage (ipt vm ! nat (pe_physicalPage e')) = int v"
      using vm_inv_parts(6) [OF inv] that(1,2) unfolding frames_ok_def by blast+
    then show ?thesis using own that(3) frame by (simp only: of_nat_eq_iff)
  qed
  moreover have "mainMemory (machine vm) (nat pa) =
      frame_bytes (mainMemory (machine vm)) (pe_physicalPage d) ! (unat va mod 128)"
    using translated_own_byte [OF inv T(1)] d(5) by blast
  ultimately show ?thesis using d(1,2,5) T(2) frame by metis
qed

end
