(* ===== verification/Nachos_AddrSpace.thy ===== *)
theory Nachos_AddrSpace
  imports Nachos_PageFault
begin

text \<open>
  Creation, growth and removal of address spaces (\<^verbatim>\<open>userprog/addrspace.cc\<close>): what the constructor
  makes of a NOFF executable on hosts of either byte order, the stack of a new thread, the flush of
  the TLB at a context switch, and two paths on which the shared state is left wrong.
\<close>

section \<open>Loading an executable\<close>

lemma Table_Put_first:
  assumes wf: "table_wf t" and i: "0 \<le> i" "i < tsize t" "i \<notin> dom (table_map t)"
    and least: "\<forall>j. 0 \<le> j \<and> j < i \<longrightarrow> j \<in> dom (table_map t)"
  obtains t' where "Table_Put t f = Inr (i, t')" "table_wf t'" "tsize t' = tsize t"
    "table_map t' = (table_map t)(i \<mapsto> f)"
proof -
  have n: "bm_wf (tmap t)" "numBits (tmap t) = tsize t" using wf by (simp_all add: table_wf_def)
  have d: "dom (table_map t) = used (tmap t)" by (auto simp: table_map_def dom_def)
  have "i \<in> {0..<tsize t}" using i by simp
  then have free: "\<not> {0..<tsize t} \<subseteq> dom (table_map t)" using i(3) by blast
  then have free': "\<not> {0..<numBits (tmap t)} \<subseteq> used (tmap t)" using d n by simp
  from Find_free [OF n(1) free'] obtain k b where k: "Find (tmap t) = Inr (k, b)" "0 \<le> k" "k \<notin> used (tmap t)"
    "\<forall>j. 0 \<le> j \<and> j < k \<longrightarrow> j \<in> used (tmap t)" by metis
  have "k = i" using k i least unfolding d by (metis linorder_neqE)
  from Table_Put_free [OF wf free, of f] obtain i0 t' where p: "Table_Put t f = Inr (i0, t')" "table_wf t'"
    "tsize t' = tsize t" "table_map t' = (table_map t)(i0 \<mapsto> f)" by blast
  have "i0 = k" using p(1) k(1) by (auto simp: Table_Put_def Table_Put_find_def elim!: bindE_InrE)
  then show ?thesis using that p \<open>k = i\<close> by blast
qed

text \<open>The first two identifiers are kept for the console.\<close>

lemma new_file_table:
  obtains t0 t1 t2 where "Table_new gbits gfiles 256 = Inr t0" "Table_Put t0 None = Inr (0, t1)"
    "Table_Put t1 None = Inr (1, t2)" "table_wf t2" "table_map t2 = [0 \<mapsto> None, 1 \<mapsto> None]" "tsize t2 = 256"
proof -
  have "(0 :: int) \<le> 256" by simp
  from Table_new_empty [OF this, of gbits gfiles] obtain t0 where
    t0: "Table_new gbits gfiles 256 = Inr t0" "table_wf t0" "tsize t0 = 256" "table_map t0 = Map.empty" by blast
  have "(0 :: int) \<le> 0" "0 < tsize t0" "0 \<notin> dom (table_map t0)" "\<forall>j. 0 \<le> j \<and> j < 0 \<longrightarrow> j \<in> dom (table_map t0)"
    using t0(3,4) by simp_all
  from Table_Put_first [OF t0(2) this, of None] obtain t1 where
    t1: "Table_Put t0 None = Inr (0, t1)" "table_wf t1" "tsize t1 = tsize t0" "table_map t1 = (table_map t0)(0 \<mapsto> None)" .
  have "j = 0" if "0 \<le> j" "j < 1" for j :: int using that by simp
  then have "(0 :: int) \<le> 1" "1 < tsize t1" "1 \<notin> dom (table_map t1)" "\<forall>j. 0 \<le> j \<and> j < 1 \<longrightarrow> j \<in> dom (table_map t1)"
    using t1(3,4) t0(3,4) by auto
  from Table_Put_first [OF t1(2) this, of None] obtain t2 where
    t2: "Table_Put t1 None = Inr (1, t2)" "table_wf t2" "tsize t2 = tsize t1" "table_map t2 = (table_map t1)(1 \<mapsto> None)" .
  show ?thesis
    by (rule that [OF t0(1) t1(1) t2(1,2)]) (simp_all add: t2(3,4) t1(3,4) t0(3,4))
qed

lemma ceiling_128:
  fixes m :: nat
  shows "m mod 128 = 0 \<Longrightarrow> (m + 127) div 128 = m div 128" and "m mod 128 \<noteq> 0 \<Longrightarrow> (m + 127) div 128 = m div 128 + 1"
  proof -
  define q where "q = m div 128"
  define r where "r = m mod 128"
  have m: "m = 128 * q + r" "r < 128" by (simp_all add: q_def r_def)
  show "m mod 128 = 0 \<Longrightarrow> (m + 127) div 128 = m div 128"
    unfolding q_def [symmetric] r_def [symmetric] using m(1) by simp
  show "m mod 128 \<noteq> 0 \<Longrightarrow> (m + 127) div 128 = m div 128 + 1"
    unfolding q_def [symmetric] r_def [symmetric]
  proof -
    assume "r \<noteq> 0"
    then have "m + 127 = 128 * (q + 1) + (r - 1)" "r - 1 < 128" using m by simp_all
    then show "(m + 127) div 128 = q + 1" by (simp only: div_mult_self4 div_less)
  qed
qed

lemma udivRoundUp_unat:
  fixes n :: "32 word"
  assumes "unat n < 2 ^ 31"
  shows "unat (udivRoundUp n 128) = (unat n + 127) div 128"
proof -
  have d: "unat (n div 128) = unat n div 128" "unat (n mod 128) = unat n mod 128"
    by (simp_all add: unat_div unat_mod)
  show ?thesis
  proof (cases "unat n mod 128 = 0")
    case True
    then have "unat (n mod 128) = unat (0 :: 32 word)" using d(2) by simp
    then have "n mod 128 = 0" by (rule word_unat_eq_iff [THEN iffD2])
    then have "udivRoundUp n 128 = n div 128" by (simp only: udivRoundUp_def) simp
    then show ?thesis using ceiling_128(1) [OF True] d(1) by (simp only:)
  next
    case False
    then have "0 < n mod 128" using d(2) by (simp only: word_less_nat_alt) simp
    then have r: "udivRoundUp n 128 = n div 128 + 1" by (simp only: udivRoundUp_def if_True)
    have "unat (n div 128) + unat (1 :: 32 word) < 2 ^ LENGTH(32)" using d(1) assms by simp
    from unat_add_lem [THEN iffD1, OF this] have "unat (n div 128 + 1) = unat n div 128 + 1" using d(1) by simp
    then show ?thesis using ceiling_128(2) [OF False] r by (simp only:)
  qed
qed

text \<open>The header of the file as little-endian words, whatever the host.\<close>

definition file_header :: "8 word list \<Rightarrow> NoffHeader" where
  "file_header exe = host_header False (\<lambda>i. exe ! i)"

lemma host_load4_swap: "WordToHost big (host_load4 big b a) = host_load4 False b a"
  using load4_any_host [of big b a] load4_any_host [of False b a] by (simp add: WordToHost_def)

lemma host_load4_cong: "\<forall>i. a \<le> i \<and> i < a + 4 \<longrightarrow> b i = c i \<Longrightarrow> host_load4 big b a = host_load4 big c a"
  by (simp add: host_load4_def)

lemma SwapHeader_file: "SwapHeader big (host_header big b) = host_header False b"
  by (simp add: SwapHeader_def host_header_def swap_segment_def host_segment_def host_load4_swap)

lemma magic_not_swapped: "WordToHost True NOFFMAGIC \<noteq> NOFFMAGIC"
  by (simp add: WordToHost_def)


lemma word_sums:
  fixes a b c :: "32 word"
  assumes "unat a + unat b + unat c < 2 ^ 31"
  shows "unat (a + b) = unat a + unat b" and "unat (a + b + c) = unat a + unat b + unat c"
proof -
  have "unat a + unat b < 2 ^ LENGTH(32)" using assms by simp
  then show ab: "unat (a + b) = unat a + unat b" by (rule unat_add_lem [THEN iffD1])
  have "unat (a + b) + unat c < 2 ^ LENGTH(32)" using assms ab by simp
  from unat_add_lem [THEN iffD1, OF this] show "unat (a + b + c) = unat a + unat b + unat c" using ab by simp
qed

lemma page_address:
  fixes a :: "32 word"
  assumes "unat a + i * 128 < 2 ^ 31"
  shows "sint (a + of_nat i * 128) = int (unat a + i * 128)"
proof -
  have i: "unat (of_nat i * 128 :: 32 word) = i * 128"
  proof -
    have "(of_nat i * 128 :: 32 word) = of_nat (i * 128)" by simp
    moreover have "unat (of_nat (i * 128) :: 32 word) = i * 128"
      unfolding unat_of_nat using assms by (intro mod_less) simp
    ultimately show ?thesis by metis
  qed
  have "unat a + unat (of_nat i * 128 :: 32 word) < 2 ^ LENGTH(32)" using assms i by simp
  from unat_add_lem [THEN iffD1, OF this] have u: "uint (a + of_nat i * 128) = int (unat a + i * 128)"
    unfolding uint_nat using i by simp
  show ?thesis unfolding sint_uint u using assms by (intro signed_take_bit_int_eq_self) (simp_all del: of_nat_unat of_nat_add)
qed

text \<open>The bytes of the file that page \<open>v\<close> of the code and initialised data shows, padded with zeros.\<close>

definition file_page :: "8 word list \<Rightarrow> nat \<Rightarrow> nat \<Rightarrow> nat \<Rightarrow> 8 word list" where
  "file_page exe addr n v =
     (let bs = take (min 128 (n - v * 128)) (drop (addr + v * 128) exe) in bs @ replicate (128 - length bs) 0)"

lemma last_page_length:
  fixes d :: "32 word"
  assumes "unat d < 2 ^ 31" "v < unat (udivRoundUp d 128)"
  shows "(if int v = uint (udivRoundUp d 128 - 1)
      then unat (d - (udivRoundUp d 128 - 1) * 128) else 128) = min 128 (unat d - v * 128)"
proof -
  define P where "P = udivRoundUp d 128"
  have P: "unat P = (unat d + 127) div 128" unfolding P_def by (rule udivRoundUp_unat [OF assms(1)])
  have v: "v < unat P" using assms(2) by (simp add: P_def)
  have "P \<noteq> 0" using v by auto
  then have P1: "unat (P - 1) = unat P - 1" by (simp add: unat_minus_one)
  have eq: "int v = uint (P - 1) \<longleftrightarrow> v = unat P - 1" unfolding uint_nat P1 by (simp only: of_nat_eq_iff)
  have le: "(unat P - 1) * 128 \<le> unat d" "unat d \<le> unat P * 128" using P v by linarith+
  have m: "unat ((P - 1) * 128) = (unat P - 1) * 128"
  proof -
    have "(unat P - 1) * 128 < 2 ^ LENGTH(32)" using le(1) assms(1) by simp
    then show ?thesis using unat_mult_lem [of "P - 1" 128] P1 by simp
  qed
  have sub: "unat (d - (P - 1) * 128) = unat d - (unat P - 1) * 128"
    using unat_sub [of "(P - 1) * 128" d] m le(1) by (simp add: word_le_nat_alt)
  show ?thesis
  proof (cases "v = unat P - 1")
    case True
    then have "unat d - v * 128 \<le> 128" using le v by (cases "unat P") auto
    then show ?thesis unfolding P_def [symmetric] eq sub using True by simp
  next
    case False
    then have "Suc v \<le> unat P - 1" using v by simp
    then have "(Suc v) * 128 \<le> (unat P - 1) * 128" by (rule mult_le_mono1)
    then have "128 \<le> unat d - v * 128" using le(1) by simp
    then show ?thesis unfolding P_def [symmetric] eq using False by simp
  qed
qed


text \<open>The header is read the same on both kinds of host.\<close>

lemma header_any_host:
  fixes big :: bool and stack :: "nat \<Rightarrow> 8 word"
  assumes "40 \<le> length exe" "noffMagic (file_header exe) = NOFFMAGIC"
  defines "raw \<equiv> host_header big (\<lambda>i. if i < length (take 40 exe) then take 40 exe ! i else stack i)"
  shows "(if noffMagic raw \<noteq> NOFFMAGIC \<and> WordToHost big (noffMagic raw) = NOFFMAGIC then SwapHeader big raw else raw) =
    file_header exe"
proof -
  define b where "b = (\<lambda>i. if i < length (take 40 exe) then take 40 exe ! i else stack i)"
  have raw: "raw = host_header big b" by (simp only: raw_def b_def)
  have b: "b i = exe ! i" if "i < 40" for i using that assms(1) by (simp add: b_def)
  have load: "host_load4 h b a = host_load4 h (\<lambda>i. exe ! i) a" if "a + 4 \<le> 40" for h a
    by (rule host_load4_cong) (use b that in simp)
  have same: "host_header h b = host_header h (\<lambda>i. exe ! i)" for h
    by (simp add: host_header_def host_segment_def load)
  have sw: "SwapHeader big raw = file_header exe"
    unfolding raw SwapHeader_file file_header_def same ..
  have "WordToHost big (noffMagic raw) = noffMagic (SwapHeader big raw)" by (simp add: SwapHeader_def)
  then have m: "WordToHost big (noffMagic raw) = NOFFMAGIC" using sw assms(2) by simp
  show ?thesis
  proof (cases big)
    case True
    then have "noffMagic raw \<noteq> NOFFMAGIC" using m magic_not_swapped by auto
    then show ?thesis using m sw by simp
  next
    case False
    then have "noffMagic raw = NOFFMAGIC" using m by (simp add: WordToHost_def)
    moreover have "raw = file_header exe" using False unfolding raw file_header_def same by simp
    ultimately show ?thesis by simp
  qed
qed

text \<open>
  C7. A NOFF executable makes the same address space on hosts of either byte order. If the file
  starts with the little-endian magic number and its sizes are sane, the constructor succeeds:
  enough pages for code, data and an eight page stack, none resident; the pages of code and
  initialised data show exactly the bytes of the file at the place the header names, the last one
  padded with zeros; the first stack page follows the data; and the file identifiers 0 and 1 are
  taken for the console.
\<close>

theorem AddrSpace_new_any_host:
  assumes len: "40 \<le> length exe" and magic: "noffMagic (file_header exe) = NOFFMAGIC"
    and "code = seg_code (file_header exe)"
    and "dataSize = unat (seg_size code) + unat (seg_size (initData (file_header exe)))"
    and "allSize = dataSize + unat (seg_size (uninitData (file_header exe)))"
    and small: "allSize < 2 ^ 31" "unat (inFileAddr code) + dataSize < 2 ^ 31"
  shows "\<exists>as. AddrSpace_new big stack gbits gfiles gpages exe = Inr as \<and> as_ok as \<and>
    unat (numPages as) = (allSize + 127) div 128 + 8 \<and> firstThreadStartVPN as = int ((allSize + 127) div 128) \<and>
    table_map (fileTable as) = [0 \<mapsto> None, 1 \<mapsto> None] \<and>
    unat (codeandinitNumPages as) = (dataSize + 127) div 128 \<and>
    (\<forall>v < unat (numPages as). \<not> pe_valid (as_pageTable as ! v) \<and>
       (if v < (dataSize + 127) div 128
        then pe_status (as_pageTable as ! v) = 0 \<and>
             image as v (as_pageTable as ! v) = file_page exe (unat (inFileAddr code)) dataSize v
        else pe_status (as_pageTable as ! v) = 3))"
proof -
  let ?h = "file_header exe"
  obtain t0 t1 t2 where t: "Table_new gbits gfiles 256 = Inr t0" "Table_Put t0 None = Inr (0, t1)"
    "Table_Put t1 None = Inr (1, t2)" "table_wf t2" "table_map t2 = [0 \<mapsto> None, 1 \<mapsto> None]" "tsize t2 = 256"
    by (rule new_file_table)
  have read: "stub_ReadAt exe 40 0 = Inr (take 40 exe)" by (simp add: stub_ReadAt_def Lseek_def)
  define d where "d = seg_size (seg_code ?h) + seg_size (initData ?h)"
  define n where "n = d + seg_size (uninitData ?h)"
  have "unat (seg_size code) + unat (seg_size (initData ?h)) + unat (seg_size (uninitData ?h)) < 2 ^ 31"
    using small(1) assms(4,5) by simp
  note w = word_sums [OF this]
  have d: "unat d = dataSize" unfolding d_def using w(1) assms(3,4) by simp
  have n: "unat n = allSize" unfolding n_def d_def using w(2) assms(3,4,5) by simp
  have dP: "unat (udivRoundUp d 128) = (dataSize + 127) div 128" using udivRoundUp_unat [of d] d small(1) assms(5) by simp
  have nP: "unat (udivRoundUp n 128) = (allSize + 127) div 128" using udivRoundUp_unat [of n] n small(1) by simp
  have top: "(allSize + 127) div 128 + 8 < 2 ^ 31" using small(1) by simp
  have pages: "unat (udivRoundUp n 128 + 8) = (allSize + 127) div 128 + 8"
  proof -
    have "unat (udivRoundUp n 128) + unat (8 :: 32 word) < 2 ^ LENGTH(32)" using nP top by simp
    from unat_add_lem [THEN iffD1, OF this] show ?thesis using nP by simp
  qed
  have mono: "(dataSize + 127) div 128 \<le> (allSize + 127) div 128" using assms(5) by (intro div_le_mono) simp
  then have fits: "\<not> udivRoundUp d 128 > udivRoundUp n 128 + 8" using dP pages by (simp add: word_less_nat_alt)
  define pt where "pt = map (\<lambda>i. if i < unat (udivRoundUp d 128)
                 then (blank_page (gpages i) (int i) 0)\<lparr>pe_diskLocation := inFileAddr (seg_code ?h) + of_nat i * 128\<rparr>
                 else blank_page (gpages i) (int i) 3) [0..<unat (udivRoundUp n 128 + 8)]"
  define as where "as = \<lparr>as_exec = exe, fileTable = t2, as_pageTable = pt, numPages = udivRoundUp n 128 + 8,
      firstThreadStartVPN = sint (udivRoundUp n 128), codeandinitNumPages = udivRoundUp d 128, codeandinitDataSize = d\<rparr>"
  have run: "AddrSpace_new big stack gbits gfiles gpages exe = Inr as"
    unfolding AddrSpace_new_def t(1-3) bindE_simps prod.case read Let_def header_any_host [OF len magic]
      d_def [symmetric] n_def [symmetric] if_not_P [OF fits] pt_def [symmetric] as_def [symmetric]
    using magic by simp
  have ptl: "length pt = unat (udivRoundUp n 128 + 8)" by (simp add: pt_def)
  have first: "sint (udivRoundUp n 128) = int ((allSize + 127) div 128)"
    unfolding sint_uint uint_nat nP using top by (intro signed_take_bit_int_eq_self) simp_all
  have disk: "sint (pe_diskLocation (pt ! v)) = int (unat (inFileAddr code) + v * 128)"
    if v: "v < (dataSize + 127) div 128" for v
  proof -
    have "v * 128 < dataSize" using v by linarith
    then have "unat (inFileAddr code) + v * 128 < 2 ^ 31" using small(2) by simp
    moreover have "v < unat (udivRoundUp n 128 + 8)" using v mono pages by simp
    then have "pe_diskLocation (pt ! v) = inFileAddr code + of_nat v * 128" using v dP assms(3) by (simp add: pt_def)
    ultimately show ?thesis using page_address by simp
  qed
  have ok: "as_ok as" using ptl disk dP by (simp add: as_ok_def as_def)
  have img: "image as v (pt ! v) = file_page exe (unat (inFileAddr code)) dataSize v"
    if v: "v < (dataSize + 127) div 128" for v
  proof -
    have ds: "unat d < 2 ^ 31" "v < unat (udivRoundUp d 128)" using d small(1) assms(5) v dP by simp_all
    show ?thesis
      unfolding image_def file_page_def as_def AddrSpace.select_convs last_page_length [OF ds] disk [OF v] d
      by (simp only: nat_int Let_def)
  qed
  have st: "\<not> pe_valid (pt ! v) \<and> pe_status (pt ! v) = (if v < (dataSize + 127) div 128 then 0 else 3)"
    if "v < unat (udivRoundUp n 128 + 8)" for v
    using that dP by (simp add: pt_def blank_page_def)
  have sel: "numPages as = udivRoundUp n 128 + 8" "as_pageTable as = pt" "firstThreadStartVPN as = sint (udivRoundUp n 128)"
    "fileTable as = t2" "codeandinitNumPages as = udivRoundUp d 128" by (simp_all add: as_def)
  show ?thesis
    using run ok st img unfolding sel pages first t(5) dP by (intro exI [of _ as]) (auto simp: sel first t(5) dP pages)
qed


text \<open>An executable with four bytes of code behind its header.\<close>

definition tiny_exe :: "8 word list" where
  "tiny_exe = [0xad, 0xdf, 0xba, 0,  0, 0, 0, 0, 40, 0, 0, 0, 4, 0, 0, 0,
     0, 0, 0, 0, 0, 0, 0, 0, 0, 0, 0, 0,  0, 0, 0, 0, 0, 0, 0, 0, 0, 0, 0, 0,  7, 8, 9, 10]"

theorem AddrSpace_new_any_host_witness:
  "\<exists>as. AddrSpace_new True (\<lambda>_. 0) (\<lambda>_. 0) (\<lambda>_. None) (\<lambda>_. one_page) tiny_exe = Inr as \<and> unat (numPages as) = 9 \<and>
     image as 0 (as_pageTable as ! 0) = [7, 8, 9, 10] @ replicate 124 0"
proof -
  have h: "file_header tiny_exe = \<lparr>noffMagic = NOFFMAGIC, seg_code = \<lparr>virtualAddr = 0, inFileAddr = 40, seg_size = 4\<rparr>,
      initData = \<lparr>virtualAddr = 0, inFileAddr = 0, seg_size = 0\<rparr>, uninitData = \<lparr>virtualAddr = 0, inFileAddr = 0, seg_size = 0\<rparr>\<rparr>"
    by (simp add: file_header_def host_header_def host_segment_def host_load4_def tiny_exe_def)
  have len: "40 \<le> length tiny_exe" by (simp add: tiny_exe_def)
  have pg: "file_page tiny_exe 40 4 0 = [7, 8, 9, 10] @ replicate 124 0"
    by (simp add: file_page_def tiny_exe_def)
  from AddrSpace_new_any_host [OF len _ refl refl refl, of True "\<lambda>_. 0" "\<lambda>_. 0" "\<lambda>_. None" "\<lambda>_. one_page"] show ?thesis
    unfolding h using pg by auto
qed


section \<open>A stack for a new thread\<close>

text \<open>Two page functions that agree on what paging looks at; pages of the second alone are fresh.\<close>

definition same_page :: "PageEntry \<Rightarrow> PageEntry \<Rightarrow> bool" where
  "same_page e e' \<longleftrightarrow> pe_valid e' = pe_valid e \<and> pe_physicalPage e' = pe_physicalPage e \<and>
     pe_status e' = pe_status e \<and> pe_diskLocation e' = pe_diskLocation e"

definition pages_extend :: "pages \<Rightarrow> pages \<Rightarrow> bool" where
  "pages_extend P P' \<longleftrightarrow>
     (\<forall>q w e. P q w = Some e \<longrightarrow> (\<exists>e'. P' q w = Some e' \<and> same_page e e')) \<and>
     (\<forall>q w e'. P' q w = Some e' \<longrightarrow> (\<exists>e. P q w = Some e \<and> same_page e e') \<or> \<not> pe_valid e' \<and> pe_status e' \<noteq> 1)"

lemma pages_extend_back:
  assumes "pages_extend P P'" "P' q w = Some e'" "pe_valid e' \<or> swapped e'"
  obtains e where "P q w = Some e" "pe_valid e' = pe_valid e" "pe_physicalPage e' = pe_physicalPage e"
    "swapped e' = swapped e" "pe_diskLocation e' = pe_diskLocation e"
proof -
  from assms have "\<exists>e. P q w = Some e \<and> same_page e e'"
    unfolding pages_extend_def swapped_def by blast
  then show ?thesis using that by (auto simp: same_page_def swapped_def)
qed

lemma frames_ok_extend:
  assumes P: "pages_extend P P'" and F: "frames_ok P I U"
  shows "frames_ok P' I U"
  unfolding frames_ok_def
proof (intro conjI ballI allI impI; (elim conjE)?)
  fix k assume "k \<in> U"
  then obtain v e where e: "ipt_valid (I ! nat k)" "ipt_virtualPage (I ! nat k) = int v"
    "P (ipt_pid (I ! nat k)) v = Some e" "pe_valid e" "pe_physicalPage e = k"
    using F unfolding frames_ok_def by blast
  then obtain e' where "P' (ipt_pid (I ! nat k)) v = Some e'" "pe_valid e'" "pe_physicalPage e' = k"
    using P unfolding pages_extend_def same_page_def by metis
  then show "\<exists>v e. ipt_valid (I ! nat k) \<and> ipt_virtualPage (I ! nat k) = int v \<and>
      P' (ipt_pid (I ! nat k)) v = Some e \<and> pe_valid e \<and> pe_physicalPage e = k" using e by blast
next
  fix q w d assume d: "P' q w = Some d" "pe_valid d"
  from pages_extend_back [OF P d(1) disjI1 [OF d(2)]] obtain e where
    e: "P q w = Some e" "pe_valid d = pe_valid e" "pe_physicalPage d = pe_physicalPage e" .
  show "pe_physicalPage d \<in> U" "ipt_valid (I ! nat (pe_physicalPage d))" "ipt_pid (I ! nat (pe_physicalPage d)) = q"
    "ipt_virtualPage (I ! nat (pe_physicalPage d)) = int w"
    using F e d(2) unfolding frames_ok_def by simp_all
qed

lemma swap_ok_extend:
  assumes P: "pages_extend P P'" and S: "swap_ok P S n"
  shows "swap_ok P' S n"
  unfolding swap_ok_def
proof (intro conjI allI impI; elim conjE)
  fix q w d assume d: "P' q w = Some d" "swapped d"
  from pages_extend_back [OF P d(1) disjI2 [OF d(2)]] obtain e where
    "P q w = Some e" "swapped d = swapped e" "pe_diskLocation d = pe_diskLocation e" .
  then show "\<exists>loc\<in>S. pe_diskLocation d = swap_addr loc \<and> (loc + 1) * 128 \<le> int n"
    using S d(2) unfolding swap_ok_def by metis
next
  fix q w d q' w' d'
  assume a: "P' q w = Some d" "swapped d" "P' q' w' = Some d'" "swapped d'" "pe_diskLocation d = pe_diskLocation d'"
  from pages_extend_back [OF P a(1) disjI2 [OF a(2)]] obtain e where
    e: "P q w = Some e" "swapped d = swapped e" "pe_diskLocation d = pe_diskLocation e" .
  from pages_extend_back [OF P a(3) disjI2 [OF a(4)]] obtain e' where
    e': "P q' w' = Some e'" "swapped d' = swapped e'" "pe_diskLocation d' = pe_diskLocation e'" .
  show "q = q'" "w = w'" using S e e' a(2,4,5) unfolding swap_ok_def by metis+
qed

text \<open>
  A new thread gets a stack. \<open>IncrementStackSpace\<close> adds eight pages that are not resident at the
  end of the address space and returns the address sixteen bytes below its new end; the paging
  invariant is kept and the contents of every page of every process are unchanged.
\<close>

theorem IncrementStackSpace_grows:
  assumes ok: "paging_ok vm" and ptr: "space_ptr vm pid = Some this" and as: "spaces vm this = Some as"
    and small: "unat (numPages as) + 8 \<le> 2 ^ 24" and code: "unat (codeandinitNumPages as) \<le> unat (numPages as)"
  shows "\<exists>sp vm'. IncrementStackSpace gpages this vm = Inr (sp, vm') \<and> paging_ok vm' \<and>
    unat sp = (unat (numPages as) + 8) * 128 - 16 \<and>
    (\<forall>q v bytes. page_bytes vm q v = Some bytes \<longrightarrow> page_bytes vm' q v = Some bytes) \<and>
    (\<forall>v. unat (numPages as) \<le> v \<and> v < unat (numPages as) + 8 \<longrightarrow>
       (\<exists>e. page_of vm' pid v = Some e \<and> \<not> pe_valid e \<and> pe_status e = 3 \<and> page_bytes vm' pid v = None)) \<and>
    (\<forall>v. unat (numPages as) + 8 \<le> v \<longrightarrow> page_of vm' pid v = None)"
proof -
  let ?n = "unat (numPages as)"
  have aok: "as_ok as" using ok ptr as unfolding paging_ok_def spaces_ok_def by fastforce
  then have len: "length (as_pageTable as) = ?n" by (simp add: as_ok_def)
  have n8: "unat (numPages as + 8) = ?n + 8"
    using unat_add_lem [THEN iffD1, of "numPages as" 8] small by simp
  define pt where "pt = map (\<lambda>i. if i < ?n then (as_pageTable as ! i)\<lparr>pe_pid := pe_pid (gpages i)\<rparr>
      else blank_page (gpages i) (int i) 3) [0..<?n + 8]"
  define as' where "as' = as\<lparr>numPages := numPages as + 8, as_pageTable := pt\<rparr>"
  define vm' where "vm' = vm\<lparr>spaces := (spaces vm)(this \<mapsto> as')\<rparr>"
  have run: "IncrementStackSpace gpages this vm = Inr ((numPages as + 8) * 128 - 16, vm')"
    unfolding IncrementStackSpace_def using as len
    by (simp add: deref_def Let_def n8 pt_def as'_def vm'_def)
  have ptr': "space_ptr vm' = space_ptr vm" by (rule space_ptr_cong) (simp_all add: vm'_def)
  have only: "space_ptr vm q = Some this \<longleftrightarrow> q = pid" for q
    using ok ptr unfolding paging_ok_def spaces_ok_def by blast
  have pg: "page_of vm' q w = (if q = pid then (if w < ?n + 8 then Some (pt ! w) else None) else page_of vm q w)" for q w
  proof (cases "q = pid")
    case True
    then show ?thesis using ptr by (simp add: page_of_def ptr') (simp add: vm'_def as'_def pt_def)
  next
    case False
    then have "space_ptr vm q \<noteq> Some this" using only by blast
    then show ?thesis using False
      by (cases "space_ptr vm q") (simp_all add: page_of_def ptr', simp add: vm'_def)
  qed
  have old: "page_of vm pid w = (if w < ?n then Some (as_pageTable as ! w) else None)" for w
    using ptr as len by (simp add: page_of_def)
  have entry: "w < ?n \<Longrightarrow> same_page (as_pageTable as ! w) (pt ! w)"
    "\<not> w < ?n \<Longrightarrow> w < ?n + 8 \<Longrightarrow> \<not> pe_valid (pt ! w) \<and> pe_status (pt ! w) = 3" for w
    by (simp_all add: pt_def same_page_def blank_page_def)
  have ext: "pages_extend (page_of vm) (page_of vm')"
    unfolding pages_extend_def
  proof (intro conjI allI impI)
    fix q w e assume e: "page_of vm q w = Some e"
    show "\<exists>e'. page_of vm' q w = Some e' \<and> same_page e e'"
      using e entry(1) [of w] by (cases "q = pid") (auto simp: pg old same_page_def split: if_splits)
  next
    fix q w e' assume e': "page_of vm' q w = Some e'"
    show "(\<exists>e. page_of vm q w = Some e \<and> same_page e e') \<or> \<not> pe_valid e' \<and> pe_status e' \<noteq> 1"
      using e' entry [of w] by (cases "q = pid") (auto simp: pg old same_page_def split: if_splits)
  qed
  have "as_ok as'"
    using aok entry code n8 unfolding as_ok_def as'_def same_page_def by (auto simp: pt_def blank_page_def)
  then have so: "spaces_ok vm'" using ok unfolding paging_ok_def spaces_ok_def ptr' by (auto simp: vm'_def)
  have pok: "paging_ok vm'"
    using ok frames_ok_extend [OF ext] swap_ok_extend [OF ext] so
    by (simp add: paging_ok_def store_ok_def fifo_ok_def vm'_def)
  have im: "never_loaded vm' q w e' = never_loaded vm q w e" if e: "same_page e e'" for q w e e'
  proof -
    have sel: "codeandinitNumPages as' = codeandinitNumPages as" "codeandinitDataSize as' = codeandinitDataSize as"
      "as_exec as' = as_exec as" by (simp_all add: as'_def)
    have "pe_diskLocation e' = pe_diskLocation e" using e by (simp add: same_page_def)
    then have img: "image x w e' = image x w e" "image as' w e = image as w e" for x
      unfolding image_def sel by (simp_all only:)
    have sp: "spaces vm' s = (if s = this then Some as' else spaces vm s)" for s by (simp add: vm'_def)
    show ?thesis
    proof (cases "space_ptr vm q")
      case (Some s)
      then show ?thesis
        using as by (cases "s = this"; cases "spaces vm s") (simp_all add: never_loaded_def ptr' sp sel(1) img)
    qed (simp add: never_loaded_def ptr')
  qed
  have bytes: "page_bytes vm' q w = Some bs" if b: "page_bytes vm q w = Some bs" for q w bs
  proof -
    obtain e where e: "page_of vm q w = Some e" using b by (auto simp: page_bytes_def bytes_of_def split: option.splits)
    obtain e' where e': "page_of vm' q w = Some e'" "same_page e e'" using ext e unfolding pages_extend_def by blast
    show ?thesis
      using b e e' im [OF e'(2), of q w] by (auto simp: page_bytes_def bytes_of_def same_page_def vm'_def split: if_splits)
  qed
  have sp: "unat ((numPages as + 8) * 128 - 16) = (?n + 8) * 128 - 16"
  proof -
    have m: "unat ((numPages as + 8) * 128) = (?n + 8) * 128"
      using unat_mult_lem [of "numPages as + 8" 128] n8 small by simp
    have "16 \<le> (numPages as + 8) * 128" unfolding word_le_nat_alt m by simp
    from unat_sub [OF this] show ?thesis using m by simp
  qed
  have fresh: "\<exists>e. page_of vm' pid v = Some e \<and> \<not> pe_valid e \<and> pe_status e = 3 \<and> page_bytes vm' pid v = None"
    if "?n \<le> v" "v < ?n + 8" for v
  proof -
    have nl: "never_loaded vm' pid v (pt ! v) = None"
      using ptr code that by (simp add: never_loaded_def ptr') (simp add: vm'_def as'_def)
    have "\<not> v < ?n" using that(1) by simp
    note e = entry(2) [OF this that(2)]
    have p: "page_of vm' pid v = Some (pt ! v)" using that by (simp add: pg)
    then have "page_bytes vm' pid v = None" using e nl by (simp add: page_bytes_def bytes_of_def)
    then show ?thesis using p e by blast
  qed
  have "page_of vm' pid v = None" if "?n + 8 \<le> v" for v using that by (simp add: pg)
  then show ?thesis using run pok sp bytes fresh by blast
qed

theorem IncrementStackSpace_grows_witness:
  "\<exists>sp vm'. IncrementStackSpace (\<lambda>_. one_page) 0 one_process = Inr (sp, vm') \<and> unat sp = 1136 \<and>
     page_of vm' 0 8 \<noteq> None \<and> page_of vm' 0 9 = None"
proof -
  have "paging_ok one_process" by (rule vm_inv_parts(1) [OF one_process_inv])
  moreover have "space_ptr one_process 0 = Some 0" by (simp add: one_process_space)
  moreover have "spaces one_process 0 = Some one_space" by (simp add: one_process_def)
  moreover have "unat (numPages one_space) = 1" "unat (codeandinitNumPages one_space) = 1" by (simp_all add: one_space_def)
  ultimately have "\<exists>sp vm'. IncrementStackSpace (\<lambda>_. one_page) 0 one_process = Inr (sp, vm') \<and> unat sp = 1136 \<and>
    (\<forall>v. 1 \<le> v \<and> v < 9 \<longrightarrow> (\<exists>e. page_of vm' 0 v = Some e \<and> \<not> pe_valid e \<and> pe_status e = 3 \<and> page_bytes vm' 0 v = None)) \<and>
    (\<forall>v. 9 \<le> v \<longrightarrow> page_of vm' 0 v = None)"
    using IncrementStackSpace_grows [of one_process 0 0 one_space "\<lambda>_. one_page"] by auto
  then obtain sp vm' where r: "IncrementStackSpace (\<lambda>_. one_page) 0 one_process = Inr (sp, vm')" "unat sp = 1136"
    "\<forall>v. 1 \<le> v \<and> v < 9 \<longrightarrow> (\<exists>e. page_of vm' 0 v = Some e \<and> \<not> pe_valid e \<and> pe_status e = 3 \<and> page_bytes vm' 0 v = None)"
    "\<forall>v. 9 \<le> v \<longrightarrow> page_of vm' 0 v = None" by blast
  from r(3) [rule_format, of 8] r(4) [rule_format, of 9] r(1,2) show ?thesis by auto
qed


section \<open>Context switches\<close>

lemma invalid_tlb_ok: "tlb (machine vm) = Some (map (\<lambda>e. e\<lparr>valid := False\<rparr>) t) \<Longrightarrow> tlb_ok vm q"
  by (auto simp: tlb_ok_def)

text \<open>
  A context switch hands the machine to the next process. When the scheduler has made another
  thread current, \<open>RestoreState\<close> empties the TLB, which is what the invariant of the virtual memory
  needs to hold for the process of the new thread, and no page changes. Its loop writes one entry
  past the TLB: with an array of exactly \<open>TLBSize\<close> entries and nothing writable behind it, it fails.
\<close>

theorem RestoreState_switches:
  assumes inv: "vm_inv vm pid" and vm0: "vm0 = vm\<lparr>currentThread := t, parentProcess := p, thread_space := s\<rparr>"
    and cur: "current_ok vm0 q"
  shows "(\<exists>vm'. RestoreState vm0 = Inr vm' \<and> vm_inv vm' q \<and> page_bytes vm' = page_bytes vm \<and>
      (\<forall>entries. tlb (machine vm') = Some entries \<longrightarrow> (\<forall>e\<in>set entries. \<not> valid e))) \<and>
    RestoreState (vm0\<lparr>past_tlb := None\<rparr>) = Inl OutOfRange"
proof -
  note i = vm_inv_parts [OF inv]
  obtain t4 x where t4: "tlb (machine vm) = Some t4" "length t4 = 4" "pageTable (machine vm) = None" "past_tlb vm = Some x"
    using i(1) by (auto simp: paging_ok_def store_ok_def)
  let ?off = "\<lambda>e. e\<lparr>valid := False\<rparr>"
  define vm' where "vm' = vm0\<lparr>machine := (machine vm0)\<lparr>tlb := Some (map ?off t4)\<rparr>, past_tlb := Some (?off x)\<rparr>"
  have run: "RestoreState vm0 = Inr vm'"
    unfolding RestoreState_def vm'_def by (rule touch_loop) (use t4 vm0 in simp_all)
  have ptr: "space_ptr vm' = space_ptr vm" by (rule space_ptr_cong) (simp_all add: vm'_def vm0)
  have sp: "spaces vm' = spaces vm" by (simp add: vm'_def vm0)
  have pg: "page_of vm' = page_of vm" by (rule page_of_cong [OF ptr sp])
  have so: "spaces_ok vm' = spaces_ok vm" by (rule spaces_ok_cong [OF ptr sp])
  have nl: "never_loaded vm' = never_loaded vm" by (rule never_loaded_cong [OF ptr sp])
  have "paging_ok vm'"
    using i(1) t4 so pg by (simp add: paging_ok_def store_ok_def fifo_ok_def vm'_def vm0)
  moreover have "ipt_exact vm'" using i(2) by (simp add: ipt_exact_def vm'_def vm0)
  moreover have "tlb_ok vm' q" by (rule invalid_tlb_ok) (simp add: vm'_def)
  moreover have "current_ok vm' q" using current_ok_cong [of vm' vm0 q] cur by (simp add: vm'_def)
  ultimately have "vm_inv vm' q" by (simp add: vm_inv_def)
  moreover have "page_bytes vm' = page_bytes vm" unfolding page_bytes_def pg nl by (simp add: vm'_def vm0)
  moreover have "\<forall>entries. tlb (machine vm') = Some entries \<longrightarrow> (\<forall>e\<in>set entries. \<not> valid e)" by (auto simp: vm'_def)
  moreover have "RestoreState (vm0\<lparr>past_tlb := None\<rparr>) = Inl OutOfRange"
  proof -
    obtain a b c d where l: "t4 = [a, b, c, d]" using t4(2) by (auto simp: length_Suc_conv numeral_eq_Suc)
    have "[0..TLBSize] = [0, 1, 2, 3, 4]" by (simp add: upto_rec1)
    then show ?thesis using t4(1) vm0 by (simp add: RestoreState_def touch_tlb_def l)
  qed
  ultimately show ?thesis using run by blast
qed

theorem RestoreState_switches_witness:
  "\<exists>vm'. RestoreState (one_process\<lparr>currentThread := 3, parentProcess := 0, thread_space := 0\<rparr>) = Inr vm' \<and> vm_inv vm' 0"
proof -
  let ?vm0 = "one_process\<lparr>currentThread := 3, parentProcess := 0, thread_space := 0\<rparr>"
  have "current_ok ?vm0 0"
    using current_ok_cong [of ?vm0 one_process 0] vm_inv_parts(4) [OF one_process_inv] by (simp add: one_process_def)
  from RestoreState_switches [OF one_process_inv refl this] show ?thesis by blast
qed

section \<open>Where the shared state is left wrong\<close>

lemma wild_fault:
  assumes inv: "vm_inv vm pid" and lock: "lock_free vm" and as: "spaces vm (thread_space vm) = Some as"
    and wild: "unat (numPages as) \<le> unat va div 128"
  shows "updateTLB rnd va vm = Inr (vm\<lparr>IPTLock := Some (currentThread vm)\<rparr>)" and "page_of vm pid (unat va div 128) = None"
proof -
  note i = vm_inv_parts [OF inv]
  obtain q where q: "procs vm (parentProcess vm) = Some q" "ProcessID q = pid"
    using i(4) by (auto simp: current_ok_def)
  have aok: "as_ok as" using i(1,5) as unfolding paging_ok_def spaces_ok_def by fastforce
  let ?v = "unat va div 128"
  show none: "page_of vm pid ?v = None" using i(5) as aok wild by (simp add: page_of_def as_ok_def)
  let ?P = "\<lambda>k. bindE (array_get (ipt vm) k) (\<lambda>t. Inr (ipt_valid t \<and> ipt_pid t = ProcessID q \<and> ipt_virtualPage t = int ?v))"
  let ?hit = "\<lambda>k. ipt_valid (ipt vm ! nat k) \<and> ipt_pid (ipt vm ! nat k) = pid \<and> ipt_virtualPage (ipt vm ! nat k) = int ?v"
  have P: "\<forall>k. 0 \<le> k \<and> k < NumPhysPages \<longrightarrow> ?P k = Inr (?hit k)"
    using i(7) q(2) by (simp add: array_get_def)
  have miss: "\<not> ?hit k" if "0 \<le> k" "k < NumPhysPages" for k
  proof
    assume h: "?hit k"
    then have "k \<in> used (bm vm)" using i(2) that unfolding ipt_exact_def by blast
    then obtain v e where "ipt_virtualPage (ipt vm ! nat k) = int v" "page_of vm (ipt_pid (ipt vm ! nat k)) v = Some e"
      using i(6) unfolding frames_ok_def by blast
    then show False using h none by (metis of_nat_eq_iff option.distinct(1))
  qed
  have "search_from ?P NumPhysPages 0 = Inr (-1)"
    using search_from_spec [OF P] miss by blast
  then have find: "findIPTIndex (int ?v) vm = Inr (-1, vm\<lparr>IPTLock := None\<rparr>)"
    using q(1) by (simp add: findIPTIndex_def acquire_release [OF lock] deref_def)
  have w: "int ?v \<ge> uint (numPages as)" using wild by (simp only: uint_nat of_nat_le_iff)
  have up: "updateIPT rnd (thread_space vm) va pid (vm\<lparr>IPTLock := None\<rparr>) = Inr (vm\<lparr>IPTLock := Some (currentThread vm)\<rparr>)"
    using as by (simp add: updateIPT_def IPTLock_Acquire_def deref_def Let_def if_P [OF w])
  show "updateTLB rnd va vm = Inr (vm\<lparr>IPTLock := Some (currentThread vm)\<rparr>)"
    using q find up by (simp add: updateTLB_def deref_def)
qed

text \<open>
  An access outside the address space blocks the others. When a process faults on an address
  beyond its pages, the handler returns normally without having mapped anything and without having
  released \<open>IPTLock\<close>: the faulting thread will fault again at the same instruction, and from then
  on every other thread that takes a page fault goes to sleep on the lock.
\<close>

theorem wild_fault_keeps_lock:
  assumes inv: "vm_inv vm pid" and lock: "lock_free vm" and as: "spaces vm (thread_space vm) = Some as"
    and wild: "unat (numPages as) \<le> unat va div 128"
    and other: "t \<noteq> currentThread vm" "procs vm p = Some pr"
  shows "updateTLB rnd va vm = Inr (vm\<lparr>IPTLock := Some (currentThread vm)\<rparr>) \<and>
    updateTLB rnd' va' (vm\<lparr>IPTLock := Some (currentThread vm), currentThread := t, parentProcess := p, thread_space := s\<rparr>) =
      Inl WouldBlock"
  using wild_fault(1) [OF inv lock as wild] other
  by (simp add: updateTLB_def findIPTIndex_def IPTLock_Acquire_def deref_def)

theorem wild_fault_keeps_lock_witness:
  "\<exists>vm'. updateTLB 0 1024 one_process = Inr vm' \<and> IPTLock vm' = Some 0 \<and>
     updateTLB 0 0 (vm'\<lparr>currentThread := 1, parentProcess := 0, thread_space := 0\<rparr>) = Inl WouldBlock"
proof -
  have l: "lock_free one_process" "spaces one_process (thread_space one_process) = Some one_space"
    "currentThread one_process = 0" by (simp_all add: lock_free_def one_process_def)
  have w: "unat (numPages one_space) \<le> unat (1024 :: 32 word) div 128" by (simp add: one_space_def)
  have t: "1 \<noteq> currentThread one_process" using l(3) by simp
  obtain pr where "procs one_process 0 = Some pr" by (simp add: one_process_def)
  from wild_fault_keeps_lock [OF one_process_inv l(1,2) w t this, of 0 0 0 0] show ?thesis using l(3) by auto
qed


lemma release_frame_ok:
  assumes "page_of vm pid v = Some e" "space_ptr vm pid = Some this" "bm_wf (bm vm)" "numBits (bm vm) = 4096"
    and "pe_valid e \<longrightarrow> 0 \<le> pe_physicalPage e \<and> pe_physicalPage e < 4096"
  obtains b where "release_frame this (int v) vm = Inr (vm\<lparr>bm := b\<rparr>)" "bm_wf b" "numBits b = 4096"
    "used b = used (bm vm) - (if pe_valid e then {pe_physicalPage e} else {})"
proof (cases "pe_valid e")
  case True
  obtain b where b: "Clear (bm vm) (pe_physicalPage e) = Inr b" "bm_wf b" "numBits b = 4096"
      "used b = used (bm vm) - {pe_physicalPage e}"
    using Clear_used [OF assms(3), of "pe_physicalPage e"] assms(4,5) True by metis
  show ?thesis
    by (rule that [OF _ b(2,3)]) (use True b page_entry_ok(1) [OF assms(2,1)] in \<open>simp_all add: release_frame_def\<close>)
next
  case False
  show ?thesis
    by (rule that [of "bm vm"]) (use False assms page_entry_ok(1) [OF assms(2,1)] in \<open>simp_all add: release_frame_def\<close>)
qed

text \<open>\<open>DeleteSpace\<close> frees exactly the frames of the process and touches nothing else.\<close>

lemma DeleteSpace_frees:
  assumes inv: "vm_inv vm pid" and as: "spaces vm (thread_space vm) = Some as"
  obtains b where "DeleteSpace (thread_space vm) vm = Inr (vm\<lparr>bm := b\<rparr>)" "bm_wf b"
    "used b = used (bm vm) - {k. \<exists>v e. page_of vm pid v = Some e \<and> pe_valid e \<and> pe_physicalPage e = k}"
proof -
  note i = vm_inv_parts [OF inv]
  let ?th = "thread_space vm"
  have aok: "as_ok as" using i(1,5) as unfolding paging_ok_def spaces_ok_def by fastforce
  have pg: "page_of vm pid v = (if v < unat (numPages as) then Some (as_pageTable as ! v) else None)" for v
    using i(5) as aok by (simp add: page_of_def as_ok_def)
  have bm: "bm_wf (bm vm)" "numBits (bm vm) = 4096" using i(1) by (simp_all add: paging_ok_def store_ok_def)
  let ?gone = "\<lambda>n. {k. \<exists>v e. v < n \<and> page_of vm pid v = Some e \<and> pe_valid e \<and> pe_physicalPage e = k}"
  let ?I = "\<lambda>done x. \<exists>b. x = vm\<lparr>bm := b\<rparr> \<and> bm_wf b \<and> numBits b = 4096 \<and> used b = used (bm vm) - ?gone (length done)"
  let ?n = "unat (numPages as)"
  have "\<exists>x. foldE (release_frame ?th) [0..int ?n - 1] vm = Inr x \<and> ?I [0..int ?n - 1] x"
  proof (rule foldE_rule)
    have "vm = vm\<lparr>bm := bm vm\<rparr>" by simp
    then show "?I [] vm" using bm by (intro exI [of _ "bm vm"]) simp
  next
    fix don x rest u
    assume xs: "[0..int ?n - 1] = don @ x # rest" and I: "?I don u"
    have "length don < length [0..int ?n - 1]" unfolding xs by simp
    then have lt: "length don < ?n" by simp
    have "x = [0..int ?n - 1] ! length don" unfolding xs by simp
    also have "\<dots> = int (length don)" by (subst nth_upto) (use lt in linarith, simp)
    finally have x: "x = int (length don)" .
    let ?v = "length don"
    obtain b where u: "u = vm\<lparr>bm := b\<rparr>" and b: "bm_wf b" "numBits b = 4096" "used b = used (bm vm) - ?gone ?v"
      using I by blast
    let ?e = "as_pageTable as ! ?v"
    have ptr: "space_ptr u = space_ptr vm" by (rule space_ptr_cong) (simp_all add: u)
    have pu: "page_of u = page_of vm" by (rule page_of_cong [OF ptr]) (simp add: u)
    have e: "page_of u pid ?v = Some ?e" using lt by (simp add: pu pg)
    have th: "space_ptr u pid = Some ?th" using i(5) by (simp add: ptr)
    have r: "pe_valid ?e \<longrightarrow> 0 \<le> pe_physicalPage ?e \<and> pe_physicalPage ?e < 4096"
    proof
      assume "pe_valid ?e"
      then have "pe_physicalPage ?e \<in> used (bm vm)" using i(6) e unfolding pu frames_ok_def by blast
      then show "0 \<le> pe_physicalPage ?e \<and> pe_physicalPage ?e < 4096" using i(8) by auto
    qed
    have "bm_wf (bm u)" "numBits (bm u) = 4096" using b by (simp_all add: u)
    from release_frame_ok [OF e th this r] obtain b' where
      b': "release_frame ?th (int ?v) u = Inr (u\<lparr>bm := b'\<rparr>)" "bm_wf b'" "numBits b' = 4096"
      "used b' = used (bm u) - (if pe_valid ?e then {pe_physicalPage ?e} else {})" .
    have "?gone (Suc ?v) = ?gone ?v \<union> (if pe_valid ?e then {pe_physicalPage ?e} else {})"
      using lt by (auto simp: pg less_Suc_eq)
    then have "used b' = used (bm vm) - ?gone (Suc ?v)" using b'(4) b(3) by (auto simp: u)
    then show "\<exists>s'. release_frame ?th x u = Inr s' \<and> ?I (don @ [x]) s'"
      using b' x u by (intro exI [of _ "vm\<lparr>bm := b'\<rparr>"]) auto
  qed
  then obtain b where b: "foldE (release_frame ?th) [0..int ?n - 1] vm = Inr (vm\<lparr>bm := b\<rparr>)" "bm_wf b"
    "used b = used (bm vm) - ?gone ?n" by auto
  have "?gone ?n = {k. \<exists>v e. page_of vm pid v = Some e \<and> pe_valid e \<and> pe_physicalPage e = k}"
    by (auto simp: pg)
  then show ?thesis
    using that [OF _ b(2)] b(1,3) as by (simp add: DeleteSpace_def deref_def uint_nat del: of_nat_unat)
qed

text \<open>
  A process that is deleted leaves its translations behind. \<open>DeleteSpace\<close> returns the frames of
  the process to the bitmap but does not touch the inverted page table: an entry of a page that was
  resident stays valid, under the same process number, so the search of the next process that gets
  this number finds a frame that is free and may meanwhile belong to somebody else.
\<close>

theorem DeleteSpace_leaves_translations:
  assumes inv: "vm_inv vm pid" and lock: "lock_free vm" and e: "page_of vm pid v = Some e" "pe_valid e"
  shows "\<exists>vm' vm''. DeleteSpace (thread_space vm) vm = Inr vm' \<and> pe_physicalPage e \<notin> used (bm vm') \<and>
    findIPTIndex (int v) vm' = Inr (pe_physicalPage e, vm'') \<and>
    ipt vm' = ipt vm"
proof -
  note i = vm_inv_parts [OF inv]
  obtain as where as: "spaces vm (thread_space vm) = Some as"
    using e(1) i(5) by (auto elim!: page_ofE)
  from DeleteSpace_frees [OF inv as] obtain b where
    b: "DeleteSpace (thread_space vm) vm = Inr (vm\<lparr>bm := b\<rparr>)" "bm_wf b"
    "used b = used (bm vm) - {k. \<exists>v e. page_of vm pid v = Some e \<and> pe_valid e \<and> pe_physicalPage e = k}" .
  let ?u = "vm\<lparr>bm := b\<rparr>"
  have "IPTLock_Acquire ?u = Inr (?u\<lparr>IPTLock := Some (currentThread vm)\<rparr>)"
    using acquire_release(1) [of ?u] lock by (simp add: lock_free_def)
  moreover obtain x where x: "findIPTIndex (int v) vm = Inr (pe_physicalPage e, x)"
    using findIPTIndex_ok [OF inv lock e(1)] e(2) by simp
  ultimately have "\<exists>y. findIPTIndex (int v) ?u = Inr (pe_physicalPage e, y)"
    using acquire_release(1) [OF lock]
    by (auto simp: findIPTIndex_def elim!: bindE_InrE)
  then show ?thesis using b(1,3) e by auto
qed

theorem DeleteSpace_leaves_translations_witness:
  "\<exists>vm e vm' vm''. vm_inv vm 0 \<and> page_of vm 0 0 = Some e \<and> DeleteSpace (thread_space vm) vm = Inr vm' \<and>
     findIPTIndex 0 vm' = Inr (pe_physicalPage e, vm'')"
proof -
  from one_process_running obtain vm pa m where vm: "vm_inv vm 0" "Translate (machine vm) 2 1 False = Inr (NoException, pa, m)" .
  define u where "u = vm\<lparr>IPTLock := None\<rparr>"
  have u: "vm_inv u 0" "lock_free u" using vm(1) by (simp_all add: u_def lock_free_def)
  have "(1 :: int) \<in> {1, 2, 4}" by simp
  with vm_inv_mach_ok [OF vm(1)] have "translated (machine vm) 2 1 False pa m"
    by (cases rule: Translate_cases [of "machine vm" 1 2 False]; use vm(2) in auto)
  from translated_own_page [OF vm(1) this] obtain d where "page_of vm 0 0 = Some d" and d: "pe_valid d" by auto
  then have p: "page_of u 0 0 = Some d" by (simp add: u_def)
  from DeleteSpace_leaves_translations [OF u p d] obtain vm' vm'' where
    "DeleteSpace (thread_space u) u = Inr vm'" "findIPTIndex (int 0) vm' = Inr (pe_physicalPage d, vm'')" by blast
  then show ?thesis using u(1) p by auto
qed

end
