(* ===== verification/Nachos_UserMem.thy ===== *)
theory Nachos_UserMem
  imports Nachos_AddrSpace
begin

text \<open>
  How the kernel reaches the memory of a user program: \<open>copyin\<close> and \<open>copyout\<close> of
  \<^verbatim>\<open>userprog/exception.cc\<close>, through \<open>ReadMem\<close> and \<open>WriteMem\<close> of the machine, whose page
  faults come back to the page-fault handler.

  \<open>copyin\<close> repeats a read until it succeeds, for ever if need be: the loop has fuel, and \<open>None\<close> means
  that it is still running when the fuel is used up. \<open>rnd\<close> supplies the values of \<open>rand()\<close>, one for
  each attempt.
\<close>

section \<open>Reads and writes that may fault\<close>

text \<open>The branches of \<open>ExceptionHandler\<close> for everything but system calls.\<close>

definition handle_fault :: "int \<Rightarrow> ExceptionType \<Rightarrow> VM \<Rightarrow> VM res" where
  "handle_fault rnd which vm =
     (if which = PageFaultException then
        bindE (ReadRegister (machine vm) (int BadVAddrReg)) (\<lambda>a. updateTLB rnd a vm)
      else Inl Halted)"

definition vm_RaiseException :: "int \<Rightarrow> ExceptionType \<Rightarrow> 32 word \<Rightarrow> VM \<Rightarrow> VM res" where
  "vm_RaiseException rnd which badVAddr vm =
     (let m = DelayedLoad (setreg (machine vm) BadVAddrReg badVAddr) 0 0 in
      bindE (handle_fault rnd which (vm\<lparr>machine := m\<lparr>status := SystemMode\<rparr>\<rparr>)) (\<lambda>vm'.
        Inr (vm'\<lparr>machine := (machine vm')\<lparr>status := UserMode\<rparr>\<rparr>)))"

text \<open>
  \<open>ReadMem\<close> and \<open>WriteMem\<close> with the handler that also changes the rest of the system; an access that
  translates is the one of the machine.
\<close>

definition vm_ReadMem :: "int \<Rightarrow> VM \<Rightarrow> 32 word \<Rightarrow> int \<Rightarrow> (32 word option \<times> VM) res" where
  "vm_ReadMem rnd vm addr sz =
     bindE (Translate (machine vm) addr sz False) (\<lambda>(exception, _, m).
       if exception \<noteq> NoException
       then bindE (vm_RaiseException rnd exception addr (vm\<lparr>machine := m\<rparr>)) (\<lambda>vm'. Inr (None, vm'))
       else bindE (ReadMem (\<lambda>_ m. Inr m) (machine vm) addr sz) (\<lambda>(v, m). Inr (v, vm\<lparr>machine := m\<rparr>)))"

definition vm_WriteMem :: "int \<Rightarrow> VM \<Rightarrow> 32 word \<Rightarrow> int \<Rightarrow> 32 word \<Rightarrow> (bool \<times> VM) res" where
  "vm_WriteMem rnd vm addr sz v =
     bindE (Translate (machine vm) addr sz True) (\<lambda>(exception, _, m).
       if exception \<noteq> NoException
       then bindE (vm_RaiseException rnd exception addr (vm\<lparr>machine := m\<rparr>)) (\<lambda>vm'. Inr (False, vm'))
       else bindE (WriteMem (\<lambda>_ m. Inr m) (machine vm) addr sz v) (\<lambda>(ok, m). Inr (ok, vm\<lparr>machine := m\<rparr>)))"

section \<open>copyin and copyout\<close>

fun read_retry :: "nat \<Rightarrow> (nat \<Rightarrow> int) \<Rightarrow> 32 word \<Rightarrow> VM \<Rightarrow> (32 word \<times> VM) res option" where
  "read_retry 0 rnd a vm = None"
| "read_retry (Suc n) rnd a vm =
     (case vm_ReadMem (rnd n) vm a 1 of
        Inl e \<Rightarrow> Some (Inl e)
      | Inr (Some v, vm') \<Rightarrow> Some (Inr (v, vm'))
      | Inr (None, vm') \<Rightarrow> read_retry n rnd a vm')"

fun copyin_loop ::
    "nat \<Rightarrow> (nat \<Rightarrow> nat \<Rightarrow> int) \<Rightarrow> nat \<Rightarrow> 32 word \<Rightarrow> int \<Rightarrow> 8 word list \<Rightarrow> VM \<Rightarrow> (8 word list \<times> VM) res option" where
  "copyin_loop fuel rnd 0 a n buf vm = Some (Inr (buf, vm))"
| "copyin_loop fuel rnd (Suc k) a n buf vm =
     (case read_retry fuel (rnd k) a vm of
        None \<Rightarrow> None
      | Some (Inl e) \<Rightarrow> Some (Inl e)
      | Some (Inr (v, vm')) \<Rightarrow>
          (case array_set buf n (ucast v) of
             Inl e \<Rightarrow> Some (Inl e)
           | Inr buf' \<Rightarrow> copyin_loop fuel rnd k (a + 1) (n + 1) buf' vm'))"

text \<open>
  The result \<open>-1\<close> for a failed translation cannot occur: the inner loop only ends with a successful read.
\<close>

definition copyin ::
    "nat \<Rightarrow> (nat \<Rightarrow> nat \<Rightarrow> int) \<Rightarrow> 32 word \<Rightarrow> int \<Rightarrow> 8 word list \<Rightarrow> VM \<Rightarrow> (int \<times> 8 word list \<times> VM) res option" where
  "copyin fuel rnd vaddr len buf vm =
     map_option (\<lambda>r. bindE r (\<lambda>(buf', vm'). Inr (len, buf', vm'))) (copyin_loop fuel rnd (nat len) vaddr 0 buf vm)"

fun copyout_loop :: "(nat \<Rightarrow> int) \<Rightarrow> nat \<Rightarrow> 32 word \<Rightarrow> int \<Rightarrow> 8 word list \<Rightarrow> VM \<Rightarrow> (int \<times> VM) res" where
  "copyout_loop rnd 0 a n buf vm = Inr (n, vm)"
| "copyout_loop rnd (Suc k) a n buf vm =
     bindE (array_get buf n) (\<lambda>b.
     bindE (vm_WriteMem (rnd k) vm a 1 (scast b)) (\<lambda>(ok, vm').
       if ok then copyout_loop rnd k (a + 1) (n + 1) buf vm' else Inr (-1, vm')))"

definition copyout :: "(nat \<Rightarrow> int) \<Rightarrow> 32 word \<Rightarrow> int \<Rightarrow> 8 word list \<Rightarrow> VM \<Rightarrow> (int \<times> VM) res" where
  "copyout rnd vaddr len buf vm = copyout_loop rnd (nat len) vaddr 0 buf vm"

section \<open>Paging changes nothing of an address space but page table entries\<close>

definition shape :: "VM \<Rightarrow> nat \<Rightarrow> (nat \<times> AddrSpace) option" where
  "shape vm s = map_option (\<lambda>as. (length (as_pageTable as), as\<lparr>as_pageTable := []\<rparr>)) (spaces vm s)"

lemma page_of_shape:
  assumes "shape vm' = shape vm" "space_ptr vm' = space_ptr vm"
  shows "(page_of vm' pid v = None) = (page_of vm pid v = None)"
proof (cases "space_ptr vm pid")
  case (Some s)
  have "shape vm' s = shape vm s" using assms(1) by simp
  then show ?thesis
    using Some assms(2) by (cases "spaces vm s"; cases "spaces vm' s") (auto simp: page_of_def shape_def)
qed (use assms in \<open>simp add: page_of_def\<close>)

text \<open>What a page fault leaves alone besides.\<close>

definition undisturbed :: "VM \<Rightarrow> VM \<Rightarrow> bool" where
  "undisturbed vm' vm \<longleftrightarrow>
     shape vm' = shape vm \<and> procs vm' = procs vm \<and> ProcessTable vm' = ProcessTable vm \<and>
     currentThread vm' = currentThread vm \<and> parentProcess vm' = parentProcess vm \<and> thread_space vm' = thread_space vm"

lemma undisturbed_ptr: "undisturbed vm' vm \<Longrightarrow> space_ptr vm' = space_ptr vm"
  by (rule space_ptr_cong) (simp_all add: undisturbed_def)

lemma undisturbed_refl [simp]: "undisturbed vm vm"
  by (simp add: undisturbed_def)

lemma undisturbed_trans: "undisturbed c b \<Longrightarrow> undisturbed b a \<Longrightarrow> undisturbed c a"
  by (simp add: undisturbed_def)

text \<open>Paging keeps the lengths of the page tables and the registers.\<close>

definition kept :: "VM \<Rightarrow> VM \<Rightarrow> bool" where
  "kept vm' vm \<longleftrightarrow> shape vm' = shape vm \<and> registers (machine vm') = registers (machine vm)"

lemma kept_refl [simp]: "kept vm vm"
  by (simp add: kept_def)

lemma kept_trans [trans]: "kept c b \<Longrightarrow> kept b a \<Longrightarrow> kept c a"
  by (simp add: kept_def)

lemma shape_updates [simp]:
  "shape (vm\<lparr>sfBM := x1\<rparr>) = shape vm" "shape (vm\<lparr>swapFile := x2\<rparr>) = shape vm" "shape (vm\<lparr>fifoQueue := x3\<rparr>) = shape vm"
  "shape (vm\<lparr>bm := x4\<rparr>) = shape vm" "shape (vm\<lparr>ipt := x5\<rparr>) = shape vm" "shape (vm\<lparr>machine := x6\<rparr>) = shape vm"
  "shape (vm\<lparr>TLBCounter := x7\<rparr>) = shape vm" "shape (vm\<lparr>past_tlb := x8\<rparr>) = shape vm" "shape (vm\<lparr>IPTLock := x9\<rparr>) = shape vm"
  "shape (IPTLock_Release vm) = shape vm" "machine (IPTLock_Release vm) = machine vm"
  by (simp_all add: shape_def fun_eq_iff IPTLock_Release_def)

lemma kept_set_page: "set_page this v f vm = Inr vm' \<Longrightarrow> kept vm' vm"
  by (auto simp: kept_def set_page_def bindE_Inr_iff array_set_Inr_iff shape_def deref_def fun_eq_iff split: option.splits)

lemma kept_touch: "touch_tlb f i vm = Inr vm' \<Longrightarrow> kept vm' vm"
  by (auto simp: kept_def touch_tlb_def split: option.splits if_splits)

lemma kept_touch_loop: "foldE (touch_tlb f) is vm = Inr vm' \<Longrightarrow> kept vm' vm"
  by (induction "is" arbitrary: vm) (auto simp: kept_def bindE_Inr_iff dest: kept_touch)

lemma kept_store: "store_bytes a bs vm = Inr vm' \<Longrightarrow> kept vm' vm"
  by (auto simp: kept_def store_bytes_def split: if_splits)

lemma kept_lock: "IPTLock_Acquire vm = Inr vm' \<Longrightarrow> kept vm' vm"
  by (auto simp: kept_def IPTLock_Acquire_def split: if_splits)

lemmas kept_steps = kept_set_page kept_touch_loop kept_store kept_lock

lemma kept_evict: "evict phy q vm = Inr vm' \<Longrightarrow> kept vm' vm"
  unfolding evict_def pageToSwapFile_def bzero_frame_def
  by (auto simp: kept_def bindE_Inr_iff dest!: kept_steps split: prod.splits)

lemma kept_writeOne: "writeOneToSwapFile rnd vm = Inr vm' \<Longrightarrow> kept vm' vm"
  by (auto simp: kept_def writeOneToSwapFile_def dest: kept_evict split: policy.splits list.splits)

lemma kept_find_frame: "find_frame this v vm = Inr vm' \<Longrightarrow> kept vm' vm"
  unfolding find_frame_def by (auto simp: kept_def bindE_Inr_iff dest!: kept_steps split: prod.splits)

lemma kept_new_frame: "new_frame rnd this v vm = Inr vm' \<Longrightarrow> kept vm' vm"
  unfolding new_frame_def by (auto simp: kept_def bindE_Inr_iff dest!: kept_find_frame kept_writeOne split: if_splits)

lemma kept_load:
  "load_executable this v vm = Inr vm' \<Longrightarrow> kept vm' vm"
  "load_swapped this v vm = Inr vm' \<Longrightarrow> kept vm' vm"
  unfolding load_executable_def load_swapped_def bzero_frame_def Let_def
  by (auto simp: kept_def bindE_Inr_iff dest!: kept_steps split: if_splits)

lemma kept_enter_ipt: "enter_ipt this v pid vm = Inr vm' \<Longrightarrow> kept vm' vm"
  unfolding enter_ipt_def by (auto simp: kept_def bindE_Inr_iff dest!: kept_steps)

lemma kept_updateIPT: "updateIPT rnd this va pid vm = Inr vm' \<Longrightarrow> kept vm' vm"
  unfolding updateIPT_def Let_def
  by (auto simp: kept_def bindE_Inr_iff dest!: kept_steps kept_new_frame kept_load kept_enter_ipt split: if_splits)

lemma kept_findIPTIndex: "findIPTIndex v vm = Inr (k, vm') \<Longrightarrow> kept vm' vm"
  unfolding findIPTIndex_def by (auto simp: kept_def bindE_Inr_iff dest!: kept_steps)

lemma kept_addTLB: "addTLB p vm = Inr vm' \<Longrightarrow> kept vm' vm"
  unfolding addTLB_def Let_def by (auto simp: kept_def bindE_Inr_iff split: option.splits if_splits)

lemma kept_updateTLB: "updateTLB rnd va vm = Inr vm' \<Longrightarrow> kept vm' vm"
  unfolding updateTLB_def
  by (auto simp: kept_def bindE_Inr_iff dest!: kept_findIPTIndex kept_addTLB kept_updateIPT split: if_splits prod.splits)

section \<open>One attempt\<close>

text \<open>The invariant and the pages do not depend on registers, status and time stamps.\<close>

lemma vm_inv_machine:
  assumes "tlb m = tlb (machine vm)" "pageTable m = pageTable (machine vm)"
  shows "vm_inv (vm\<lparr>machine := m\<rparr>) pid = vm_inv vm pid"
  using assms current_ok_cong [of "vm\<lparr>machine := m\<rparr>" vm pid] space_ptr_cong [of "vm\<lparr>machine := m\<rparr>" vm]
    page_of_cong [of "vm\<lparr>machine := m\<rparr>" vm] spaces_ok_cong [of "vm\<lparr>machine := m\<rparr>" vm]
  by (simp add: vm_inv_def paging_ok_def ipt_exact_def tlb_ok_def store_ok_def fifo_ok_def)

lemma page_bytes_machine:
  assumes "mainMemory m = mainMemory (machine vm)"
  shows "page_bytes (vm\<lparr>machine := m\<rparr>) = page_bytes vm"
  using assms space_ptr_cong [of "vm\<lparr>machine := m\<rparr>" vm] page_of_cong [of "vm\<lparr>machine := m\<rparr>" vm]
    never_loaded_cong [of "vm\<lparr>machine := m\<rparr>" vm]
  by (simp add: page_bytes_def)

lemma page_of_machine [simp]: "page_of (vm\<lparr>machine := m\<rparr>) = page_of vm" "space_ptr (vm\<lparr>machine := m\<rparr>) = space_ptr vm"
  using space_ptr_cong [of "vm\<lparr>machine := m\<rparr>" vm] page_of_cong [of "vm\<lparr>machine := m\<rparr>" vm] by simp_all

text \<open>A read of one byte translates, or the page is not in the TLB.\<close>

lemma Translate_byte_cases:
  assumes inv: "vm_inv vm pid"
  obtains (hit) pa m where "Translate (machine vm) va 1 False = Inr (NoException, pa, m)" "translated (machine vm) va 1 False pa m"
  | (miss) "Translate (machine vm) va 1 False = Inr (PageFaultException, 0, machine vm)"
proof -
  obtain t where t: "tlb (machine vm) = Some t" "length t = 4" "pageTable (machine vm) = None"
    using inv by (auto simp: vm_inv_def paging_ok_def store_ok_def)
  show ?thesis
  proof (cases "tlb_search t (unat va div 128) 0")
    case None
    then show ?thesis using t by (intro miss) (simp add: Translate_def find_entry_def)
  next
    case (Some i)
    then have en: "t ! i \<in> set t" "valid (t ! i)" "unat (virtualPage (t ! i)) = unat va div 128"
      using tlb_search_Some [OF Some] by simp_all
    from tlb_entry_page [OF inv t(1) en(1,2)] obtain d where d: "page_of vm pid (unat va div 128) = Some d"
      unfolding en(3) by blast
    have v: "virtualPage (t ! i) = word_of_int (int (unat va div 128))" using en(3) [symmetric] by simp
    have sz: "(1 :: int) \<in> {1, 2, 4}" "\<not> misaligned va 1" by (simp_all add: misaligned_def)
    from tlb_hit_translates [OF inv t(1) en(1,2) v d sz] show ?thesis using hit by blast
  qed
qed

text \<open>Setting the use bit of a TLB entry changes nothing that matters.\<close>

lemma translated_keeps_inv:
  assumes inv: "vm_inv vm pid" and tr: "translated (machine vm) va sz w pa m"
  shows "vm_inv (vm\<lparr>machine := m\<lparr>lastUsed := x\<rparr>\<rparr>) pid" and "mainMemory m = mainMemory (machine vm)" "registers m = registers (machine vm)"
proof -
  obtain kind i e where e: "i < length (table_of (machine vm) kind)" "table_of (machine vm) kind ! i = e"
    "m = set_entry (machine vm) kind i (e\<lparr>te_use := True, dirty := (w \<or> dirty e)\<rparr>)"
    using tr unfolding translated_def by blast
  obtain t y where t: "tlb (machine vm) = Some t" "length t = 4" "pageTable (machine vm) = None" "past_tlb vm = Some y"
    using inv by (auto simp: vm_inv_def paging_ok_def store_ok_def)
  have kind: "kind = In_TLB" using e(1) t(3) by (cases kind) (simp_all add: table_of_def)
  let ?e = "e\<lparr>te_use := True, dirty := (w \<or> dirty e)\<rparr>"
  have m: "tlb m = Some (t[i := ?e])" "pageTable m = None" using e(3) t kind by (simp_all add: set_entry_def)
  have old: "e \<in> set t" using e(1,2) t(1) kind by (auto simp: table_of_def)
  let ?vm = "vm\<lparr>machine := m\<lparr>lastUsed := x\<rparr>\<rparr>"
  have "tlb_ok ?vm pid"
    using vm_inv_parts(3) [OF inv] t(1) m(1) old set_update_subset_insert [of t i ?e]
    by (auto simp: tlb_ok_def dest!: subsetD)
  moreover have "paging_ok ?vm \<and> ipt_exact ?vm \<and> current_ok ?vm pid"
    using inv t m spaces_ok_cong [of ?vm vm] current_ok_cong [of ?vm vm pid]
    by (simp add: vm_inv_def paging_ok_def ipt_exact_def store_ok_def fifo_ok_def)
  ultimately show "vm_inv ?vm pid" by (simp add: vm_inv_def)
  show "mainMemory m = mainMemory (machine vm)" "registers m = registers (machine vm)" using e(3) by simp_all
qed

lemma read_hit:
  assumes inv: "vm_inv vm pid" and tr: "Translate (machine vm) va 1 False = Inr (NoException, pa, m)" "translated (machine vm) va 1 False pa m"
  obtains m' where "vm_ReadMem rnd vm va 1 = Inr (Some (scast (mainMemory (machine vm) (nat pa))), vm\<lparr>machine := m'\<rparr>)"
    "vm_inv (vm\<lparr>machine := m'\<rparr>) pid" "page_bytes (vm\<lparr>machine := m'\<rparr>) = page_bytes vm" "registers m' = registers (machine vm)"
proof -
  note k = translated_keeps_inv [OF inv tr(2)]
  let ?m = "m\<lparr>lastUsed := (lastUsed m)(nat pa div 128 := ticks m)\<rparr>"
  have "vm_ReadMem rnd vm va 1 = Inr (Some (scast (mainMemory (machine vm) (nat pa))), vm\<lparr>machine := ?m\<rparr>)"
    using tr(1) k(2) by (simp add: vm_ReadMem_def ReadMem_def Let_def)
  moreover have "page_bytes (vm\<lparr>machine := ?m\<rparr>) = page_bytes vm" by (rule page_bytes_machine) (simp add: k(2))
  ultimately show ?thesis using that [of ?m] k(1) k(3) by simp
qed

text \<open>The machine as the handler finds it.\<close>

definition faulted :: "32 word \<Rightarrow> Machine \<Rightarrow> Machine" where
  "faulted va m = (DelayedLoad (setreg m BadVAddrReg va) 0 0)\<lparr>status := SystemMode\<rparr>"

lemma faulted_fields [simp]:
  "tlb (faulted va m) = tlb m" "pageTable (faulted va m) = pageTable m" "mainMemory (faulted va m) = mainMemory m"
  by (simp_all add: faulted_def DelayedLoad_def setreg_def Let_def)

lemma faulted_registers:
  assumes "registers m LoadReg = 0"
  shows "registers (faulted va m) BadVAddrReg = va" "registers (faulted va m) LoadReg = 0"
  using assms by (simp_all add: faulted_def DelayedLoad_def setreg_def Let_def)

lemma read_miss:
  assumes "Translate (machine vm) va 1 False = Inr (PageFaultException, 0, machine vm)" "registers (machine vm) LoadReg = 0"
  shows "vm_ReadMem rnd vm va 1 =
    bindE (updateTLB rnd va (vm\<lparr>machine := faulted va (machine vm)\<rparr>)) (\<lambda>vm'.
      Inr (None, vm'\<lparr>machine := (machine vm')\<lparr>status := UserMode\<rparr>\<rparr>))"
proof -
  have "registers (DelayedLoad (setreg (machine vm) BadVAddrReg va) 0 0) BadVAddrReg = va"
    using faulted_registers(1) [OF assms(2), of va] by (simp add: faulted_def)
  then show ?thesis
    using assms
    by (simp add: vm_ReadMem_def vm_RaiseException_def handle_fault_def ReadRegister_def faulted_def bindE_assoc Let_def)
qed

section \<open>A read is served after at most three attempts\<close>

lemma Translate_status:
  "Translate (m\<lparr>status := x\<rparr>) va sz w =
     bindE (Translate m va sz w) (\<lambda>(exc, pa, m'). Inr (exc, pa, m'\<lparr>status := x\<rparr>))"
proof -
  have "find_entry (m\<lparr>status := x\<rparr>) vpn = find_entry m vpn" for vpn
    by (simp add: find_entry_def split: option.split)
  moreover have "set_entry (m\<lparr>status := x\<rparr>) k i e = (set_entry m k i e)\<lparr>status := x\<rparr>" for k i e
    by (simp add: set_entry_def split: table_kind.split)
  ultimately show ?thesis
    by (auto simp: Translate_def Let_def bindE_def split: sum.splits)
qed

text \<open>
  The kernel may read on behalf of the process \<open>pid\<close>: the invariant holds, the lock of the
  inverted page table is available, no delayed load is pending, and \<open>k\<close> pages can still be
  brought in and \<open>n\<close> entries be made in the TLB.
\<close>

definition copy_ready :: "VM \<Rightarrow> int \<Rightarrow> nat \<Rightarrow> nat \<Rightarrow> bool" where
  "copy_ready vm pid k n \<longleftrightarrow>
     vm_inv vm pid \<and> lock_free vm \<and> registers (machine vm) LoadReg = 0 \<and> taken vm + k \<le> 8192 \<and>
     0 \<le> TLBCounter vm \<and> TLBCounter vm + int n \<le> 2 ^ 31 - 1"

lemma copy_ready_mono: "copy_ready vm pid k n \<Longrightarrow> k' \<le> k \<Longrightarrow> n' \<le> n \<Longrightarrow> copy_ready vm pid k' n'"
  by (simp add: copy_ready_def)

lemma copy_ready_machine:
  assumes "copy_ready vm pid k n" "vm_inv (vm\<lparr>machine := m\<rparr>) pid" "registers m LoadReg = 0"
  shows "copy_ready (vm\<lparr>machine := m\<rparr>) pid k n"
  using assms by (simp add: copy_ready_def lock_free_def taken_def)

lemma room_left:
  assumes "taken vm < 8192" "vm_inv vm pid"
  shows "\<not> {0..<NumPhysPages} \<subseteq> used (bm vm) \<or> \<not> {0..<4096} \<subseteq> used (sfBM vm)"
proof (rule ccontr)
  assume "\<not> ?thesis"
  then have full: "{0..<4096} \<subseteq> used (bm vm)" "{0..<4096} \<subseteq> used (sfBM vm)" by auto
  have "card {0..<4096 :: int} \<le> card (used (bm vm))" "card {0..<4096 :: int} \<le> card (used (sfBM vm))"
    using card_mono [OF finite_used full(1)] card_mono [OF finite_used full(2)] by auto
  then show False using assms(1) by (simp add: taken_def)
qed

definition served :: "VM \<Rightarrow> int \<Rightarrow> 32 word \<Rightarrow> 32 word \<Rightarrow> VM \<Rightarrow> bool" where
  "served vm pid a v vm' \<longleftrightarrow>
     (\<forall>bytes. page_bytes vm pid (unat a div 128) = Some bytes \<longrightarrow> ucast v = bytes ! (unat a mod 128)) \<and>
     (\<forall>q w bytes. page_bytes vm q w = Some bytes \<longrightarrow> page_bytes vm' q w = Some bytes) \<and>
     undisturbed vm' vm"

lemma served_after:
  assumes "served vm1 pid a v vm'" "\<forall>q w bytes. page_bytes vm q w = Some bytes \<longrightarrow> page_bytes vm1 q w = Some bytes"
    "undisturbed vm1 vm"
  shows "served vm pid a v vm'"
  using assms undisturbed_trans by (auto simp: served_def)

lemma scast_byte: "ucast (scast (b :: 8 word) :: 32 word) = b"
proof (rule bit_word_eqI)
  fix n assume "n < LENGTH(8)"
  then have "n < 7 \<or> n = 7" by auto
  then show "bit (ucast (scast b :: 32 word) :: 8 word) n = bit b n"
    by (auto simp: bit_unsigned_iff bit_signed_iff min_def)
qed

lemma read_hit_served:
  assumes ready: "copy_ready vm pid k n"
    and tr: "Translate (machine vm) a 1 False = Inr (NoException, pa, m)" "translated (machine vm) a 1 False pa m"
  obtains v vm' where "vm_ReadMem rnd vm a 1 = Inr (Some v, vm')" "copy_ready vm' pid k n" "served vm pid a v vm'"
proof -
  have inv: "vm_inv vm pid" "registers (machine vm) LoadReg = 0" using ready by (simp_all add: copy_ready_def)
  from read_hit [OF inv(1) tr, of rnd] obtain m' where
    r: "vm_ReadMem rnd vm a 1 = Inr (Some (scast (mainMemory (machine vm) (nat pa))), vm\<lparr>machine := m'\<rparr>)"
    "vm_inv (vm\<lparr>machine := m'\<rparr>) pid" "page_bytes (vm\<lparr>machine := m'\<rparr>) = page_bytes vm" "registers m' = registers (machine vm)" .
  have "copy_ready (vm\<lparr>machine := m'\<rparr>) pid k n"
    by (rule copy_ready_machine [OF ready r(2)]) (simp add: r(4) inv(2))
  moreover have "served vm pid a (scast (mainMemory (machine vm) (nat pa))) (vm\<lparr>machine := m'\<rparr>)"
    using translated_own_byte [OF inv(1) tr(2)] r(3) by (simp add: served_def scast_byte undisturbed_def)
  ultimately show ?thesis using that r(1) by blast
qed

text \<open>A page that is resident needs two attempts at most, any other page three.\<close>

lemma read_resident:
  assumes ready: "copy_ready vm pid k (Suc n)" and page: "page_of vm pid (unat a div 128) = Some d" "pe_valid d"
  obtains v vm' where "read_retry (Suc (Suc f)) rnd a vm = Some (Inr (v, vm'))" "copy_ready vm' pid k n" "served vm pid a v vm'"
proof -
  have inv: "vm_inv vm pid" "lock_free vm" "registers (machine vm) LoadReg = 0" "0 \<le> TLBCounter vm" "TLBCounter vm < 2 ^ 31 - 1"
    using ready by (simp_all add: copy_ready_def)
  from inv(1) show ?thesis
  proof (cases rule: Translate_byte_cases [of _ _ a])
    case (hit pa m)
    from read_hit_served [OF ready hit, of "rnd (Suc f)"] obtain v vm' where
      r: "vm_ReadMem (rnd (Suc f)) vm a 1 = Inr (Some v, vm')" "copy_ready vm' pid k (Suc n)" "served vm pid a v vm'" .
    have "copy_ready vm' pid k n" using copy_ready_mono [OF r(2)] by simp
    then show ?thesis using that r by simp
  next
    case miss
    let ?u = "vm\<lparr>machine := faulted a (machine vm)\<rparr>"
    have u: "vm_inv ?u pid" "page_of ?u pid (unat a div 128) = Some d" "page_bytes ?u = page_bytes vm"
      "lock_free ?u" "0 \<le> TLBCounter ?u" "TLBCounter ?u < 2 ^ 31 - 1"
      using inv page by (simp_all add: vm_inv_machine page_bytes_machine lock_free_def)
    have sz: "(1 :: int) \<in> {1, 2, 4}" "\<not> misaligned a 1" by (simp_all add: misaligned_def)
    from fault_enters_tlb [OF u(1,4,2) page(2) u(5,6) sz, of "rnd (Suc f)"] obtain vm2 pa m t where
      t: "updateTLB (rnd (Suc f)) a ?u = Inr vm2" "vm_inv vm2 pid" "page_bytes vm2 = page_bytes ?u"
      "Translate (machine vm2) a 1 False = Inr (NoException, pa, m)"
      "vm2 = ?u\<lparr>IPTLock := None, machine := (machine ?u)\<lparr>tlb := Some t\<rparr>, TLBCounter := TLBCounter ?u + 1\<rparr>" .
    let ?w = "vm2\<lparr>machine := (machine vm2)\<lparr>status := UserMode\<rparr>\<rparr>"
    have first: "vm_ReadMem (rnd (Suc f)) vm a 1 = Inr (None, ?w)" using read_miss [OF miss inv(3)] t(1) by simp
    have regs: "registers (machine vm2) LoadReg = 0" using t(5) faulted_registers(2) [OF inv(3), of a] by simp
    have w: "vm_inv ?w pid" "page_bytes ?w = page_bytes vm"
      using t(2,3) u(3) by (simp_all add: vm_inv_machine page_bytes_machine)
    have ready2: "copy_ready ?w pid k n"
      using ready w(1) regs t(5) by (simp add: copy_ready_def lock_free_def taken_def)
    have sh: "undisturbed ?w vm" unfolding t(5) by (simp add: undisturbed_def)
    from w(1) show ?thesis
    proof (cases rule: Translate_byte_cases [of _ _ a])
      case (hit pa' m')
      from read_hit_served [OF ready2 hit, of "rnd f"] obtain v vm' where
        r: "vm_ReadMem (rnd f) ?w a 1 = Inr (Some v, vm')" "copy_ready vm' pid k n" "served ?w pid a v vm'" .
      have "read_retry (Suc (Suc f)) rnd a vm = Some (Inr (v, vm'))" using first r(1) by simp
      moreover have "served vm pid a v vm'" by (rule served_after [OF r(3) _ sh]) (simp only: w(2), simp)
      ultimately show ?thesis using that r(2) by blast
    next
      case miss
      then show ?thesis using t(4) by (simp add: Translate_status)
    qed
  qed
qed

lemma read_served:
  assumes ready: "copy_ready vm pid (Suc k) (Suc n)" and page: "page_of vm pid (unat a div 128) = Some e" and rnd: "\<forall>i. 0 \<le> rnd i"
  obtains v vm' where "read_retry (3 + f) rnd a vm = Some (Inr (v, vm'))" "copy_ready vm' pid k n" "served vm pid a v vm'"
proof -
  have three: "3 + f = Suc (Suc (Suc f))" by simp
  show ?thesis
  proof (cases "pe_valid e")
    case True
    have "copy_ready vm pid k (Suc n)" using copy_ready_mono [OF ready] by simp
    from read_resident [OF this page True, of "Suc f" rnd] show ?thesis using that three by metis
  next
    case False
    have inv: "vm_inv vm pid" "lock_free vm" "registers (machine vm) LoadReg = 0" "taken vm < 8192"
      using ready by (simp_all add: copy_ready_def)
    from inv(1) show ?thesis
    proof (cases rule: Translate_byte_cases [of _ _ a])
      case (hit pa m)
      from translated_own_page [OF inv(1) hit(2)] page False show ?thesis by auto
    next
      case miss
      let ?u = "vm\<lparr>machine := faulted a (machine vm)\<rparr>" and ?r = "rnd (Suc (Suc f))"
      have u: "vm_inv ?u pid" "page_of ?u pid (unat a div 128) = Some e" "page_bytes ?u = page_bytes vm" "lock_free ?u"
        using inv page by (simp_all add: vm_inv_machine page_bytes_machine lock_free_def)
      have room: "\<not> {0..<NumPhysPages} \<subseteq> used (bm ?u) \<or> \<not> {0..<4096} \<subseteq> used (sfBM ?u)" using room_left [OF inv(4,1)] by simp
      have "0 \<le> ?r" using rnd by simp
      from fault_loads_page [OF u(1,4) this u(2) False room] obtain vm1 d where
        l: "updateTLB ?r a ?u = Inr vm1" "vm_inv vm1 pid" "lock_free vm1" "TLBCounter vm1 = TLBCounter ?u"
        "page_of vm1 pid (unat a div 128) = Some d" "pe_valid d"
        "\<forall>q w bs. page_bytes ?u q w = Some bs \<longrightarrow> page_bytes vm1 q w = Some bs" "taken vm1 \<le> Suc (taken ?u)"
        "same_control vm1 (?u\<lparr>IPTLock := None\<rparr>)" .
      let ?w = "vm1\<lparr>machine := (machine vm1)\<lparr>status := UserMode\<rparr>\<rparr>"
      have first: "vm_ReadMem ?r vm a 1 = Inr (None, ?w)" using read_miss [OF miss inv(3)] l(1) by simp
      have kept: "shape vm1 = shape vm" "registers (machine vm1) LoadReg = 0"
        using kept_updateTLB [OF l(1)] faulted_registers(2) [OF inv(3), of a] by (simp_all add: kept_def)
      have w: "vm_inv ?w pid" "page_bytes ?w = page_bytes vm1"
        using l(2) by (simp_all add: vm_inv_machine page_bytes_machine)
      have "taken vm1 \<le> Suc (taken vm)" using l(8) by (simp add: taken_def)
      then have ready1: "copy_ready ?w pid k (Suc n)"
        using ready w(1) l(3,4) kept(2) by (simp add: copy_ready_def lock_free_def taken_def)
      have pg: "page_of ?w pid (unat a div 128) = Some d" using l(5) by simp
      have und: "undisturbed ?w vm" using l(9) kept(1) by (simp add: undisturbed_def same_control_def)
      from read_resident [OF ready1 pg l(6), of f rnd] obtain v vm' where
        r: "read_retry (Suc (Suc f)) rnd a ?w = Some (Inr (v, vm'))" "copy_ready vm' pid k n" "served ?w pid a v vm'" .
      have "read_retry (3 + f) rnd a vm = Some (Inr (v, vm'))" unfolding three using first r(1) by simp
      moreover have "served vm pid a v vm'"
        by (rule served_after [OF r(3) _ und]) (use l(7) u(3) w(2) in simp_all)
      ultimately show ?thesis using that r(2) by blast
    qed
  qed
qed

section \<open>copyin reads the user's bytes\<close>

text \<open>The byte the process \<open>pid\<close> has at an address, where it is determined.\<close>

definition user_byte :: "VM \<Rightarrow> int \<Rightarrow> 32 word \<Rightarrow> 8 word option" where
  "user_byte vm pid a = map_option (\<lambda>bytes. bytes ! (unat a mod 128)) (page_bytes vm pid (unat a div 128))"

lemma copyin_loop_ok:
  assumes "copy_ready vm pid k k" and "\<forall>i j. 0 \<le> rnd i j"
    and "\<forall>i < k. page_of vm pid (unat (a + of_nat i) div 128) \<noteq> None" and "0 \<le> n" "nat n + k \<le> length buf"
  shows "\<exists>buf' vm'. copyin_loop (3 + f) rnd k a n buf vm = Some (Inr (buf', vm')) \<and> copy_ready vm' pid 0 0 \<and>
    length buf' = length buf \<and> take (nat n) buf' = take (nat n) buf \<and> drop (nat n + k) buf' = drop (nat n + k) buf \<and>
    (\<forall>i < k. \<forall>b. user_byte vm pid (a + of_nat i) = Some b \<longrightarrow> buf' ! (nat n + i) = b) \<and>
    (\<forall>q w bytes. page_bytes vm q w = Some bytes \<longrightarrow> page_bytes vm' q w = Some bytes) \<and> undisturbed vm' vm"
  using assms
proof (induction k arbitrary: vm a n buf)
  case 0
  then show ?case by simp
next
  case (Suc k vm a n buf)
  obtain e where page: "page_of vm pid (unat a div 128) = Some e" using Suc.prems(3) [rule_format, of 0] by auto
  have "\<forall>i. 0 \<le> rnd k i" using Suc.prems(2) by simp
  from read_served [OF Suc.prems(1) page this, of f] obtain v vm1 where
    r: "read_retry (3 + f) (rnd k) a vm = Some (Inr (v, vm1))" "copy_ready vm1 pid k k" "served vm pid a v vm1" .
  let ?buf = "buf[nat n := ucast v]"
  have set: "array_set buf n (ucast v) = Inr ?buf" using Suc.prems(4,5) by (simp add: array_set_def)
  have s: "undisturbed vm1 vm"
    "\<And>q w bytes. page_bytes vm q w = Some bytes \<Longrightarrow> page_bytes vm1 q w = Some bytes"
    "\<And>bytes. page_bytes vm pid (unat a div 128) = Some bytes \<Longrightarrow> ucast v = bytes ! (unat a mod 128)"
    using r(3) by (simp_all add: served_def)
  have next_page: "\<forall>i < k. page_of vm1 pid (unat (a + 1 + of_nat i) div 128) \<noteq> None"
    using Suc.prems(3) page_of_shape [OF _ undisturbed_ptr [OF s(1)]] s(1) unfolding undisturbed_def by (metis Suc_less_eq add.assoc of_nat_Suc)
  have "0 \<le> n + 1" "nat (n + 1) + k \<le> length ?buf" using Suc.prems(4,5) by simp_all
  from Suc.IH [OF r(2) Suc.prems(2) next_page this] obtain buf' vm' where
    ih: "copyin_loop (3 + f) rnd k (a + 1) (n + 1) ?buf vm1 = Some (Inr (buf', vm'))" "copy_ready vm' pid 0 0"
    "length buf' = length buf" "take (nat (n + 1)) buf' = take (nat (n + 1)) ?buf" "drop (nat (n + 1) + k) buf' = drop (nat (n + 1) + k) ?buf"
    "\<And>i b. i < k \<Longrightarrow> user_byte vm1 pid (a + 1 + of_nat i) = Some b \<Longrightarrow> buf' ! (nat (n + 1) + i) = b"
    "\<And>q w bytes. page_bytes vm1 q w = Some bytes \<Longrightarrow> page_bytes vm' q w = Some bytes" "undisturbed vm' vm1"
    by auto
  have n1: "nat (n + 1) = Suc (nat n)" "nat n < length buf" using Suc.prems(4,5) by simp_all
  have now: "buf' ! nat n = ucast v"
    using arg_cong [OF ih(4), of "\<lambda>xs. xs ! nat n"] n1 by simp
  have bytes: "buf' ! (nat n + i) = b" if "i < Suc k" "user_byte vm pid (a + of_nat i) = Some b" for i b
  proof (cases i)
    case 0
    then show ?thesis using that now s(3) by (auto simp: user_byte_def)
  next
    case (Suc j)
    have "user_byte vm1 pid (a + 1 + of_nat j) = Some b"
      using that(2) s(2) Suc by (auto simp: user_byte_def add.assoc)
    from ih(6) [OF _ this] show ?thesis using Suc that(1) n1 by simp
  qed
  have front: "take (nat n) buf' = take (nat n) buf"
    using arg_cong [OF ih(4), of "take (nat n)"] n1 by simp
  have rear: "drop (nat n + Suc k) buf' = drop (nat n + Suc k) buf" using ih(5) n1 by simp
  have "copyin_loop (3 + f) rnd (Suc k) a n buf vm = Some (Inr (buf', vm'))" using r(1) set ih(1) by simp
  moreover have "undisturbed vm' vm" by (rule undisturbed_trans [OF ih(8) s(1)])
  ultimately show ?case using ih(2,3,7) s(2) front rear bytes by auto
qed

section \<open>Writes\<close>

definition in_tlb :: "VM \<Rightarrow> nat \<Rightarrow> bool" where
  "in_tlb vm v \<longleftrightarrow> (\<exists>t. tlb (machine vm) = Some t \<and> tlb_search t v 0 \<noteq> None)"

definition writable :: "VM \<Rightarrow> nat \<Rightarrow> bool" where
  "writable vm v \<longleftrightarrow> (\<exists>t i. tlb (machine vm) = Some t \<and> tlb_search t v 0 = Some i \<and> \<not> readOnly (t ! i))"

lemma frame_bytes_upd:
  assumes "off < 128" "0 \<le> k"
  shows "frame_bytes (mem(nat k * 128 + off := b)) k = (frame_bytes mem k)[off := b]"
  using assms by (intro nth_equalityI) (auto simp: frame_byte nth_list_update)

lemma frame_bytes_other:
  assumes "off < 128" "nat k' \<noteq> nat k"
  shows "frame_bytes (mem(nat k * 128 + off := b)) k' = frame_bytes mem k'"
proof -
  have "nat k' * 128 + i \<noteq> nat k * 128 + off" if "i < 128" for i
  proof
    assume e: "nat k' * 128 + i = nat k * 128 + off"
    have "(nat k' * 128 + i) div 128 = nat k'" "(nat k * 128 + off) div 128 = nat k" using that assms(1) by simp_all
    then show False using e assms(2) by simp
  qed
  then show ?thesis by (simp add: frame_bytes_def)
qed

text \<open>A store through the TLB changes one byte of one page.\<close>

lemma write_hit:
  assumes inv: "vm_inv vm pid" and w: "writable vm (unat a div 128)"
  obtains vm' bytes where "vm_WriteMem rnd vm a 1 (scast b) = Inr (True, vm')" "vm_inv vm' pid" "writable vm' (unat a div 128)"
    "page_bytes vm pid (unat a div 128) = Some bytes" "page_bytes vm' pid (unat a div 128) = Some (bytes[unat a mod 128 := b])"
    "\<forall>q v. (q, v) \<noteq> (pid, unat a div 128) \<longrightarrow> page_bytes vm' q v = page_bytes vm q v"
    "\<exists>m. vm' = vm\<lparr>machine := m\<rparr> \<and> registers m = registers (machine vm)" "length bytes = 128"
proof -
  let ?v = "unat a div 128" and ?off = "unat a mod 128"
  obtain t i where t: "tlb (machine vm) = Some t" "tlb_search t ?v 0 = Some i" "\<not> readOnly (t ! i)"
    using w by (auto simp: writable_def)
  have len: "length t = 4" "pageTable (machine vm) = None" using inv t(1) by (auto simp: vm_inv_def paging_ok_def store_ok_def)
  have en: "i < length t" "valid (t ! i)" "unat (virtualPage (t ! i)) = ?v" using tlb_search_Some [OF t(2)] by simp_all
  have fe: "find_entry (machine vm) ?v = Inr (Inr (In_TLB, i, t ! i))" using t len by (simp add: find_entry_def)
  have ein: "t ! i \<in> set t" using en(1) by simp
  obtain d where d: "page_of vm pid (unat (virtualPage (t ! i))) = Some d" "pe_valid d"
    "pe_physicalPage d = int (unat (physicalPage (t ! i)))" "unat (physicalPage (t ! i)) < 4096"
    by (rule tlb_entry_page [OF inv t(1) ein en(2)])
  let ?k = "pe_physicalPage d" and ?e = "(t ! i)\<lparr>te_use := True, dirty := True\<rparr>"
  let ?pa = "int (unat (physicalPage (t ! i))) * 128 + int ?off"
  let ?m = "set_entry (machine vm) In_TLB i ?e"
  have off: "?off < 128" by simp
  have small: "\<not> 4096 \<le> int (unat (physicalPage (t ! i)))" "?pa + 1 \<le> 524288" using d(4) off by linarith+
  have tr: "Translate (machine vm) a 1 True = Inr (NoException, ?pa, ?m)"
    using fe t(3) small by (simp add: Translate_def)
  have "translated (machine vm) a 1 True ?pa ?m"
    using fe t en d(4) by (simp add: translated_def table_of_def)
  note kept = translated_keeps_inv [OF inv this]
  have "?pa = int (unat (physicalPage (t ! i)) * 128 + ?off)" by (simp only: of_nat_add of_nat_mult of_nat_numeral)
  then have pa: "nat ?pa = nat ?k * 128 + ?off" unfolding d(3) by (simp only: nat_int)
  let ?mem = "(mainMemory (machine vm))(nat ?pa := b)"
  define m' where "m' = ?m\<lparr>mainMemory := ?mem, lastUsed := (lastUsed ?m)(nat ?pa div 128 := ticks ?m)\<rparr>"
  have run: "vm_WriteMem rnd vm a 1 (scast b) = Inr (True, vm\<lparr>machine := m'\<rparr>)"
    using tr by (simp add: vm_WriteMem_def WriteMem_def Let_def ucast_and_ff scast_byte m'_def)
  have "vm_inv (vm\<lparr>machine := ?m\<lparr>lastUsed := lastUsed m'\<rparr>, machine := m'\<rparr>) pid = vm_inv (vm\<lparr>machine := ?m\<lparr>lastUsed := lastUsed m'\<rparr>\<rparr>) pid"
    by (rule vm_inv_machine) (simp_all add: m'_def)
  then have inv': "vm_inv (vm\<lparr>machine := m'\<rparr>) pid" using kept(1) by simp
  have tlb': "tlb m' = Some (t[i := ?e])" using t(1) by (simp add: m'_def set_entry_def)
  have wr: "writable (vm\<lparr>machine := m'\<rparr>) ?v"
    using tlb' en(1) t(2,3) tlb_search_update [OF en(1), of ?e ?v 0] by (simp add: writable_def)
  have pages: "page_bytes (vm\<lparr>machine := m'\<rparr>) = bytes_of (never_loaded vm) (page_of vm) ?mem (swapFile vm)"
    using never_loaded_cong [of "vm\<lparr>machine := m'\<rparr>" vm] by (simp add: page_bytes_def m'_def)
  have old: "page_bytes vm pid ?v = Some (frame_bytes (mainMemory (machine vm)) ?k)"
    using d(1,2) en(3) by (simp add: page_bytes_def bytes_of_def)
  have new: "page_bytes (vm\<lparr>machine := m'\<rparr>) pid ?v = Some ((frame_bytes (mainMemory (machine vm)) ?k)[?off := b])"
    using d(1,2,3) en(3) frame_bytes_upd [OF off, of ?k] pa by (simp add: pages bytes_of_def)
  have other: "page_bytes (vm\<lparr>machine := m'\<rparr>) q v = page_bytes vm q v" if ne: "(q, v) \<noteq> (pid, ?v)" for q v
  proof -
    have "frame_bytes ?mem (pe_physicalPage e) = frame_bytes (mainMemory (machine vm)) (pe_physicalPage e)"
      if e: "page_of vm q v = Some e" "pe_valid e" for e
    proof -
      have "pe_physicalPage e \<noteq> ?k"
        using vm_inv_parts(6) [OF inv] e d(1,2) en(3) ne unfolding frames_ok_def by (metis of_nat_eq_iff)
      moreover have "pe_physicalPage e \<in> used (bm vm)"
        using vm_inv_parts(6) [OF inv] e unfolding frames_ok_def by blast
      then have "0 \<le> pe_physicalPage e" using vm_inv_parts(8) [OF inv] by auto
      moreover have "0 \<le> ?k" unfolding d(3) by (rule of_nat_0_le_iff)
      ultimately have "nat (pe_physicalPage e) \<noteq> nat ?k" by linarith
      then show ?thesis unfolding pa by (rule frame_bytes_other [OF off])
    qed
    then show ?thesis unfolding pages by (simp add: page_bytes_def bytes_of_def split: option.split)
  qed
  have regs: "\<exists>m. vm\<lparr>machine := m'\<rparr> = vm\<lparr>machine := m\<rparr> \<and> registers m = registers (machine vm)"
    using kept(3) by (intro exI [of _ m']) (simp add: m'_def)
  show ?thesis by (rule that [OF run inv' wr old new _ regs length_frame_bytes]) (use other in blast)
qed

text \<open>A store whose page is not in the TLB is not done: the fault is served and the store fails.\<close>

lemma write_miss:
  assumes inv: "vm_inv vm pid" "registers (machine vm) LoadReg = 0" and miss: "\<not> in_tlb vm (unat a div 128)"
  shows "vm_WriteMem rnd vm a 1 b =
    bindE (updateTLB rnd a (vm\<lparr>machine := faulted a (machine vm)\<rparr>)) (\<lambda>vm'.
      Inr (False, vm'\<lparr>machine := (machine vm')\<lparr>status := UserMode\<rparr>\<rparr>))"
proof -
  obtain t where t: "tlb (machine vm) = Some t" "length t = 4" "pageTable (machine vm) = None"
    using inv by (auto simp: vm_inv_def paging_ok_def store_ok_def)
  have "Translate (machine vm) a 1 True = Inr (PageFaultException, 0, machine vm)"
    using t miss by (simp add: Translate_def find_entry_def in_tlb_def)
  moreover have "registers (DelayedLoad (setreg (machine vm) BadVAddrReg a) 0 0) BadVAddrReg = a"
    using faulted_registers(1) [OF inv(2), of a] by (simp add: faulted_def)
  ultimately show ?thesis
    by (simp add: vm_WriteMem_def vm_RaiseException_def handle_fault_def ReadRegister_def faulted_def bindE_assoc Let_def)
qed

text \<open>Inside one writable page, \<open>copyout\<close> stores all bytes.\<close>

definition patch :: "8 word list \<Rightarrow> nat \<Rightarrow> 8 word list \<Rightarrow> 8 word list" where
  "patch bytes off new = take off bytes @ new @ drop (off + length new) bytes"

lemma patch_step:
  assumes "off < length bytes"
  shows "patch (bytes[off := b]) (Suc off) new = patch bytes off (b # new)"
  using assms by (simp add: patch_def take_Suc_conv_app_nth)

lemma page_offset_Suc:
  fixes a :: "32 word"
  assumes "unat a mod 128 < 127"
  shows "unat (a + 1) div 128 = unat a div 128" "unat (a + 1) mod 128 = Suc (unat a mod 128)"
proof -
  define q r where "q = unat a div 128" and "r = unat a mod 128"
  have a: "unat a = q * 128 + r" "r < 127" using assms by (simp_all add: q_def r_def)
  have "unat a \<noteq> 2 ^ 32 - 1"
  proof
    assume "unat a = 2 ^ 32 - 1"
    then have "unat a mod 128 = 127" by simp
    then show False using assms by simp
  qed
  then have "unat a + 1 < 2 ^ 32" using unsigned_less [of a, where ?'a = nat] by simp
  then have "unat (a + 1) = unat a + 1" by (simp add: unat_word_ariths)
  then have s: "unat (a + 1) = q * 128 + Suc r" using a by simp
  have "(q * 128 + Suc r) div 128 = q" "(q * 128 + Suc r) mod 128 = Suc r" using a(2) by simp_all
  then show "unat (a + 1) div 128 = unat a div 128" "unat (a + 1) mod 128 = Suc (unat a mod 128)"
    by (simp_all add: s q_def [symmetric] r_def [symmetric])
qed

lemma page_bytes_length: "page_bytes vm pid v = Some bytes \<Longrightarrow> page_of vm pid v = Some e \<Longrightarrow> pe_valid e \<Longrightarrow> length bytes = 128"
  by (auto simp: page_bytes_def bytes_of_def)

lemma copyout_loop_ok:
  assumes "vm_inv vm pid" "writable vm (unat a div 128)" "unat a mod 128 + k \<le> 128" "0 \<le> n" "nat n + k \<le> length buf"
    "page_bytes vm pid (unat a div 128) = Some bytes" "length bytes = 128"
  shows "\<exists>vm'. copyout_loop rnd k a n buf vm = Inr (n + int k, vm') \<and> vm_inv vm' pid \<and>
    page_bytes vm' pid (unat a div 128) = Some (patch bytes (unat a mod 128) (take k (drop (nat n) buf))) \<and>
    (\<forall>q v. (q, v) \<noteq> (pid, unat a div 128) \<longrightarrow> page_bytes vm' q v = page_bytes vm q v) \<and>
    (\<exists>m. vm' = vm\<lparr>machine := m\<rparr> \<and> registers m = registers (machine vm))"
  using assms
proof (induction k arbitrary: vm a n bytes)
  case 0
  then show ?case by (auto simp: patch_def intro!: exI [of _ "machine vm"])
next
  case (Suc k vm a n bytes)
  let ?v = "unat a div 128" and ?off = "unat a mod 128" and ?b = "buf ! nat n"
  have get: "array_get buf n = Inr ?b" using Suc.prems(4,5) by (simp add: array_get_def)
  from write_hit [OF Suc.prems(1,2), of "rnd k" ?b] obtain vm1 old where
    w: "vm_WriteMem (rnd k) vm a 1 (scast ?b) = Inr (True, vm1)" "vm_inv vm1 pid" "writable vm1 ?v"
    "page_bytes vm pid ?v = Some old" "page_bytes vm1 pid ?v = Some (old[?off := ?b])"
    "\<forall>q v. (q, v) \<noteq> (pid, ?v) \<longrightarrow> page_bytes vm1 q v = page_bytes vm q v"
    "\<exists>m. vm1 = vm\<lparr>machine := m\<rparr> \<and> registers m = registers (machine vm)" "length old = 128" .
  have old: "old = bytes" using w(4) Suc.prems(6) by simp
  show ?case
  proof (cases k)
    case 0
    then show ?thesis
      using get w old Suc.prems(4,5,7)
      by (simp add: hd_drop_conv_nth take_Suc patch_def upd_conv_take_nth_drop)
  next
    case (Suc j)
    have off: "?off < 127" using Suc Suc.prems(3) by simp
    note step = page_offset_Suc [OF off]
    have len: "?off < length bytes" using off Suc.prems(7) by simp
    have "writable vm1 (unat (a + 1) div 128)" "unat (a + 1) mod 128 + k \<le> 128" "0 \<le> n + 1" "nat (n + 1) + k \<le> length buf"
      "page_bytes vm1 pid (unat (a + 1) div 128) = Some (bytes[?off := ?b])" "length (bytes[?off := ?b]) = 128"
      using w(3,5) old step Suc.prems(3-5,7) by simp_all
    from Suc.IH [OF w(2) this] obtain vm' where
      ih: "copyout_loop rnd k (a + 1) (n + 1) buf vm1 = Inr (n + 1 + int k, vm')" "vm_inv vm' pid"
      "page_bytes vm' pid (unat (a + 1) div 128) = Some (patch (bytes[?off := ?b]) (unat (a + 1) mod 128) (take k (drop (nat (n + 1)) buf)))"
      "\<forall>q v. (q, v) \<noteq> (pid, unat (a + 1) div 128) \<longrightarrow> page_bytes vm' q v = page_bytes vm1 q v"
      "\<exists>m. vm' = vm1\<lparr>machine := m\<rparr> \<and> registers m = registers (machine vm1)" by blast
    have rest: "take (Suc k) (drop (nat n) buf) = ?b # take k (drop (nat (n + 1)) buf)"
      using Suc.prems(4,5) by (simp add: take_Suc hd_drop_conv_nth tl_drop drop_Suc [symmetric] nat_add_distrib)
    have "page_bytes vm' pid ?v = Some (patch bytes ?off (take (Suc k) (drop (nat n) buf)))"
      using ih(3) step patch_step [OF len] rest by simp
    moreover have "copyout_loop rnd (Suc k) a n buf vm = Inr (n + int (Suc k), vm')" using get w(1) ih(1) by simp
    moreover have "\<exists>m. vm' = vm\<lparr>machine := m\<rparr> \<and> registers m = registers (machine vm)" using ih(5) w(7) by auto
    ultimately show ?thesis using ih(2,4) w(6) step(1) by auto
  qed
qed

text \<open>The whole of \<open>copyin\<close> for a buffer inside the address space, as its callers use it.\<close>

lemma copyin_ok:
  assumes "copy_ready vm pid len len" and "\<forall>i j. 0 \<le> rnd i j" and "len \<le> length buf"
    and "\<forall>i < len. page_of vm pid (unat (vaddr + of_nat i) div 128) \<noteq> None"
  obtains buf' vm' where "copyin (3 + f) rnd vaddr (int len) buf vm = Some (Inr (int len, buf', vm'))" "copy_ready vm' pid 0 0"
    "\<forall>i < len. \<forall>b. user_byte vm pid (vaddr + of_nat i) = Some b \<longrightarrow> buf' ! i = b"
    "length buf' = length buf" "drop len buf' = drop len buf"
    "\<forall>q v bytes. page_bytes vm q v = Some bytes \<longrightarrow> page_bytes vm' q v = Some bytes" "undisturbed vm' vm"
  using copyin_loop_ok [OF assms(1,2,4), of 0 buf f] assms(3) that by (auto simp: copyin_def)

text \<open>\<open>copyout\<close> stops at the first byte whose page is not in the TLB.\<close>

lemma copyout_miss:
  assumes ready: "copy_ready vm pid 1 1" and page: "page_of vm pid (unat vaddr div 128) = Some e"
    and miss: "\<not> in_tlb vm (unat vaddr div 128)" and len: "0 < len" "buf \<noteq> []" and rnd: "\<forall>i. 0 \<le> rnd i"
  obtains vm' where "copyout rnd vaddr len buf vm = Inr (-1, vm')" "vm_inv vm' pid" "undisturbed vm' vm"
    "\<forall>q v bytes. page_bytes vm q v = Some bytes \<longrightarrow> page_bytes vm' q v = Some bytes"
proof -
  note outcome = that
  obtain k where k: "nat len = Suc k" using len(1) by (cases "nat len") simp_all
  have inv: "vm_inv vm pid" "lock_free vm" "registers (machine vm) LoadReg = 0" "taken vm < 8192"
    "0 \<le> TLBCounter vm" "TLBCounter vm < 2 ^ 31 - 1" using ready by (simp_all add: copy_ready_def)
  let ?u = "vm\<lparr>machine := faulted vaddr (machine vm)\<rparr>"
  have u: "vm_inv ?u pid" "page_of ?u pid (unat vaddr div 128) = Some e" "page_bytes ?u = page_bytes vm" "lock_free ?u"
    "0 \<le> TLBCounter ?u" "TLBCounter ?u < 2 ^ 31 - 1"
    using inv page by (simp_all add: vm_inv_machine page_bytes_machine lock_free_def)
  have get: "array_get buf 0 = Inr (buf ! 0)" using len(2) by (simp add: array_get_def)
  have fin: thesis if r: "updateTLB (rnd k) vaddr ?u = Inr vm1" "vm_inv vm1 pid" "undisturbed vm1 vm"
      "\<forall>q v bytes. page_bytes ?u q v = Some bytes \<longrightarrow> page_bytes vm1 q v = Some bytes" for vm1
  proof -
    let ?w = "vm1\<lparr>machine := (machine vm1)\<lparr>status := UserMode\<rparr>\<rparr>"
    have "copyout rnd vaddr len buf vm = Inr (-1, ?w)"
      using get r(1) write_miss [OF inv(1,3) miss, of "rnd k"] by (simp add: copyout_def k)
    moreover have "undisturbed ?w vm" using r(3) by (simp add: undisturbed_def)
    ultimately show thesis
      using outcome [of ?w] r(2,4) u(3) by (simp add: vm_inv_machine page_bytes_machine)
  qed
  show thesis
  proof (cases "pe_valid e")
    case True
    have sz: "(1 :: int) \<in> {1, 2, 4}" "\<not> misaligned vaddr 1" by (simp_all add: misaligned_def)
    from fault_enters_tlb [OF u(1,4,2) True u(5,6) sz, of "rnd k"] obtain vm2 t where
      r: "updateTLB (rnd k) vaddr ?u = Inr vm2" "vm_inv vm2 pid" "page_bytes vm2 = page_bytes ?u"
      "vm2 = ?u\<lparr>IPTLock := None, machine := (machine ?u)\<lparr>tlb := Some t\<rparr>, TLBCounter := TLBCounter ?u + 1\<rparr>" by metis
    have "undisturbed vm2 vm" unfolding r(4) by (simp add: undisturbed_def)
    from fin [OF r(1,2) this] r(3) show thesis by simp
  next
    case False
    have room: "\<not> {0..<NumPhysPages} \<subseteq> used (bm ?u) \<or> \<not> {0..<4096} \<subseteq> used (sfBM ?u)" using room_left [OF inv(4,1)] by simp
    have "0 \<le> rnd k" using rnd by simp
    from fault_loads_page [OF u(1,4) this u(2) False room] obtain vm1 where
      l: "updateTLB (rnd k) vaddr ?u = Inr vm1" "vm_inv vm1 pid"
      "\<forall>q w bs. page_bytes ?u q w = Some bs \<longrightarrow> page_bytes vm1 q w = Some bs" "same_control vm1 (?u\<lparr>IPTLock := None\<rparr>)" by metis
    have "undisturbed vm1 vm"
      using kept_updateTLB [OF l(1)] l(4) by (simp add: undisturbed_def same_control_def kept_def)
    from fin [OF l(1,2) this l(3)] show thesis .
  qed
qed

section \<open>Properties\<close>

text \<open>
  C8. \<open>copyin\<close> returns, and with the user's bytes. If every address of the buffer lies in a page of the running
  process, wherever the page is kept, three attempts for each byte are enough: \<open>copyin\<close>
  returns \<open>len\<close>, the kernel buffer holds the bytes the pages held before the call, the rest of the kernel buffer
  is untouched, and no page of any process has changed.
\<close>

theorem copyin_correct:
  assumes "copy_ready vm pid len len" and "\<forall>i j. 0 \<le> rnd i j" and "len \<le> length buf"
    and "\<forall>i < len. page_of vm pid (unat (vaddr + of_nat i) div 128) \<noteq> None"
  shows "\<exists>buf' vm'. copyin (3 + f) rnd vaddr (int len) buf vm = Some (Inr (int len, buf', vm')) \<and> copy_ready vm' pid 0 0 \<and>
    (\<forall>i < len. \<forall>b. user_byte vm pid (vaddr + of_nat i) = Some b \<longrightarrow> buf' ! i = b) \<and>
    length buf' = length buf \<and> drop len buf' = drop len buf \<and>
    (\<forall>q v bytes. page_bytes vm q v = Some bytes \<longrightarrow> page_bytes vm' q v = Some bytes)"
  using copyin_loop_ok [OF assms(1,2,4), of 0 buf f] assms(3) by (auto simp: copyin_def)

text \<open>
  \<open>copyin\<close> never returns for a buffer outside the address space. The first byte beyond the pages makes it fault again
  and again: it returns neither the \<open>-1\<close> its comment promises nor anything else, whatever the number of attempts.
\<close>

theorem copyin_wild_diverges:
  assumes inv: "vm_inv vm pid" "lock_free vm" "registers (machine vm) LoadReg = 0" and as: "spaces vm (thread_space vm) = Some as"
    and wild: "unat (numPages as) \<le> unat vaddr div 128" and len: "0 < len"
  shows "copyin fuel rnd vaddr len buf vm = None"
proof -
  have never: "read_retry n r vaddr vm = None" for n r
    using inv as
  proof (induction n arbitrary: vm)
    case (Suc n vm)
    let ?u = "vm\<lparr>machine := faulted vaddr (machine vm)\<rparr>"
    have u: "vm_inv ?u pid" "lock_free ?u" "spaces ?u (thread_space ?u) = Some as"
      using Suc.prems by (simp_all add: vm_inv_machine lock_free_def)
    from Suc.prems(1) have miss: "Translate (machine vm) vaddr 1 False = Inr (PageFaultException, 0, machine vm)"
    proof (cases rule: Translate_byte_cases [of _ _ vaddr])
      case (hit pa m)
      from translated_own_page [OF Suc.prems(1) hit(2)] wild_fault(2) [OF Suc.prems(1,2,4) wild] show ?thesis by auto
    qed
    let ?w = "?u\<lparr>IPTLock := Some (currentThread vm), machine := (machine ?u)\<lparr>status := UserMode\<rparr>\<rparr>"
    have "vm_ReadMem (r n) vm vaddr 1 = Inr (None, ?w)"
      using read_miss [OF miss Suc.prems(3), of "r n"] wild_fault(1) [OF u wild, of "r n"] by simp
    moreover have "vm_inv (?u\<lparr>IPTLock := Some (currentThread vm)\<rparr>) pid" using u(1) by simp
    then have "vm_inv ?w pid" by (simp add: vm_inv_machine)
    moreover have "lock_free ?w" "registers (machine ?w) LoadReg = 0" "spaces ?w (thread_space ?w) = Some as"
      using faulted_registers(2) [OF Suc.prems(3), of vaddr] Suc.prems(4) by (simp_all add: lock_free_def)
    ultimately show ?case using Suc.IH [of ?w] by simp
  qed simp
  obtain k where "nat len = Suc k" using len by (cases "nat len") simp_all
  then show ?thesis by (simp add: copyin_def never)
qed

lemma one_process_ready: "copy_ready one_process 0 2 2"
  using one_process_inv
  by (simp add: copy_ready_def lock_free_def taken_def) (simp add: one_process_def Machine_new_def)

lemma one_process_bytes: "page_bytes one_process 0 0 = Some ([1, 2, 3, 4] @ replicate 124 0)"
proof -
  have "never_loaded one_process 0 0 one_page = Some ([1, 2, 3, 4] @ replicate 124 0)"
    using one_process_space [of 0]
    by (simp add: never_loaded_def one_process_def one_space_def image_def one_page_def)
  then show ?thesis by (simp add: page_bytes_def bytes_of_def one_process_page one_page_def)
qed

theorem copyin_correct_witness:
  "\<exists>vm'. copyin 3 (\<lambda>_ _. 0) 0 2 [9, 9, 9] one_process = Some (Inr (2, [1, 2, 9], vm'))"
proof -
  have page: "\<forall>i < 2. page_of one_process 0 (unat ((0 :: 32 word) + of_nat i) div 128) \<noteq> None"
    by (auto simp: one_process_page less_2_cases_iff)
  have b: "user_byte one_process 0 (0 + of_nat 0) = Some 1" "user_byte one_process 0 (0 + of_nat 1) = Some 2"
    by (simp_all add: user_byte_def one_process_bytes)
  from copyin_correct [OF one_process_ready _ _ page, of "\<lambda>_ _. 0" "[9, 9, 9]" 0] obtain buf' vm' where
    r: "copyin 3 (\<lambda>_ _. 0) 0 2 [9, 9, 9] one_process = Some (Inr (2, buf', vm'))" "length buf' = 3" "drop 2 buf' = [9]"
    "\<forall>i < 2. \<forall>b. user_byte one_process 0 (0 + of_nat i) = Some b \<longrightarrow> buf' ! i = b" by auto
  have "buf' ! 0 = 1" "buf' ! 1 = 2" using r(4) b by force+
  then have "buf' = [1, 2, 9]"
    using r(2,3) by (auto simp: numeral_3_eq_3 numeral_2_eq_2 length_Suc_conv)
  then show ?thesis using r(1) by blast
qed

theorem copyin_wild_diverges_witness: "copyin 100 (\<lambda>_ _. 0) 1024 1 [9] one_process = None"
proof -
  have l: "lock_free one_process" "spaces one_process (thread_space one_process) = Some one_space"
    "registers (machine one_process) LoadReg = 0"
    by (simp_all add: lock_free_def one_process_def Machine_new_def)
  have "unat (numPages one_space) \<le> unat (1024 :: 32 word) div 128" by (simp add: one_space_def)
  from copyin_wild_diverges [OF one_process_inv l(1,3,2) this] show ?thesis by simp
qed

end
