(* ===== verification/Nachos_Syscall.thy ===== *)
theory Nachos_Syscall
  imports Nachos_UserMem
begin

text \<open>
  The file and process system calls of \<^verbatim>\<open>userprog/exception.cc\<close>, with the stub file system of
  \<^verbatim>\<open>filesys/filesys.h\<close> and \<^verbatim>\<open>filesys/openfile.h\<close> that maps Nachos files to UNIX files.

  The state \<open>OS\<close> adds to the virtual memory the UNIX files (names, and contents by inode), the
  \<open>OpenFile\<close> objects, the console, the threads that were created and wait to run for the
  first time, and the globals \<open>PLock\<close>, \<open>processCounter\<close> and \<open>threadCounter\<close>. What the code does not
  determine is in \<open>env\<close>: contents and addresses of fresh storage, \<open>rand()\<close>, and which names UNIX accepts;
  \<open>e_slack\<close> is the number of bytes behind an array of \<^verbatim>\<open>char\<close> that may be written without harm.
  A system call yields \<open>None\<close> when \<open>copyin\<close> is still retrying after \<open>e_fuel\<close> attempts.
\<close>

section \<open>State\<close>

record UFile =
  uf_inode :: nat
  uf_offset :: int

record UThread =
  t_space :: "nat option"
  t_parent :: "nat option"
  t_startVPN :: int
  t_mailBox :: int

datatype forked = Kernel_thread "32 word" | Exec_thread int | Network_thread int

record OS =
  os_vm :: VM
  unix_names :: "8 word list \<rightharpoonup> nat"
  unix_inodes :: "nat \<rightharpoonup> 8 word list"
  open_files :: "nat \<rightharpoonup> UFile"
  console :: "8 word list"
  keyboard :: "8 word list list"
  PLock :: "nat option"
  threads :: "nat \<rightharpoonup> UThread"
  forks :: "(nat \<times> forked) list"
  processCounter :: int
  threadCounter :: int

record env =
  e_fuel :: nat
  e_rnd :: "nat \<Rightarrow> nat \<Rightarrow> int"
  e_wrnd :: "nat \<Rightarrow> int"
  e_chars :: "nat \<Rightarrow> 8 word"
  e_slack :: nat
  e_can_create :: "8 word list \<Rightarrow> bool"
  e_new :: nat
  e_new2 :: nat
  e_big :: bool
  e_stack :: "nat \<Rightarrow> 8 word"
  e_gbits :: "nat \<Rightarrow> 32 word"
  e_gfiles :: "nat \<Rightarrow> nat option"
  e_gpages :: "nat \<Rightarrow> PageEntry"

text \<open>Sequencing of routines that may fail or not return.\<close>

definition bindF :: "'a res option \<Rightarrow> ('a \<Rightarrow> 'b res option) \<Rightarrow> 'b res option" where
  "bindF m f = (case m of None \<Rightarrow> None | Some (Inl e) \<Rightarrow> Some (Inl e) | Some (Inr x) \<Rightarrow> f x)"

lemma bindF_simps [simp]:
  "bindF None f = None" "bindF (Some (Inl e)) f = Some (Inl e)" "bindF (Some (Inr x)) f = f x"
  by (simp_all add: bindF_def)

section \<open>Buffers and strings\<close>

definition new_chars :: "env \<Rightarrow> int \<Rightarrow> 8 word list res" where
  "new_chars E n = (if n < 0 then Inl BadAlloc else Inr (map (e_chars E) [0..<nat n + e_slack E]))"

text \<open>\<open>new char[len+1]\<close>\<close>

definition new_name :: "env \<Rightarrow> int \<Rightarrow> 8 word list res" where
  "new_name E len = (if len = 2 ^ 31 - 1 then Inl UndefinedArithmetic else new_chars E (len + 1))"

definition c_string :: "8 word list \<Rightarrow> 8 word list res" where
  "c_string buf = (if 0 \<in> set buf then Inr (takeWhile (\<lambda>b. b \<noteq> 0) buf) else Inl OutOfRange)"

definition os_copyin :: "env \<Rightarrow> 32 word \<Rightarrow> int \<Rightarrow> 8 word list \<Rightarrow> OS \<Rightarrow> (int \<times> 8 word list \<times> OS) res option" where
  "os_copyin E vaddr len buf s =
     bindF (copyin (e_fuel E) (e_rnd E) vaddr len buf (os_vm s)) (\<lambda>(n, buf', vm').
       Some (Inr (n, buf', s\<lparr>os_vm := vm'\<rparr>)))"

definition os_copyout :: "env \<Rightarrow> 32 word \<Rightarrow> int \<Rightarrow> 8 word list \<Rightarrow> OS \<Rightarrow> (int \<times> OS) res" where
  "os_copyout E vaddr len buf s =
     bindE (copyout (e_wrnd E) vaddr len buf (os_vm s)) (\<lambda>(n, vm'). Inr (n, s\<lparr>os_vm := vm'\<rparr>))"

section \<open>The stub file system\<close>

definition stub_Create :: "env \<Rightarrow> 8 word list \<Rightarrow> OS \<Rightarrow> OS res" where
  "stub_Create E name s =
     bindE (ASSERT (e_can_create E name)) (\<lambda>_.
       case unix_names s name of
         Some i \<Rightarrow> Inr (s\<lparr>unix_inodes := (unix_inodes s)(i \<mapsto> [])\<rparr>)
       | None \<Rightarrow> Inr (s\<lparr>unix_names := (unix_names s)(name \<mapsto> e_new E), unix_inodes := (unix_inodes s)(e_new E \<mapsto> [])\<rparr>))"

definition stub_Open :: "env \<Rightarrow> 8 word list \<Rightarrow> OS \<Rightarrow> nat option \<times> OS" where
  "stub_Open E name s =
     (case unix_names s name of
        None \<Rightarrow> (None, s)
      | Some i \<Rightarrow> (Some (e_new E), s\<lparr>open_files := (open_files s)(e_new E \<mapsto> \<lparr>uf_inode = i, uf_offset = 0\<rparr>)\<rparr>))"

definition move_offset :: "nat \<Rightarrow> UFile \<Rightarrow> int \<Rightarrow> OS \<Rightarrow> OS res" where
  "move_offset p f n s =
     (if uf_offset f + n < 2 ^ 31
      then Inr (s\<lparr>open_files := (open_files s)(p \<mapsto> f\<lparr>uf_offset := uf_offset f + n\<rparr>)\<rparr>) else Inl UndefinedArithmetic)"

definition stub_Write :: "nat \<Rightarrow> 8 word list \<Rightarrow> OS \<Rightarrow> OS res" where
  "stub_Write p from s =
     bindE (deref (open_files s) p) (\<lambda>f.
     bindE (deref (unix_inodes s) (uf_inode f)) (\<lambda>file.
     bindE (stub_WriteAt file from (uf_offset f)) (\<lambda>file'.
       move_offset p f (int (length from)) (s\<lparr>unix_inodes := (unix_inodes s)(uf_inode f \<mapsto> file')\<rparr>))))"

definition stub_Read :: "nat \<Rightarrow> int \<Rightarrow> OS \<Rightarrow> (8 word list \<times> OS) res" where
  "stub_Read p numBytes s =
     bindE (deref (open_files s) p) (\<lambda>f.
     bindE (deref (unix_inodes s) (uf_inode f)) (\<lambda>file.
     bindE (stub_ReadAt file (nat numBytes) (uf_offset f)) (\<lambda>bytes.
     bindE (move_offset p f (int (length bytes)) s) (\<lambda>s'. Inr (bytes, s')))))"

section \<open>File system calls\<close>

definition set_fileTable :: "nat Table \<Rightarrow> OS \<Rightarrow> OS res" where
  "set_fileTable t s =
     (let th = thread_space (os_vm s) in
      bindE (deref (spaces (os_vm s)) th) (\<lambda>as.
        Inr (s\<lparr>os_vm := (os_vm s)\<lparr>spaces := (spaces (os_vm s))(th \<mapsto> as\<lparr>fileTable := t\<rparr>)\<rparr>\<rparr>)))"

definition files_of :: "OS \<Rightarrow> nat Table res" where
  "files_of s = bindE (deref (spaces (os_vm s)) (thread_space (os_vm s))) (\<lambda>as. Inr (fileTable as))"

definition Create_Syscall :: "env \<Rightarrow> 32 word \<Rightarrow> int \<Rightarrow> OS \<Rightarrow> OS res option" where
  "Create_Syscall E vaddr len s =
     bindF (Some (new_name E len)) (\<lambda>buf.
     bindF (os_copyin E vaddr len buf s) (\<lambda>(n, buf, s).
       if n = -1 then Some (Inr s)
       else
         bindF (Some (array_set buf len 0)) (\<lambda>buf.
         bindF (Some (c_string buf)) (\<lambda>name. Some (stub_Create E name s)))))"

definition Open_Syscall :: "env \<Rightarrow> 32 word \<Rightarrow> int \<Rightarrow> OS \<Rightarrow> (int \<times> OS) res option" where
  "Open_Syscall E vaddr len s =
     bindF (Some (new_name E len)) (\<lambda>buf.
     bindF (os_copyin E vaddr len buf s) (\<lambda>(n, buf, s).
       if n = -1 then Some (Inr (-1, s))
       else
         bindF (Some (array_set buf len 0)) (\<lambda>buf.
         bindF (Some (c_string buf)) (\<lambda>name.
           case stub_Open E name s of
             (None, s) \<Rightarrow> Some (Inr (-1, s))
           | (Some p, s) \<Rightarrow>
               bindF (Some (files_of s)) (\<lambda>t.
               bindF (Some (Table_Put t (Some p))) (\<lambda>(fd, t').
               bindF (Some (set_fileTable t' s)) (\<lambda>s.
                 Some (Inr (fd, if fd = -1 then s\<lparr>open_files := (open_files s)(p := None)\<rparr> else s)))))))))"

definition Write_Syscall :: "env \<Rightarrow> 32 word \<Rightarrow> int \<Rightarrow> int \<Rightarrow> OS \<Rightarrow> OS res option" where
  "Write_Syscall E vaddr len fd s =
     (if fd = 0 then Some (Inr s)
      else
        bindF (Some (new_chars E len)) (\<lambda>buf.
        bindF (os_copyin E vaddr len buf s) (\<lambda>(n, buf, s).
          if n = -1 then Some (Inr s)
          else if fd = 1 then Some (Inr (s\<lparr>console := console s @ take (nat len) buf\<rparr>))
          else
            bindF (Some (files_of s)) (\<lambda>t.
            bindF (Some (Table_Get t fd)) (\<lambda>f.
              case f of None \<Rightarrow> Some (Inr s) | Some p \<Rightarrow> Some (stub_Write p (take (nat len) buf) s))))))"

text \<open>\<open>scanf("%s", buf)\<close>: the next word and a terminator; at the end of the input nothing is stored.\<close>

definition scan_word :: "8 word list \<Rightarrow> OS \<Rightarrow> (8 word list \<times> OS) res" where
  "scan_word buf s =
     (case keyboard s of
        [] \<Rightarrow> Inr (buf, s)
      | w # rest \<Rightarrow>
          if length w < length buf
          then Inr (w @ [0] @ drop (length w + 1) buf, s\<lparr>keyboard := rest\<rparr>) else Inl OutOfRange)"

definition Read_Syscall :: "env \<Rightarrow> 32 word \<Rightarrow> int \<Rightarrow> int \<Rightarrow> OS \<Rightarrow> (int \<times> OS) res" where
  "Read_Syscall E vaddr len fd s =
     (if fd = 1 then Inr (-1, s)
      else
        bindE (new_chars E len) (\<lambda>buf.
          if fd = 0 then
            bindE (scan_word buf s) (\<lambda>(buf, s).
            bindE (os_copyout E vaddr len buf s) (\<lambda>(_, s). Inr (len, s)))
          else
            bindE (files_of s) (\<lambda>t.
            bindE (Table_Get t fd) (\<lambda>f.
              case f of
                None \<Rightarrow> Inr (-1, s)
              | Some p \<Rightarrow>
                  bindE (stub_Read p len s) (\<lambda>(bytes, s).
                    let n = int (length bytes) in
                    if n > 0
                    then bindE (os_copyout E vaddr n (bytes @ drop (length bytes) buf) s) (\<lambda>(_, s). Inr (n, s))
                    else Inr (n, s))))))"

definition Close_Syscall :: "int \<Rightarrow> OS \<Rightarrow> OS res" where
  "Close_Syscall fd s =
     bindE (files_of s) (\<lambda>t.
     bindE (Table_Remove t fd) (\<lambda>(f, t').
     bindE (set_fileTable t' s) (\<lambda>s.
       case f of None \<Rightarrow> Inr s | Some p \<Rightarrow> Inr (s\<lparr>open_files := (open_files s)(p := None)\<rparr>))))"

section \<open>Processes and threads\<close>

text \<open>
  The owner of \<open>PLock\<close>. A thread that would go to sleep on it is the result \<open>WouldBlock\<close>, so that
  nobody waits when it is released; the queue of waiting threads and the hand-over to the first of them
  are in \<open>Nachos_Synch\<close>.
\<close>

definition PLock_Acquire :: "OS \<Rightarrow> OS res" where
  "PLock_Acquire s =
     (if PLock s = Some (currentThread (os_vm s)) then Inr s
      else if PLock s = None then Inr (s\<lparr>PLock := Some (currentThread (os_vm s))\<rparr>)
      else Inl WouldBlock)"

definition PLock_Release :: "OS \<Rightarrow> OS" where
  "PLock_Release s = (if PLock s = Some (currentThread (os_vm s)) then s\<lparr>PLock := None\<rparr> else s)"

definition set_process :: "nat \<Rightarrow> Process \<Rightarrow> OS \<Rightarrow> OS" where
  "set_process pp p s = s\<lparr>os_vm := (os_vm s)\<lparr>procs := (procs (os_vm s))(pp \<mapsto> p)\<rparr>\<rparr>"

definition Fork_Syscall :: "env \<Rightarrow> 32 word \<Rightarrow> OS \<Rightarrow> OS res" where
  "Fork_Syscall E vaddr s =
     bindE (PLock_Acquire s) (\<lambda>s.
       let pp = parentProcess (os_vm s) in
       bindE (deref (procs (os_vm s)) pp) (\<lambda>p.
         let t = \<lparr>t_space = Some (thread_space (os_vm s)), t_parent = Some pp, t_startVPN = 0, t_mailBox = 0\<rparr>;
             s1 = set_process pp (p\<lparr>ChildThreadCounter := ChildThreadCounter p + 1\<rparr>) s
         in PLock_Acquire (s1\<lparr>threads := (threads s1)(e_new E \<mapsto> t), forks := forks s1 @ [(e_new E, Kernel_thread vaddr)]\<rparr>)))"

text \<open>What a forked thread does when it runs for the first time, up to \<open>machine->Run()\<close>.\<close>

definition set_thread :: "(UThread \<Rightarrow> UThread) \<Rightarrow> OS \<Rightarrow> OS res" where
  "set_thread f s =
     bindE (deref (threads s) (currentThread (os_vm s))) (\<lambda>t.
       Inr (s\<lparr>threads := (threads s)(currentThread (os_vm s) \<mapsto> f t)\<rparr>))"

definition kernel_thread :: "env \<Rightarrow> 32 word \<Rightarrow> OS \<Rightarrow> OS res" where
  "kernel_thread E vaddr s =
     bindE (WriteRegister (machine (os_vm s)) (int PCReg) vaddr) (\<lambda>m1.
     bindE (WriteRegister m1 (int NextPCReg) (vaddr + 4)) (\<lambda>m2.
     bindE (deref (procs (os_vm s)) (parentProcess (os_vm s))) (\<lambda>_.
     bindE (IncrementStackSpace (e_gpages E) (thread_space (os_vm s)) ((os_vm s)\<lparr>machine := m2\<rparr>)) (\<lambda>(sp, vm').
     bindE (WriteRegister (machine vm') (int StackReg) sp) (\<lambda>m3.
       let sVPN = divRoundUp (sint sp - 1024) PageSize in
       bindE (set_thread (\<lambda>t. t\<lparr>t_startVPN := sVPN\<rparr>) (s\<lparr>os_vm := vm'\<lparr>machine := m3\<rparr>\<rparr>)) (\<lambda>s.
       bindE (RestoreState (os_vm s)) (\<lambda>vm''. Inr (s\<lparr>os_vm := vm''\<rparr>))))))))"

text \<open>
  \<open>Exit_Syscall\<close> up to the call of \<open>Thread::Finish\<close>, which does not return.
\<close>

definition Exit_Syscall :: "OS \<Rightarrow> OS res" where
  "Exit_Syscall s =
     bindE (PLock_Acquire s) (\<lambda>s.
       let pp = parentProcess (os_vm s) in
       bindE (deref (procs (os_vm s)) pp) (\<lambda>p.
         let ctc = ChildThreadCounter p - 1;
             s1 = set_process pp (p\<lparr>ChildThreadCounter := ctc\<rparr>) s
         in if ctc = 0 then
              bindE (Table_Remove (ProcessTable (os_vm s1)) (ProcessID p)) (\<lambda>(_, pt).
              bindE (DeleteSpace (addrSpace p) ((os_vm s1)\<lparr>ProcessTable := pt\<rparr>)) (\<lambda>vm2.
                let s2 = s1\<lparr>os_vm := vm2\<lparr>spaces := (spaces vm2)(addrSpace p := None)\<rparr>, processCounter := processCounter s1 - 1\<rparr>
                in if processCounter s2 = 0 then Inr s2 else Inr (PLock_Release s2)))
            else
              bindE (if MainThread p \<noteq> Some (currentThread (os_vm s1))
                     then bindE (deref (threads s1) (currentThread (os_vm s1))) (\<lambda>t.
                            DecreaseStackSpace (addrSpace p) (t_startVPN t) (os_vm s1))
                     else Inr (os_vm s1)) (\<lambda>vm2.
                Inr (PLock_Release (s1\<lparr>os_vm := vm2\<rparr>)))))"

definition exec_thread :: "int \<Rightarrow> OS \<Rightarrow> OS res" where
  "exec_thread tid s =
     bindE (set_thread (\<lambda>t. t\<lparr>t_mailBox := tid\<rparr>) s) (\<lambda>s.
     bindE (InitRegisters (thread_space (os_vm s)) (os_vm s)) (\<lambda>vm1.
     bindE (RestoreState vm1) (\<lambda>vm2.
     bindE (getFirstThreadStartVPN (thread_space vm2) vm2) (\<lambda>v.
       set_thread (\<lambda>t. t\<lparr>t_startVPN := v\<rparr>) (s\<lparr>os_vm := vm2\<rparr>)))))"

definition Exec_Syscall :: "env \<Rightarrow> 32 word \<Rightarrow> OS \<Rightarrow> (int \<times> OS) res option" where
  "Exec_Syscall E vaddr s =
     bindF (Some (new_chars E 20)) (\<lambda>buf.
     bindF (os_copyin E vaddr 20 buf s) (\<lambda>(len, buf, s).
     if len = -1 then Some (Inr (-1, s)) else
     bindF (Some (array_set buf len 0)) (\<lambda>buf.
     bindF (Some (c_string buf)) (\<lambda>name.
     bindF (Some (PLock_Acquire s)) (\<lambda>s.
       case stub_Open E name s of
         (None, s) \<Rightarrow> Some (Inr (-1, PLock_Release s))
       | (Some f, s) \<Rightarrow>
           bindF (Some (bindE (deref (open_files s) f) (\<lambda>uf. deref (unix_inodes s) (uf_inode uf)))) (\<lambda>file.
           bindF (Some (AddrSpace_new (e_big E) (e_stack E) (e_gbits E) (e_gfiles E) (e_gpages E) file)) (\<lambda>as.
           bindF (Some (Table_new (e_gbits E) (e_gfiles E) 100)) (\<lambda>ct0.
           bindF (Some (Table_Put ct0 (Some (e_new E)))) (\<lambda>(_, ct).
           bindF (Some (Table_Put (ProcessTable (os_vm s)) (Some (e_new E)))) (\<lambda>(pid, pt).
             let p = \<lparr>PName = name, ProcessID = pid, addrSpace = e_new E, MainThread = Some (e_new E),
                      ChildThread = ct, ChildThreadCounter = 1\<rparr>;
                 vm' = (os_vm s)\<lparr>ProcessTable := pt, procs := (procs (os_vm s))(e_new E \<mapsto> p),
                   spaces := (spaces (os_vm s))(e_new E \<mapsto> as)\<rparr>;
                 t = \<lparr>t_space = Some (e_new E), t_parent = Some (e_new E), t_startVPN = 0, t_mailBox = 0\<rparr>;
                 nt = \<lparr>t_space = None, t_parent = None, t_startVPN = 0, t_mailBox = 0\<rparr>
             in Some (Inr (pid, PLock_Release (s\<lparr>os_vm := vm', processCounter := processCounter s + 1,
                  threads := (threads s)(e_new E \<mapsto> t, e_new2 E \<mapsto> nt),
                  forks := forks s @ [(e_new2 E, Network_thread (threadCounter s + 1)), (e_new E, Exec_thread (threadCounter s))],
                  threadCounter := threadCounter s + 2\<rparr>)))))))))))))"

section \<open>The table of open files is not part of the virtual memory\<close>

definition with_files :: "nat Table \<Rightarrow> VM \<Rightarrow> VM" where
  "with_files t vm = vm\<lparr>spaces := (spaces vm)(thread_space vm := map_option (\<lambda>as. as\<lparr>fileTable := t\<rparr>) (spaces vm (thread_space vm)))\<rparr>"

lemma with_files_pages:
  "space_ptr (with_files t vm) = space_ptr vm" "page_of (with_files t vm) = page_of vm"
  "never_loaded (with_files t vm) = never_loaded vm" "page_bytes (with_files t vm) = page_bytes vm"
proof -
  show ptr: "space_ptr (with_files t vm) = space_ptr vm" by (rule space_ptr_cong) (simp_all add: with_files_def)
  show pg: "page_of (with_files t vm) = page_of vm"
    by (intro ext) (simp add: page_of_def ptr, simp add: with_files_def split: option.splits)
  show nl: "never_loaded (with_files t vm) = never_loaded vm"
    by (intro ext) (simp add: never_loaded_def ptr, simp add: with_files_def image_def Let_def split: option.splits)
  show "page_bytes (with_files t vm) = page_bytes vm"
    unfolding page_bytes_def pg nl by (simp add: with_files_def)
qed

lemma with_files_inv: "vm_inv (with_files t vm) pid = vm_inv vm pid"
proof -
  have f: "machine (with_files t vm) = machine vm" "ipt (with_files t vm) = ipt vm" "bm (with_files t vm) = bm vm" "sfBM (with_files t vm) = sfBM vm"
    "swapFile (with_files t vm) = swapFile vm" "past_tlb (with_files t vm) = past_tlb vm" "fifoQueue (with_files t vm) = fifoQueue vm"
    "ChoiceOfReplacementPolicy (with_files t vm) = ChoiceOfReplacementPolicy vm" "ProcessTable (with_files t vm) = ProcessTable vm"
    by (simp_all add: with_files_def)
  have sp: "spaces_ok (with_files t vm) = spaces_ok vm"
  proof -
    have "(\<exists>as. spaces (with_files t vm) x = Some as \<and> as_ok as) = (\<exists>as. spaces vm x = Some as \<and> as_ok as)" for x
      by (cases "spaces vm x") (auto simp: with_files_def as_ok_def)
    then show ?thesis by (simp add: spaces_ok_def with_files_pages(1))
  qed
  have "current_ok (with_files t vm) pid = current_ok vm pid"
    by (rule current_ok_cong) (simp_all add: with_files_def)
  then show ?thesis
    by (simp add: vm_inv_def paging_ok_def ipt_exact_def tlb_ok_def store_ok_def fifo_ok_def f sp with_files_pages)
qed

lemma set_fileTable_ok:
  assumes "files_of s = Inr t0"
  shows "set_fileTable t s = Inr (s\<lparr>os_vm := with_files t (os_vm s)\<rparr>)" "files_of (s\<lparr>os_vm := with_files t (os_vm s)\<rparr>) = Inr t"
  using assms by (auto simp: files_of_def set_fileTable_def with_files_def deref_def Let_def split: option.splits)

text \<open>A name with its terminator.\<close>

lemma terminated:
  assumes "0 \<notin> set nm" "length nm < length buf"
  shows "array_set (nm @ drop (length nm) buf) (int (length nm)) 0 = Inr (nm @ 0 # drop (Suc (length nm)) buf)"
    and "c_string (nm @ 0 # xs) = Inr nm"
proof -
  obtain y ys where "drop (length nm) buf = y # ys" using assms(2) by (cases "drop (length nm) buf") simp_all
  moreover from this have "drop (Suc (length nm)) buf = ys" by (metis drop_Suc list.sel(3) tl_drop)
  ultimately show "array_set (nm @ drop (length nm) buf) (int (length nm)) 0 = Inr (nm @ 0 # drop (Suc (length nm)) buf)"
    by (simp add: array_set_def list_update_append)
  have "takeWhile (\<lambda>b. b \<noteq> 0) (nm @ 0 # xs) = nm" using assms(1) by (subst takeWhile_append2) auto
  then show "c_string (nm @ 0 # xs) = Inr nm" by (simp add: c_string_def)
qed

section \<open>Fetching a user buffer\<close>

text \<open>What a system call relies on when it reads \<open>n\<close> bytes at \<open>vaddr\<close>.\<close>

definition buffer_ok :: "env \<Rightarrow> int \<Rightarrow> 32 word \<Rightarrow> nat \<Rightarrow> OS \<Rightarrow> bool" where
  "buffer_ok E pid vaddr n s \<longleftrightarrow>
     copy_ready (os_vm s) pid n n \<and> 3 \<le> e_fuel E \<and> (\<forall>i j. 0 \<le> e_rnd E i j) \<and>
     (\<forall>i < n. page_of (os_vm s) pid (unat (vaddr + of_nat i) div 128) \<noteq> None)"

text \<open>\<open>data\<close> is what the user has at \<open>vaddr\<close>, as far as that is determined.\<close>

definition user_data :: "VM \<Rightarrow> int \<Rightarrow> 32 word \<Rightarrow> 8 word list \<Rightarrow> bool" where
  "user_data vm pid vaddr data \<longleftrightarrow>
     (\<forall>i < length data. \<forall>b. user_byte vm pid (vaddr + of_nat i) = Some b \<longrightarrow> data ! i = b)"

definition same_pages :: "VM \<Rightarrow> VM \<Rightarrow> bool" where
  "same_pages vm' vm \<longleftrightarrow> (\<forall>q v bytes. page_bytes vm q v = Some bytes \<longrightarrow> page_bytes vm' q v = Some bytes)"

lemma fetch:
  assumes ok: "buffer_ok E pid vaddr n s" and buf: "n \<le> length buf"
  obtains data vm' where "os_copyin E vaddr (int n) buf s = Some (Inr (int n, data @ drop n buf, s\<lparr>os_vm := vm'\<rparr>))"
    "length data = n" "user_data (os_vm s) pid vaddr data" "copy_ready vm' pid 0 0" "same_pages vm' (os_vm s)" "undisturbed vm' (os_vm s)"
proof -
  have "3 \<le> e_fuel E" using ok by (simp add: buffer_ok_def)
  then obtain f where f: "e_fuel E = 3 + f" using le_Suc_ex by blast
  from ok have c: "copy_ready (os_vm s) pid n n" "\<forall>i j. 0 \<le> e_rnd E i j"
    "\<forall>i < n. page_of (os_vm s) pid (unat (vaddr + of_nat i) div 128) \<noteq> None"
    by (simp_all add: buffer_ok_def)
  from copyin_ok [OF c(1,2) buf c(3), of f] obtain buf' vm' where
    r: "copyin (3 + f) (e_rnd E) vaddr (int n) buf (os_vm s) = Some (Inr (int n, buf', vm'))" "copy_ready vm' pid 0 0"
    "\<forall>i < n. \<forall>b. user_byte (os_vm s) pid (vaddr + of_nat i) = Some b \<longrightarrow> buf' ! i = b"
    "length buf' = length buf" "drop n buf' = drop n buf"
    "\<forall>q v bytes. page_bytes (os_vm s) q v = Some bytes \<longrightarrow> page_bytes vm' q v = Some bytes" "undisturbed vm' (os_vm s)" .
  have "buf' = take n buf' @ drop n buf" using r(5) append_take_drop_id [of n buf'] by simp
  then have "os_copyin E vaddr (int n) buf s = Some (Inr (int n, take n buf' @ drop n buf, s\<lparr>os_vm := vm'\<rparr>))"
    using r(1) f by (simp add: os_copyin_def)
  moreover have "user_data (os_vm s) pid vaddr (take n buf')" using r(3,4) buf by (simp add: user_data_def)
  ultimately show ?thesis using that [of "take n buf'" vm'] r(2,4,6,7) buf by (simp add: same_pages_def)
qed

lemma files_of_undisturbed:
  assumes "undisturbed vm' (os_vm s)"
  shows "files_of (s\<lparr>os_vm := vm'\<rparr>) = files_of s"
proof -
  have "shape vm' (thread_space (os_vm s)) = shape (os_vm s) (thread_space (os_vm s))" "thread_space vm' = thread_space (os_vm s)"
    using assms by (simp_all add: undisturbed_def)
  then show ?thesis
    by (cases "spaces vm' (thread_space (os_vm s))"; cases "spaces (os_vm s) (thread_space (os_vm s))")
      (auto simp: files_of_def deref_def shape_def dest: arg_cong [of _ _ fileTable])
qed

text \<open>A file with \<open>data\<close> written at an offset; a gap is filled with zeros.\<close>

definition overwritten :: "8 word list \<Rightarrow> nat \<Rightarrow> 8 word list \<Rightarrow> 8 word list" where
  "overwritten file pos data = take pos file @ replicate (pos - length file) 0 @ data @ drop (pos + length data) file"

lemma overwritten_slice: "take (length data) (drop pos (overwritten file pos data)) = data"
  by (simp add: overwritten_def)

text \<open>The open file of descriptor \<open>fd\<close>: its object, its file and the contents.\<close>

definition opened :: "OS \<Rightarrow> int \<Rightarrow> nat \<Rightarrow> UFile \<Rightarrow> 8 word list \<Rightarrow> bool" where
  "opened s fd p f file \<longleftrightarrow>
     (\<exists>t. files_of s = Inr t \<and> Table_Get t fd = Inr (Some p)) \<and> open_files s p = Some f \<and>
     unix_inodes s (uf_inode f) = Some file \<and> 0 \<le> uf_offset f"

section \<open>Properties of the file system calls\<close>

text \<open>
  C9. \<open>Write\<close> takes the user's bytes to the console or to the file. For a buffer inside the address space the call
  returns; the bytes the user has there are appended to the console output, or stored at the offset of the open
  file, whose offset moves behind them; no other file, no other offset and no page changes.
\<close>

theorem Write_Syscall_correct:
  assumes ok: "buffer_ok E pid vaddr n s" and fd: "fd \<noteq> 0"
    and op: "fd = 1 \<or> opened s fd p f file \<and> uf_offset f + int n < 2 ^ 31"
  shows "\<exists>data vm'. length data = n \<and> user_data (os_vm s) pid vaddr data \<and>
    vm_inv vm' pid \<and> same_pages vm' (os_vm s) \<and> undisturbed vm' (os_vm s) \<and>
    Write_Syscall E vaddr (int n) fd s = Some (Inr
      (if fd = 1 then s\<lparr>os_vm := vm', console := console s @ data\<rparr>
       else s\<lparr>os_vm := vm', unix_inodes := (unix_inodes s)(uf_inode f \<mapsto> overwritten file (nat (uf_offset f)) data),
              open_files := (open_files s)(p \<mapsto> f\<lparr>uf_offset := uf_offset f + int n\<rparr>)\<rparr>))"
proof -
  let ?buf = "map (e_chars E) [0..<n + e_slack E]"
  have "n \<le> length ?buf" by simp
  from fetch [OF ok this] obtain data vm' where
    r: "os_copyin E vaddr (int n) ?buf s = Some (Inr (int n, data @ drop n ?buf, s\<lparr>os_vm := vm'\<rparr>))"
    "length data = n" "user_data (os_vm s) pid vaddr data" "copy_ready vm' pid 0 0" "same_pages vm' (os_vm s)" "undisturbed vm' (os_vm s)" .
  have new: "new_chars E (int n) = Inr ?buf" by (simp add: new_chars_def)
  have run: "Write_Syscall E vaddr (int n) fd s =
      (if fd = 1 then Some (Inr (s\<lparr>os_vm := vm', console := console s @ data\<rparr>))
       else bindF (Some (files_of s)) (\<lambda>t. bindF (Some (Table_Get t fd)) (\<lambda>f.
              case f of None \<Rightarrow> Some (Inr (s\<lparr>os_vm := vm'\<rparr>)) | Some p \<Rightarrow> Some (stub_Write p data (s\<lparr>os_vm := vm'\<rparr>)))))"
    using fd new r(1,2) files_of_undisturbed [OF r(6)] by (simp add: Write_Syscall_def)
  have stored: "stub_Write p data (s\<lparr>os_vm := vm'\<rparr>) = Inr (s\<lparr>os_vm := vm',
      unix_inodes := (unix_inodes s)(uf_inode f \<mapsto> overwritten file (nat (uf_offset f)) data),
      open_files := (open_files s)(p \<mapsto> f\<lparr>uf_offset := uf_offset f + int n\<rparr>)\<rparr>)" if "fd \<noteq> 1"
    using op that r(2)
    by (simp add: opened_def stub_Write_def deref_def stub_WriteAt_def Lseek_def move_offset_def overwritten_def Let_def)
  have "vm_inv vm' pid" using r(4) by (simp add: copy_ready_def)
  moreover have "fd \<noteq> 1 \<Longrightarrow> \<exists>t. files_of s = Inr t \<and> Table_Get t fd = Inr (Some p)" using op by (auto simp: opened_def)
  ultimately show ?thesis using r(2,3,5,6) run stored by (intro exI [of _ data] exI [of _ vm']) auto
qed

text \<open>
  C10. \<open>Read\<close> into a page that is in the TLB stores the bytes of the file. The call returns how many bytes the
  file had at its offset, at most \<open>len\<close>; they are in the user's buffer, the offset has moved behind them, and no other byte
  of any page and no file changes.
\<close>

theorem Read_Syscall_correct:
  assumes inv: "vm_inv (os_vm s) pid" and op: "opened s fd p f file" "uf_offset f + len < 2 ^ 31" and fd: "fd \<noteq> 0" "fd \<noteq> 1" and len: "0 \<le> len"
    and w: "writable (os_vm s) (unat vaddr div 128)"
    and data: "data = take (nat len) (drop (nat (uf_offset f)) file)" "data \<noteq> []" "unat vaddr mod 128 + length data \<le> 128"
  shows "\<exists>vm' bytes. Read_Syscall E vaddr len fd s =
      Inr (int (length data), s\<lparr>os_vm := vm', open_files := (open_files s)(p \<mapsto> f\<lparr>uf_offset := uf_offset f + int (length data)\<rparr>)\<rparr>) \<and>
    vm_inv vm' pid \<and> page_bytes (os_vm s) pid (unat vaddr div 128) = Some bytes \<and>
    page_bytes vm' pid (unat vaddr div 128) = Some (patch bytes (unat vaddr mod 128) data) \<and>
    (\<forall>q v. (q, v) \<noteq> (pid, unat vaddr div 128) \<longrightarrow> page_bytes vm' q v = page_bytes (os_vm s) q v)"
proof -
  let ?v = "unat vaddr div 128" and ?s = "s\<lparr>open_files := (open_files s)(p \<mapsto> f\<lparr>uf_offset := uf_offset f + int (length data)\<rparr>)\<rparr>"
  from write_hit [OF inv w, of 0 0] obtain bytes where b: "page_bytes (os_vm s) pid ?v = Some bytes" "length bytes = 128" by metis
  obtain t where t: "files_of s = Inr t" "Table_Get t fd = Inr (Some p)" using op(1) by (auto simp: opened_def)
  have n: "int (length data) \<le> len" using len data(1) by simp
  have rd: "stub_Read p len s = Inr (data, ?s)"
    using op n data(1) by (simp add: opened_def stub_Read_def deref_def stub_ReadAt_def Lseek_def move_offset_def)
  let ?buf = "data @ drop (length data) (map (e_chars E) [0..<nat len + e_slack E])"
  have "nat 0 + length data \<le> length ?buf" by simp
  from copyout_loop_ok [OF inv w data(3) _ this b, of "e_wrnd E"] obtain vm' where
    c: "copyout_loop (e_wrnd E) (length data) vaddr 0 ?buf (os_vm s) = Inr (int (length data), vm')" "vm_inv vm' pid"
    "page_bytes vm' pid ?v = Some (patch bytes (unat vaddr mod 128) data)"
    "\<forall>q v. (q, v) \<noteq> (pid, ?v) \<longrightarrow> page_bytes vm' q v = page_bytes (os_vm s) q v" by auto
  have "Read_Syscall E vaddr len fd s = Inr (int (length data), ?s\<lparr>os_vm := vm'\<rparr>)"
    using fd len t rd data(2) c(1) by (simp add: Read_Syscall_def new_chars_def os_copyout_def copyout_def Let_def)
  then show ?thesis using c(2-4) b(1) by (intro exI [of _ vm'] exI [of _ bytes]) simp
qed

text \<open>
  \<open>Read\<close> into a page that is not in the TLB loses the data. The call still returns the number of bytes and
  moves the offset of the file behind them, but not one byte arrives in the user's memory: the first store faults, and
  \<open>copyout\<close> gives up instead of trying again.
\<close>

theorem Read_Syscall_loses_data:
  assumes ready: "copy_ready (os_vm s) pid 1 1" and rnd: "\<forall>i. 0 \<le> e_wrnd E i"
    and op: "opened s fd p f file" "uf_offset f + len < 2 ^ 31" and fd: "fd \<noteq> 0" "fd \<noteq> 1" and len: "0 \<le> len"
    and page: "page_of (os_vm s) pid (unat vaddr div 128) \<noteq> None" "\<not> in_tlb (os_vm s) (unat vaddr div 128)"
    and data: "data = take (nat len) (drop (nat (uf_offset f)) file)" "data \<noteq> []"
  shows "\<exists>vm'. Read_Syscall E vaddr len fd s =
      Inr (int (length data), s\<lparr>os_vm := vm', open_files := (open_files s)(p \<mapsto> f\<lparr>uf_offset := uf_offset f + int (length data)\<rparr>)\<rparr>) \<and>
    vm_inv vm' pid \<and> same_pages vm' (os_vm s)"
proof -
  let ?s = "s\<lparr>open_files := (open_files s)(p \<mapsto> f\<lparr>uf_offset := uf_offset f + int (length data)\<rparr>)\<rparr>"
  obtain t where t: "files_of s = Inr t" "Table_Get t fd = Inr (Some p)" using op(1) by (auto simp: opened_def)
  obtain e where e: "page_of (os_vm s) pid (unat vaddr div 128) = Some e" using page(1) by blast
  have n: "int (length data) \<le> len" using len data(1) by simp
  have rd: "stub_Read p len s = Inr (data, ?s)"
    using op n data(1) by (simp add: opened_def stub_Read_def deref_def stub_ReadAt_def Lseek_def move_offset_def)
  let ?buf = "data @ drop (length data) (map (e_chars E) [0..<nat len + e_slack E])"
  have pos: "0 < int (length data)" "?buf \<noteq> []" using data(2) by simp_all
  from copyout_miss [OF ready e page(2) pos rnd] obtain vm' where
    c: "copyout (e_wrnd E) vaddr (int (length data)) ?buf (os_vm s) = Inr (-1, vm')" "vm_inv vm' pid"
    "\<forall>q v bytes. page_bytes (os_vm s) q v = Some bytes \<longrightarrow> page_bytes vm' q v = Some bytes" .
  have "Read_Syscall E vaddr len fd s = Inr (int (length data), ?s\<lparr>os_vm := vm'\<rparr>)"
    using fd len t rd pos c(1) by (simp add: Read_Syscall_def new_chars_def os_copyout_def Let_def)
  then show ?thesis using c(2,3) by (intro exI [of _ vm']) (simp add: same_pages_def)
qed

text \<open>
  \<open>Open\<close> binds a free descriptor. For a name inside the address space the call returns \<open>-1\<close> if no such file exists or
  the table of open files is full; otherwise it returns a descriptor that was free, which from then on
  stands for the file from its beginning, while all other descriptors keep their meaning. No page changes.
\<close>

theorem Open_Syscall_correct:
  assumes ok: "buffer_ok E pid vaddr (length nm) s" and small: "length nm < 2 ^ 31 - 1"
    and name: "\<forall>i < length nm. user_byte (os_vm s) pid (vaddr + of_nat i) = Some (nm ! i)" "0 \<notin> set nm"
    and tab: "files_of s = Inr t" "table_wf t"
  shows "\<exists>vm' fd t'. vm_inv vm' pid \<and> same_pages vm' (os_vm s) \<and>
    (case unix_names s nm of
       None \<Rightarrow> Open_Syscall E vaddr (int (length nm)) s = Some (Inr (-1, s\<lparr>os_vm := vm'\<rparr>))
     | Some i \<Rightarrow>
         if {0..<tsize t} \<subseteq> dom (table_map t)
         then Open_Syscall E vaddr (int (length nm)) s = Some (Inr (-1, s\<lparr>os_vm := vm', open_files := (open_files s)(e_new E := None)\<rparr>))
         else fd \<in> {0..<tsize t} - dom (table_map t) \<and> table_map t' = (table_map t)(fd \<mapsto> Some (e_new E)) \<and>
           files_of (s\<lparr>os_vm := vm'\<rparr>) = Inr t' \<and>
           Open_Syscall E vaddr (int (length nm)) s = Some (Inr (fd, s\<lparr>os_vm := vm',
             open_files := (open_files s)(e_new E \<mapsto> \<lparr>uf_inode = i, uf_offset = 0\<rparr>)\<rparr>)))"
proof -
  let ?n = "length nm"
  let ?buf = "map (e_chars E) [0..<Suc ?n + e_slack E]"
  have "?n \<le> length ?buf" by simp
  from fetch [OF ok this] obtain data vm1 where
    r: "os_copyin E vaddr (int ?n) ?buf s = Some (Inr (int ?n, data @ drop ?n ?buf, s\<lparr>os_vm := vm1\<rparr>))"
    "length data = ?n" "user_data (os_vm s) pid vaddr data" "copy_ready vm1 pid 0 0" "same_pages vm1 (os_vm s)" "undisturbed vm1 (os_vm s)" .
  have more: "?n < length ?buf" by simp
  have "data = nm" using r(2,3) name(1) by (intro nth_equalityI) (simp_all add: user_data_def)
  moreover have new: "new_name E (int ?n) = Inr ?buf" using small by (simp add: new_name_def new_chars_def nat_add_distrib)
  moreover have "-1 \<noteq> int ?n" by simp
  ultimately have run: "Open_Syscall E vaddr (int ?n) s =
      (case stub_Open E nm (s\<lparr>os_vm := vm1\<rparr>) of
         (None, s) \<Rightarrow> Some (Inr (-1, s))
       | (Some p, s) \<Rightarrow> bindF (Some (files_of s)) (\<lambda>t. bindF (Some (Table_Put t (Some p))) (\<lambda>(fd, t').
           bindF (Some (set_fileTable t' s)) (\<lambda>s.
             Some (Inr (fd, if fd = -1 then s\<lparr>open_files := (open_files s)(p := None)\<rparr> else s))))))"
    using r(1) terminated [OF name(2) more] by (simp add: Open_Syscall_def del: upt_Suc map_append)
  have inv: "vm_inv vm1 pid" using r(4) by (simp add: copy_ready_def)
  show ?thesis
  proof (cases "unix_names s nm")
    case None
    then show ?thesis using run inv r(5) by (simp add: stub_Open_def) blast
  next
    case (Some i)
    let ?s = "s\<lparr>os_vm := vm1, open_files := (open_files s)(e_new E \<mapsto> \<lparr>uf_inode = i, uf_offset = 0\<rparr>)\<rparr>"
    have fo: "files_of ?s = Inr t"
      using files_of_undisturbed [OF r(6)] tab(1) by (simp add: files_of_def)
    have put: "bindF (Some (set_fileTable t' ?s)) g = g (?s\<lparr>os_vm := with_files t' vm1\<rparr>)" for t' and g :: "OS \<Rightarrow> (int \<times> OS) res option"
      using set_fileTable_ok(1) [OF fo] by simp
    have vm: "vm_inv (with_files t' vm1) pid" "same_pages (with_files t' vm1) (os_vm s)" for t'
      using inv r(5) by (simp_all add: with_files_inv same_pages_def with_files_pages)
    show ?thesis
    proof (cases "{0..<tsize t} \<subseteq> dom (table_map t)")
      case True
      have "Open_Syscall E vaddr (int ?n) s = Some (Inr (-1, s\<lparr>os_vm := with_files t vm1, open_files := (open_files s)(e_new E := None)\<rparr>))"
        using run Some fo put Table_Put_full [OF tab(2) True] by (simp add: stub_Open_def)
      then show ?thesis using vm Some True by auto
    next
      case False
      obtain fd t' where p: "Table_Put t (Some (e_new E)) = Inr (fd, t')" "fd \<in> {0..<tsize t} - dom (table_map t)"
        "table_map t' = (table_map t)(fd \<mapsto> Some (e_new E))"
        using Table_Put_free [OF tab(2) False] by metis
      have "fd \<noteq> -1" using p(2) by auto
      then have "Open_Syscall E vaddr (int ?n) s = Some (Inr (fd, ?s\<lparr>os_vm := with_files t' vm1\<rparr>))"
        using run Some fo put p(1) by (simp add: stub_Open_def)
      moreover have "files_of (s\<lparr>os_vm := with_files t' vm1\<rparr>) = Inr t'"
        using set_fileTable_ok(2) [OF fo, of t'] by (simp add: files_of_def)
      ultimately show ?thesis using vm Some False p(2,3) by (intro exI [of _ "with_files t' vm1"] exI [of _ fd] exI [of _ t']) simp
    qed
  qed
qed

section \<open>Processes\<close>

lemma release_frame_tables:
  "release_frame this i (vm\<lparr>procs := y, ProcessTable := x\<rparr>) =
     bindE (release_frame this i vm) (\<lambda>vm'. Inr (vm'\<lparr>procs := y, ProcessTable := x\<rparr>))"
  by (simp add: release_frame_def page_entry_def bindE_def split: sum.splits)

lemma release_loop_tables:
  "foldE (release_frame this) is (vm\<lparr>procs := y, ProcessTable := x\<rparr>) =
     bindE (foldE (release_frame this) is vm) (\<lambda>vm'. Inr (vm'\<lparr>procs := y, ProcessTable := x\<rparr>))"
  by (induction "is" arbitrary: vm) (simp_all add: release_frame_tables bindE_def split: sum.splits)

lemma DeleteSpace_tables:
  "DeleteSpace this (vm\<lparr>procs := y, ProcessTable := x\<rparr>) =
     bindE (DeleteSpace this vm) (\<lambda>vm'. Inr (vm'\<lparr>procs := y, ProcessTable := x\<rparr>))"
  by (simp add: DeleteSpace_def release_loop_tables bindE_assoc)

definition frames_of :: "VM \<Rightarrow> int \<Rightarrow> int set" where
  "frames_of vm pid = {k. \<exists>v e. page_of vm pid v = Some e \<and> pe_valid e \<and> pe_physicalPage e = k}"

text \<open>
  C11. \<open>Exit\<close> of the last thread ends the process, \<open>Exit\<close> of the first thread of a process with other threads only counts.
  At the last exit the process leaves the process table, its address space is gone, exactly
  its frames are free again and one process less is counted; \<open>PLock\<close> is free afterwards, except that after the last process of all it
  is still held by a thread that will never run again.
\<close>

theorem Exit_Syscall_correct:
  assumes inv: "vm_inv (os_vm s) pid" and p: "procs (os_vm s) (parentProcess (os_vm s)) = Some p" "ProcessID p = pid" "addrSpace p = thread_space (os_vm s)"
    and lock: "PLock s = None \<or> PLock s = Some (currentThread (os_vm s))"
    and which: "ChildThreadCounter p = 1 \<or> MainThread p = Some (currentThread (os_vm s))"
  shows "\<exists>s'. Exit_Syscall s = Inr s' \<and>
    procs (os_vm s') = (procs (os_vm s))(parentProcess (os_vm s) \<mapsto> p\<lparr>ChildThreadCounter := ChildThreadCounter p - 1\<rparr>) \<and>
    (if ChildThreadCounter p = 1 then
       table_map (ProcessTable (os_vm s')) = (table_map (ProcessTable (os_vm s)))(pid := None) \<and>
       used (bm (os_vm s')) = used (bm (os_vm s)) - frames_of (os_vm s) pid \<and>
       spaces (os_vm s') = (spaces (os_vm s))(thread_space (os_vm s) := None) \<and> processCounter s' = processCounter s - 1 \<and>
       PLock s' = (if processCounter s = 1 then Some (currentThread (os_vm s)) else None)
     else ProcessTable (os_vm s') = ProcessTable (os_vm s) \<and> bm (os_vm s') = bm (os_vm s) \<and> spaces (os_vm s') = spaces (os_vm s) \<and>
       processCounter s' = processCounter s \<and> PLock s' = None)"
proof -
  let ?c = "currentThread (os_vm s)" and ?pp = "parentProcess (os_vm s)" and ?vm = "os_vm s"
  have acq: "PLock_Acquire s = Inr (s\<lparr>PLock := Some ?c\<rparr>)" using lock by (auto simp: PLock_Acquire_def)
  let ?procs = "(procs ?vm)(?pp \<mapsto> p\<lparr>ChildThreadCounter := ChildThreadCounter p - 1\<rparr>)"
  show ?thesis
  proof (cases "ChildThreadCounter p = 1")
    case False
    then have "MainThread p = Some ?c" using which by simp
    then have "Exit_Syscall s = Inr (s\<lparr>PLock := None, os_vm := ?vm\<lparr>procs := ?procs\<rparr>\<rparr>)"
      using False acq p by (simp add: Exit_Syscall_def set_process_def deref_def PLock_Release_def)
    then show ?thesis using False by simp
  next
    case True
    have wf: "table_wf (ProcessTable ?vm)" using vm_inv_parts(1) [OF inv] by (simp add: paging_ok_def store_ok_def)
    from Table_Remove_map [OF wf, of pid] obtain r pt where
      rm: "Table_Remove (ProcessTable ?vm) pid = Inr (r, pt)" "table_map pt = (table_map (ProcessTable ?vm))(pid := None)" by auto
    obtain as where as: "spaces ?vm (thread_space ?vm) = Some as"
      using vm_inv_parts(1,5) [OF inv] unfolding paging_ok_def spaces_ok_def by blast
    from DeleteSpace_frees [OF inv as, folded frames_of_def] obtain b where
      b: "DeleteSpace (thread_space ?vm) ?vm = Inr (?vm\<lparr>bm := b\<rparr>)" "bm_wf b" "used b = used (bm ?vm) - frames_of ?vm pid" .
    let ?s = "s\<lparr>PLock := Some ?c, os_vm := ?vm\<lparr>bm := b, procs := ?procs, ProcessTable := pt, spaces := (spaces ?vm)(thread_space ?vm := None)\<rparr>,
        processCounter := processCounter s - 1\<rparr>"
    have "Exit_Syscall s = Inr (if processCounter s = 1 then ?s else PLock_Release ?s)"
      using True acq p rm(1) b(1) by (simp add: Exit_Syscall_def set_process_def deref_def DeleteSpace_tables Let_def)
    then show ?thesis using True b(3) rm(2) by (simp add: PLock_Release_def)
  qed
qed

text \<open>
  \<open>Fork\<close> keeps \<open>PLock\<close>. The new thread is queued and counted, but the lock, taken twice and never released, stays
  with the forking thread: until that thread exits, every \<open>Fork\<close> and \<open>Exit\<close> of any other thread, the new one included, sleeps.
\<close>

theorem Fork_Syscall_keeps_PLock:
  assumes p: "procs (os_vm s) (parentProcess (os_vm s)) = Some p"
    and lock: "PLock s = None \<or> PLock s = Some (currentThread (os_vm s))" and other: "t \<noteq> currentThread (os_vm s)"
  shows "\<exists>s'. Fork_Syscall E vaddr s = Inr s' \<and> PLock s' = Some (currentThread (os_vm s)) \<and>
    forks s' = forks s @ [(e_new E, Kernel_thread vaddr)] \<and>
    procs (os_vm s') = (procs (os_vm s))(parentProcess (os_vm s) \<mapsto> p\<lparr>ChildThreadCounter := ChildThreadCounter p + 1\<rparr>) \<and>
    (\<forall>q sp E' a. Fork_Syscall E' a (s'\<lparr>os_vm := (os_vm s')\<lparr>currentThread := t, parentProcess := q, thread_space := sp\<rparr>\<rparr>) = Inl WouldBlock \<and>
       Exit_Syscall (s'\<lparr>os_vm := (os_vm s')\<lparr>currentThread := t, parentProcess := q, thread_space := sp\<rparr>\<rparr>) = Inl WouldBlock)"
proof -
  let ?c = "currentThread (os_vm s)"
  have acq: "PLock_Acquire s = Inr (s\<lparr>PLock := Some ?c\<rparr>)" using lock by (auto simp: PLock_Acquire_def)
  show ?thesis
    using p other by (simp add: Fork_Syscall_def acq deref_def set_process_def Let_def) (simp add: PLock_Acquire_def Exit_Syscall_def)
qed

lemma stack_top:
  fixes n :: "32 word"
  assumes "unat n + 8 \<le> 2 ^ 24"
  shows "unat (n + 8) = unat n + 8" "unat ((n + 8) * 128 - 16) = (unat n + 8) * 128 - 16"
    "sint ((n + 8) * 128 - 16) = int (unat n) * 128 + 1008"
proof -
  show n8: "unat (n + 8) = unat n + 8"
    using unat_add_lem [THEN iffD1, of n 8] assms by simp
  define x where "x = n + 8"
  have x: "unat x = unat n + 8" by (simp add: x_def n8)
  then have m: "unat (x * 128) = (unat n + 8) * 128"
    using unat_mult_lem [THEN iffD1, of x 128] assms by simp
  have "(16 :: 32 word) \<le> x * 128" by (simp add: word_le_nat_alt m)
  then have u: "unat (x * 128 - 16) = (unat n + 8) * 128 - 16" by (simp add: unat_sub m)
  then show "unat ((n + 8) * 128 - 16) = (unat n + 8) * 128 - 16" by (simp only: x_def)
  define y where "y = x * 128 - 16"
  have y: "uint y = int (unat n) * 128 + 1008" unfolding uint_nat y_def u by simp
  have "unat n \<le> 16777208" using assms by simp
  then have "uint y < 2147483648" unfolding y by linarith
  then have "sint y = uint y"
    unfolding sint_uint by (intro signed_take_bit_int_eq_self order_trans [OF _ uint_ge_0]) simp_all
  then show "sint ((n + 8) * 128 - 16) = int (unat n) * 128 + 1008" using y by (simp only: y_def x_def)
qed

text \<open>
  A forked thread starts on a stack of its own. When it first runs, the address space has grown by eight pages; the stack pointer
  is sixteen bytes below their end, the program counter at the function, the TLB is empty, and the page
  number the thread remembers for its exit is the first of the eight new pages.
\<close>

theorem forked_thread_stack:
  assumes inv: "vm_inv (os_vm s) pid" and as: "spaces (os_vm s) (thread_space (os_vm s)) = Some as"
    and small: "unat (numPages as) + 8 \<le> 2 ^ 24" and t: "threads s (currentThread (os_vm s)) = Some t"
  shows "\<exists>s' as'. kernel_thread E vaddr s = Inr s' \<and> spaces (os_vm s') (thread_space (os_vm s)) = Some as' \<and>
    unat (numPages as') = unat (numPages as) + 8 \<and> length (as_pageTable as') = unat (numPages as) + 8 \<and>
    registers (machine (os_vm s')) PCReg = vaddr \<and> registers (machine (os_vm s')) NextPCReg = vaddr + 4 \<and>
    unat (registers (machine (os_vm s')) StackReg) = (unat (numPages as) + 8) * 128 - 16 \<and>
    threads s' (currentThread (os_vm s)) = Some (t\<lparr>t_startVPN := int (unat (numPages as))\<rparr>) \<and>
    (\<exists>es. tlb (machine (os_vm s')) = Some es \<and> (\<forall>e\<in>set es. \<not> valid e))"
proof -
  let ?vm = "os_vm s" and ?n = "unat (numPages as)"
  note top = stack_top [OF small]
  obtain p where p: "procs ?vm (parentProcess ?vm) = Some p" using vm_inv_parts(4) [OF inv] by (auto simp: current_ok_def)
  have aok: "as_ok as" using vm_inv_parts(1,5) [OF inv] as unfolding paging_ok_def spaces_ok_def by fastforce
  then have len: "length (as_pageTable as) = ?n" by (simp add: as_ok_def)
  obtain es e where es: "tlb (machine ?vm) = Some es" "length es = 4" "past_tlb ?vm = Some e"
    using vm_inv_parts(1) [OF inv] by (auto simp: paging_ok_def store_ok_def)
  define m2 where "m2 = setreg (setreg (machine ?vm) PCReg vaddr) NextPCReg (vaddr + 4)"
  define sp where "sp = (numPages as + 8) * 128 - 16"
  define as' where "as' = as\<lparr>numPages := numPages as + 8, as_pageTable := map (\<lambda>i. if i < ?n
      then (as_pageTable as ! i)\<lparr>pe_pid := pe_pid (e_gpages E i)\<rparr> else blank_page (e_gpages E i) (int i) 3) [0..<?n + 8]\<rparr>"
  define vm1 where "vm1 = ?vm\<lparr>machine := m2, spaces := (spaces ?vm)(thread_space ?vm \<mapsto> as')\<rparr>"
  have inc: "IncrementStackSpace (e_gpages E) (thread_space ?vm) (?vm\<lparr>machine := m2\<rparr>) = Inr (sp, vm1)"
    unfolding IncrementStackSpace_def using as len
    by (simp add: deref_def Let_def top(1) as'_def vm1_def sp_def)
  have spu: "unat sp = (?n + 8) * 128 - 16" using top(2) by (simp only: sp_def)
  define vm2 where "vm2 = vm1\<lparr>machine := setreg m2 StackReg sp\<rparr>"
  have vpn: "divRoundUp (sint sp - 1024) PageSize = int ?n"
  proof (cases "?n = 0")
    case True
    then have "sint sp - 1024 = -16" unfolding sp_def top(3) by simp
    then show ?thesis unfolding True by (simp add: divRoundUp_def signed_divide_int_def signed_modulo_int_def)
  next
    case False
    then obtain k where k: "?n = Suc k" using not0_implies_Suc by blast
    have "sint sp - 1024 = int k * 128 + 112" unfolding sp_def top(3) k by simp
    then show ?thesis unfolding k by (simp add: divRoundUp_def sdiv_nonneg_eq smod_nonneg_eq)
  qed
  have rs: "RestoreState vm2 = Inr (vm2\<lparr>machine := (machine vm2)\<lparr>tlb := Some (map (\<lambda>e. e\<lparr>valid := False\<rparr>) es)\<rparr>,
      past_tlb := Some (e\<lparr>valid := False\<rparr>)\<rparr>)"
    unfolding RestoreState_def by (rule touch_loop) (use es in \<open>simp_all add: vm2_def vm1_def m2_def setreg_def\<close>)
  have run: "kernel_thread E vaddr s = bindE (RestoreState vm2) (\<lambda>vm3.
      Inr (s\<lparr>threads := (threads s)(currentThread ?vm \<mapsto> t\<lparr>t_startVPN := int ?n\<rparr>), os_vm := vm3\<rparr>))"
    using p t inc vpn
    by (simp add: kernel_thread_def WriteRegister_def m2_def [symmetric] deref_def set_thread_def)
      (simp add: vm2_def vm1_def deref_def set_thread_def)
  show ?thesis unfolding run rs
    by (simp add: vm2_def vm1_def m2_def as'_def top(1) spu)
qed

section \<open>The system calls at work\<close>

text \<open>A process with one page, the file of descriptor 2 and a free descriptor 3.\<close>

definition two_files :: "nat Table" where
  "two_files = \<lparr>tmap = \<lparr>numBits = 4, numWords = 1, bmap = [7]\<rparr>, ttable = [None, None, Some 5, None], tsize = 4\<rparr>"

definition sample :: OS where
  "sample = \<lparr>os_vm = with_files two_files one_process, unix_names = [[1, 2] \<mapsto> 9], unix_inodes = [9 \<mapsto> [10, 20, 30]],
     open_files = [5 \<mapsto> \<lparr>uf_inode = 9, uf_offset = 1\<rparr>], console = [], keyboard = [], PLock = None,
     threads = [0 \<mapsto> \<lparr>t_space = Some 0, t_parent = Some 0, t_startVPN = 0, t_mailBox = 0\<rparr>], forks = [],
     processCounter = 1, threadCounter = 0\<rparr>"

definition sample_env :: env where
  "sample_env = \<lparr>e_fuel = 3, e_rnd = (\<lambda>_ _. 0), e_wrnd = (\<lambda>_. 0), e_chars = (\<lambda>_. 0), e_slack = 1, e_can_create = (\<lambda>_. True),
     e_new = 7, e_new2 = 8, e_big = False, e_stack = (\<lambda>_. 0), e_gbits = (\<lambda>_. 0), e_gfiles = (\<lambda>_. None), e_gpages = (\<lambda>_. one_page)\<rparr>"

lemma with_files_ready: "copy_ready (with_files t vm) pid k n = copy_ready vm pid k n"
  by (simp add: copy_ready_def with_files_inv) (simp add: with_files_def lock_free_def taken_def)

lemma sample_simps [simp]:
  "os_vm sample = with_files two_files one_process" "open_files sample = [5 \<mapsto> \<lparr>uf_inode = 9, uf_offset = 1\<rparr>]"
  "unix_names sample = [[1, 2] \<mapsto> 9]" "unix_inodes sample = [9 \<mapsto> [10, 20, 30]]" "console sample = []" "PLock sample = None"
  "processCounter sample = 1" "threads sample = [0 \<mapsto> \<lparr>t_space = Some 0, t_parent = Some 0, t_startVPN = 0, t_mailBox = 0\<rparr>]"
  "e_fuel sample_env = 3" "e_rnd sample_env i j = 0" "e_wrnd sample_env i = 0" "e_new sample_env = 7" "forks sample = []"
  by (simp_all add: sample_def sample_env_def)

lemma sample_process:
  "thread_space (with_files two_files one_process) = 0" "currentThread (with_files two_files one_process) = 0"
  "parentProcess (with_files two_files one_process) = 0"
  "spaces (with_files two_files one_process) 0 = Some (one_space\<lparr>fileTable := two_files\<rparr>)"
  by (simp_all add: with_files_def one_process_def)

lemma sample_files: "files_of sample = Inr two_files" "table_wf two_files" "Table_Get two_files 2 = Inr (Some 5)"
proof -
  show "files_of sample = Inr two_files" by (simp add: files_of_def sample_process deref_def)
  show "table_wf two_files" by (simp add: two_files_def table_wf_def bm_wf_def divRoundUp_def sdiv_nonneg_eq smod_nonneg_eq)
  show "Table_Get two_files 2 = Inr (Some 5)"
    by (simp add: two_files_def Table_Get_def Test_def array_get_def sdiv_nonneg_eq smod_nonneg_eq)
qed

lemma sample_opened: "opened sample 2 5 \<lparr>uf_inode = 9, uf_offset = 1\<rparr> [10, 20, 30]"
  by (simp add: opened_def sample_files)

lemma sample_buffer: "buffer_ok sample_env 0 0 2 sample"
  by (auto simp: buffer_ok_def with_files_ready one_process_ready with_files_pages one_process_page less_2_cases_iff)

lemma sample_bytes: "user_byte (with_files two_files one_process) 0 0 = Some 1" "user_byte (with_files two_files one_process) 0 1 = Some 2"
  by (simp_all add: user_byte_def with_files_pages one_process_bytes)

theorem Write_Syscall_correct_witness:
  "\<exists>s'. Write_Syscall sample_env 0 2 2 sample = Some (Inr s') \<and> unix_inodes s' 9 = Some [10, 1, 2] \<and>
     open_files s' 5 = Some \<lparr>uf_inode = 9, uf_offset = 3\<rparr>"
proof -
  from Write_Syscall_correct [OF sample_buffer, of 2 5 "\<lparr>uf_inode = 9, uf_offset = 1\<rparr>" "[10, 20, 30]"] sample_opened
  obtain data vm' where d: "length data = 2" "user_data (os_vm sample) 0 0 data"
    "Write_Syscall sample_env 0 2 2 sample = Some (Inr (sample\<lparr>os_vm := vm',
       unix_inodes := (unix_inodes sample)(9 \<mapsto> overwritten [10, 20, 30] 1 data),
       open_files := (open_files sample)(5 \<mapsto> \<lparr>uf_inode = 9, uf_offset = 3\<rparr>)\<rparr>))" by auto
  have "data = [1, 2]"
    using d(1,2) sample_bytes by (auto simp: user_data_def numeral_2_eq_2 length_Suc_conv less_Suc_eq all_conj_distrib)
  then show ?thesis using d(3) by (simp add: overwritten_def)
qed

theorem Read_Syscall_loses_data_witness:
  "\<exists>vm'. Read_Syscall sample_env 0 2 2 sample =
      Inr (2, sample\<lparr>os_vm := vm', open_files := [5 \<mapsto> \<lparr>uf_inode = 9, uf_offset = 3\<rparr>]\<rparr>) \<and>
     page_bytes vm' 0 0 = Some ([1, 2, 3, 4] @ replicate 124 0)"
proof -
  have ready: "copy_ready (os_vm sample) 0 1 1"
    using copy_ready_mono [OF one_process_ready, of 1 1] by (simp add: with_files_ready)
  have pg: "page_of (os_vm sample) 0 (unat (0 :: 32 word) div 128) \<noteq> None" by (simp add: with_files_pages one_process_page)
  have "\<not> in_tlb (os_vm sample) (unat (0 :: 32 word) div 128)"
    by (simp add: in_tlb_def) (simp add: with_files_def one_process_def Machine_new_def idle_entry_def numeral_eq_Suc)
  from Read_Syscall_loses_data [OF ready _ sample_opened _ _ _ _ pg this, of sample_env 2 "[20, 30]"] obtain vm' where
    "Read_Syscall sample_env 0 2 2 sample = Inr (2, sample\<lparr>os_vm := vm', open_files := [5 \<mapsto> \<lparr>uf_inode = 9, uf_offset = 3\<rparr>]\<rparr>)"
    "same_pages vm' (os_vm sample)" by auto
  then show ?thesis by (auto simp: same_pages_def with_files_pages one_process_bytes)
qed

theorem Open_Syscall_correct_witness:
  "\<exists>s'. Open_Syscall sample_env 0 2 sample = Some (Inr (3, s')) \<and> open_files s' 7 = Some \<lparr>uf_inode = 9, uf_offset = 0\<rparr>"
proof -
  have u: "used (tmap two_files) = {0, 1, 2}"
  proof -
    have "bit (7 :: 32 word) (nat i) \<longleftrightarrow> i \<in> {0, 1, 2}" if "0 \<le> i" "i < 4" for i :: int
    proof -
      have "i = 0 \<or> i = 1 \<or> i = 2 \<or> i = 3" using that by auto
      then show ?thesis by (auto simp: bit_numeral_rec)
    qed
    then show ?thesis by (auto simp: used_def two_files_def)
  qed
  then have dom: "dom (table_map two_files) = {0, 1, 2}"
    by (auto simp: table_map_def dom_def two_files_def split: if_splits)
  have name: "\<forall>i < length [1, 2]. user_byte (os_vm sample) 0 (0 + of_nat i) = Some ([1, 2] ! i)"
    using sample_bytes by (auto simp: less_Suc_eq)
  have free: "\<not> {0..<tsize two_files} \<subseteq> dom (table_map two_files)" 
  proof -
    have "3 \<in> {0..<tsize two_files}" by (simp add: two_files_def)
    moreover have "3 \<notin> dom (table_map two_files)" unfolding dom by simp
    ultimately show ?thesis by blast
  qed
  have "buffer_ok sample_env 0 0 (length [1 :: 8 word, 2]) sample" using sample_buffer by (simp add: numeral_2_eq_2)
  from Open_Syscall_correct [OF this _ name _ sample_files(1,2)] free obtain vm' fd where
    r: "fd \<in> {0..<tsize two_files} - dom (table_map two_files)"
    "Open_Syscall sample_env 0 2 sample = Some (Inr (fd, sample\<lparr>os_vm := vm',
       open_files := (open_files sample)(e_new sample_env \<mapsto> \<lparr>uf_inode = 9, uf_offset = 0\<rparr>)\<rparr>))" by auto
  have "fd = 3" using r(1) unfolding dom by (auto simp: two_files_def)
  then show ?thesis using r(2) by simp
qed

theorem Exit_Syscall_correct_witness:
  "\<exists>s'. Exit_Syscall sample = Inr s' \<and> processCounter s' = 0 \<and> table_map (ProcessTable (os_vm s')) 0 = None \<and> PLock s' = Some 0"
proof -
  have inv: "vm_inv (os_vm sample) 0" using one_process_inv by (simp add: with_files_inv)
  obtain p where p: "procs (os_vm sample) (parentProcess (os_vm sample)) = Some p" "ProcessID p = 0"
    "addrSpace p = thread_space (os_vm sample)" "ChildThreadCounter p = 1"
    by (simp add: sample_process) (simp add: with_files_def one_process_def)
  from Exit_Syscall_correct [OF inv p(1-3)] p(4) obtain s' where
    "Exit_Syscall sample = Inr s'" "table_map (ProcessTable (os_vm s')) = (table_map (ProcessTable (os_vm sample)))(0 := None)"
    "processCounter s' = processCounter sample - 1" "PLock s' = Some (currentThread (os_vm sample))" by auto
  then show ?thesis by (simp add: sample_process)
qed

theorem Fork_Syscall_keeps_PLock_witness:
  "\<exists>s'. Fork_Syscall sample_env 64 sample = Inr s' \<and> PLock s' = Some 0 \<and>
     Exit_Syscall (s'\<lparr>os_vm := (os_vm s')\<lparr>currentThread := 7, parentProcess := 0, thread_space := 0\<rparr>\<rparr>) = Inl WouldBlock"
proof -
  obtain p where p: "procs (os_vm sample) (parentProcess (os_vm sample)) = Some p"
    by (simp add: sample_process) (simp add: with_files_def one_process_def)
  have "7 \<noteq> currentThread (os_vm sample)" by (simp add: sample_process)
  from Fork_Syscall_keeps_PLock [OF p _ this, of sample_env 64] show ?thesis by (auto simp: sample_process)
qed

theorem forked_thread_stack_witness:
  "\<exists>s'. kernel_thread sample_env 64 sample = Inr s' \<and> map_option t_startVPN (threads s' 0) = Some 1 \<and>
     unat (registers (machine (os_vm s')) StackReg) = 1136"
proof -
  have inv: "vm_inv (os_vm sample) 0" using one_process_inv by (simp add: with_files_inv)
  have as: "spaces (os_vm sample) (thread_space (os_vm sample)) = Some (one_space\<lparr>fileTable := two_files\<rparr>)"
    by (simp add: sample_process)
  have np: "numPages (one_space\<lparr>fileTable := two_files\<rparr>) = 1" by (simp add: one_space_def)
  have t: "threads sample (currentThread (os_vm sample)) = Some \<lparr>t_space = Some 0, t_parent = Some 0, t_startVPN = 0, t_mailBox = 0\<rparr>"
    by (simp add: sample_process)
  from forked_thread_stack [OF inv as _ t, of sample_env 64] np show ?thesis by (auto simp: sample_process)
qed

text \<open>The page in frame 0 and in the TLB.\<close>

definition resident :: VM where
  "resident = one_process\<lparr>machine := (machine one_process)\<lparr>tlb := Some (idle_entry\<lparr>valid := True\<rparr> # replicate 3 idle_entry)\<rparr>,
     ipt := idle_ipt[0 := (idle_ipt ! 0)\<lparr>ipt_valid := True\<rparr>], bm := projr (Mark free_map 0), fifoQueue := [0],
     spaces := [0 \<mapsto> one_space\<lparr>as_pageTable := [one_page\<lparr>pe_valid := True\<rparr>]\<rparr>]\<rparr>"

lemma resident_bm: "bm_wf (bm resident)" "numBits (bm resident) = 4096" "used (bm resident) = {0}"
proof -
  obtain b where "Mark free_map 0 = Inr b" "bm_wf b" "numBits b = numBits free_map" "used b = insert 0 (used free_map)"
    by (rule Mark_used [of free_map 0]) simp_all
  then show "bm_wf (bm resident)" "numBits (bm resident) = 4096" "used (bm resident) = {0}" by (simp_all add: resident_def)
qed

lemma resident_page: "space_ptr resident = space_ptr one_process"
  "page_of resident q v = (if q = 0 \<and> v = 0 then Some (one_page\<lparr>pe_valid := True\<rparr>) else None)"
proof -
  show ptr: "space_ptr resident = space_ptr one_process" by (rule space_ptr_cong) (simp_all add: resident_def)
  show "page_of resident q v = (if q = 0 \<and> v = 0 then Some (one_page\<lparr>pe_valid := True\<rparr>) else None)"
    by (simp add: page_of_def ptr one_process_space) (simp add: resident_def)
qed

lemma resident_inv: "vm_inv resident 0"
proof -
  have I: "length (ipt resident) = 4096" "ipt resident ! 0 = (idle_ipt ! 0)\<lparr>ipt_valid := True\<rparr>"
    "\<And>k. 0 < k \<Longrightarrow> k < 4096 \<Longrightarrow> \<not> ipt_valid (ipt resident ! k)"
    by (simp_all add: resident_def idle_ipt_def)
  have I0: "ipt_pid (ipt resident ! 0) = 0" "ipt_virtualPage (ipt resident ! 0) = 0" "ipt_valid (ipt resident ! 0)"
    by (simp_all add: I(2) idle_ipt_def)
  have F: "frames_ok (page_of resident) (ipt resident) (used (bm resident))"
    unfolding resident_bm(3) by (auto simp: frames_ok_def resident_page one_page_def I0 split: if_splits)
  have S: "swap_ok (page_of resident) (used (sfBM resident)) (length (swapFile resident))"
    by (auto simp: swap_ok_def resident_page one_page_def swapped_def split: if_splits)
  have "as_ok (one_space\<lparr>as_pageTable := [one_page\<lparr>pe_valid := True\<rparr>]\<rparr>)"
    by (simp add: as_ok_def one_space_def one_page_def udivRoundUp_def)
  then have SP: "spaces_ok resident"
    by (auto simp: spaces_ok_def resident_page(1) one_process_space split: if_splits) (simp add: resident_def)
  have "store_ok one_process" using one_process_inv by (simp add: vm_inv_def paging_ok_def)
  then have ST: "store_ok resident"
    using I(1) resident_bm by (auto simp: store_ok_def resident_def numeral_eq_Suc)
  have X: "ipt_exact resident"
  proof -
    have "k = 0" if "0 \<le> k" "k < 4096" "ipt_valid (ipt resident ! nat k)" for k
    proof (rule ccontr)
      assume "k \<noteq> 0"
      then have "0 < nat k" "nat k < 4096" using that by simp_all
      then show False using I(3) that(3) by blast
    qed
    then show ?thesis unfolding ipt_exact_def resident_bm(3) by blast
  qed
  have T: "tlb_ok resident 0"
    by (auto simp: tlb_ok_def resident_bm(3) I0, auto simp: resident_def idle_entry_def idle_ipt_def)
  have C: "current_ok resident 0"
    using vm_inv_parts(4) [OF one_process_inv] by (simp add: current_ok_def resident_page(1)) (simp add: resident_def)
  have FF: "fifo_ok resident" unfolding fifo_ok_def resident_bm(3) by (simp add: resident_def)
  show ?thesis using F S SP ST X T C FF by (simp add: vm_inv_def paging_ok_def)
qed

theorem Read_Syscall_correct_witness:
  "\<exists>vm' bytes. Read_Syscall sample_env 4 2 2 (sample\<lparr>os_vm := with_files two_files resident\<rparr>) =
      Inr (2, sample\<lparr>os_vm := vm', open_files := [5 \<mapsto> \<lparr>uf_inode = 9, uf_offset = 3\<rparr>]\<rparr>) \<and>
     page_bytes vm' 0 0 = Some (patch bytes 4 [20, 30])"
proof -
  let ?s = "sample\<lparr>os_vm := with_files two_files resident\<rparr>"
  have inv: "vm_inv (os_vm ?s) 0" using resident_inv by (simp add: with_files_inv)
  have w: "writable (os_vm ?s) (unat (4 :: 32 word) div 128)"
    by (simp add: writable_def with_files_def resident_def idle_entry_def)
  have "files_of ?s = Inr two_files" by (simp add: files_of_def deref_def with_files_def resident_def one_process_def)
  then have op: "opened ?s 2 5 \<lparr>uf_inode = 9, uf_offset = 1\<rparr> [10, 20, 30]" by (simp add: opened_def sample_files)
  from Read_Syscall_correct [OF inv op _ _ _ _ w, of 2 "[20, 30]" sample_env] show ?thesis by auto
qed

end
