(* ===== verification/Nachos_Exception.thy ===== *)
theory Nachos_Exception
  imports Nachos_Syscall
begin

text \<open>
  \<open>ExceptionHandler\<close> of \<^verbatim>\<open>userprog/exception.cc\<close>: the dispatch of system calls by the number in register 2, with
  the arguments in registers 4 to 6, the return to the instruction behind the call, and page faults. This is the handler of
  the kernel without the network (\<^verbatim>\<open>NETWORK\<close> not defined), in which the numbers of the network calls are
  unknown system calls. What other threads do while the thread yields is a parameter.
\<close>

datatype handled = Resumes OS | Finishes OS

text \<open>The system calls: the value returned, or none when the thread ends.\<close>

definition do_syscall :: "env \<Rightarrow> (OS \<Rightarrow> OS) \<Rightarrow> int \<Rightarrow> (nat \<Rightarrow> 32 word) \<Rightarrow> OS \<Rightarrow> (int option \<times> OS) res option" where
  "do_syscall E others type r s =
     (if type = 4 then bindF (Create_Syscall E (r 4) (sint (r 5)) s) (\<lambda>s. Some (Inr (Some 0, s)))
      else if type = 5 then bindF (Open_Syscall E (r 4) (sint (r 5)) s) (\<lambda>(rv, s). Some (Inr (Some rv, s)))
      else if type = 7 then bindF (Write_Syscall E (r 4) (sint (r 5)) (sint (r 6)) s) (\<lambda>s. Some (Inr (Some 0, s)))
      else if type = 6 then bindF (Some (Read_Syscall E (r 4) (sint (r 5)) (sint (r 6)) s)) (\<lambda>(rv, s). Some (Inr (Some rv, s)))
      else if type = 8 then bindF (Some (Close_Syscall (sint (r 4)) s)) (\<lambda>s. Some (Inr (Some 0, s)))
      else if type = 2 then bindF (Exec_Syscall E (r 4) s) (\<lambda>(rv, s). Some (Inr (Some rv, s)))
      else if type = 1 then bindF (Some (Exit_Syscall s)) (\<lambda>s. Some (Inr (None, s)))
      else if type = 9 then bindF (Some (Fork_Syscall E (r 4) s)) (\<lambda>s. Some (Inr (Some 0, s)))
      else if type = 10 then Some (Inr (Some 0, others s))
      else Some (Inl Halted))"

text \<open>The return value and the next instruction.\<close>

definition return_from_call :: "int \<Rightarrow> Machine \<Rightarrow> Machine res" where
  "return_from_call rv m =
     bindE (WriteRegister m 2 (word_of_int rv)) (\<lambda>m.
     bindE (ReadRegister m (int PCReg)) (\<lambda>pc.
     bindE (WriteRegister m (int PrevPCReg) pc) (\<lambda>m.
     bindE (ReadRegister m (int NextPCReg)) (\<lambda>npc.
     bindE (WriteRegister m (int PCReg) npc) (\<lambda>m.
     bindE (ReadRegister m (int PCReg)) (\<lambda>pc.
       WriteRegister m (int NextPCReg) (pc + 4)))))))"

definition ExceptionHandler :: "env \<Rightarrow> (OS \<Rightarrow> OS) \<Rightarrow> int \<Rightarrow> ExceptionType \<Rightarrow> OS \<Rightarrow> handled res option" where
  "ExceptionHandler E others rnd which s =
     bindF (Some (ReadRegister (machine (os_vm s)) 2)) (\<lambda>type.
       if which = SyscallException then
         bindF (do_syscall E others (sint type) (registers (machine (os_vm s))) s) (\<lambda>(rv, s).
           case rv of
             None \<Rightarrow> Some (Inr (Finishes s))
           | Some v \<Rightarrow> bindF (Some (return_from_call v (machine (os_vm s)))) (\<lambda>m. Some (Inr (Resumes (s\<lparr>os_vm := (os_vm s)\<lparr>machine := m\<rparr>\<rparr>)))))
       else if which = PageFaultException then
         bindF (Some (bindE (ReadRegister (machine (os_vm s)) (int BadVAddrReg)) (\<lambda>va. updateTLB rnd va (os_vm s)))) (\<lambda>vm.
           Some (Inr (Resumes (s\<lparr>os_vm := vm\<rparr>))))
       else Some (Inl Halted))"

text \<open>A thread goes on behind its system call: the handler advances the program counter by one instruction and changes no other register than the
  one for the result.\<close>

lemma return_from_call_advances:
  "return_from_call rv m = Inr (setreg (setreg (setreg (setreg m 2 (word_of_int rv)) PrevPCReg (registers m PCReg)) PCReg (registers m NextPCReg))
     NextPCReg (registers m NextPCReg + 4))"
  by (simp add: return_from_call_def WriteRegister_def ReadRegister_def ASSERT_def)

theorem syscall_returns_behind_call:
  assumes "ExceptionHandler E others rnd SyscallException s = Some (Inr (Resumes s'))"
  shows "\<exists>rv s1. do_syscall E others (sint (registers (machine (os_vm s)) 2)) (registers (machine (os_vm s))) s = Some (Inr (Some rv, s1)) \<and>
    s' = s1\<lparr>os_vm := (os_vm s1)\<lparr>machine := machine (os_vm s')\<rparr>\<rparr> \<and>
    registers (machine (os_vm s')) = (registers (machine (os_vm s1)))(2 := word_of_int rv, PrevPCReg := registers (machine (os_vm s1)) PCReg,
      PCReg := registers (machine (os_vm s1)) NextPCReg, NextPCReg := registers (machine (os_vm s1)) NextPCReg + 4)"
  using assms
  by (auto simp: ExceptionHandler_def ReadRegister_def ASSERT_def bindF_def return_from_call_advances split: option.splits sum.splits)

text \<open>The kernel without the network stops at every number from 11 on, and at 3 (\<open>Join\<close>).\<close>

lemma unknown_syscall_halts:
  assumes "sint (registers (machine (os_vm s)) 2) \<notin> {1, 2, 4, 5, 6, 7, 8, 9, 10}"
  shows "ExceptionHandler E others rnd SyscallException s = Some (Inl Halted)"
  using assms by (simp add: ExceptionHandler_def do_syscall_def ReadRegister_def ASSERT_def)

end
