(* ===== verification/Nachos_Isolation.thy ===== *)
theory Nachos_Isolation
  imports Nachos_UserMem
begin

text \<open>
  Memory protection over whole runs. The runs start with processes set up and nothing loaded, and
  consist of the loads and stores of the running program with the page faults they cause
  (\<open>vm_ReadMem\<close>, \<open>vm_WriteMem\<close>: evictions, swapping and TLB refills included), changes of the
  registers, context switches (\<open>RestoreState\<close>), stacks for new threads (\<open>IncrementStackSpace\<close>) and
  new processes (the part of \<open>Exec_Syscall\<close> that changes the virtual memory).

  The end of a process or thread is not part of these runs: \<open>DeleteSpace\<close> and
  \<open>DecreaseStackSpace\<close> leave entries in the inverted page table that name freed frames
  (\<open>Nachos_AddrSpace\<close>), and what is shown here does not hold after them.
\<close>

section \<open>Runs\<close>




section \<open>The invariant of the runs\<close>














section \<open>Loads and stores\<close>












section \<open>Context switches, stacks and new processes\<close>







section \<open>Isolation\<close>








end
