(* ===== verification/Nachos_Network.thy ===== *)
theory Nachos_Network
  imports Nachos_Bitmap
begin

text \<open>
  The network: the simulated interface of \<^verbatim>\<open>machine/network.cc\<close>, the post office of
  \<^verbatim>\<open>network/post.cc\<close> above it and the synchronised list of \<^verbatim>\<open>threads/synchlist.cc\<close> that is a
  mailbox.

  Machines exchange 64-byte datagrams through UNIX sockets, which the model has as one queue per
  address; sending to an address nobody is bound to fails. An \<^verbatim>\<open>int\<close> is a 32-bit word, a header
  is put on the wire as its bytes on a little-endian host. The probability \<open>chanceToWork\<close> is only
  compared with the whole number \<^verbatim>\<open>Random() % 100\<close> after multiplication with 100, so the field
  holds that product rounded up; \<open>Random()\<close> is an argument. Each routine that a thread or an interrupt
  handler runs without giving up the processor is one function; the waits of the post office
  (\<open>messageAvailable->P()\<close>, \<open>messageSent->P()\<close>, an empty mailbox) are outcomes \<open>WouldBlock\<close>.
\<close>

section \<open>Packets and mail\<close>

record PacketHeader =
  pk_to :: "32 word"
  pk_from :: "32 word"
  pk_length :: "32 word"

record MailHeader =
  mh_to :: "32 word"
  mh_from :: "32 word"
  mh_length :: "32 word"

abbreviation MaxWireSize :: nat where "MaxWireSize \<equiv> 64"
abbreviation MaxPacketSize :: nat where "MaxPacketSize \<equiv> 52"
abbreviation MaxMailSize :: nat where "MaxMailSize \<equiv> 40"

text \<open>Three words as the twelve bytes of a structure, and back.\<close>

definition packet_header_bytes :: "PacketHeader \<Rightarrow> 8 word list" where
  "packet_header_bytes h = concat (map word_bytes [pk_to h, pk_from h, pk_length h])"

definition bytes_packet_header :: "8 word list \<Rightarrow> PacketHeader" where
  "bytes_packet_header bs =
     (let ws = bytes_words (take 12 bs) in \<lparr>pk_to = ws ! 0, pk_from = ws ! 1, pk_length = ws ! 2\<rparr>)"

definition mail_header_bytes :: "MailHeader \<Rightarrow> 8 word list" where
  "mail_header_bytes h = concat (map word_bytes [mh_to h, mh_from h, mh_length h])"

definition bytes_mail_header :: "8 word list \<Rightarrow> MailHeader" where
  "bytes_mail_header bs =
     (let ws = bytes_words (take 12 bs) in \<lparr>mh_to = ws ! 0, mh_from = ws ! 1, mh_length = ws ! 2\<rparr>)"

text \<open>A mail keeps the \<^verbatim>\<open>mailHdr.length\<close> bytes that were copied; nobody reads the rest of its array.\<close>

record Mail =
  pktHdr :: PacketHeader
  mailHdr :: MailHeader
  mail_data :: "8 word list"

definition Mail_new :: "PacketHeader \<Rightarrow> MailHeader \<Rightarrow> 8 word list \<Rightarrow> Mail res" where
  "Mail_new pktH mailH msgData =
     bindE (ASSERT (unat (mh_length mailH) \<le> MaxMailSize)) (\<lambda>_.
       Inr \<lparr>pktHdr = pktH, mailHdr = mailH, mail_data = take (unat (mh_length mailH)) msgData\<rparr>)"

section \<open>The synchronised list\<close>

text \<open>
  Between \<open>Acquire\<close> and \<open>Release\<close> of the list's lock; \<open>Remove\<close> waits on the condition while the
  list is empty.
\<close>

definition SynchList_Append :: "'a list \<Rightarrow> 'a \<Rightarrow> 'a list" where
  "SynchList_Append l item = l @ [item]"

definition SynchList_Remove :: "'a list \<Rightarrow> ('a \<times> 'a list) res" where
  "SynchList_Remove l = (case l of [] \<Rightarrow> Inl WouldBlock | item # rest \<Rightarrow> Inr (item, rest))"

definition SynchList_Mapcar :: "('a \<Rightarrow> 's \<Rightarrow> 's) \<Rightarrow> 'a list \<Rightarrow> 's \<Rightarrow> 's" where
  "SynchList_Mapcar func l s = fold func l s"

definition MailBox_Put :: "Mail list \<Rightarrow> PacketHeader \<Rightarrow> MailHeader \<Rightarrow> 8 word list \<Rightarrow> Mail list res" where
  "MailBox_Put box pktH mailH dat = bindE (Mail_new pktH mailH dat) (\<lambda>mail. Inr (SynchList_Append box mail))"

definition MailBox_Get :: "Mail list \<Rightarrow> (PacketHeader \<times> MailHeader \<times> 8 word list \<times> Mail list) res" where
  "MailBox_Get box =
     bindE (SynchList_Remove box) (\<lambda>(mail, rest). Inr (pktHdr mail, mailHdr mail, mail_data mail, rest))"

section \<open>The network interface\<close>

record Network =
  ident :: "32 word"
  chanceToWork :: int
  sendBusy :: bool
  inHdr :: PacketHeader
  inbox :: "8 word list"

definition Network_new :: "32 word \<Rightarrow> int \<Rightarrow> PacketHeader \<Rightarrow> 8 word list \<Rightarrow> Network" where
  "Network_new addr reliability garbageHdr garbage =
     \<lparr>ident = addr, chanceToWork = (if reliability < 0 then 0 else if reliability > 100 then 100 else reliability),
      sendBusy = False, inHdr = garbageHdr\<lparr>pk_length := 0\<rparr>, inbox = garbage\<rparr>"

text \<open>
  \<open>Network::Send\<close>: whether the call succeeded and the datagram that goes to the socket of \<^verbatim>\<open>hdr.to\<close>,
  unless it was lost. \<open>bound\<close> says whether a socket with that name exists; the bytes behind the data
  are whatever the fresh buffer held (\<open>garbage\<close>).
\<close>

definition Network_Send ::
    "nat \<Rightarrow> bool \<Rightarrow> 8 word list \<Rightarrow> PacketHeader \<Rightarrow> 8 word list \<Rightarrow> Network \<Rightarrow> (bool \<times> 8 word list option) res" where
  "Network_Send rnd bound garbage hdr dat net =
     bindE (ASSERT (\<not> sendBusy net \<and> unat (pk_length hdr) > 0 \<and> unat (pk_length hdr) \<le> MaxPacketSize \<and>
                    pk_from hdr = ident net)) (\<lambda>_.
       if int (rnd mod 100) \<ge> chanceToWork net then Inr (True, None)
       else
         (let buffer = take MaxWireSize (packet_header_bytes hdr @ take (unat (pk_length hdr)) dat @ garbage)
          in if bound then Inr (True, Some buffer) else Inr (False, None)))"

definition Network_SendDone :: "Network \<Rightarrow> Network" where
  "Network_SendDone net = net\<lparr>sendBusy := False\<rparr>"

text \<open>
  \<open>CheckPktAvail\<close> with the datagrams waiting at the socket: what remains there, and whether the read
  handler is called.
\<close>

definition CheckPktAvail :: "8 word list list \<Rightarrow> Network \<Rightarrow> (8 word list list \<times> bool \<times> Network) res" where
  "CheckPktAvail sock net =
     (if pk_length (inHdr net) \<noteq> 0 then Inr (sock, False, net)
      else (case sock of
          [] \<Rightarrow> Inr (sock, False, net)
        | buffer # rest \<Rightarrow>
            bindE (ASSERT (length buffer = MaxWireSize)) (\<lambda>_.
              let hdr = bytes_packet_header buffer in
              bindE (ASSERT (pk_to hdr = ident net \<and> unat (pk_length hdr) \<le> MaxPacketSize)) (\<lambda>_.
                let n = unat (pk_length hdr) in
                Inr (rest, True, net\<lparr>inHdr := hdr, inbox := take n (drop 12 buffer) @ drop n (inbox net)\<rparr>)))))"

definition Network_Receive :: "8 word list \<Rightarrow> Network \<Rightarrow> PacketHeader \<times> 8 word list \<times> Network" where
  "Network_Receive dat net =
     (let hdr = inHdr net; n = unat (pk_length hdr)
      in (hdr, if pk_length hdr \<noteq> 0 then take n (inbox net) @ drop n dat else dat,
          net\<lparr>inHdr := hdr\<lparr>pk_length := 0\<rparr>\<rparr>))"

section \<open>The post office\<close>

record PostOffice =
  netAddr :: "32 word"
  numBoxes :: int
  boxes :: "Mail list list"
  messageAvailable :: nat
  messageSent :: nat
  po_buffer :: "8 word list"
  network :: Network

definition PostOffice_new :: "32 word \<Rightarrow> int \<Rightarrow> int \<Rightarrow> PacketHeader \<Rightarrow> 8 word list \<Rightarrow> 8 word list \<Rightarrow> PostOffice" where
  "PostOffice_new addr reliability nBoxes garbageHdr garbage gbuffer =
     \<lparr>netAddr = addr, numBoxes = nBoxes, boxes = replicate (nat nBoxes) [], messageAvailable = 0, messageSent = 0,
      po_buffer = gbuffer, network = Network_new addr reliability garbageHdr garbage\<rparr>"

definition legal_mail :: "PostOffice \<Rightarrow> MailHeader \<Rightarrow> unit res" where
  "legal_mail po mailH =
     bindE (ASSERT (0 \<le> sint (mh_to mailH) \<and> sint (mh_to mailH) < numBoxes po)) (\<lambda>_.
       ASSERT (unat (mh_length mailH) \<le> MaxMailSize))"

text \<open>One round of the postal worker; \<open>po_buffer\<close> is the buffer it keeps across rounds.\<close>

definition PostalDelivery :: "PostOffice \<Rightarrow> PostOffice res" where
  "PostalDelivery po =
     (if messageAvailable po = 0 then Inl WouldBlock
      else
        (let (pktH, buffer, net) = Network_Receive (po_buffer po) (network po);
             mailH = bytes_mail_header buffer
         in bindE (legal_mail po mailH) (\<lambda>_.
            bindE (array_get (boxes po) (sint (mh_to mailH))) (\<lambda>box.
            bindE (MailBox_Put box pktH mailH (drop 12 buffer)) (\<lambda>box'.
            bindE (array_set (boxes po) (sint (mh_to mailH)) box') (\<lambda>bs.
              Inr (po\<lparr>messageAvailable := messageAvailable po - 1, po_buffer := buffer, network := net, boxes := bs\<rparr>)))))))"

text \<open>
  \<open>Send\<close> up to the wait for \<open>messageSent\<close>: the result, the address and the datagram. The wait ends with
  \<open>PacketSent\<close>, which the interrupt scheduled by \<open>Network::Send\<close> brings.
\<close>

definition PostOffice_Send ::
    "nat \<Rightarrow> bool \<Rightarrow> 8 word list \<Rightarrow> PacketHeader \<Rightarrow> MailHeader \<Rightarrow> 8 word list \<Rightarrow> PostOffice \<Rightarrow>
     (bool \<times> 8 word list option) res" where
  "PostOffice_Send rnd bound garbage pktH mailH dat po =
     bindE (ASSERT (unat (mh_length mailH) \<le> MaxMailSize)) (\<lambda>_.
     bindE (ASSERT (0 \<le> sint (mh_to mailH) \<and> sint (mh_to mailH) < numBoxes po)) (\<lambda>_.
       let pktH' = pktH\<lparr>pk_from := netAddr po, pk_length := mh_length mailH + 12\<rparr>;
           buffer = mail_header_bytes mailH @ take (unat (mh_length mailH)) dat
       in if length dat < unat (mh_length mailH) then Inl OutOfRange
          else Network_Send rnd bound garbage pktH' buffer (network po)))"

definition IncomingPacket :: "PostOffice \<Rightarrow> PostOffice" where
  "IncomingPacket po = po\<lparr>messageAvailable := messageAvailable po + 1\<rparr>"

definition PacketSent :: "PostOffice \<Rightarrow> PostOffice" where
  "PacketSent po = po\<lparr>messageSent := messageSent po + 1\<rparr>"

definition wait_sent :: "PostOffice \<Rightarrow> PostOffice res" where
  "wait_sent po = (if messageSent po = 0 then Inl WouldBlock else Inr (po\<lparr>messageSent := messageSent po - 1\<rparr>))"

definition PostOffice_Receive :: "int \<Rightarrow> PostOffice \<Rightarrow> (PacketHeader \<times> MailHeader \<times> 8 word list \<times> PostOffice) res" where
  "PostOffice_Receive box po =
     bindE (ASSERT (box \<ge> 0 \<and> box < numBoxes po)) (\<lambda>_.
     bindE (array_get (boxes po) box) (\<lambda>b.
     bindE (MailBox_Get b) (\<lambda>(pktH, mailH, dat, b').
     bindE (array_set (boxes po) box b') (\<lambda>bs.
     bindE (ASSERT (unat (mh_length mailH) \<le> MaxMailSize)) (\<lambda>_.
       Inr (pktH, mailH, dat, po\<lparr>boxes := bs\<rparr>))))))"

section \<open>Machines on one network\<close>

text \<open>The post offices by address and the datagrams on their way to each address.\<close>

record World =
  offices :: "32 word \<rightharpoonup> PostOffice"
  sockets :: "32 word \<Rightarrow> 8 word list list"

text \<open>
  What can happen: a thread of machine \<open>a\<close> sends a mail (and has waited for the interface), machine
  \<open>a\<close>'s interface polls its socket, its postal worker delivers, a thread of \<open>a\<close> receives from a box.
\<close>

datatype event =
    Send "32 word" nat "8 word list" PacketHeader MailHeader "8 word list"
  | Poll "32 word"
  | Deliver "32 word"
  | Receive "32 word" int

text \<open>
  What came of it: the mail was put on the wire, or lost there, or no machine has the address; an
  interrupt or a delivery; the mail a thread received; or the thread went to sleep with nothing done.
\<close>

datatype outcome = Accepted Mail | Lost | Refused | Quiet | Got Mail | Blocked

definition office :: "World \<Rightarrow> 32 word \<Rightarrow> PostOffice res" where
  "office w a = (case offices w a of Some po \<Rightarrow> Inr po | None \<Rightarrow> Inl NullDereference)"

definition posted :: "32 word \<Rightarrow> PacketHeader \<Rightarrow> MailHeader \<Rightarrow> 8 word list \<Rightarrow> Mail" where
  "posted a pktH mailH dat =
     \<lparr>pktHdr = pktH\<lparr>pk_from := a, pk_length := mh_length mailH + 12\<rparr>, mailHdr = mailH,
      mail_data = take (unat (mh_length mailH)) dat\<rparr>"

fun happen :: "event \<Rightarrow> World \<Rightarrow> (outcome \<times> World) res" where
  "happen (Send a rnd garbage pktH mailH dat) w =
     bindE (office w a) (\<lambda>po.
     bindE (PostOffice_Send rnd (offices w (pk_to pktH) \<noteq> None) garbage pktH mailH dat po) (\<lambda>(success, out).
     bindE (wait_sent (PacketSent (po\<lparr>network := Network_SendDone (network po)\<rparr>))) (\<lambda>po'.
       let w' = w\<lparr>offices := (offices w)(a \<mapsto> po')\<rparr> in
       case out of
         None \<Rightarrow> Inr (if success then Lost else Refused, w')
       | Some d \<Rightarrow> Inr (Accepted (posted a pktH mailH dat),
                     w'\<lparr>sockets := (sockets w)(pk_to pktH := sockets w (pk_to pktH) @ [d])\<rparr>))))"
| "happen (Poll a) w =
     bindE (office w a) (\<lambda>po.
     bindE (CheckPktAvail (sockets w a) (network po)) (\<lambda>(sock, arrived, net).
       let po' = po\<lparr>network := net\<rparr> in
       Inr (Quiet, w\<lparr>offices := (offices w)(a \<mapsto> if arrived then IncomingPacket po' else po'),
                     sockets := (sockets w)(a := sock)\<rparr>)))"
| "happen (Deliver a) w =
     bindE (office w a) (\<lambda>po. bindE (PostalDelivery po) (\<lambda>po'. Inr (Quiet, w\<lparr>offices := (offices w)(a \<mapsto> po')\<rparr>)))"
| "happen (Receive a box) w =
     bindE (office w a) (\<lambda>po. bindE (PostOffice_Receive box po) (\<lambda>(pktH, mailH, dat, po').
       Inr (Got \<lparr>pktHdr = pktH, mailHdr = mailH, mail_data = dat\<rparr>, w\<lparr>offices := (offices w)(a \<mapsto> po')\<rparr>)))"

text \<open>A sequence of events; a thread that has to wait leaves the state as it was.\<close>

primrec history :: "event list \<Rightarrow> World \<Rightarrow> ((event \<times> outcome) list \<times> World) res" where
  "history [] w = Inr ([], w)"
| "history (e # es) w =
     (case happen e w of
        Inr (out, w') \<Rightarrow> bindE (history es w') (\<lambda>(h, w''). Inr ((e, out) # h, w''))
      | Inl WouldBlock \<Rightarrow> bindE (history es w) (\<lambda>(h, w''). Inr ((e, Blocked) # h, w''))
      | Inl err \<Rightarrow> Inl err)"

section \<open>The abstract network: a queue of mails for every box\<close>

text \<open>The mail in a packet, and the mails on their way to box \<open>x\<close> of machine \<open>b\<close>, oldest first.\<close>

definition packet_mail :: "PacketHeader \<Rightarrow> 8 word list \<Rightarrow> Mail" where
  "packet_mail hdr body =
     (let mailH = bytes_mail_header body
      in \<lparr>pktHdr = hdr, mailHdr = mailH, mail_data = take (unat (mh_length mailH)) (drop 12 body)\<rparr>)"

definition datagram_mail :: "8 word list \<Rightarrow> Mail" where
  "datagram_mail d = packet_mail (bytes_packet_header d) (drop 12 d)"

definition buffered :: "Network \<Rightarrow> Mail list" where
  "buffered net = (if pk_length (inHdr net) = 0 then [] else [packet_mail (inHdr net) (inbox net)])"

definition for_box :: "int \<Rightarrow> Mail \<Rightarrow> bool" where
  "for_box x mail \<longleftrightarrow> sint (mh_to (mailHdr mail)) = x"

definition arriving :: "PostOffice \<Rightarrow> 8 word list list \<Rightarrow> Mail list" where
  "arriving po sock = buffered (network po) @ map datagram_mail sock"

definition pipe :: "World \<Rightarrow> 32 word \<Rightarrow> int \<Rightarrow> Mail list" where
  "pipe w b x =
     (case offices w b of None \<Rightarrow> []
      | Some po \<Rightarrow> boxes po ! nat x @ filter (for_box x) (arriving po (sockets w b)))"

fun mails_sent :: "32 word \<Rightarrow> int \<Rightarrow> (event \<times> outcome) list \<Rightarrow> Mail list" where
  "mails_sent b x [] = []"
| "mails_sent b x ((Send a rnd garbage pktH mailH dat, Accepted mail) # h) =
     (if pk_to pktH = b \<and> sint (mh_to mailH) = x then [mail] else []) @ mails_sent b x h"
| "mails_sent b x (_ # h) = mails_sent b x h"

fun mails_got :: "32 word \<Rightarrow> int \<Rightarrow> (event \<times> outcome) list \<Rightarrow> Mail list" where
  "mails_got b x [] = []"
| "mails_got b x ((Receive a box, Got mail) # h) = (if a = b \<and> box = x then [mail] else []) @ mails_got b x h"
| "mails_got b x (_ # h) = mails_got b x h"

text \<open>A mail that may be in a packet for a post office of \<open>N\<close> boxes, and the invariant of the network.\<close>

definition mail_ok :: "int \<Rightarrow> Mail \<Rightarrow> bool" where
  "mail_ok N mail \<longleftrightarrow>
     unat (mh_length (mailHdr mail)) \<le> MaxMailSize \<and> 0 \<le> sint (mh_to (mailHdr mail)) \<and>
     sint (mh_to (mailHdr mail)) < N \<and> pk_length (pktHdr mail) = mh_length (mailHdr mail) + 12"

definition office_ok :: "int \<Rightarrow> 32 word \<Rightarrow> PostOffice \<Rightarrow> bool" where
  "office_ok N a po \<longleftrightarrow>
     netAddr po = a \<and> ident (network po) = a \<and> numBoxes po = N \<and> int (length (boxes po)) = N \<and>
     \<not> sendBusy (network po) \<and> messageSent po = 0 \<and>
     length (po_buffer po) = MaxPacketSize \<and> length (inbox (network po)) = MaxPacketSize \<and>
     messageAvailable po = length (buffered (network po)) \<and>
     list_all (mail_ok N) (buffered (network po)) \<and> list_all (list_all (mail_ok N)) (boxes po)"

definition datagram_ok :: "int \<Rightarrow> 32 word \<Rightarrow> 8 word list \<Rightarrow> bool" where
  "datagram_ok N a d \<longleftrightarrow>
     length d = MaxWireSize \<and> pk_to (bytes_packet_header d) = a \<and> mail_ok N (datagram_mail d)"

definition world_ok :: "int \<Rightarrow> World \<Rightarrow> bool" where
  "world_ok N w \<longleftrightarrow>
     (\<forall>a po. offices w a = Some po \<longrightarrow> office_ok N a po \<and> list_all (datagram_ok N a) (sockets w a))"

fun legal :: "int \<Rightarrow> World \<Rightarrow> event \<Rightarrow> bool" where
  "legal N w (Send a rnd garbage pktH mailH dat) \<longleftrightarrow>
     offices w a \<noteq> None \<and> unat (mh_length mailH) \<le> MaxMailSize \<and> unat (mh_length mailH) \<le> length dat \<and>
     0 \<le> sint (mh_to mailH) \<and> sint (mh_to mailH) < N \<and> length garbage \<ge> MaxWireSize"
| "legal N w (Poll a) \<longleftrightarrow> offices w a \<noteq> None"
| "legal N w (Deliver a) \<longleftrightarrow> offices w a \<noteq> None"
| "legal N w (Receive a x) \<longleftrightarrow> offices w a \<noteq> None \<and> 0 \<le> x \<and> x < N"

section \<open>Headers on the wire\<close>

lemma length_header_bytes [simp]:
  "length (packet_header_bytes p) = 12" "length (mail_header_bytes h) = 12"
  by (simp_all add: packet_header_bytes_def mail_header_bytes_def)

lemma header_roundtrip [simp]:
  "bytes_packet_header (packet_header_bytes p @ rest) = p"
  "bytes_mail_header (mail_header_bytes h @ rest) = h"
  using bytes_words_concat [of "[pk_to p, pk_from p, pk_length p]"] bytes_words_concat [of "[mh_to h, mh_from h, mh_length h]"]
  by (simp_all add: bytes_packet_header_def bytes_mail_header_def packet_header_bytes_def mail_header_bytes_def)

text \<open>A mail depends on the first \<open>n\<close> bytes of the packet only, \<open>n\<close> the length in its header.\<close>

lemma mail_header_cong:
  assumes "take 12 body = take 12 body'"
  shows "bytes_mail_header body = bytes_mail_header body'"
  using assms by (simp add: bytes_mail_header_def)

lemma packet_mail_cong:
  assumes same: "take n body = take n body'" and n: "12 + unat (mh_length (bytes_mail_header body)) \<le> n"
  shows "packet_mail hdr body = packet_mail hdr body'"
proof -
  have "take 12 body = take 12 body'" using same n by (metis add_leD1 min.absorb1 take_take)
  then have hdr: "bytes_mail_header body = bytes_mail_header body'" by (rule mail_header_cong)
  have "take k (drop 12 body) = take k (drop 12 body')" if "12 + k \<le> n" for k
    using same that by (metis drop_take min.absorb1 take_take add_diff_cancel_left')
  then show ?thesis using hdr n by (simp add: packet_mail_def Let_def)
qed

text \<open>What \<open>Network::Send\<close> puts on the wire is the posted mail.\<close>

lemma datagram_posted:
  fixes a pktH mailH dat garbage
  defines "d \<equiv> take MaxWireSize (packet_header_bytes (pktHdr (posted a pktH mailH dat)) @
      mail_header_bytes mailH @ take (unat (mh_length mailH)) dat @ garbage)"
  assumes len: "unat (mh_length mailH) \<le> MaxMailSize" "unat (mh_length mailH) \<le> length dat"
  shows "datagram_mail d = posted a pktH mailH dat" and "bytes_packet_header d = pktHdr (posted a pktH mailH dat)"
proof -
  have d: "d = packet_header_bytes (pktHdr (posted a pktH mailH dat)) @ mail_header_bytes mailH @
      take (unat (mh_length mailH)) dat @ take (40 - unat (mh_length mailH)) garbage"
    using len by (simp add: d_def min_def)
  show "bytes_packet_header d = pktHdr (posted a pktH mailH dat)" by (simp add: d)
  then show "datagram_mail d = posted a pktH mailH dat"
    using len by (simp add: datagram_mail_def packet_mail_def d posted_def)
qed

section \<open>Every event keeps the queues\<close>

definition queues_kept :: "World \<Rightarrow> event \<Rightarrow> outcome \<Rightarrow> World \<Rightarrow> bool" where
  "queues_kept w e out w' \<longleftrightarrow> dom (offices w') = dom (offices w) \<and>
     (\<forall>b x. 0 \<le> x \<longrightarrow> offices w b \<noteq> None \<longrightarrow>
        mails_got b x [(e, out)] @ pipe w' b x = pipe w b x @ mails_sent b x [(e, out)])"

lemma office_Some [simp]: "offices w a = Some po \<Longrightarrow> office w a = Inr po"
  by (simp add: office_def)

lemma world_okD:
  assumes "world_ok N w" "offices w a = Some po"
  shows "office_ok N a po" "list_all (datagram_ok N a) (sockets w a)"
  using assms by (simp_all add: world_ok_def)

lemma world_ok_office:
  assumes "world_ok N w" "office_ok N a po'" "list_all (datagram_ok N a) sock'"
  shows "world_ok N (w\<lparr>offices := (offices w)(a \<mapsto> po'), sockets := (sockets w)(a := sock')\<rparr>)"
  using assms by (simp add: world_ok_def)

lemma list_all_update: "list_all P xs \<Longrightarrow> P v \<Longrightarrow> list_all P (xs[i := v])"
  using set_update_subset_insert [of xs i v] by (auto simp: list_all_iff)

text \<open>An event inside machine \<open>a\<close> that moves mail along, but neither in nor out.\<close>

lemma kept_inside:
  assumes a: "offices w a = Some po" and quiet: "\<And>b x. mails_got b x [(e, out)] = []" "\<And>b x. mails_sent b x [(e, out)] = []"
    and same: "\<And>x. 0 \<le> x \<Longrightarrow> boxes po' ! nat x @ filter (for_box x) (arriving po' sock') =
      boxes po ! nat x @ filter (for_box x) (arriving po (sockets w a))"
  shows "queues_kept w e out (w\<lparr>offices := (offices w)(a \<mapsto> po'), sockets := (sockets w)(a := sock')\<rparr>)"
  using a same by (auto simp: queues_kept_def quiet pipe_def)

lemma sum12_bounds:
  fixes n :: "32 word"
  assumes "unat n \<le> MaxMailSize"
  shows "unat (n + 12) = unat n + 12" "n + 12 \<noteq> 0"
proof -
  have "unat n + unat (12 :: 32 word) < 2 ^ LENGTH(32)" using assms by simp
  then show sum: "unat (n + 12) = unat n + 12" by (simp only: unat_add_lem) simp
  show "n + 12 \<noteq> 0"
  proof
    assume "n + 12 = 0"
    then show False using sum by simp
  qed
qed

lemma Send_ok:
  assumes ok: "world_ok N w" and leg: "legal N w (Send a rnd garbage pktH mailH dat)"
  shows "\<exists>out w'. happen (Send a rnd garbage pktH mailH dat) w = Inr (out, w') \<and> world_ok N w' \<and>
    queues_kept w (Send a rnd garbage pktH mailH dat) out w' \<and> offices w' = offices w"
proof -
  obtain po where po: "offices w a = Some po" using leg by auto
  note off = world_okD(1) [OF ok po, unfolded office_ok_def]
  have len: "unat (mh_length mailH) \<le> 40" "unat (mh_length mailH) \<le> length dat"
    "0 \<le> sint (mh_to mailH)" "sint (mh_to mailH) < N" "64 \<le> length garbage" using leg by auto
  let ?b = "pk_to pktH" and ?m = "posted a pktH mailH dat"
  let ?d = "take MaxWireSize (packet_header_bytes (pktHdr ?m) @ mail_header_bytes mailH @ take (unat (mh_length mailH)) dat @ garbage)"
  have same: "po\<lparr>network := network po\<lparr>sendBusy := False\<rparr>, messageSent := 0\<rparr> = po"
    using off by (cases po, cases "network po") simp
  have wait: "wait_sent (PacketSent (po\<lparr>network := Network_SendDone (network po)\<rparr>)) = Inr po"
    using off same by (simp add: wait_sent_def PacketSent_def Network_SendDone_def)
  have out: "PostOffice_Send rnd bound garbage pktH mailH dat po =
      (if int (rnd mod 100) \<ge> chanceToWork (network po) then Inr (True, None)
       else if bound then Inr (True, Some ?d) else Inr (False, None))" for bound
    using off len sum12_bounds [OF len(1)]
    by (simp add: PostOffice_Send_def Network_Send_def posted_def)
  have dok: "datagram_ok N ?b ?d"
    using datagram_posted [OF len(1,2)] len
    by (simp add: datagram_ok_def mail_ok_def) (simp add: posted_def)
  have quiet: "queues_kept w (Send a rnd garbage pktH mailH dat) res w" if "res = Lost \<or> res = Refused" for res
    using that by (auto simp: queues_kept_def)
  have w0: "w\<lparr>offices := (offices w)(a \<mapsto> po)\<rparr> = w" using po by (simp add: fun_upd_idem)
  show ?thesis
  proof (cases "int (rnd mod 100) \<ge> chanceToWork (network po) \<or> offices w ?b = None")
    case True
    then have "happen (Send a rnd garbage pktH mailH dat) w =
        Inr (if int (rnd mod 100) \<ge> chanceToWork (network po) then Lost else Refused, w)"
      using po by (auto simp: out wait w0)
    then show ?thesis using quiet ok by auto
  next
    case False
    let ?w = "w\<lparr>sockets := (sockets w)(?b := sockets w ?b @ [?d])\<rparr>"
    have run: "happen (Send a rnd garbage pktH mailH dat) w = Inr (Accepted ?m, ?w)"
      using False po by (simp add: out wait) (use w0 in \<open>simp add: fun_upd_idem po\<close>)
    have "world_ok N ?w" using ok dok by (auto simp: world_ok_def)
    moreover have "queues_kept w (Send a rnd garbage pktH mailH dat) (Accepted ?m) ?w"
      using datagram_posted(1) [OF len(1,2), of a pktH garbage]
      by (auto simp: queues_kept_def pipe_def arriving_def for_box_def posted_def split: option.splits)
    ultimately show ?thesis using run by auto
  qed
qed

lemma Poll_ok:
  assumes ok: "world_ok N w" and leg: "legal N w (Poll a)"
  shows "\<exists>w'. happen (Poll a) w = Inr (Quiet, w') \<and> world_ok N w' \<and> queues_kept w (Poll a) Quiet w' \<and>
    (\<exists>po po'. offices w a = Some po \<and> offices w' a = Some po' \<and> boxes po' = boxes po \<and>
      (buffered (network po) = [] \<longrightarrow> sockets w' a = tl (sockets w a)))"
proof -
  obtain po where po: "offices w a = Some po" using leg by auto
  note off = world_okD(1) [OF ok po, unfolded office_ok_def] and sock = world_okD(2) [OF ok po]
  have idle: ?thesis if "CheckPktAvail (sockets w a) (network po) = Inr (sockets w a, False, network po)"
      "buffered (network po) = [] \<longrightarrow> sockets w a = []"
  proof -
    have "happen (Poll a) w = Inr (Quiet, w\<lparr>offices := (offices w)(a \<mapsto> po), sockets := (sockets w)(a := sockets w a)\<rparr>)"
      using that po by simp
    then show ?thesis using ok po that(2) by (auto simp: fun_upd_idem queues_kept_def)
  qed
  show ?thesis
  proof (cases "pk_length (inHdr (network po)) = 0 \<and> sockets w a \<noteq> []")
    case False
    then show ?thesis by (intro idle) (auto simp: CheckPktAvail_def buffered_def split: list.splits)
  next
    case True
    then obtain d ds where ds: "sockets w a = d # ds" and zero: "pk_length (inHdr (network po)) = 0"
      by (cases "sockets w a") auto
    let ?h = "bytes_packet_header d" and ?mh = "bytes_mail_header (drop 12 d)"
    let ?n = "unat (pk_length ?h)"
    let ?net = "network po\<lparr>inHdr := ?h, inbox := take ?n (drop 12 d) @ drop ?n (inbox (network po))\<rparr>"
    let ?po = "IncomingPacket (po\<lparr>network := ?net\<rparr>)"
    have d: "length d = 64" "pk_to ?h = a" "unat (mh_length ?mh) \<le> 40" "pk_length ?h = mh_length ?mh + 12"
      and mok: "mail_ok N (datagram_mail d)"
      using sock ds by (auto simp: datagram_ok_def mail_ok_def datagram_mail_def packet_mail_def Let_def)
    have n: "?n = 12 + unat (mh_length ?mh)" "pk_length ?h \<noteq> 0" using sum12_bounds [OF d(3)] d(4) by simp_all
    have "packet_mail ?h (drop 12 d) = packet_mail ?h (inbox ?net)"
      by (rule packet_mail_cong [of ?n]) (use n d in \<open>simp_all add: min_def\<close>)
    then have buf: "buffered ?net = [datagram_mail d]" using n by (simp add: buffered_def datagram_mail_def)
    have run: "happen (Poll a) w = Inr (Quiet, w\<lparr>offices := (offices w)(a \<mapsto> ?po), sockets := (sockets w)(a := ds)\<rparr>)"
      using po zero ds d off n by (simp add: CheckPktAvail_def Let_def)
    have "office_ok N a ?po"
      using off zero buf mok d n by (simp add: office_ok_def IncomingPacket_def buffered_def)
    then have "world_ok N (w\<lparr>offices := (offices w)(a \<mapsto> ?po), sockets := (sockets w)(a := ds)\<rparr>)"
      using world_ok_office [OF ok] sock ds by simp
    moreover have "queues_kept w (Poll a) Quiet (w\<lparr>offices := (offices w)(a \<mapsto> ?po), sockets := (sockets w)(a := ds)\<rparr>)"
      by (rule kept_inside [OF po])
        (use ds zero buf in \<open>simp_all add: arriving_def IncomingPacket_def, simp add: buffered_def\<close>)
    ultimately show ?thesis using run po ds by (auto simp: IncomingPacket_def)
  qed
qed

text \<open>The postal worker sleeps exactly while no packet is buffered; otherwise it puts the mail into its box.\<close>

lemma Deliver_ok:
  assumes ok: "world_ok N w" and po: "offices w a = Some po"
  shows "if buffered (network po) = [] then happen (Deliver a) w = Inl WouldBlock
    else \<exists>w' po'. happen (Deliver a) w = Inr (Quiet, w') \<and> world_ok N w' \<and> queues_kept w (Deliver a) Quiet w' \<and>
      offices w' a = Some po' \<and> buffered (network po') = [] \<and> sockets w' = sockets w"
proof (cases "buffered (network po) = []")
  case True
  then show ?thesis using po world_okD(1) [OF ok po] by (simp add: PostalDelivery_def office_ok_def)
next
  case False
  note off = world_okD(1) [OF ok po, unfolded office_ok_def] and sock = world_okD(2) [OF ok po]
  let ?h = "inHdr (network po)" and ?n = "unat (pk_length (inHdr (network po)))"
  let ?m = "packet_mail ?h (inbox (network po))" and ?mh = "bytes_mail_header (inbox (network po))"
  define buf where "buf = take ?n (inbox (network po)) @ drop ?n (po_buffer po)"
  have full: "buffered (network po) = [?m]" "pk_length ?h \<noteq> 0"
    using False by (auto simp: buffered_def split: if_splits)
  then have mok: "mail_ok N ?m" and avail: "messageAvailable po = 1" using off by simp_all
  have mh: "mailHdr ?m = ?mh" "pktHdr ?m = ?h" by (simp_all add: packet_mail_def Let_def)
  have leg: "unat (mh_length ?mh) \<le> 40" "0 \<le> sint (mh_to ?mh)" "sint (mh_to ?mh) < N" "pk_length ?h = mh_length ?mh + 12"
    using mok mh by (simp_all add: mail_ok_def)
  have n: "?n = 12 + unat (mh_length ?mh)" using sum12_bounds [OF leg(1)] leg(4) by simp
  have "packet_mail ?h (inbox (network po)) = packet_mail ?h buf"
    by (rule packet_mail_cong [of ?n]) (use n leg off in \<open>simp_all add: buf_def min_def\<close>)
  then have put: "Mail_new ?h (bytes_mail_header buf) (drop 12 buf) = Inr ?m" and hdr: "bytes_mail_header buf = ?mh"
    using leg by (auto simp: Mail_new_def packet_mail_def Let_def)
  let ?i = "nat (sint (mh_to ?mh))"
  let ?bs = "(boxes po)[?i := boxes po ! ?i @ [?m]]"
  let ?po = "po\<lparr>messageAvailable := 0, po_buffer := buf, network := network po\<lparr>inHdr := ?h\<lparr>pk_length := 0\<rparr>\<rparr>, boxes := ?bs\<rparr>"
  have i: "?i < length (boxes po)" using leg off by linarith
  have rcv: "Network_Receive (po_buffer po) (network po) = (?h, buf, network po\<lparr>inHdr := ?h\<lparr>pk_length := 0\<rparr>\<rparr>)"
    using full(2) by (simp add: Network_Receive_def buf_def Let_def)
  have "PostalDelivery po = Inr ?po"
    using avail leg off put
    by (simp add: PostalDelivery_def Let_def rcv hdr legal_mail_def array_get_def array_set_def MailBox_Put_def
        SynchList_Append_def)
  then have run: "happen (Deliver a) w = Inr (Quiet, w\<lparr>offices := (offices w)(a \<mapsto> ?po), sockets := (sockets w)(a := sockets w a)\<rparr>)"
    using po by (simp add: fun_upd_idem)
  have "list_all (mail_ok N) (boxes po ! ?i)" using off i by (metis list_all_length)
  then have "list_all (list_all (mail_ok N)) ?bs"
    using off mok by (intro list_all_update) simp_all
  then have "office_ok N a ?po" using off n by (simp add: office_ok_def buffered_def buf_def min_def)
  then have "world_ok N (w\<lparr>offices := (offices w)(a \<mapsto> ?po), sockets := (sockets w)(a := sockets w a)\<rparr>)"
    by (rule world_ok_office [OF ok _ sock])
  moreover have "queues_kept w (Deliver a) Quiet (w\<lparr>offices := (offices w)(a \<mapsto> ?po), sockets := (sockets w)(a := sockets w a)\<rparr>)"
    by (rule kept_inside [OF po])
      (use full i mh leg in \<open>auto simp: arriving_def buffered_def for_box_def nth_list_update\<close>)
  ultimately show ?thesis using run False by (auto simp: buffered_def)
qed

lemma Receive_ok:
  assumes ok: "world_ok N w" and po: "offices w a = Some po" and x: "0 \<le> x" "x < N"
  shows "if boxes po ! nat x = [] then happen (Receive a x) w = Inl WouldBlock
    else \<exists>w'. happen (Receive a x) w = Inr (Got (hd (boxes po ! nat x)), w') \<and> world_ok N w' \<and>
      queues_kept w (Receive a x) (Got (hd (boxes po ! nat x))) w'"
proof (cases "boxes po ! nat x")
  case Nil
  then show ?thesis
    using po x world_okD(1) [OF ok po]
    by (simp add: PostOffice_Receive_def office_ok_def array_get_def MailBox_Get_def SynchList_Remove_def)
next
  case (Cons m ms)
  note off = world_okD(1) [OF ok po, unfolded office_ok_def] and sock = world_okD(2) [OF ok po]
  let ?po = "po\<lparr>boxes := (boxes po)[nat x := ms]\<rparr>"
  have i: "nat x < length (boxes po)" using x off by linarith
  then have box: "list_all (mail_ok N) (m # ms)" using off Cons by (metis list_all_length)
  have run: "happen (Receive a x) w = Inr (Got m, w\<lparr>offices := (offices w)(a \<mapsto> ?po)\<rparr>)"
    using po x off Cons box
    by (simp add: PostOffice_Receive_def array_get_def array_set_def MailBox_Get_def SynchList_Remove_def mail_ok_def)
  have "list_all (list_all (mail_ok N)) ((boxes po)[nat x := ms])"
    using off box by (intro list_all_update) simp_all
  then have "world_ok N (w\<lparr>offices := (offices w)(a \<mapsto> ?po)\<rparr>)"
    using ok off sock by (auto simp: world_ok_def office_ok_def)
  moreover have "queues_kept w (Receive a x) (Got m) (w\<lparr>offices := (offices w)(a \<mapsto> ?po)\<rparr>)"
    using po Cons i x by (auto simp: queues_kept_def pipe_def arriving_def nth_list_update)
  ultimately show ?thesis using run Cons by auto
qed

text \<open>Together: a legal event happens and keeps the queues, or its thread sleeps.\<close>

lemma happen_ok:
  assumes ok: "world_ok N w" and leg: "legal N w e"
  obtains out w' where "happen e w = Inr (out, w')" "world_ok N w'" "queues_kept w e out w'"
  | "happen e w = Inl WouldBlock"
proof (cases e)
  case (Send a rnd garbage pktH mailH dat)
  show ?thesis using Send_ok [OF ok leg [unfolded Send]] that unfolding Send by blast
next
  case (Poll a)
  show ?thesis using Poll_ok [OF ok leg [unfolded Poll]] that unfolding Poll by blast
next
  case (Deliver a)
  then obtain po where "offices w a = Some po" using leg by auto
  from Deliver_ok [OF ok this] that show ?thesis unfolding Deliver by (metis (full_types))
next
  case (Receive a x)
  then obtain po where "offices w a = Some po" "0 \<le> x" "x < N" using leg by auto
  from Receive_ok [OF ok this] that show ?thesis unfolding Receive by (metis (full_types))
qed

lemma legal_cong: "dom (offices w') = dom (offices w) \<Longrightarrow> legal N w' e = legal N w e"
  by (cases e) (auto simp: dom_def set_eq_iff)

lemma mails_Cons:
  "mails_sent b x ((e, out) # h) = mails_sent b x [(e, out)] @ mails_sent b x h"
  "mails_got b x ((e, out) # h) = mails_got b x [(e, out)] @ mails_got b x h"
  by (cases e; cases out; simp)+

lemma blocked_nothing [simp]: "mails_sent b x [(e, Blocked)] = []" "mails_got b x [(e, Blocked)] = []"
  by (cases e; simp)+

lemma history_ok:
  assumes "world_ok N w" and "\<forall>e\<in>set es. legal N w e"
  shows "\<exists>h w'. history es w = Inr (h, w') \<and> world_ok N w' \<and> dom (offices w') = dom (offices w) \<and> map fst h = es \<and>
    (\<forall>b x. 0 \<le> x \<longrightarrow> offices w b \<noteq> None \<longrightarrow> mails_got b x h @ pipe w' b x = pipe w b x @ mails_sent b x h)"
  using assms
proof (induction es arbitrary: w)
  case Nil
  then show ?case by simp
next
  case (Cons e es)
  from Cons.prems have "legal N w e" by simp
  from Cons.prems(1) this show ?case
  proof (cases rule: happen_ok)
    case (1 out w1)
    then have kept: "dom (offices w1) = dom (offices w)"
      and step: "\<And>b x. 0 \<le> x \<Longrightarrow> offices w b \<noteq> None \<Longrightarrow>
        mails_got b x [(e, out)] @ pipe w1 b x = pipe w b x @ mails_sent b x [(e, out)]"
      by (auto simp: queues_kept_def)
    have "\<forall>e\<in>set es. legal N w1 e" using Cons.prems legal_cong [OF kept] by simp
    from Cons.IH [OF 1(2) this] obtain h w' where h: "history es w1 = Inr (h, w')" "world_ok N w'" "dom (offices w') = dom (offices w)"
        "map fst h = es"
      and rest: "\<And>b x. 0 \<le> x \<Longrightarrow> offices w1 b \<noteq> None \<Longrightarrow> mails_got b x h @ pipe w' b x = pipe w1 b x @ mails_sent b x h"
      using kept by auto
    have "mails_got b x ((e, out) # h) @ pipe w' b x = pipe w b x @ mails_sent b x ((e, out) # h)"
      if "0 \<le> x" "offices w b \<noteq> None" for b x
    proof -
      have "offices w1 b \<noteq> None" using that kept by (metis domIff)
      have "mails_got b x ((e, out) # h) @ pipe w' b x = mails_got b x [(e, out)] @ pipe w1 b x @ mails_sent b x h"
        using rest [OF that(1) \<open>offices w1 b \<noteq> None\<close>] mails_Cons(2) [of b x e out h] by simp
      also have "\<dots> = (pipe w b x @ mails_sent b x [(e, out)]) @ mails_sent b x h"
        using step [OF that] by (simp only: append_assoc [symmetric])
      finally show ?thesis using mails_Cons(1) [of b x e out h] by simp
    qed
    then show ?thesis using 1 h by auto
  next
    case 2
    from Cons.IH [OF Cons.prems(1)] Cons.prems(2) obtain h w' where
        h: "history es w = Inr (h, w')" "world_ok N w'" "dom (offices w') = dom (offices w)" "map fst h = es"
      and rest: "\<forall>b x. 0 \<le> x \<longrightarrow> offices w b \<noteq> None \<longrightarrow> mails_got b x h @ pipe w' b x = pipe w b x @ mails_sent b x h"
      by auto
    have "mails_sent b x ((e, Blocked) # h) = mails_sent b x h" "mails_got b x ((e, Blocked) # h) = mails_got b x h" for b x
      by (simp_all add: mails_Cons [of b x e Blocked h])
    then show ?thesis using h rest 2 by simp
  qed
qed

text \<open>
  Draining a socket: \<open>n\<close> rounds of delivery and polling, and a last delivery.
\<close>

definition drain :: "32 word \<Rightarrow> nat \<Rightarrow> event list" where
  "drain b n = concat (replicate n [Deliver b, Poll b]) @ [Deliver b]"

lemma drain_simps: "drain b 0 = [Deliver b]" "drain b (Suc n) = Deliver b # Poll b # drain b n"
  by (simp_all add: drain_def)

lemma drain_clears:
  assumes "world_ok N w" and "offices w b = Some po" and "length (sockets w b) \<le> n"
  shows "\<exists>h w' po'. history (drain b n) w = Inr (h, w') \<and> offices w' b = Some po' \<and> arriving po' (sockets w' b) = [] \<and>
    (\<forall>c x. mails_sent c x h = [] \<and> mails_got c x h = [])"
  using assms
proof (induction n arbitrary: w po)
  case (0 w po)
  show ?case
    using Deliver_ok [OF "0.prems"(1,2)] "0.prems"(2,3)
    by (cases "buffered (network po) = []") (auto simp: drain_simps arriving_def)
next
  case (Suc n w po)
  text \<open>After the delivery, or with nothing to deliver, the interface is free.\<close>
  obtain w1 po1 out where w1: "world_ok N w1" "offices w1 b = Some po1" "buffered (network po1) = []" "sockets w1 = sockets w"
    and first: "happen (Deliver b) w = Inr (Quiet, w1) \<and> out = Quiet \<or> happen (Deliver b) w = Inl WouldBlock \<and> w1 = w \<and> out = Blocked"
    using Deliver_ok [OF Suc.prems(1,2)] Suc.prems by (cases "buffered (network po) = []") auto
  from Poll_ok [OF w1(1), of b] w1 obtain w2 po2 where w2: "happen (Poll b) w1 = Inr (Quiet, w2)" "world_ok N w2"
      "offices w2 b = Some po2" "sockets w2 b = tl (sockets w1 b)"
    by auto
  have "length (sockets w2 b) \<le> n" using w2(4) w1(4) Suc.prems(3) by simp
  from Suc.IH [OF w2(2,3) this] obtain h w' po' where h: "history (drain b n) w2 = Inr (h, w')" "offices w' b = Some po'"
      "arriving po' (sockets w' b) = []" "\<forall>c x. mails_sent c x h = [] \<and> mails_got c x h = []"
    by blast
  have "history (drain b (Suc n)) w = Inr ((Deliver b, out) # (Poll b, Quiet) # h, w')"
    using first w2(1) h(1) by (auto simp: drain_simps)
  then show ?case using h by auto
qed

section \<open>Properties of the network\<close>

text \<open>
  C12. Mail is neither forged, altered, duplicated nor reordered. Let machines with post offices of \<open>N\<close>
  boxes exchange mail through any sequence of legal sends, polls, deliveries and receptions. No
  assertion of the interface or of the post office fails, no access leaves an array, and for every box
  of every machine the mails received so far followed by the mails still under way are exactly the
  mails that were on their way at the beginning followed by those accepted for that box, in order and with
  their headers and bytes intact.
\<close>

theorem mail_delivered_in_order:
  assumes "world_ok N w" and "\<forall>e\<in>set es. legal N w e"
  shows "\<exists>h w'. history es w = Inr (h, w') \<and> map fst h = es \<and> world_ok N w' \<and>
    (\<forall>b x. 0 \<le> x \<longrightarrow> offices w b \<noteq> None \<longrightarrow> mails_got b x h @ pipe w' b x = pipe w b x @ mails_sent b x h)"
  using history_ok [OF assms] by blast

text \<open>
  C13. No mail waits for ever below the boxes: when the interface of a machine is polled and its postal worker
  scheduled in turn, at least as often as datagrams wait at the socket, every mail under way to the machine
  ends in its box, behind the mails that were there.
\<close>

theorem waiting_mail_reaches_box:
  assumes "world_ok N w" and "offices w b = Some po" and "length (sockets w b) \<le> n"
  shows "\<exists>h w' po'. history (drain b n) w = Inr (h, w') \<and> offices w' b = Some po' \<and>
    (\<forall>x. 0 \<le> x \<longrightarrow> boxes po' ! nat x = boxes po ! nat x @ filter (for_box x) (arriving po (sockets w b)))"
proof -
  from drain_clears [OF assms] obtain h w' po' where h: "history (drain b n) w = Inr (h, w')" "offices w' b = Some po'"
      "arriving po' (sockets w' b) = []" "\<forall>c x. mails_sent c x h = [] \<and> mails_got c x h = []" by blast
  have "\<forall>e\<in>set (drain b n). legal N w e" using assms(2) by (auto simp: drain_def)
  from history_ok [OF assms(1) this] h have "\<forall>x. 0 \<le> x \<longrightarrow> pipe w' b x = pipe w b x" using assms(2) by auto
  then show ?thesis using h assms(2) by (simp add: pipe_def)
qed

text \<open>Two machines with ten boxes each and a reliable network; machine 0 sends three bytes to box 2 of machine 1.\<close>

definition quiet_office :: "32 word \<Rightarrow> PostOffice" where
  "quiet_office a = PostOffice_new a 100 10 \<lparr>pk_to = 7, pk_from = 7, pk_length = 7\<rparr> (replicate 52 255) (replicate 52 255)"

definition two_machines :: World where
  "two_machines = \<lparr>offices = [0 \<mapsto> quiet_office 0, 1 \<mapsto> quiet_office 1], sockets = (\<lambda>_. [])\<rparr>"

definition one_mail :: event where
  "one_mail = Send 0 5 (replicate 64 170) \<lparr>pk_to = 1, pk_from = 0, pk_length = 0\<rparr> \<lparr>mh_to = 2, mh_from = 4, mh_length = 3\<rparr> [65, 66, 67]"

lemma quiet_office_ok: "office_ok 10 a (quiet_office a)"
  by (simp add: quiet_office_def PostOffice_new_def Network_new_def office_ok_def buffered_def list_all_length)

lemma two_machines_ok: "world_ok 10 two_machines"
  by (simp add: two_machines_def world_ok_def quiet_office_ok)

lemma two_machines_legal: "\<forall>e\<in>set [one_mail, Poll 1, Deliver 1, Receive 1 2]. legal 10 two_machines e"
  by (simp add: two_machines_def one_mail_def)

theorem mail_delivered_in_order_witness:
  "(let run = projr (history [one_mail, Poll 1, Deliver 1, Receive 1 2] two_machines) in
    mails_got 1 2 (fst run) @ pipe (snd run) 1 2 = pipe two_machines 1 2 @ mails_sent 1 2 (fst run) \<and>
    mails_got 1 2 (fst run) =
      [\<lparr>pktHdr = \<lparr>pk_to = 1, pk_from = 0, pk_length = 15\<rparr>, mailHdr = \<lparr>mh_to = 2, mh_from = 4, mh_length = 3\<rparr>,
        mail_data = [65, 66, 67]\<rparr>])"
proof -
  have "offices two_machines 1 \<noteq> None" by (simp add: two_machines_def)
  then have "mails_got 1 2 (fst (projr (history [one_mail, Poll 1, Deliver 1, Receive 1 2] two_machines))) @
      pipe (snd (projr (history [one_mail, Poll 1, Deliver 1, Receive 1 2] two_machines))) 1 2 =
    pipe two_machines 1 2 @ mails_sent 1 2 (fst (projr (history [one_mail, Poll 1, Deliver 1, Receive 1 2] two_machines)))"
    using mail_delivered_in_order [OF two_machines_ok two_machines_legal]
    by (elim exE conjE, drule_tac x = 1 in spec, drule_tac x = 2 in spec)
      (simp only: sum.sel fst_conv snd_conv zero_le_numeral simp_thms)
  moreover have "mails_got 1 2 (fst (projr (history [one_mail, Poll 1, Deliver 1, Receive 1 2] two_machines))) =
      [\<lparr>pktHdr = \<lparr>pk_to = 1, pk_from = 0, pk_length = 15\<rparr>, mailHdr = \<lparr>mh_to = 2, mh_from = 4, mh_length = 3\<rparr>,
        mail_data = [65, 66, 67]\<rparr>]"
    by code_simp
  ultimately show ?thesis unfolding Let_def by (rule conjI)
qed

definition mail_underway :: World where
  "mail_underway = snd (projr (history [one_mail] two_machines))"

lemma mail_underway_ok: "world_ok 10 mail_underway"
proof -
  have "\<forall>e\<in>set [one_mail]. legal 10 two_machines e" using two_machines_legal by simp
  from history_ok [OF two_machines_ok this] show ?thesis by (auto simp: mail_underway_def)
qed

theorem waiting_mail_reaches_box_witness:
  "length (sockets mail_underway 1) = 1 \<and>
   (\<exists>h w' po'. history (drain 1 1) mail_underway = Inr (h, w') \<and> offices w' 1 = Some po' \<and>
     boxes po' ! 2 =
       [\<lparr>pktHdr = \<lparr>pk_to = 1, pk_from = 0, pk_length = 15\<rparr>, mailHdr = \<lparr>mh_to = 2, mh_from = 4, mh_length = 3\<rparr>,
         mail_data = [65, 66, 67]\<rparr>])"
proof -
  have po: "offices mail_underway 1 = Some (quiet_office 1)" by code_simp
  have len: "length (sockets mail_underway 1) = 1" by code_simp
  have mail: "boxes (quiet_office 1) ! nat 2 @ filter (for_box 2) (arriving (quiet_office 1) (sockets mail_underway 1)) =
      [\<lparr>pktHdr = \<lparr>pk_to = 1, pk_from = 0, pk_length = 15\<rparr>, mailHdr = \<lparr>mh_to = 2, mh_from = 4, mh_length = 3\<rparr>,
        mail_data = [65, 66, 67]\<rparr>]"
    by code_simp
  from waiting_mail_reaches_box [OF mail_underway_ok po, of 1] len obtain h w' po' where
    "history (drain 1 1) mail_underway = Inr (h, w')" "offices w' 1 = Some po'"
    and box: "\<forall>x. 0 \<le> x \<longrightarrow> boxes po' ! nat x =
      boxes (quiet_office 1) ! nat x @ filter (for_box x) (arriving (quiet_office 1) (sockets mail_underway 1))"
    by auto
  moreover have "boxes po' ! 2 = boxes po' ! nat 2" by simp
  ultimately show ?thesis using len box [rule_format, of 2] mail by (intro conjI exI) simp_all
qed

end
