(* ===== verification/Nachos_Sender.thy ===== *)
theory Nachos_Sender
  imports Nachos_Prelude "HOL-Library.Multiset"
begin

text \<open>
  Reliable messages between machines: \<^verbatim>\<open>network/sender.cc\<close>. Every machine sends three numbered messages to
  the others, keeps what is not acknowledged and sends it again when a timer expires; a receiver accepts the
  messages of a machine in the order of their numbers and acknowledges those it has.

  Below this protocol lies the post office, of which the model keeps what \<open>Nachos_Network\<close> shows: what is received
  was sent. Packets may be lost, delayed and, because of the repetitions, duplicated, so
  that a packet that was ever sent may arrive at any time and any number of times. The text of a
  message is the string without its terminator. The thread that repeats messages and the thread that
  sends and receives share the global headers; they change places where the code blocks, that is inside
  \<open>PostOffice::Send\<close> and at \<open>listLock\<close>.
\<close>

section \<open>Texts\<close>

fun decimal :: "nat \<Rightarrow> string" where
  "decimal n = (if n < 10 then [char_of (48 + n)] else decimal (n div 10) @ [char_of (48 + n mod 10)])"

declare decimal.simps [simp del]

definition is_digit :: "char \<Rightarrow> bool" where
  "is_digit c \<longleftrightarrow> 48 \<le> (of_char c :: nat) \<and> (of_char c :: nat) \<le> 57"

definition is_space :: "char \<Rightarrow> bool" where
  "is_space c \<longleftrightarrow> (of_char c :: nat) = 32 \<or> 9 \<le> (of_char c :: nat) \<and> (of_char c :: nat) \<le> 13"

definition digits_value :: "string \<Rightarrow> int" where
  "digits_value s = foldl (\<lambda>v c. 10 * v + (of_char c - 48)) 0 (takeWhile is_digit s)"

text \<open>\<open>atoi\<close>: white space, a sign, digits; a string without digits counts as 0. For a number that is no \<open>int\<close> the C standard leaves the
  result open; this is the one of \<open>strtol\<close> on a host with 32-bit integers, the nearest \<open>int\<close>.\<close>

definition atoi :: "string \<Rightarrow> int" where
  "atoi s =
     (let t = dropWhile is_space s;
          v = (if t \<noteq> [] \<and> hd t = CHR ''-'' then - digits_value (tl t)
               else if t \<noteq> [] \<and> hd t = CHR ''+'' then digits_value (tl t)
               else digits_value t)
      in max (- (2 ^ 31)) (min (2 ^ 31 - 1) v))"

text \<open>\<open>strtok(s, ",")\<close> and \<open>strtok(NULL, ",")\<close>: the token and what remains, or nothing.\<close>

definition strtok :: "string \<Rightarrow> (string \<times> string) option" where
  "strtok s =
     (let t = dropWhile (\<lambda>c. c = CHR '','') s in
      if t = [] then None else Some (takeWhile (\<lambda>c. c \<noteq> CHR '','') t, drop 1 (dropWhile (\<lambda>c. c \<noteq> CHR '','') t)))"

definition tagged :: "string \<Rightarrow> nat \<Rightarrow> string" where
  "tagged tag n = tag @ '','' @ decimal n"

section \<open>State\<close>

abbreviation TOTALNUM :: int where "TOTALNUM \<equiv> 5"

record SendEntry =
  se_seqNum :: nat
  se_msg :: string
  se_machineID :: int
  se_mailboxNum :: int

record ReceiveEntry =
  re_seqNum :: int
  re_machineID :: int
  re_mailboxNum :: int

record Packet =
  p_from :: int
  p_to :: int
  p_mailFrom :: int
  p_mailTo :: int
  p_text :: string

text \<open>
  Where the sending thread of a machine is: about to send message \<open>i\<close> to machine \<open>m\<close>, blocked after it
  with the new entry not yet on the list, or in the receiving loop.
\<close>

datatype phase = Posting int nat | Appending int nat SendEntry | Receiving

record Peer =
  netname :: int
  phase :: phase
  sentMessagesQueue :: "SendEntry list"
  sizeofList :: int
  receivedMsgQueue :: "ReceiveEntry list"
  multiReceivedMsgQueue :: "ReceiveEntry list list"
  outPktHdrEC_to :: int
  outMailHdrEC_to :: int

section \<open>The sending loop\<close>

text \<open>The first machine from \<open>m\<close> on to send to.\<close>

definition destination :: "int \<Rightarrow> int \<Rightarrow> int option" where
  "destination self m = find (\<lambda>k. k \<noteq> self) [m..TOTALNUM - 1]"

definition begin_machine :: "int \<Rightarrow> Peer \<Rightarrow> Peer" where
  "begin_machine m p =
     (case destination (netname p) m of
        None \<Rightarrow> p\<lparr>phase := Receiving\<rparr>
      | Some k \<Rightarrow> p\<lparr>phase := Posting k 0, outPktHdrEC_to := k\<rparr>)"

definition MultiSender_start :: "int \<Rightarrow> Peer" where
  "MultiSender_start self =
     begin_machine 0 \<lparr>netname = self, phase = Receiving, sentMessagesQueue = [], sizeofList = 0,
       receivedMsgQueue = [], multiReceivedMsgQueue = replicate 5 [], outPktHdrEC_to = 0, outMailHdrEC_to = 0\<rparr>"

definition packet :: "Peer \<Rightarrow> string \<Rightarrow> Packet" where
  "packet p txt = \<lparr>p_from = netname p, p_to = outPktHdrEC_to p, p_mailFrom = 0, p_mailTo = outMailHdrEC_to p, p_text = txt\<rparr>"

text \<open>The body of the inner loop up to the return of \<open>Send\<close>, and the rest of it.\<close>

definition do_post :: "Peer \<Rightarrow> (Peer \<times> Packet list) option" where
  "do_post p =
     (case phase p of
        Posting m i \<Rightarrow>
          let sentMsg = tagged ''msg'' i;
              newEntry = \<lparr>se_seqNum = i, se_msg = sentMsg, se_machineID = outPktHdrEC_to p, se_mailboxNum = outMailHdrEC_to p\<rparr>
          in Some (p\<lparr>phase := Appending m i newEntry\<rparr>, [packet p sentMsg])
      | _ \<Rightarrow> None)"

definition do_append :: "Peer \<Rightarrow> (Peer \<times> Packet list) option" where
  "do_append p =
     (case phase p of
        Appending m i newEntry \<Rightarrow>
          let q = p\<lparr>sentMessagesQueue := sentMessagesQueue p @ [newEntry], sizeofList := sizeofList p + 1\<rparr>
          in Some (if i + 1 < 3 then q\<lparr>phase := Posting m (i + 1)\<rparr> else begin_machine (m + 1) q, [])
      | _ \<Rightarrow> None)"

section \<open>Repetition\<close>

text \<open>One turn of the loop of \<open>Resend\<close>, and the loop over the list; the list is locked meanwhile.\<close>

definition resend_one :: "SendEntry \<Rightarrow> Peer \<times> Packet list \<Rightarrow> Peer \<times> Packet list" where
  "resend_one e = (\<lambda>(p, out).
     let p' = p\<lparr>outPktHdrEC_to := se_machineID e, outMailHdrEC_to := se_mailboxNum e\<rparr>
     in (p', out @ [packet p' (se_msg e)]))"

definition Resend :: "Peer \<Rightarrow> Peer \<times> Packet list" where
  "Resend p = fold resend_one (sentMessagesQueue p) (p, [])"

definition do_resend :: "Peer \<Rightarrow> (Peer \<times> Packet list) option" where
  "do_resend p = (case phase p of Posting m i \<Rightarrow> None | _ \<Rightarrow> Some (Resend p))"

section \<open>The receiving loop\<close>

text \<open>
  The search for the acknowledged entry: the head of the list is removed, or moved to the end and the next one
  looked at.
\<close>

fun ack_loop :: "nat \<Rightarrow> (SendEntry \<Rightarrow> bool) \<Rightarrow> SendEntry list \<Rightarrow> int \<Rightarrow> (SendEntry list \<times> int) res" where
  "ack_loop 0 match q sz = Inr (q, sz)"
| "ack_loop (Suc n) match [] sz = Inl NullDereference"
| "ack_loop (Suc n) match (e # es) sz = (if match e then Inr (es, sz - 1) else ack_loop n match (es @ [e]) sz)"

text \<open>What a message does to the list of received messages, and whether it is acknowledged.\<close>

definition take_msg :: "int \<Rightarrow> int \<Rightarrow> int \<Rightarrow> ReceiveEntry list \<Rightarrow> ReceiveEntry list \<times> bool" where
  "take_msg seq mid box q =
     (let re = \<lparr>re_seqNum = seq, re_machineID = mid, re_mailboxNum = box\<rparr> in
      if q \<noteq> [] then
        if re_seqNum (last q) + 1 = seq then (q @ [re], True)
        else (q, \<exists>e\<in>set q. re_seqNum e = seq)
      else if seq = 0 then ([re], True) else ([], False))"

definition do_mail :: "Packet \<Rightarrow> Peer \<Rightarrow> (Peer \<times> Packet list) res" where
  "do_mail pkt p =
     (let p1 = p\<lparr>outPktHdrEC_to := p_from pkt, outMailHdrEC_to := p_mailFrom pkt\<rparr> in
      case strtok (p_text pkt) of
        None \<Rightarrow> Inl NullDereference
      | Some (msgType, rest) \<Rightarrow>
          (case map_option fst (strtok rest) of
             None \<Rightarrow> if msgType = ''ack'' \<or> msgType = ''msg'' then Inl NullDereference else Inr (p1, [])
           | Some seqNumChar \<Rightarrow>
               if msgType = ''ack'' then
                 bindE (ack_loop (nat (sizeofList p1))
                          (\<lambda>e. int (se_seqNum e) = atoi seqNumChar \<and> se_machineID e = p_from pkt)
                          (sentMessagesQueue p1) (sizeofList p1)) (\<lambda>(q, sz).
                   Inr (p1\<lparr>sentMessagesQueue := q, sizeofList := sz\<rparr>, []))
               else if msgType = ''msg'' then
                 bindE (array_get (multiReceivedMsgQueue p1) (p_from pkt)) (\<lambda>q.
                   let (q', ack) = take_msg (atoi seqNumChar) (p_from pkt) (p_mailFrom pkt) q in
                   bindE (array_set (multiReceivedMsgQueue p1) (p_from pkt) q') (\<lambda>qs.
                     let p2 = p1\<lparr>multiReceivedMsgQueue := qs\<rparr> in
                     Inr (p2, if ack then [packet p2 (tagged ''ack'' (nat (atoi seqNumChar)))] else [])))
               else Inr (p1, [])))"

section \<open>One destination\<close>

text \<open>
  \<open>Sender\<close> sends to one machine only. It keeps one list of received messages for all machines and compares only the
  numbers of acknowledgements.
\<close>

definition Sender_start :: "string \<Rightarrow> int \<Rightarrow> Peer" where
  "Sender_start destMachineID self =
     \<lparr>netname = self, phase = Posting (atoi destMachineID) 0, sentMessagesQueue = [], sizeofList = 0, receivedMsgQueue = [],
       multiReceivedMsgQueue = [], outPktHdrEC_to = atoi destMachineID, outMailHdrEC_to = 0\<rparr>"

definition Sender_append :: "Peer \<Rightarrow> (Peer \<times> Packet list) option" where
  "Sender_append p =
     (case phase p of
        Appending m i newEntry \<Rightarrow>
          Some (p\<lparr>sentMessagesQueue := sentMessagesQueue p @ [newEntry], sizeofList := sizeofList p + 1,
                 phase := (if i + 1 < 3 then Posting m (i + 1) else Receiving)\<rparr>, [])
      | _ \<Rightarrow> None)"

definition Sender_mail :: "Packet \<Rightarrow> Peer \<Rightarrow> (Peer \<times> Packet list) res" where
  "Sender_mail pkt p =
     (let p1 = p\<lparr>outPktHdrEC_to := p_from pkt, outMailHdrEC_to := p_mailFrom pkt\<rparr> in
      case strtok (p_text pkt) of
        None \<Rightarrow> Inl NullDereference
      | Some (msgType, rest) \<Rightarrow>
          (case map_option fst (strtok rest) of
             None \<Rightarrow> if msgType = ''ack'' \<or> msgType = ''msg'' then Inl NullDereference else Inr (p1, [])
           | Some seqNumChar \<Rightarrow>
               if msgType = ''ack'' then
                 bindE (ack_loop (nat (sizeofList p1)) (\<lambda>e. int (se_seqNum e) = atoi seqNumChar)
                          (sentMessagesQueue p1) (sizeofList p1)) (\<lambda>(q, sz).
                   Inr (p1\<lparr>sentMessagesQueue := q, sizeofList := sz\<rparr>, []))
               else if msgType = ''msg'' then
                 let (q', ack) = take_msg (atoi seqNumChar) (p_from pkt) (p_mailFrom pkt) (receivedMsgQueue p1);
                     p2 = p1\<lparr>receivedMsgQueue := q'\<rparr>
                 in Inr (p2, if ack then [packet p2 (tagged ''ack'' (nat (atoi seqNumChar)))] else [])
               else Inr (p1, [])))"

text \<open>The handler of the timer: whether a thread is forked that runs \<open>Resend\<close>, and the new time of the last one.\<close>

definition TimerFucntion :: "int \<Rightarrow> int \<Rightarrow> int \<Rightarrow> bool \<times> int" where
  "TimerFucntion currentTime interval lastExecutionTime =
     (if currentTime - lastExecutionTime > interval then (True, currentTime) else (False, lastExecutionTime))"

section \<open>Five machines\<close>

text \<open>
  \<open>wire\<close> has every packet that was sent, and any of them may be delivered at any time, never or more than once. This
  is more than the network does, and what is shown of every run holds for the runs of the network; where a
  run is claimed to exist, the packets on their way are taken away first.
\<close>

record Cluster =
  peers :: "int \<Rightarrow> Peer"
  wire :: "Packet list"

definition start :: Cluster where
  "start = \<lparr>peers = MultiSender_start, wire = []\<rparr>"

definition update_peer :: "int \<Rightarrow> Peer \<times> Packet list \<Rightarrow> Cluster \<Rightarrow> Cluster" where
  "update_peer a r w = w\<lparr>peers := (peers w)(a := fst r), wire := wire w @ snd r\<rparr>"

inductive step :: "Cluster \<Rightarrow> Cluster \<Rightarrow> bool" where
  post: "a \<in> {0..<TOTALNUM} \<Longrightarrow> do_post (peers w a) = Some r \<Longrightarrow> step w (update_peer a r w)"
| append: "a \<in> {0..<TOTALNUM} \<Longrightarrow> do_append (peers w a) = Some r \<Longrightarrow> step w (update_peer a r w)"
| resend: "a \<in> {0..<TOTALNUM} \<Longrightarrow> do_resend (peers w a) = Some r \<Longrightarrow> step w (update_peer a r w)"
| mail: "a \<in> {0..<TOTALNUM} \<Longrightarrow> phase (peers w a) = Receiving \<Longrightarrow> pkt \<in> set (wire w) \<Longrightarrow> p_to pkt = a \<Longrightarrow>
    do_mail pkt (peers w a) = Inr r \<Longrightarrow> step w (update_peer a r w)"

inductive reachable :: "Cluster \<Rightarrow> bool" where
  init: "reachable start"
| more: "reachable w \<Longrightarrow> step w w' \<Longrightarrow> reachable w'"

section \<open>Texts can be read back\<close>

lemma of_char_digit [simp]: "d < 10 \<Longrightarrow> (of_char (char_of (48 + d :: nat)) :: nat) = 48 + d"
  by (simp add: of_char_of)

lemma of_char_digit_int [simp]: "d < 10 \<Longrightarrow> (of_char (char_of (48 + d :: nat)) :: int) = 48 + int d"
  using of_nat_of_char [where 'a = int, of "char_of (48 + d)"] by (simp del: of_nat_of_char)

lemma is_digit_digit [simp]: "d < 10 \<Longrightarrow> is_digit (char_of (48 + d :: nat))"
  by (simp add: is_digit_def)

lemma decimal_digits: "c \<in> set (decimal n) \<Longrightarrow> is_digit c"
proof (induction n rule: decimal.induct)
  case (1 n)
  then show ?case
    by (cases "n < 10") (auto simp: decimal.simps [of n])
qed

lemma decimal_not_Nil [simp]: "decimal n \<noteq> []"
  by (cases "n < 10") (simp_all add: decimal.simps [of n])

lemma takeWhile_decimal [simp]: "takeWhile is_digit (decimal n) = decimal n"
  using decimal_digits by (simp add: takeWhile_eq_all_conv)

lemma decimal_no_comma [simp]: "CHR '','' \<notin> set (decimal n)"
  using decimal_digits [of "CHR '',''"] by (auto simp: is_digit_def)

lemma decimal_value: "foldl (\<lambda>v c. 10 * v + (of_char c - 48)) (0 :: int) (decimal n) = int n"
proof (induction n rule: decimal.induct)
  case (1 n)
  then show ?case
  proof (cases "n < 10")
    case True
    then show ?thesis by (simp add: decimal.simps [of n])
  next
    case False
    have "decimal n = decimal (n div 10) @ [char_of (48 + n mod 10)]"
      using False by (subst decimal.simps) simp
    moreover have "(of_char (char_of (48 + n mod 10)) :: int) = 48 + int (n mod 10)"
      by (rule of_char_digit_int) simp
    moreover have "10 * int (n div 10) + int (n mod 10) = int n"
      by presburger
    ultimately show ?thesis
      using 1 [OF False] by (simp only: foldl_append foldl_Cons foldl_Nil)
  qed
qed

lemma digits_value_decimal [simp]: "digits_value (decimal n) = int n"
  by (simp add: digits_value_def decimal_value)

lemma decimal_inject [simp]: "decimal m = decimal n \<longleftrightarrow> m = n"
  by (metis digits_value_decimal of_nat_eq_iff)

lemma decimal_front:
  "dropWhile is_space (decimal n) = decimal n" "hd (decimal n) \<noteq> CHR ''-''" "hd (decimal n) \<noteq> CHR ''+''"
proof -
  have d: "is_digit (hd (decimal n))"
    by (intro decimal_digits [of _ n]) simp
  then show "hd (decimal n) \<noteq> CHR ''-''" "hd (decimal n) \<noteq> CHR ''+''"
    by (auto simp: is_digit_def)
  from d have "\<not> is_space (hd (decimal n))"
    by (auto simp: is_digit_def is_space_def)
  then show "dropWhile is_space (decimal n) = decimal n"
    by (cases "decimal n") auto
qed

lemma atoi_decimal [simp]: "n < 2 ^ 31 \<Longrightarrow> atoi (decimal n) = int n"
  by (simp add: atoi_def decimal_front)

lemma atoi_negative: "n \<le> 2 ^ 31 \<Longrightarrow> atoi (CHR ''-'' # decimal n) = - int n"
  by (simp add: atoi_def is_space_def)

lemma strtok_whole [simp]:
  assumes "CHR '','' \<notin> set s" and "s \<noteq> []"
  shows "strtok s = Some (s, [])"
proof -
  have "dropWhile (\<lambda>c. c = CHR '','') s = s"
    using assms by (cases s) auto
  moreover have "takeWhile (\<lambda>c. c \<noteq> CHR '','') s = s" "dropWhile (\<lambda>c. c \<noteq> CHR '','') s = []"
    using assms(1) by (auto simp: dropWhile_eq_Nil_conv takeWhile_eq_all_conv)
  ultimately show ?thesis
    using assms(2) by (simp add: strtok_def del: dropWhile_eq_Nil_conv)
qed

lemma strtok_first:
  assumes "CHR '','' \<notin> set s" and "s \<noteq> []"
  shows "strtok (s @ CHR '','' # t) = Some (s, t)"
proof -
  have "dropWhile (\<lambda>c. c = CHR '','') (s @ CHR '','' # t) = s @ CHR '','' # t"
    using assms by (cases s) auto
  moreover have "takeWhile (\<lambda>c. c \<noteq> CHR '','') (s @ CHR '','' # t) = s"
    "dropWhile (\<lambda>c. c \<noteq> CHR '','') (s @ CHR '','' # t) = CHR '','' # t"
    using assms(1) by (auto simp: takeWhile_append dropWhile_append takeWhile_eq_all_conv)
  ultimately show ?thesis
    by (simp add: strtok_def)
qed

lemma strtok_tagged:
  assumes "CHR '','' \<notin> set tag" and "tag \<noteq> []"
  shows "strtok (tagged tag n) = Some (tag, decimal n)"
  using strtok_first [OF assms, of "decimal n"] by (simp add: tagged_def)

lemma strtok_msg [simp]: "strtok (tagged ''msg'' n) = Some (''msg'', decimal n)"
  and strtok_ack [simp]: "strtok (tagged ''ack'' n) = Some (''ack'', decimal n)"
  by (simp_all add: strtok_tagged)

section \<open>Invariant of the protocol\<close>

text \<open>The sequence numbers machine \<open>p\<close> has recorded of machine \<open>a\<close>.\<close>

definition recorded :: "Peer \<Rightarrow> int \<Rightarrow> int list" where
  "recorded p a = map re_seqNum (multiReceivedMsgQueue p ! nat a)"

definition other :: "int \<Rightarrow> int \<Rightarrow> bool" where
  "other a b \<longleftrightarrow> 0 \<le> b \<and> b < TOTALNUM \<and> b \<noteq> a"

definition entry_ok :: "int \<Rightarrow> SendEntry \<Rightarrow> bool" where
  "entry_ok a e \<longleftrightarrow> other a (se_machineID e) \<and> se_seqNum e < 3 \<and> se_msg e = tagged ''msg'' (se_seqNum e) \<and> se_mailboxNum e = 0"

definition phase_ok :: "Peer \<Rightarrow> bool" where
  "phase_ok p \<longleftrightarrow> (case phase p of
       Receiving \<Rightarrow> True
     | Posting m i \<Rightarrow> 0 \<le> m \<and> i < 3 \<and> other (netname p) (outPktHdrEC_to p)
     | Appending m i e \<Rightarrow> 0 \<le> m \<and> i < 3 \<and> other (netname p) (outPktHdrEC_to p) \<and> entry_ok (netname p) e)"

definition in_order :: "Peer \<Rightarrow> int \<Rightarrow> bool" where
  "in_order p b \<longleftrightarrow> (\<exists>n\<le>3. recorded p b = map int [0..<n])"

definition peer_ok :: "int \<Rightarrow> Peer \<Rightarrow> bool" where
  "peer_ok a p \<longleftrightarrow> netname p = a \<and> outMailHdrEC_to p = 0 \<and> sizeofList p = int (length (sentMessagesQueue p)) \<and>
     length (multiReceivedMsgQueue p) = 5 \<and> (\<forall>b\<in>{0..<TOTALNUM}. in_order p b) \<and>
     (\<forall>e\<in>set (sentMessagesQueue p). entry_ok a e) \<and> phase_ok p"

definition packet_ok :: "Peer \<Rightarrow> Packet \<Rightarrow> bool" where
  "packet_ok p pkt \<longleftrightarrow> p_from pkt = netname p \<and> other (netname p) (p_to pkt) \<and> p_mailFrom pkt = 0 \<and> p_mailTo pkt = 0 \<and>
     (\<exists>k<3. p_text pkt = tagged ''msg'' k \<or> p_text pkt = tagged ''ack'' k \<and> k < length (recorded p (p_to pkt)))"

lemmas sender_defs = recorded_def other_def entry_ok_def phase_ok_def in_order_def peer_ok_def packet_ok_def packet_def

lemma tagged_eq [simp]: "tagged ''ack'' k \<noteq> tagged ''msg'' l" "tagged ''msg'' k \<noteq> tagged ''ack'' l"
  by (simp_all add: tagged_def)

lemma tagged_inject [simp]: "tagged tag k = tagged tag l \<longleftrightarrow> k = l"
  by (simp add: tagged_def)

subsection \<open>One handler at a time\<close>

text \<open>What a handler keeps: the invariant of the machine, what it has recorded, and that its packets are good ones.\<close>

definition keeps :: "int \<Rightarrow> Peer \<Rightarrow> Peer \<times> Packet list \<Rightarrow> bool" where
  "keeps a p r \<longleftrightarrow> peer_ok a (fst r) \<and> (\<forall>pkt\<in>set (snd r). packet_ok (fst r) pkt) \<and>
     (\<forall>b. other a b \<longrightarrow> length (recorded p b) \<le> length (recorded (fst r) b))"

lemma destination_Some: "destination self m = Some k \<Longrightarrow> 0 \<le> m \<Longrightarrow> other self k"
  by (auto simp: destination_def other_def find_Some_iff)

lemma begin_machine_keeps:
  assumes "peer_ok a p" and "0 \<le> m"
  shows "keeps a p (begin_machine m p, [])"
proof (cases "destination a m")
  case None
  with assms show ?thesis
    by (simp add: keeps_def begin_machine_def peer_ok_def phase_ok_def in_order_def recorded_def)
next
  case (Some k)
  then have "other a k" "0 \<le> k"
    using destination_Some [OF Some assms(2)] by (simp_all add: other_def)
  with Some assms show ?thesis
    by (simp add: keeps_def begin_machine_def peer_ok_def phase_ok_def in_order_def recorded_def)
qed

lemma start_ok: "peer_ok a (MultiSender_start a)"
proof -
  let ?p = "\<lparr>netname = a, phase = Receiving, sentMessagesQueue = [], sizeofList = 0,
       receivedMsgQueue = [], multiReceivedMsgQueue = replicate 5 [], outPktHdrEC_to = 0, outMailHdrEC_to = 0\<rparr> :: Peer"
  have "in_order ?p b" if "b \<in> {0..<TOTALNUM}" for b
    using that by (auto simp: in_order_def recorded_def intro!: exI [of _ 0])
  then have "peer_ok a ?p"
    by (simp add: peer_ok_def phase_ok_def)
  from begin_machine_keeps [OF this, of 0] show ?thesis
    by (simp add: keeps_def MultiSender_start_def)
qed

lemma do_post_keeps:
  assumes "peer_ok a p" and "do_post p = Some r"
  shows "keeps a p r"
proof (cases "phase p")
  case (Posting m i)
  then have "0 \<le> m" "i < 3" "other a (outPktHdrEC_to p)"
    using assms(1) by (auto simp: peer_ok_def phase_ok_def)
  with Posting assms show ?thesis
    by (auto simp: do_post_def Let_def keeps_def peer_ok_def phase_ok_def in_order_def recorded_def packet_ok_def
        packet_def entry_ok_def)
qed (use assms in \<open>auto simp: do_post_def\<close>)

lemma do_append_keeps:
  assumes "peer_ok a p" and "do_append p = Some r"
  shows "keeps a p r"
proof (cases "phase p")
  case (Appending m i e)
  let ?q = "p\<lparr>sentMessagesQueue := sentMessagesQueue p @ [e], sizeofList := sizeofList p + 1\<rparr>"
  have ok: "0 \<le> m" "i < 3" "other a (outPktHdrEC_to p)" "entry_ok a e"
    using assms(1) Appending by (auto simp: peer_ok_def phase_ok_def)
  with Appending assms(1) have q: "peer_ok a ?q"
    by (auto simp: peer_ok_def phase_ok_def in_order_def recorded_def)
  have same: "recorded ?q = recorded p"
    by (simp add: recorded_def fun_eq_iff)
  show ?thesis
  proof (cases "i + 1 < 3")
    case True
    with Appending assms(2) have "r = (?q\<lparr>phase := Posting m (i + 1)\<rparr>, [])"
      by (simp add: do_append_def Let_def)
    with q ok True show ?thesis
      by (simp add: keeps_def peer_ok_def phase_ok_def in_order_def recorded_def)
  next
    case False
    with Appending assms(2) have "r = (begin_machine (m + 1) ?q, [])"
      by (simp add: do_append_def Let_def)
    moreover have "keeps a ?q (begin_machine (m + 1) ?q, [])"
      using ok q by (intro begin_machine_keeps) auto
    ultimately show ?thesis
      by (simp add: keeps_def same)
  qed
qed (use assms in \<open>auto simp: do_append_def\<close>)

text \<open>\<open>Resend\<close> sends every entry again and leaves the headers addressed to the last one.\<close>

lemma fold_resend:
  "fold resend_one es (p, out) =
     (if es = [] then (p, out)
      else (p\<lparr>outPktHdrEC_to := se_machineID (last es), outMailHdrEC_to := se_mailboxNum (last es)\<rparr>,
            out @ map (\<lambda>e. \<lparr>p_from = netname p, p_to = se_machineID e, p_mailFrom = 0, p_mailTo = se_mailboxNum e,
                              p_text = se_msg e\<rparr>) es))"
  by (induction es arbitrary: p out) (simp_all add: resend_one_def packet_def Let_def)

lemma Resend_keeps:
  assumes "peer_ok a p"
  shows "keeps a p (Resend p)"
proof (cases "sentMessagesQueue p = []")
  case False
  then have "entry_ok a (last (sentMessagesQueue p))"
    using assms by (auto simp: peer_ok_def)
  with False assms show ?thesis
    by (auto simp: Resend_def fold_resend keeps_def peer_ok_def phase_ok_def entry_ok_def in_order_def recorded_def packet_ok_def
        split: phase.splits)
qed (use assms in \<open>simp add: Resend_def keeps_def\<close>)

lemma do_resend_keeps: "peer_ok a p \<Longrightarrow> do_resend p = Some r \<Longrightarrow> keeps a p r"
  by (auto simp: do_resend_def Resend_keeps split: phase.splits)

text \<open>The search for an acknowledged entry removes one that ack_for, or turns the list round completely.\<close>

lemma ack_loop_spec:
  assumes "n \<le> length q"
  obtains q' sz' where "ack_loop n match q sz = Inr (q', sz')"
    and "mset q' = mset q \<and> sz' = sz \<and> (\<forall>e\<in>set (take n q). \<not> match e) \<or>
         (\<exists>e. match e \<and> mset q = add_mset e (mset q') \<and> sz' = sz - 1)"
  using assms
proof (induction n arbitrary: q thesis)
  case (Suc n)
  obtain e es where q: "q = e # es"
    using Suc.prems(2) by (cases q) auto
  show ?case
  proof (cases "match e")
    case True
    with q show ?thesis
      by (intro Suc.prems(1) [of es "sz - 1"] disjI2 exI [of _ e]) simp_all
  next
    case False
    have n: "n \<le> length (es @ [e])" "n \<le> length es"
      using Suc.prems(2) q by auto
    obtain q' sz' where r: "ack_loop n match (es @ [e]) sz = Inr (q', sz')"
      and "mset q' = mset (es @ [e]) \<and> sz' = sz \<and> (\<forall>x\<in>set (take n (es @ [e])). \<not> match x) \<or>
           (\<exists>x. match x \<and> mset (es @ [e]) = add_mset x (mset q') \<and> sz' = sz - 1)"
      using Suc.IH [OF _ n(1)] .
    with False n q show ?thesis
      by (intro Suc.prems(1) [of q' sz']) auto
  qed
qed simp

text \<open>An acknowledgement.\<close>

definition ack_for :: "nat \<Rightarrow> int \<Rightarrow> SendEntry \<Rightarrow> bool" where
  "ack_for k b e \<longleftrightarrow> int (se_seqNum e) = int k \<and> se_machineID e = b"

lemma do_mail_ack:
  assumes ok: "peer_ok a p" and tx: "p_text pkt = tagged ''ack'' k" and k: "k < 3"
  obtains q where "do_mail pkt p = Inr (p\<lparr>outPktHdrEC_to := p_from pkt, outMailHdrEC_to := p_mailFrom pkt,
      sentMessagesQueue := q, sizeofList := int (length q)\<rparr>, [])"
    and "mset q = mset (sentMessagesQueue p) \<and> (\<forall>e\<in>set q. \<not> ack_for k (p_from pkt) e) \<or>
         (\<exists>e. ack_for k (p_from pkt) e \<and> mset (sentMessagesQueue p) = add_mset e (mset q))"
proof -
  let ?q = "sentMessagesQueue p"
  have sz: "sizeofList p = int (length ?q)"
    using ok by (simp add: peer_ok_def)
  obtain q' sz' where r: "ack_loop (length ?q) (ack_for k (p_from pkt)) ?q (sizeofList p) = Inr (q', sz')"
    and q': "mset q' = mset ?q \<and> sz' = sizeofList p \<and> (\<forall>e\<in>set (take (length ?q) ?q). \<not> ack_for k (p_from pkt) e) \<or>
             (\<exists>e. ack_for k (p_from pkt) e \<and> mset ?q = add_mset e (mset q') \<and> sz' = sizeofList p - 1)"
    using ack_loop_spec [OF order.refl] .
  have len: "sz' = int (length q')"
    using q'
  proof (elim disjE exE conjE)
    fix e
    assume "mset ?q = add_mset e (mset q')" "sz' = sizeofList p - 1"
    then have "length ?q = Suc (length q')"
      by (metis size_add_mset size_mset)
    then show ?thesis
      using sz \<open>sz' = sizeofList p - 1\<close> by simp
  qed (use sz in \<open>metis mset_eq_length\<close>)
  have "do_mail pkt p = Inr (p\<lparr>outPktHdrEC_to := p_from pkt, outMailHdrEC_to := p_mailFrom pkt,
      sentMessagesQueue := q', sizeofList := int (length q')\<rparr>, [])"
    using r tx sz len k by (simp add: do_mail_def Let_def ack_for_def [abs_def])
  moreover have "mset q' = mset ?q \<and> (\<forall>e\<in>set q'. \<not> ack_for k (p_from pkt) e) \<or>
         (\<exists>e. ack_for k (p_from pkt) e \<and> mset ?q = add_mset e (mset q'))"
    using q' by (auto dest: mset_eq_setD)
  ultimately show thesis
    by (rule that)
qed

text \<open>A message.\<close>

lemma take_msg_spec:
  assumes "map re_seqNum q = map int [0..<n]"
  shows "take_msg (int k) mid box q =
           (if k = n then q @ [\<lparr>re_seqNum = int k, re_machineID = mid, re_mailboxNum = box\<rparr>] else q, k \<le> n)"
proof (cases n)
  case (Suc l)
  have ne: "q \<noteq> []"
    using assms Suc by auto
  have "re_seqNum (last q) = last (map re_seqNum q)"
    using ne by (simp add: last_map)
  also have "\<dots> = int l"
    using Suc by (simp add: assms)
  finally have l: "re_seqNum (last q) = int l" .
  have "(\<exists>e\<in>set q. re_seqNum e = int k) \<longleftrightarrow> int k \<in> set (map re_seqNum q)"
    by (simp add: image_iff eq_commute)
  also have "\<dots> \<longleftrightarrow> k < n"
    by (auto simp: assms)
  finally have "(\<exists>e\<in>set q. re_seqNum e = int k) \<longleftrightarrow> k < n" .
  with ne l Suc show ?thesis
    by (auto simp: take_msg_def Let_def)
qed (use assms in \<open>auto simp: take_msg_def Let_def\<close>)

lemma do_mail_msg:
  assumes ok: "peer_ok a p" and tx: "p_text pkt = tagged ''msg'' k" and k: "k < 3" and b: "other a (p_from pkt)"
    and n: "recorded p (p_from pkt) = map int [0..<n]"
  defines "q \<equiv> multiReceivedMsgQueue p ! nat (p_from pkt)"
  defines "p' \<equiv> p\<lparr>outPktHdrEC_to := p_from pkt, outMailHdrEC_to := p_mailFrom pkt,
      multiReceivedMsgQueue := (multiReceivedMsgQueue p)[nat (p_from pkt) :=
         (if k = n then q @ [\<lparr>re_seqNum = int k, re_machineID = p_from pkt, re_mailboxNum = p_mailFrom pkt\<rparr>] else q)]\<rparr>"
  shows "do_mail pkt p = Inr (p', if k \<le> n then [packet p' (tagged ''ack'' k)] else [])"
proof -
  have "map re_seqNum q = map int [0..<n]"
    using n by (simp add: recorded_def q_def)
  note t = take_msg_spec [OF this, of k "p_from pkt" "p_mailFrom pkt"]
  have "array_get (multiReceivedMsgQueue p) (p_from pkt) = Inr q"
    and "array_set (multiReceivedMsgQueue p) (p_from pkt) x = Inr ((multiReceivedMsgQueue p)[nat (p_from pkt) := x])" for x
    using ok b by (simp_all add: array_get_def array_set_def q_def peer_ok_def other_def)
  with t tx k show ?thesis
    by (simp add: do_mail_def Let_def p'_def)
qed

lemma recorded_update:
  assumes "peer_ok a p" and "0 \<le> b" "b < TOTALNUM" and "0 \<le> c" "c < TOTALNUM"
  shows "recorded (p\<lparr>outPktHdrEC_to := x, outMailHdrEC_to := y, multiReceivedMsgQueue := (multiReceivedMsgQueue p)[nat b := q]\<rparr>) c =
           (if c = b then map re_seqNum q else recorded p c)"
  using assms by (auto simp: recorded_def peer_ok_def nth_list_update)

lemma mail_msg_keeps:
  assumes ok: "peer_ok a p" and tx: "p_text pkt = tagged ''msg'' k" and k: "k < 3" and b: "other a (p_from pkt)"
    and box: "p_mailFrom pkt = 0"
  obtains r where "do_mail pkt p = Inr r" "keeps a p r"
proof -
  obtain n where n: "recorded p (p_from pkt) = map int [0..<n]" "n \<le> 3"
    using ok b unfolding peer_ok_def in_order_def other_def by fastforce
  let ?q = "multiReceivedMsgQueue p ! nat (p_from pkt)"
  let ?q' = "if k = n then ?q @ [\<lparr>re_seqNum = int k, re_machineID = p_from pkt, re_mailboxNum = p_mailFrom pkt\<rparr>] else ?q"
  let ?p = "p\<lparr>outPktHdrEC_to := p_from pkt, outMailHdrEC_to := p_mailFrom pkt,
      multiReceivedMsgQueue := (multiReceivedMsgQueue p)[nat (p_from pkt) := ?q']\<rparr>"
  let ?n = "if k = n then Suc n else n"
  have q': "map re_seqNum ?q' = map int [0..<?n]"
    using n(1) by (simp add: recorded_def)
  have rec: "recorded ?p c = (if c = p_from pkt then map int [0..<?n] else recorded p c)" if "0 \<le> c" "c < TOTALNUM" for c
    using that recorded_update [OF ok, where b = "p_from pkt" and c = c and x = "p_from pkt" and y = "p_mailFrom pkt" and q = ?q'] b unfolding q'
    by (simp add: other_def)
  have "in_order ?p c" if "0 \<le> c" "c < TOTALNUM" for c
  proof (cases "c = p_from pkt")
    case True
    then have "recorded ?p c = map int [0..<?n]" "?n \<le> 3"
      using rec [OF that] n(2) k by simp_all
    then show ?thesis
      unfolding in_order_def by blast
  next
    case False
    then show ?thesis
      using rec [OF that] ok that by (simp add: in_order_def peer_ok_def)
  qed
  moreover have "phase_ok ?p"
    using ok b by (auto simp: phase_ok_def peer_ok_def split: phase.splits)
  ultimately have "peer_ok a ?p"
    using ok box by (auto simp: peer_ok_def)
  moreover have "packet_ok ?p (packet ?p (tagged ''ack'' k))" if "k \<le> n"
    using rec [of "p_from pkt"] b box k that ok
    by (auto simp: packet_ok_def packet_def other_def peer_ok_def)
  moreover have "length (recorded p c) \<le> length (recorded ?p c)" if "other a c" for c
    using rec [of c] that n(1) by (auto simp: other_def)
  ultimately have "keeps a p (?p, if k \<le> n then [packet ?p (tagged ''ack'' k)] else [])"
    by (simp add: keeps_def)
  with do_mail_msg [OF ok tx k b n(1)] show thesis
    by (rule that)
qed

lemma shrunk_subset: "mset q = mset q' \<or> (\<exists>e. P e \<and> mset q' = add_mset e (mset q)) \<Longrightarrow> set q \<subseteq> set q'"
  by (metis set_mset_mset mset_eq_setD order.refl set_mset_add_mset_insert subset_insertI)

lemma mail_ack_keeps:
  assumes ok: "peer_ok a p" and tx: "p_text pkt = tagged ''ack'' k" and k: "k < 3" and b: "other a (p_from pkt)" and box: "p_mailFrom pkt = 0"
  obtains r where "do_mail pkt p = Inr r" "keeps a p r"
proof -
  obtain q where r: "do_mail pkt p = Inr (p\<lparr>outPktHdrEC_to := p_from pkt, outMailHdrEC_to := p_mailFrom pkt,
      sentMessagesQueue := q, sizeofList := int (length q)\<rparr>, [])"
    and q: "mset q = mset (sentMessagesQueue p) \<and> (\<forall>e\<in>set q. \<not> ack_for k (p_from pkt) e) \<or>
         (\<exists>e. ack_for k (p_from pkt) e \<and> mset (sentMessagesQueue p) = add_mset e (mset q))"
    using do_mail_ack [OF ok tx k] .
  have "set q \<subseteq> set (sentMessagesQueue p)"
    by (rule shrunk_subset [where P = "ack_for k (p_from pkt)"]) (use q in blast)
  with ok b box have "keeps a p (p\<lparr>outPktHdrEC_to := p_from pkt, outMailHdrEC_to := p_mailFrom pkt,
      sentMessagesQueue := q, sizeofList := int (length q)\<rparr>, [])"
    by (auto simp: keeps_def peer_ok_def phase_ok_def in_order_def recorded_def split: phase.splits)
  with r show thesis
    by (rule that)
qed

subsection \<open>All machines\<close>

definition cluster_ok :: "Cluster \<Rightarrow> bool" where
  "cluster_ok w \<longleftrightarrow> (\<forall>a. 0 \<le> a \<and> a < TOTALNUM \<longrightarrow> peer_ok a (peers w a)) \<and>
     (\<forall>pkt\<in>set (wire w). 0 \<le> p_from pkt \<and> p_from pkt < TOTALNUM \<and> packet_ok (peers w (p_from pkt)) pkt)"

lemma cluster_peer: "cluster_ok w \<Longrightarrow> a \<in> {0..<TOTALNUM} \<Longrightarrow> peer_ok a (peers w a)"
  by (simp add: cluster_ok_def)

lemma mail_keeps:
  assumes "cluster_ok w" and "pkt \<in> set (wire w)" and "p_to pkt = a"
  obtains r where "do_mail pkt (peers w a) = Inr r" "keeps a (peers w a) r"
proof -
  let ?b = "p_from pkt"
  have b: "0 \<le> ?b" "?b < TOTALNUM" "packet_ok (peers w ?b) pkt" "peer_ok ?b (peers w ?b)"
    using assms by (auto simp: cluster_ok_def)
  then have box: "p_mailFrom pkt = 0" and o: "other a ?b" and a: "0 \<le> a" "a < TOTALNUM"
    using assms(3) by (auto simp: packet_ok_def other_def peer_ok_def)
  then have ok: "peer_ok a (peers w a)"
    using assms(1) by (simp add: cluster_ok_def)
  obtain k where "k < 3" and "p_text pkt = tagged ''msg'' k \<or> p_text pkt = tagged ''ack'' k"
    using b(3) by (auto simp: packet_ok_def)
  then show thesis
    using mail_msg_keeps [OF ok _ _ o box] mail_ack_keeps [OF ok _ _ o box] that by metis
qed

lemma packet_ok_mono:
  assumes "packet_ok p pkt" and "netname p' = netname p"
    and "\<And>b. other (netname p) b \<Longrightarrow> length (recorded p b) \<le> length (recorded p' b)"
  shows "packet_ok p' pkt"
  using assms(1) assms(3) [of "p_to pkt"] by (auto simp: packet_ok_def assms(2) intro: less_le_trans)

lemma update_peer_ok:
  assumes "cluster_ok w" and "0 \<le> a" "a < TOTALNUM" and k: "keeps a (peers w a) r"
  shows "cluster_ok (update_peer a r w)"
proof -
  let ?w = "update_peer a r w"
  have a: "peer_ok a (peers w a)" "peer_ok a (fst r)"
    using assms by (auto simp: cluster_ok_def keeps_def)
  have "0 \<le> p_from pkt \<and> p_from pkt < TOTALNUM \<and> packet_ok (peers ?w (p_from pkt)) pkt" if pkt: "pkt \<in> set (wire ?w)" for pkt
  proof (cases "pkt \<in> set (snd r)")
    case True
    then have "packet_ok (fst r) pkt"
      using k by (simp add: keeps_def)
    moreover from this have "p_from pkt = a"
      using a(2) by (simp add: packet_ok_def peer_ok_def)
    ultimately show ?thesis
      using assms(2,3) by (simp add: update_peer_def)
  next
    case False
    then have old: "0 \<le> p_from pkt" "p_from pkt < TOTALNUM" "packet_ok (peers w (p_from pkt)) pkt"
      using pkt assms(1) by (auto simp: update_peer_def cluster_ok_def)
    have "packet_ok (fst r) pkt" if "p_from pkt = a"
      using old(3) k a unfolding that
      by (rule_tac packet_ok_mono [of "peers w a"]) (auto simp: keeps_def peer_ok_def)
    with old show ?thesis
      by (simp add: update_peer_def)
  qed
  with assms(1) a show ?thesis
    by (auto simp: cluster_ok_def update_peer_def)
qed

inductive_cases stepE: "step w w'"

subsection \<open>The steps of one machine\<close>

datatype own = Post | Append | Repeat

fun own_step :: "own \<Rightarrow> Peer \<Rightarrow> (Peer \<times> Packet list) option" where
  "own_step Post p = do_post p"
| "own_step Append p = do_append p"
| "own_step Repeat p = do_resend p"

fun own_steps :: "own list \<Rightarrow> Peer \<Rightarrow> (Peer \<times> Packet list) option" where
  "own_steps [] p = Some (p, [])"
| "own_steps (x # xs) p =
     (case own_step x p of
        None \<Rightarrow> None
      | Some (q, out) \<Rightarrow> map_option (\<lambda>(q', out'). (q', out @ out')) (own_steps xs q))"

lemma own_step_step: "own_step x (peers w a) = Some r \<Longrightarrow> a \<in> {0..<TOTALNUM} \<Longrightarrow> step w (update_peer a r w)"
  by (cases x) (auto intro: step.intros)

lemma own_step_received: "own_step x p = Some r \<Longrightarrow> multiReceivedMsgQueue (fst r) = multiReceivedMsgQueue p"
  by (cases x) (auto simp: do_post_def do_append_def do_resend_def Resend_def fold_resend begin_machine_def Let_def
      split: phase.splits option.splits)

lemma own_steps_steps:
  assumes "own_steps xs (peers w a) = Some r" and "a \<in> {0..<TOTALNUM}"
  shows "step\<^sup>*\<^sup>* w (update_peer a r w)"
  using assms(1)
proof (induction xs arbitrary: w r)
  case Nil
  then show ?case
    by (auto simp: update_peer_def)
next
  case (Cons x xs)
  then obtain q out q' out' where 1: "own_step x (peers w a) = Some (q, out)"
    and 2: "own_steps xs q = Some (q', out')" and r: "r = (q', out @ out')"
    by (auto split: option.splits)
  let ?w = "update_peer a (q, out) w"
  have "step\<^sup>*\<^sup>* ?w (update_peer a (q', out') ?w)"
    using 2 by (intro Cons.IH) (simp add: update_peer_def)
  moreover have "update_peer a (q', out') ?w = update_peer a r w"
    by (simp add: update_peer_def r)
  ultimately show ?case
    using own_step_step [OF 1 assms(2)] by (simp add: converse_rtranclp_into_rtranclp)
qed

lemma own_steps_received: "own_steps xs p = Some r \<Longrightarrow> multiReceivedMsgQueue (fst r) = multiReceivedMsgQueue p"
  by (induction xs arbitrary: p r) (fastforce dest: own_step_received split: option.splits)+

subsection \<open>Delivery\<close>

lemma own_step_receiving: "own_step x p = Some r \<Longrightarrow> phase p = Receiving \<Longrightarrow> phase (fst r) = Receiving"
  by (cases x) (auto simp: do_post_def do_append_def do_resend_def Resend_def fold_resend)

lemma do_mail_phase: "do_mail pkt p = Inr r \<Longrightarrow> phase (fst r) = phase p"
  by (auto simp: do_mail_def Let_def bindE_def split: option.splits if_splits prod.splits sum.splits)

text \<open>Every step is one of one machine, and keeps its phase once that is \<open>Receiving\<close>.\<close>

lemma step_cases:
  assumes "step w w'" and "cluster_ok w"
  obtains a r where "a \<in> {0..<TOTALNUM}" "w' = update_peer a r w" "keeps a (peers w a) r"
    "phase (peers w a) = Receiving \<Longrightarrow> phase (fst r) = Receiving"
  using assms(1)
proof cases
  case (post a r)
  then show ?thesis
    using do_post_keeps [OF cluster_peer [OF assms(2)]] own_step_receiving [of Post] that by simp
next
  case (append a r)
  then show ?thesis
    using do_append_keeps [OF cluster_peer [OF assms(2)]] own_step_receiving [of Append] that by simp
next
  case (resend a r)
  then show ?thesis
    using do_resend_keeps [OF cluster_peer [OF assms(2)]] own_step_receiving [of Repeat] that by simp
next
  case (mail a pkt r)
  obtain r' where "do_mail pkt (peers w a) = Inr r'" "keeps a (peers w a) r'"
    using mail_keeps [OF assms(2) mail(4,5)] .
  with mail show ?thesis
    using do_mail_phase that by simp
qed

lemma step_cluster_ok: "step w w' \<Longrightarrow> cluster_ok w \<Longrightarrow> cluster_ok w'"
  by (elim step_cases) (auto intro: update_peer_ok)

lemma start_cluster_ok: "cluster_ok start"
  by (simp add: cluster_ok_def start_def start_ok)

lemma reachable_ok: "reachable w \<Longrightarrow> cluster_ok w"
  by (induction rule: reachable.induct) (auto intro: start_cluster_ok step_cluster_ok)

lemma reachable_steps: "reachable w \<Longrightarrow> step\<^sup>*\<^sup>* w w' \<Longrightarrow> reachable w'"
  by (rotate_tac, induction rule: rtranclp_induct) (auto intro: reachable.more)

lemma steps_ok: "step\<^sup>*\<^sup>* w w' \<Longrightarrow> cluster_ok w \<Longrightarrow> cluster_ok w'"
  by (induction rule: rtranclp_induct) (auto intro: step_cluster_ok)

lemma step_stays_receiving: "step w w' \<Longrightarrow> cluster_ok w \<Longrightarrow> phase (peers w c) = Receiving \<Longrightarrow> phase (peers w' c) = Receiving"
  by (elim step_cases) (auto simp: update_peer_def)

lemma step_mono:
  "step w w' \<Longrightarrow> cluster_ok w \<Longrightarrow> other c d \<Longrightarrow> length (recorded (peers w c) d) \<le> length (recorded (peers w' c) d)"
  by (elim step_cases) (auto simp: update_peer_def keeps_def)

text \<open>A repetition and the arrival of the message.\<close>

lemma message_arrives:
  assumes ok: "cluster_ok w" and a: "a \<in> {0..<TOTALNUM}"
    and recv: "\<forall>c\<in>{0..<TOTALNUM}. phase (peers w c) = Receiving"
    and e: "e \<in> set (sentMessagesQueue (peers w a))" and n: "se_seqNum e \<le> length (recorded (peers w (se_machineID e)) a)"
  obtains w' ack where "step\<^sup>*\<^sup>* w w'" "\<forall>c. sentMessagesQueue (peers w' c) = sentMessagesQueue (peers w c)"
    "ack \<in> set (wire w')" "p_from ack = se_machineID e" "p_to ack = a" "p_text ack = tagged ''ack'' (se_seqNum e)"
proof -
  define b k where "b = se_machineID e" and "k = se_seqNum e"
  have pa: "peer_ok a (peers w a)"
    by (rule cluster_peer [OF ok a])
  then have "other a b" and k: "k < 3" and eq: "e = \<lparr>se_seqNum = k, se_msg = tagged ''msg'' k, se_machineID = b, se_mailboxNum = 0\<rparr>"
    using e by (auto simp: peer_ok_def entry_ok_def b_def k_def)
  then have b: "b \<in> {0..<TOTALNUM}" "other b a" "b \<noteq> a"
    using a by (auto simp: other_def)
  define w1 where "w1 = update_peer a (Resend (peers w a)) w"
  let ?pkt = "\<lparr>p_from = a, p_to = b, p_mailFrom = 0, p_mailTo = 0, p_text = tagged ''msg'' k\<rparr>"
  have s1: "step w w1"
    unfolding w1_def using a recv by (intro step.resend) (simp_all add: do_resend_def)
  have w1: "?pkt \<in> set (wire w1)" "peers w1 b = peers w b" "\<And>c. sentMessagesQueue (peers w1 c) = sentMessagesQueue (peers w c)"
    using e eq pa b by (force simp: w1_def update_peer_def Resend_def fold_resend peer_ok_def)+
  have pb: "peer_ok b (peers w1 b)"
    by (rule cluster_peer [OF step_cluster_ok [OF s1 ok] b(1)])
  then obtain n where rn: "recorded (peers w1 b) a = map int [0..<n]"
    using a unfolding peer_ok_def in_order_def by fastforce
  have "k \<le> n"
    using n rn w1(2) by (simp add: k_def b_def)
  with do_mail_msg [OF pb _ k, of ?pkt n] rn b pb
  obtain p' where m: "do_mail ?pkt (peers w1 b) = Inr (p', [packet p' (tagged ''ack'' k)])" and p': "outPktHdrEC_to p' = a"
    "netname p' = b" "sentMessagesQueue p' = sentMessagesQueue (peers w1 b)"
    by (simp add: peer_ok_def)
  let ?w = "update_peer b (p', [packet p' (tagged ''ack'' k)]) w1"
  have "step w1 ?w"
    using b recv w1 m step_stays_receiving [OF s1 ok] by (intro step.mail [of b w1 ?pkt]) simp_all
  with s1 have "step\<^sup>*\<^sup>* w ?w"
    by simp
  then show thesis
    by (rule that [of _ "packet p' (tagged ''ack'' k)"])
      (use w1 p' in \<open>auto simp: update_peer_def packet_def b_def k_def\<close>)
qed

text \<open>The arrival of the acknowledgement; an entry is determined by its machine and number.\<close>

lemma entry_eqI: "entry_ok a e \<Longrightarrow> entry_ok a e' \<Longrightarrow> ack_for (se_seqNum e) (se_machineID e) e' \<Longrightarrow> e' = (e :: SendEntry)"
  by (simp add: entry_ok_def ack_for_def)

lemma ack_arrives:
  assumes ok: "cluster_ok w" and a: "a \<in> {0..<TOTALNUM}" "phase (peers w a) = Receiving"
    and e: "e \<in> set (sentMessagesQueue (peers w a))"
    and ack: "ack \<in> set (wire w)" "p_from ack = se_machineID e" "p_to ack = a" "p_text ack = tagged ''ack'' (se_seqNum e)"
  obtains w' where "step w w'" "mset (sentMessagesQueue (peers w a)) = add_mset e (mset (sentMessagesQueue (peers w' a)))"
    "\<And>c. c \<noteq> a \<Longrightarrow> sentMessagesQueue (peers w' c) = sentMessagesQueue (peers w c)"
proof -
  let ?q = "sentMessagesQueue (peers w a)"
  let ?for = "ack_for (se_seqNum e) (se_machineID e)"
  have pa: "peer_ok a (peers w a)"
    by (rule cluster_peer [OF ok a(1)])
  have k: "se_seqNum e < 3"
    using pa e by (auto simp: peer_ok_def entry_ok_def)
  obtain q where m: "do_mail ack (peers w a) = Inr ((peers w a)\<lparr>outPktHdrEC_to := p_from ack, outMailHdrEC_to := p_mailFrom ack,
      sentMessagesQueue := q, sizeofList := int (length q)\<rparr>, [])"
    and q: "mset q = mset ?q \<and> (\<forall>e\<in>set q. \<not> ?for e) \<or> (\<exists>e. ?for e \<and> mset ?q = add_mset e (mset q))"
    using do_mail_ack [OF pa ack(4) k] unfolding ack(2) .
  have "?for e"
    by (simp add: ack_for_def)
  with q e obtain e' where e': "?for e'" "mset ?q = add_mset e' (mset q)"
    by (metis mset_eq_setD)
  then have "e' \<in> set ?q"
    by (metis set_mset_mset union_single_eq_member)
  then have "e' = e"
    using pa e e'(1) by (intro entry_eqI [of a]) (auto simp: peer_ok_def)
  with e'(2) have "mset ?q = add_mset e (mset q)"
    by simp
  then show thesis
    by (intro that [OF step.mail [OF a ack(1,3) m]]) (simp_all add: update_peer_def)
qed

lemma steps_receiving:
  assumes "step\<^sup>*\<^sup>* w w'" "cluster_ok w" "phase (peers w c) = Receiving"
  shows "phase (peers w' c) = Receiving"
  using assms(1) by (induction rule: rtranclp_induct) (auto intro: assms step_stays_receiving steps_ok)

lemma steps_mono:
  assumes "step\<^sup>*\<^sup>* w w'" "cluster_ok w" "other c d"
  shows "length (recorded (peers w c) d) \<le> length (recorded (peers w' c) d)"
  using assms(1)
proof (induction rule: rtranclp_induct)
  case (step x y)
  then show ?case
    using step_mono [OF step(2) steps_ok [OF step(1) assms(2)] assms(3)] by simp
qed simp

text \<open>A packet that acknowledges a message shows that it has been recorded.\<close>

lemma ack_recorded:
  assumes "cluster_ok w" "ack \<in> set (wire w)" "p_text ack = tagged ''ack'' k"
  shows "k < length (recorded (peers w (p_from ack)) (p_to ack))"
  using assms by (auto simp: cluster_ok_def packet_ok_def)

lemma deliver_one:
  assumes ok: "cluster_ok w" and a: "a \<in> {0..<TOTALNUM}"
    and recv: "\<forall>c\<in>{0..<TOTALNUM}. phase (peers w c) = Receiving"
    and e: "e \<in> set (sentMessagesQueue (peers w a))" and n: "se_seqNum e \<le> length (recorded (peers w (se_machineID e)) a)"
  obtains w' where "step\<^sup>*\<^sup>* w w'"
    "mset (sentMessagesQueue (peers w a)) = add_mset e (mset (sentMessagesQueue (peers w' a)))"
    "\<And>c. c \<noteq> a \<Longrightarrow> sentMessagesQueue (peers w' c) = sentMessagesQueue (peers w c)"
    "se_seqNum e < length (recorded (peers w' (se_machineID e)) a)"
proof -
  obtain w1 ack where s1: "step\<^sup>*\<^sup>* w w1" and q1: "\<forall>c. sentMessagesQueue (peers w1 c) = sentMessagesQueue (peers w c)"
    and ack: "ack \<in> set (wire w1)" "p_from ack = se_machineID e" "p_to ack = a" "p_text ack = tagged ''ack'' (se_seqNum e)"
    using message_arrives [OF assms] .
  have ok1: "cluster_ok w1"
    by (rule steps_ok [OF s1 ok])
  obtain w2 where s2: "step w1 w2" and q2: "mset (sentMessagesQueue (peers w1 a)) = add_mset e (mset (sentMessagesQueue (peers w2 a)))"
    "\<And>c. c \<noteq> a \<Longrightarrow> sentMessagesQueue (peers w2 c) = sentMessagesQueue (peers w1 c)"
    using ack_arrives [OF ok1 a steps_receiving [OF s1 ok] _ ack] recv a e q1 by metis
  have "other (se_machineID e) a"
    using cluster_peer [OF ok a] e a by (auto simp: peer_ok_def entry_ok_def other_def)
  then have "se_seqNum e < length (recorded (peers w2 (se_machineID e)) a)"
    using ack_recorded [OF ok1 ack(1,4)] step_mono [OF s2 ok1] ack(2,3) by (simp add: less_le_trans)
  with q1 q2 s1 s2 show thesis
    by (intro that [of w2]) auto
qed

text \<open>No message is missing: each is recorded, or still on the list of its sender.\<close>

definition complete :: "Cluster \<Rightarrow> bool" where
  "complete w \<longleftrightarrow> (\<forall>a b k. other a b \<and> other b a \<and> k < 3 \<longrightarrow> k < length (recorded (peers w b) a) \<or>
     (\<exists>e\<in>set (sentMessagesQueue (peers w a)). se_machineID e = b \<and> se_seqNum e = k))"

definition unacknowledged :: "Cluster \<Rightarrow> nat" where
  "unacknowledged w = (\<Sum>a\<in>{0..<TOTALNUM}. length (sentMessagesQueue (peers w a)))"

text \<open>The unacknowledged entry of a machine with the smallest number for its destination is the one that is due.\<close>

lemma due_entry:
  assumes ok: "cluster_ok w" and c: "complete w" and a: "a \<in> {0..<TOTALNUM}" and q: "sentMessagesQueue (peers w a) \<noteq> []"
  obtains e where "e \<in> set (sentMessagesQueue (peers w a))" "se_seqNum e \<le> length (recorded (peers w (se_machineID e)) a)"
proof -
  let ?q = "sentMessagesQueue (peers w a)"
  define b where "b = se_machineID (hd ?q)"
  let ?P = "\<lambda>k. \<exists>e\<in>set ?q. se_machineID e = b \<and> se_seqNum e = k"
  have "?P (se_seqNum (hd ?q))"
    using q by (auto simp: b_def)
  from LeastI [of ?P, OF this] obtain e where e: "e \<in> set ?q" "se_machineID e = b" "se_seqNum e = (LEAST k. ?P k)"
    by auto
  have "entry_ok a e"
    using cluster_peer [OF ok a] e(1) by (simp add: peer_ok_def)
  then have ab: "other a b" "other b a" "se_seqNum e < 3"
    using e(2) a by (auto simp: entry_ok_def other_def)
  have "\<not> length (recorded (peers w b) a) < se_seqNum e"
  proof
    let ?n = "length (recorded (peers w b) a)"
    assume less: "?n < se_seqNum e"
    with ab have "other a b \<and> other b a \<and> ?n < 3"
      by simp
    with c have "?P ?n"
      unfolding complete_def by (metis less_irrefl)
    from Least_le [of ?P, OF this] less e(3) show False
      by simp
  qed
  with e show thesis
    by (intro that [of e]) auto
qed

lemma complete_step:
  assumes c: "complete w" and q: "mset (sentMessagesQueue (peers w a)) = add_mset e (mset (sentMessagesQueue (peers w' a)))"
    "\<And>c. c \<noteq> a \<Longrightarrow> sentMessagesQueue (peers w' c) = sentMessagesQueue (peers w c)"
    and e: "se_seqNum e < length (recorded (peers w' (se_machineID e)) a)"
    and mono: "\<And>c d. other c d \<Longrightarrow> length (recorded (peers w c) d) \<le> length (recorded (peers w' c) d)"
  shows "complete w'"
proof -
  have sets: "set (sentMessagesQueue (peers w a)) = insert e (set (sentMessagesQueue (peers w' a)))"
    using arg_cong [OF q(1), of set_mset] by simp
  have "k < length (recorded (peers w' d) c) \<or> (\<exists>e\<in>set (sentMessagesQueue (peers w' c)). se_machineID e = d \<and> se_seqNum e = k)"
    if cd: "other c d" "other d c" "k < 3" for c d k
  proof -
    have "k < length (recorded (peers w d) c) \<or> (\<exists>e\<in>set (sentMessagesQueue (peers w c)). se_machineID e = d \<and> se_seqNum e = k)"
      using c cd by (auto simp: complete_def)
    then show ?thesis
      using mono [OF cd(2)] q(2) [of c] sets e by (cases "c = a") (auto simp: less_le_trans)
  qed
  then show ?thesis
    by (auto simp: complete_def)
qed

lemma deliver_all:
  assumes "cluster_ok w" and "complete w" and "\<forall>c\<in>{0..<TOTALNUM}. phase (peers w c) = Receiving"
  shows "\<exists>w'. step\<^sup>*\<^sup>* w w' \<and> complete w' \<and> (\<forall>c\<in>{0..<TOTALNUM}. sentMessagesQueue (peers w' c) = [])"
  using assms
proof (induction "unacknowledged w" arbitrary: w rule: less_induct)
  case less
  show ?case
  proof (cases "\<forall>c\<in>{0..<TOTALNUM}. sentMessagesQueue (peers w c) = []")
    case True
    with less.prems show ?thesis by blast
  next
    case False
    then obtain a where a: "a \<in> {0..<TOTALNUM}" "sentMessagesQueue (peers w a) \<noteq> []"
      by blast
    obtain e where e: "e \<in> set (sentMessagesQueue (peers w a))" "se_seqNum e \<le> length (recorded (peers w (se_machineID e)) a)"
      using due_entry [OF less.prems(1,2) a] .
    obtain w' where s: "step\<^sup>*\<^sup>* w w'" and q: "mset (sentMessagesQueue (peers w a)) = add_mset e (mset (sentMessagesQueue (peers w' a)))"
      and q': "\<And>c. c \<noteq> a \<Longrightarrow> sentMessagesQueue (peers w' c) = sentMessagesQueue (peers w c)"
      and r: "se_seqNum e < length (recorded (peers w' (se_machineID e)) a)"
      by (rule deliver_one [OF less.prems(1) a(1) less.prems(3) e]) blast
    have "length (sentMessagesQueue (peers w a)) = Suc (length (sentMessagesQueue (peers w' a)))"
      using arg_cong [OF q, of size] by simp
    then have "length (sentMessagesQueue (peers w' a)) < length (sentMessagesQueue (peers w a))"
      and "length (sentMessagesQueue (peers w' c)) \<le> length (sentMessagesQueue (peers w c))" for c
      using q' [of c] by (simp, cases "c = a", simp_all)
    then have "unacknowledged w' < unacknowledged w"
      unfolding unacknowledged_def using a(1) by (intro sum_strict_mono_ex1) auto
    moreover have "complete w'"
      using complete_step [OF less.prems(2) q q' r] steps_mono [OF s less.prems(1)] by blast
    moreover have "\<forall>c\<in>{0..<TOTALNUM}. phase (peers w' c) = Receiving"
      using steps_receiving [OF s less.prems(1)] less.prems(3) by blast
    ultimately obtain w'' where "step\<^sup>*\<^sup>* w' w''" "complete w''" "\<forall>c\<in>{0..<TOTALNUM}. sentMessagesQueue (peers w'' c) = []"
      using less.hyps steps_ok [OF s less.prems(1)] by blast
    with s show ?thesis
      by (meson rtranclp_trans)
  qed
qed

text \<open>The sending loop of a machine that is not disturbed, and of all of them in turn.\<close>

definition sending_loop :: "own list" where
  "sending_loop = concat (replicate 12 [Post, Append])"

definition sent_all :: "int \<Rightarrow> Peer \<Rightarrow> bool" where
  "sent_all a p \<longleftrightarrow> phase p = Receiving \<and>
     list_all (\<lambda>b. b = a \<or> list_all (\<lambda>k. list_ex (\<lambda>e. se_machineID e = b \<and> se_seqNum e = k) (sentMessagesQueue p)) [0, 1, 2]) [0, 1, 2, 3, 4]"

lemma sending_loop_runs: "list_all (\<lambda>a. case own_steps sending_loop (MultiSender_start a) of None \<Rightarrow> False | Some r \<Rightarrow> sent_all a (fst r)) [0, 1, 2, 3, 4]"
  by code_simp

text \<open>Two messages of machine 0 to machine 4 go astray when \<open>Resend\<close> runs after the first of them.\<close>

definition disturbed_loop :: "own list" where
  "disturbed_loop = concat (replicate 9 [Post, Append]) @ [Post, Repeat, Append, Post, Append, Post, Append]"

definition astray :: "Peer \<times> Packet list \<Rightarrow> bool" where
  "astray r \<longleftrightarrow> phase (fst r) = Receiving \<and>
     list_all (\<lambda>e. se_machineID e = 4 \<longrightarrow> se_seqNum e = 0) (sentMessagesQueue (fst r)) \<and>
     list_all (\<lambda>pkt. p_to pkt = 4 \<longrightarrow> p_text pkt = ''msg,0'') (snd r)"

lemma disturbed_loop_runs: "case own_steps disturbed_loop (MultiSender_start 0) of None \<Rightarrow> False | Some r \<Rightarrow> astray r"
  by code_simp

lemma run_each:
  assumes "distinct as" and "set as \<subseteq> {0..<TOTALNUM}" and "\<And>a. a \<in> set as \<Longrightarrow> own_steps xs (peers w a) = Some (r a)"
  shows "\<exists>w'. step\<^sup>*\<^sup>* w w' \<and> (\<forall>a. peers w' a = (if a \<in> set as then fst (r a) else peers w a))"
  using assms
proof (induction as arbitrary: w)
  case (Cons a as)
  let ?w = "update_peer a (r a) w"
  have "step\<^sup>*\<^sup>* w ?w"
    using Cons.prems by (intro own_steps_steps) auto
  moreover have "own_steps xs (peers ?w b) = Some (r b)" if "b \<in> set as" for b
    using that Cons.prems by (auto simp: update_peer_def)
  then obtain w' where "step\<^sup>*\<^sup>* ?w w'" "\<forall>b. peers w' b = (if b \<in> set as then fst (r b) else peers ?w b)"
    using Cons.IH [of ?w] Cons.prems by auto
  ultimately show ?case
    using Cons.prems(1) by (intro exI [of _ w']) (auto simp: update_peer_def)
qed auto

lemma machines: "{0..<TOTALNUM} = set [0, 1, 2, 3, 4 :: int]"
  by auto

lemma sent_allD:
  assumes "sent_all a p" and "other a b" and "k < 3"
  shows "\<exists>e\<in>set (sentMessagesQueue p). se_machineID e = b \<and> se_seqNum e = k"
proof -
  have "b \<in> set [0, 1, 2, 3, 4]" "b \<noteq> a"
    using assms(2) by (auto simp: other_def)
  then have "list_all (\<lambda>k. list_ex (\<lambda>e. se_machineID e = b \<and> se_seqNum e = k) (sentMessagesQueue p)) [0, 1, 2]"
    using assms(1) unfolding sent_all_def list_all_iff by blast
  moreover have "k \<in> set [0, 1, 2]"
    using assms(3) by auto
  ultimately show ?thesis
    unfolding list_all_iff list_ex_iff by blast
qed

lemma each_sends:
  assumes "a \<in> {0..<TOTALNUM}"
  obtains r where "own_steps sending_loop (MultiSender_start a) = Some r" "sent_all a (fst r)"
proof -
  have "case own_steps sending_loop (MultiSender_start a) of None \<Rightarrow> False | Some r \<Rightarrow> sent_all a (fst r)"
    using sending_loop_runs assms unfolding machines list_all_iff by blast
  then show thesis
    using that by (cases "own_steps sending_loop (MultiSender_start a)") simp_all
qed

lemma all_sent:
  obtains w where "reachable w" "complete w" "\<forall>c\<in>{0..<TOTALNUM}. phase (peers w c) = Receiving"
    "\<forall>c\<in>{0..<TOTALNUM}. sentMessagesQueue (peers w c) \<noteq> []"
proof -
  define r where "r a = the (own_steps sending_loop (MultiSender_start a))" for a
  have r: "own_steps sending_loop (peers start a) = Some (r a)" "sent_all a (fst (r a))" if a: "a \<in> {0..<TOTALNUM}" for a
  proof -
    obtain x where "own_steps sending_loop (MultiSender_start a) = Some x" "sent_all a (fst x)"
      using each_sends [OF a] .
    then show "own_steps sending_loop (peers start a) = Some (r a)" "sent_all a (fst (r a))"
      by (simp_all add: r_def start_def)
  qed
  have "distinct [0, 1, 2, 3, 4 :: int]"
    by simp
  from run_each [OF this, of sending_loop start r, folded machines, OF order.refl r(1)]
  obtain w where s: "step\<^sup>*\<^sup>* start w" and w: "\<forall>a. peers w a = (if a \<in> {0..<TOTALNUM} then fst (r a) else peers start a)"
    by blast
  have sent: "sent_all c (peers w c)" if "c \<in> {0..<TOTALNUM}" for c
    using w r(2) [OF that] that by simp
  have "complete w"
    unfolding complete_def using sent_allD [OF sent] by (auto simp: other_def)
  moreover have "sentMessagesQueue (peers w c) \<noteq> []" if "c \<in> {0..<TOTALNUM}" for c
  proof -
    have "other c (if c = 0 then 1 else 0)"
      by (simp add: other_def)
    from sent_allD [OF sent [OF that] this, of 0] show ?thesis
      by auto
  qed
  ultimately show thesis
    using s sent by (intro that [of w] reachable_steps [OF reachable.init]) (auto simp: sent_all_def)
qed

lemma recorded_member:
  assumes "cluster_ok w" and "other b a" "other a b" and "k < length (recorded (peers w b) a)"
  shows "int k \<in> set (recorded (peers w b) a)"
proof -
  obtain n where "recorded (peers w b) a = map int [0..<n]"
    using cluster_peer [OF assms(1), of b] assms(2,3) unfolding peer_ok_def in_order_def other_def by fastforce
  with assms(4) show ?thesis
    by simp
qed

text \<open>What the steps do to the lists of unacknowledged and of recorded messages.\<close>

lemma mail_msg_effect:
  assumes ok: "peer_ok a p" and tx: "p_text pkt = tagged ''msg'' k" and k: "k < 3" and b: "other a (p_from pkt)" and r: "do_mail pkt p = Inr r"
  shows "sentMessagesQueue (fst r) = sentMessagesQueue p" "\<forall>x\<in>set (snd r). p_text x = tagged ''ack'' k"
    "\<forall>c. 0 \<le> c \<and> c < TOTALNUM \<longrightarrow> recorded (fst r) c =
       (if c = p_from pkt \<and> k = length (recorded p c) then recorded p c @ [int k] else recorded p c)"
proof -
  obtain n where n: "recorded p (p_from pkt) = map int [0..<n]"
    using ok b unfolding peer_ok_def in_order_def other_def by fastforce
  note m = do_mail_msg [OF ok tx k b n]
  show "sentMessagesQueue (fst r) = sentMessagesQueue p" "\<forall>x\<in>set (snd r). p_text x = tagged ''ack'' k"
    using m r by (auto simp: packet_def)
  show "\<forall>c. 0 \<le> c \<and> c < TOTALNUM \<longrightarrow> recorded (fst r) c =
       (if c = p_from pkt \<and> k = length (recorded p c) then recorded p c @ [int k] else recorded p c)"
    using m r n b ok by (auto simp: recorded_def nth_list_update other_def peer_ok_def dest: arg_cong [of _ _ length])
qed

lemma mail_ack_effect:
  assumes ok: "peer_ok a p" and tx: "p_text pkt = tagged ''ack'' k" and k: "k < 3" and r: "do_mail pkt p = Inr r"
  shows "snd r = []" "recorded (fst r) = recorded p"
    "mset (sentMessagesQueue (fst r)) = mset (sentMessagesQueue p) \<or>
     (\<exists>e. ack_for k (p_from pkt) e \<and> mset (sentMessagesQueue p) = add_mset e (mset (sentMessagesQueue (fst r))))"
proof -
  obtain q where "do_mail pkt p = Inr (p\<lparr>outPktHdrEC_to := p_from pkt, outMailHdrEC_to := p_mailFrom pkt,
      sentMessagesQueue := q, sizeofList := int (length q)\<rparr>, [])"
    and "mset q = mset (sentMessagesQueue p) \<and> (\<forall>e\<in>set q. \<not> ack_for k (p_from pkt) e) \<or>
         (\<exists>e. ack_for k (p_from pkt) e \<and> mset (sentMessagesQueue p) = add_mset e (mset q))"
    using do_mail_ack [OF ok tx k] .
  with r show "snd r = []" "recorded (fst r) = recorded p"
    "mset (sentMessagesQueue (fst r)) = mset (sentMessagesQueue p) \<or>
     (\<exists>e. ack_for k (p_from pkt) e \<and> mset (sentMessagesQueue p) = add_mset e (mset (sentMessagesQueue (fst r))))"
    by (auto simp: recorded_def fun_eq_iff)
qed

lemma step_effect [consumes 2, case_names own msg ack]:
  assumes "step w w'" and ok: "cluster_ok w"
  obtains
    a x r where "a \<in> {0..<TOTALNUM}" "w' = update_peer a r w" "keeps a (peers w a) r" "own_step x (peers w a) = Some r"
  | a pkt k r where "a \<in> {0..<TOTALNUM}" "w' = update_peer a r w" "pkt \<in> set (wire w)" "p_to pkt = a" "p_text pkt = tagged ''msg'' k"
      "sentMessagesQueue (fst r) = sentMessagesQueue (peers w a)" "\<forall>x\<in>set (snd r). p_text x = tagged ''ack'' k"
      "\<forall>c. 0 \<le> c \<and> c < TOTALNUM \<longrightarrow> recorded (fst r) c =
         (if c = p_from pkt \<and> k = length (recorded (peers w a) c) then recorded (peers w a) c @ [int k] else recorded (peers w a) c)"
  | a pkt k r where "a \<in> {0..<TOTALNUM}" "w' = update_peer a r w" "pkt \<in> set (wire w)" "p_to pkt = a" "p_text pkt = tagged ''ack'' k"
      "snd r = []" "recorded (fst r) = recorded (peers w a)"
      "mset (sentMessagesQueue (fst r)) = mset (sentMessagesQueue (peers w a)) \<or>
       (\<exists>e. ack_for k (p_from pkt) e \<and> mset (sentMessagesQueue (peers w a)) = add_mset e (mset (sentMessagesQueue (fst r))))"
  using assms(1)
proof cases
  case (post a r)
  then show ?thesis
    using that(1) [of a r Post] do_post_keeps [OF cluster_peer [OF ok]] by simp
next
  case (append a r)
  then show ?thesis
    using that(1) [of a r Append] do_append_keeps [OF cluster_peer [OF ok]] by simp
next
  case (resend a r)
  then show ?thesis
    using that(1) [of a r Repeat] do_resend_keeps [OF cluster_peer [OF ok]] by simp
next
  case (mail a pkt r)
  have p: "peer_ok a (peers w a)" and "packet_ok (peers w (p_from pkt)) pkt" "peer_ok (p_from pkt) (peers w (p_from pkt))"
    and "0 \<le> p_from pkt" "p_from pkt < TOTALNUM"
    using ok mail(2,4) by (auto simp: cluster_ok_def)
  then obtain k where b: "other a (p_from pkt)" "k < 3" and "p_text pkt = tagged ''msg'' k \<or> p_text pkt = tagged ''ack'' k"
    using mail(2,5) by (auto simp: packet_ok_def other_def peer_ok_def)
  then show ?thesis
    using that(2) [OF mail(2,1,4,5) _ mail_msg_effect [OF p _ b(2,1) mail(6)]]
      that(3) [OF mail(2,1,4,5) _ mail_ack_effect [OF p _ b(2) mail(6)]] by metis
qed

text \<open>What the loss of the messages keeps.\<close>

definition lost :: "Cluster \<Rightarrow> bool" where
  "lost w \<longleftrightarrow> cluster_ok w \<and> phase (peers w 0) = Receiving \<and>
     (\<forall>e\<in>set (sentMessagesQueue (peers w 0)). se_machineID e = 4 \<longrightarrow> se_seqNum e = 0) \<and>
     (\<forall>pkt\<in>set (wire w). p_from pkt = 0 \<and> p_to pkt = 4 \<longrightarrow> (\<forall>k. p_text pkt = tagged ''msg'' k \<longrightarrow> k = 0)) \<and>
     length (recorded (peers w 4) 0) \<le> 1"

lemma lost_step:
  assumes "step w w'" and lost: "lost w"
  shows "lost w'"
proof -
  have ok: "cluster_ok w"
    using lost by (simp add: lost_def)
  have ok': "cluster_ok w'" "phase (peers w' 0) = Receiving"
    using step_cluster_ok [OF assms(1) ok] step_stays_receiving [OF assms(1) ok] lost by (auto simp: lost_def)
  from assms(1) ok show ?thesis
  proof (cases rule: step_effect)
    case (own a x r)
    have "netname (fst r) = a" "\<And>pkt. pkt \<in> set (snd r) \<Longrightarrow> p_from pkt = a"
      using own(3) by (auto simp: keeps_def peer_ok_def packet_ok_def)
    moreover have "recorded (fst r) = recorded (peers w a)"
      using own_step_received [OF own(4)] by (simp add: recorded_def fun_eq_iff)
    moreover have "sentMessagesQueue (fst r) = sentMessagesQueue (peers w a)"
      "\<And>pkt. pkt \<in> set (snd r) \<Longrightarrow> \<exists>e\<in>set (sentMessagesQueue (peers w a)). p_to pkt = se_machineID e \<and> p_text pkt = se_msg e"
      if "a = 0"
      using own(4) that lost by (cases x; auto simp: lost_def do_post_def do_append_def do_resend_def Resend_def fold_resend
          split: if_splits)+
    ultimately show ?thesis
      using lost ok' own(2) cluster_peer [OF ok own(1)]
      by (fastforce simp: lost_def update_peer_def peer_ok_def entry_ok_def)
  next
    case (msg a pkt k r)
    then show ?thesis
      using lost ok' unfolding lost_def update_peer_def by auto
  next
    case (ack a pkt k r)
    then show ?thesis
      using lost ok' shrunk_subset [OF ack(8)] unfolding lost_def update_peer_def by auto
  qed
qed

definition delivered :: "Cluster \<Rightarrow> bool" where
  "delivered w \<longleftrightarrow> (\<forall>a\<in>{0..<TOTALNUM}. sentMessagesQueue (peers w a) = [] \<and>
     (\<forall>b\<in>{0..<TOTALNUM}. b \<noteq> a \<longrightarrow> recorded (peers w b) a = [0, 1, 2]))"

lemma recorded_all:
  assumes "cluster_ok w" "complete w" "other a b" "other b a" "sentMessagesQueue (peers w a) = []"
  shows "recorded (peers w b) a = [0, 1, 2]"
proof -
  obtain n where n: "n \<le> 3" "recorded (peers w b) a = map int [0..<n]"
    using cluster_peer [OF assms(1), of b] assms(3,4) unfolding peer_ok_def in_order_def other_def by fastforce
  have "(2 :: nat) < 3"
    by simp
  with assms(2-5) have "2 < length (recorded (peers w b) a)"
    unfolding complete_def by fastforce
  with n have "n = 3"
    by simp
  with n show ?thesis
    by (simp add: upt_rec)
qed

lemma delivered_reachable:
  assumes ok: "cluster_ok w" and "complete w" and "\<forall>c\<in>{0..<TOTALNUM}. phase (peers w c) = Receiving"
  shows "\<exists>w'. step\<^sup>*\<^sup>* w w' \<and> delivered w'"
proof -
  obtain w' where w': "step\<^sup>*\<^sup>* w w'" "complete w'" "\<forall>c\<in>{0..<TOTALNUM}. sentMessagesQueue (peers w' c) = []"
    using deliver_all [OF ok assms(2,3)] by blast
  with recorded_all [OF steps_ok [OF w'(1) ok] w'(2)] have "delivered w'"
    by (auto simp: delivered_def other_def)
  with w'(1) show ?thesis
    by blast
qed

text \<open>C14. In every reachable state the messages that machine \<open>b\<close> has recorded of machine \<open>a\<close> are 0, 1, 2 in this order,
  up to some number: none twice, none before its predecessor, whatever is lost, repeated or delayed.\<close>

theorem received_in_order:
  assumes "reachable w" and "a \<in> {0..<TOTALNUM}" and "b \<in> {0..<TOTALNUM}"
  shows "\<exists>n\<le>3. recorded (peers w b) a = map int [0..<n]"
  using cluster_peer [OF reachable_ok [OF assms(1)] assms(3)] assms(2) unfolding peer_ok_def in_order_def by blast

theorem received_in_order_witness:
  "\<exists>w. reachable w \<and> recorded (peers w 1) 0 = [0, 1, 2] \<and> (\<exists>n\<le>3. recorded (peers w 1) 0 = map int [0..<n])"
proof -
  obtain w where "reachable w" "delivered w"
    using all_sent delivered_reachable [OF reachable_ok] reachable_steps by metis
  then show ?thesis
    using received_in_order [of w 0 1] by (intro exI [of _ w]) (simp add: delivered_def)
qed

text \<open>No packet that can arrive makes the receiving loop fail: the text always has its two parts, the list of
  received messages exists, and the search for an acknowledged entry never runs past the end of the list.\<close>

theorem mail_never_fails:
  assumes "reachable w" and "pkt \<in> set (wire w)"
  shows "\<exists>r. do_mail pkt (peers w (p_to pkt)) = Inr r"
  using mail_keeps [OF reachable_ok [OF assms(1)] assms(2) refl] by metis

theorem mail_never_fails_witness:
  "\<exists>w pkt r. reachable w \<and> pkt \<in> set (wire w) \<and> do_mail pkt (peers w (p_to pkt)) = Inr r"
proof -
  obtain r where r: "own_step Post (MultiSender_start 0) = Some r" "snd r \<noteq> []"
    by (auto simp: do_post_def MultiSender_start_def begin_machine_def destination_def Let_def upto.simps)
  then have "reachable (update_peer 0 r start)"
    using own_step_step [of Post start 0 r] reachable.init reachable.more by (simp add: start_def)
  moreover have "hd (snd r) \<in> set (wire (update_peer 0 r start))"
    using r(2) by (simp add: update_peer_def start_def)
  ultimately show ?thesis
    using mail_never_fails by blast
qed

lemma own_step_queue: "own_step x p = Some r \<Longrightarrow> mset (sentMessagesQueue p) \<subseteq># mset (sentMessagesQueue (fst r))"
  by (cases x) (auto simp: do_post_def do_append_def do_resend_def Resend_def fold_resend begin_machine_def Let_def
      split: phase.splits option.splits)

lemma queue_shrinks:
  assumes "step w w'" and "cluster_ok w" and e: "e \<in># mset (sentMessagesQueue (peers w a)) - mset (sentMessagesQueue (peers w' a))"
  obtains pkt k where "pkt \<in> set (wire w)" "p_to pkt = a" "p_text pkt = tagged ''ack'' k" "ack_for k (p_from pkt) e"
  using assms(1,2)
proof (cases rule: step_effect)
  case (own b x r)
  then have "mset (sentMessagesQueue (peers w a)) \<subseteq># mset (sentMessagesQueue (peers w' a))"
    using own_step_queue by (auto simp: update_peer_def)
  then have "mset (sentMessagesQueue (peers w a)) - mset (sentMessagesQueue (peers w' a)) = {#}"
    by (simp only: Diff_eq_empty_iff_mset)
  with e have False
    by simp
  then show ?thesis ..
next
  case (msg b pkt k r)
  then show ?thesis
    using e by (auto simp: update_peer_def split: if_splits)
next
  case (ack b pkt k r)
  then show ?thesis
    using e that by (auto simp: update_peer_def split: if_splits)
qed

lemma acknowledged_step:
  obtains w w' e where "reachable w" "step w w'"
    "mset (sentMessagesQueue (peers w 0)) = add_mset e (mset (sentMessagesQueue (peers w' 0)))"
proof -
  obtain w where w: "reachable w" "complete w" "\<forall>c\<in>{0..<TOTALNUM}. phase (peers w c) = Receiving"
    "\<forall>c\<in>{0..<TOTALNUM}. sentMessagesQueue (peers w c) \<noteq> []"
    using all_sent .
  have ok: "cluster_ok w" and r: "0 \<in> {0..<TOTALNUM}"
    using reachable_ok [OF w(1)] by auto
  obtain e where e: "e \<in> set (sentMessagesQueue (peers w 0))" "se_seqNum e \<le> length (recorded (peers w (se_machineID e)) 0)"
    using due_entry [OF ok w(2) r] w(4) r by blast
  obtain w1 ack where s: "step\<^sup>*\<^sup>* w w1" "\<forall>c. sentMessagesQueue (peers w1 c) = sentMessagesQueue (peers w c)"
    and ack: "ack \<in> set (wire w1)" "p_from ack = se_machineID e" "p_to ack = 0" "p_text ack = tagged ''ack'' (se_seqNum e)"
    using message_arrives [OF ok r w(3) e] .
  have "phase (peers w1 0) = Receiving" "e \<in> set (sentMessagesQueue (peers w1 0))"
    using steps_receiving [OF s(1) ok] w(3) r s(2) e(1) by auto
  then obtain w2 where "step w1 w2" "mset (sentMessagesQueue (peers w1 0)) = add_mset e (mset (sentMessagesQueue (peers w2 0)))"
    using ack_arrives [OF steps_ok [OF s(1) ok] r _ _ ack] by blast
  with reachable_steps [OF w(1) s(1)] show thesis
    by (rule that)
qed

text \<open>C15. A machine forgets a message only when its destination has recorded it.\<close>

theorem forgotten_is_recorded:
  assumes "reachable w" and "step w w'" and a: "a \<in> {0..<TOTALNUM}"
    and e: "e \<in># mset (sentMessagesQueue (peers w a)) - mset (sentMessagesQueue (peers w' a))"
  shows "int (se_seqNum e) \<in> set (recorded (peers w (se_machineID e)) a)"
proof -
  have ok: "cluster_ok w"
    by (rule reachable_ok [OF assms(1)])
  obtain pkt k where pkt: "pkt \<in> set (wire w)" "p_to pkt = a" "p_text pkt = tagged ''ack'' k" "ack_for k (p_from pkt) e"
    using queue_shrinks [OF assms(2) ok e] .
  have "e \<in> set (sentMessagesQueue (peers w a))"
    using in_diffD [OF e] by simp
  then have "other a (se_machineID e)"
    using cluster_peer [OF ok a] by (auto simp: peer_ok_def entry_ok_def)
  then show ?thesis
    using ack_recorded [OF ok pkt(1,3)] pkt(2,4) a by (intro recorded_member [OF ok]) (auto simp: ack_for_def other_def)
qed

theorem forgotten_is_recorded_witness:
  "\<exists>w w' e. reachable w \<and> step w w' \<and> e \<in># mset (sentMessagesQueue (peers w 0)) - mset (sentMessagesQueue (peers w' 0)) \<and>
     int (se_seqNum e) \<in> set (recorded (peers w (se_machineID e)) 0)"
proof -
  obtain w w' e where "reachable w" "step w w'" "mset (sentMessagesQueue (peers w 0)) = add_mset e (mset (sentMessagesQueue (peers w' 0)))"
    using acknowledged_step .
  then have "reachable w \<and> step w w' \<and> e \<in># mset (sentMessagesQueue (peers w 0)) - mset (sentMessagesQueue (peers w' 0))"
    by simp
  then show ?thesis
    using forgotten_is_recorded [of w w' 0 e] by (intro exI [of _ w] exI [of _ w'] exI [of _ e]) simp
qed

text \<open>C16. Repetition makes up for loss. In a state in which all machines receive and every message is recorded or still on the list of its
  sender, let all packets be lost that are on their way. From there a run exists after which all lists are empty and every
  machine has recorded the three messages of every other one; without \<open>Resend\<close> no packet would ever arrive again.\<close>

theorem every_message_can_arrive:
  assumes "reachable w" and "complete w" and "\<forall>c\<in>{0..<TOTALNUM}. phase (peers w c) = Receiving"
  shows "\<exists>w'. step\<^sup>*\<^sup>* (w\<lparr>wire := []\<rparr>) w' \<and> delivered w'"
  using reachable_ok [OF assms(1)] assms(2,3)
  by (intro delivered_reachable) (simp_all add: cluster_ok_def complete_def)

theorem every_message_can_arrive_witness:
  "\<exists>w w'. reachable w \<and> (\<forall>c\<in>{0..<TOTALNUM}. sentMessagesQueue (peers w c) \<noteq> []) \<and> step\<^sup>*\<^sup>* (w\<lparr>wire := []\<rparr>) w' \<and> delivered w'"
proof -
  obtain w where "reachable w" "complete w" "\<forall>c\<in>{0..<TOTALNUM}. phase (peers w c) = Receiving"
    "\<forall>c\<in>{0..<TOTALNUM}. sentMessagesQueue (peers w c) \<noteq> []"
    using all_sent .
  with every_message_can_arrive show ?thesis
    by blast
qed

definition never_recorded :: "Cluster \<Rightarrow> int \<Rightarrow> int \<Rightarrow> int \<Rightarrow> bool" where
  "never_recorded w b a k \<longleftrightarrow> (\<forall>w'. step\<^sup>*\<^sup>* w w' \<longrightarrow> k \<notin> set (recorded (peers w' b) a))"

lemma lost_steps: "step\<^sup>*\<^sup>* w w' \<Longrightarrow> lost w \<Longrightarrow> lost w'"
  by (induction rule: rtranclp_induct) (auto intro: lost_step)

lemma lost_never:
  assumes "lost w" and "0 < k"
  shows "never_recorded w 4 0 k"
proof -
  have "k \<notin> set (recorded (peers w' 4) 0)" if s: "step\<^sup>*\<^sup>* w w'" for w'
  proof -
    have "lost w'"
      by (rule lost_steps [OF s assms(1)])
    then have ok: "peer_ok 4 (peers w' 4)" and len: "length (recorded (peers w' 4) 0) \<le> 1"
      using cluster_peer [of w' 4] by (auto simp: lost_def)
    then obtain n where "recorded (peers w' 4) 0 = map int [0..<n]"
      unfolding peer_ok_def in_order_def by fastforce
    with len assms(2) show ?thesis
      by auto
  qed
  then show ?thesis
    by (simp add: never_recorded_def)
qed



text \<open>The effect on all machines: there is a run after which two messages of machine 0 never reach machine 4.\<close>

theorem resend_race_loses_messages:
  "\<exists>w. reachable w \<and> phase (peers w 0) = Receiving \<and> never_recorded w 4 0 1 \<and> never_recorded w 4 0 2"
proof -
  obtain r where r: "own_steps disturbed_loop (MultiSender_start 0) = Some r" "astray r"
    using disturbed_loop_runs by (cases "own_steps disturbed_loop (MultiSender_start 0)") auto
  let ?w = "update_peer 0 r start"
  have s: "step\<^sup>*\<^sup>* start ?w"
    using r(1) by (intro own_steps_steps [of disturbed_loop]) (simp_all add: start_def)
  have "recorded (peers ?w 4) 0 = []"
    by (simp add: update_peer_def start_def MultiSender_start_def begin_machine_def recorded_def split: option.splits)
  moreover have "''msg,0'' = tagged ''msg'' 0"
    by code_simp
  ultimately have "lost ?w"
    using r(2) steps_ok [OF s start_cluster_ok]
    by (auto simp: lost_def astray_def list_all_iff update_peer_def start_def)
  then show ?thesis
    using reachable_steps [OF reachable.init s] lost_never by (intro exI [of _ ?w]) (auto simp: lost_def)
qed

section \<open>One destination is the case of one partner\<close>

lemma ack_loop_cong:
  assumes "\<And>e. e \<in> set q \<Longrightarrow> match e = match' e"
  shows "ack_loop n match q sz = ack_loop n match' q sz"
  using assms
proof (induction n arbitrary: q)
  case (Suc n)
  show ?case
  proof (cases q)
    case (Cons e es)
    then have "ack_loop n match (es @ [e]) sz = ack_loop n match' (es @ [e]) sz"
      using Suc.prems by (intro Suc.IH) auto
    with Cons Suc.prems show ?thesis
      by simp
  qed simp
qed simp

text \<open>With one partner the single list and the comparison of numbers are enough: \<open>Sender\<close> treats a packet as
  \<open>MultiSender\<close> does, the list of its partner being the only one.\<close>

theorem Sender_mail_one_partner:
  assumes "0 \<le> p_from pkt" and "p_from pkt < int (length (multiReceivedMsgQueue p))"
    and "receivedMsgQueue p = multiReceivedMsgQueue p ! nat (p_from pkt)"
    and partner: "\<forall>e\<in>set (sentMessagesQueue p). se_machineID e = p_from pkt"
  shows "Sender_mail pkt p =
    bindE (do_mail pkt p) (\<lambda>(q, out). Inr (q\<lparr>receivedMsgQueue := multiReceivedMsgQueue q ! nat (p_from pkt),
      multiReceivedMsgQueue := multiReceivedMsgQueue p\<rparr>, out))"
proof -
  have "ack_loop n (\<lambda>e. int (se_seqNum e) = x \<and> se_machineID e = p_from pkt) (sentMessagesQueue p) sz =
        ack_loop n (\<lambda>e. int (se_seqNum e) = x) (sentMessagesQueue p) sz" for n x sz
    using partner by (intro ack_loop_cong) auto
  with assms(1-3) show ?thesis
    by (auto simp: Sender_mail_def do_mail_def Let_def bindE_def array_get_def array_set_def packet_def
        split: option.splits sum.splits prod.splits)
qed

definition partner :: Peer where
  "partner = \<lparr>netname = 0, phase = Receiving, sentMessagesQueue = [\<lparr>se_seqNum = 0, se_msg = ''msg,0'', se_machineID = 1, se_mailboxNum = 0\<rparr>],
     sizeofList = 1, receivedMsgQueue = [], multiReceivedMsgQueue = replicate 5 [], outPktHdrEC_to = 1, outMailHdrEC_to = 0\<rparr>"

definition partner_packet :: "string \<Rightarrow> Packet" where
  "partner_packet text = \<lparr>p_from = 1, p_to = 0, p_mailFrom = 0, p_mailTo = 0, p_text = text\<rparr>"

theorem Sender_mail_one_partner_witness:
  "Sender_mail (partner_packet ''ack,0'') partner =
     bindE (do_mail (partner_packet ''ack,0'') partner) (\<lambda>(q, out). Inr (q\<lparr>receivedMsgQueue := multiReceivedMsgQueue q ! 1,
       multiReceivedMsgQueue := multiReceivedMsgQueue partner\<rparr>, out)) \<and>
   map_sum id (\<lambda>(q, out). (length (sentMessagesQueue q), map p_text out)) (Sender_mail (partner_packet ''ack,0'') partner) = Inr (0, []) \<and>
   map_sum id (\<lambda>(q, out). (length (sentMessagesQueue q), map p_text out)) (Sender_mail (partner_packet ''msg,0'') partner) = Inr (1, [''ack,0''])"
proof (intro conjI)
  show "Sender_mail (partner_packet ''ack,0'') partner =
     bindE (do_mail (partner_packet ''ack,0'') partner) (\<lambda>(q, out). Inr (q\<lparr>receivedMsgQueue := multiReceivedMsgQueue q ! 1,
       multiReceivedMsgQueue := multiReceivedMsgQueue partner\<rparr>, out))"
    using Sender_mail_one_partner [of "partner_packet ''ack,0''" partner] by (simp add: partner_def partner_packet_def)
qed code_simp+

end
