(* ===== verification/Nachos_Register.thy ===== *)
theory Nachos_Register
  imports Nachos_Sender
begin

text \<open>
  How the network threads get to know each other. Machine 0 runs the registration server of
  \<^verbatim>\<open>network/nettest.cc\<close>: it is told how many threads there will be, counts the threads that register, by machine, and when all have
  registered sends every one of them the table of machines and counts. A network thread
  (\<open>network_thread\<close> in \<^verbatim>\<open>userprog/exception.cc\<close>) turns the table into the list of the identities of all
  threads, which it uses to address them.

  Bytes are characters. A buffer is the list of its characters, and a pointer into it an offset.
\<close>

section \<open>The server\<close>

record Registry =
  mIDCounter :: int
  tIDCounter :: int
  sumThread :: int
  ThreadTable :: "int list"
  machineID :: "int list"

definition MailTest_start :: Registry where
  "MailTest_start = \<lparr>mIDCounter = 0, tIDCounter = 0, sumThread = 0, ThreadTable = replicate 10 0, machineID = replicate 10 (-1)\<rparr>"

record Reply =
  r_machine :: int
  r_box :: int
  r_data :: string

definition to_byte :: "int \<Rightarrow> char" where
  "to_byte n = char_of (n mod 256)"

definition itob :: "int \<Rightarrow> char" where
  "itob u = to_byte u"

text \<open>The conversion to a byte binds tighter than the shift.\<close>

definition table_entry :: "int \<Rightarrow> int \<Rightarrow> string" where
  "table_entry mid tt = [to_byte mid, to_byte ((tt mod 256) div 2 ^ 8), to_byte tt]"

definition make_package :: "Registry \<Rightarrow> string" where
  "make_package r =
     (let temp = concat (map (\<lambda>(mid, tt). table_entry mid tt) (takeWhile (\<lambda>(mid, tt). tt \<noteq> 0) (zip (machineID r) (ThreadTable r))));
          send = take (nat (mIDCounter r * 3)) (temp @ replicate (300 - length temp) (CHR 0x00));
          dat = itob (mIDCounter r) # CHR '','' # send
      in take (nat (3 + mIDCounter r * 3)) (dat @ replicate (40 - length dat) (CHR 0x00)))"

definition start_replies :: "Registry \<Rightarrow> Reply list" where
  "start_replies r =
     concat (map (\<lambda>(mid, tt). map (\<lambda>j. \<lparr>r_machine = mid, r_box = (j + 1) * 2 - 1, r_data = make_package r\<rparr>) [0..tt - 1])
       (takeWhile (\<lambda>(mid, tt). mid \<noteq> -1) (zip (machineID r) (ThreadTable r))))"

text \<open>The first of the known machines that is the sender, or none.\<close>

definition find_machine :: "int \<Rightarrow> Registry \<Rightarrow> int option" where
  "find_machine m r = find (\<lambda>i. machineID r ! nat i = m) [0..mIDCounter r - 1]"

definition new_machine :: "int \<Rightarrow> string \<Rightarrow> Registry \<Rightarrow> Registry res" where
  "new_machine m args r =
     bindE (array_set (machineID r) (mIDCounter r) m) (\<lambda>ids.
       case strtok args of
         None \<Rightarrow> Inl NullDereference
       | Some (arg1, rest) \<Rightarrow>
           (case strtok rest of
              None \<Rightarrow> Inl NullDereference
            | Some (arg2, _) \<Rightarrow>
                bindE (array_get (ThreadTable r) (mIDCounter r)) (\<lambda>n.
                bindE (array_set (ThreadTable r) (mIDCounter r) (n + 1)) (\<lambda>tab.
                  Inr (r\<lparr>machineID := ids, ThreadTable := tab, mIDCounter := mIDCounter r + 1\<rparr>)))))"

definition old_machine :: "int \<Rightarrow> Registry \<Rightarrow> Registry res" where
  "old_machine i r =
     bindE (array_get (ThreadTable r) i) (\<lambda>n.
     bindE (array_set (ThreadTable r) i (n + 1)) (\<lambda>tab. Inr (r\<lparr>ThreadTable := tab\<rparr>)))"

text \<open>One turn of the loop: the new state, what is sent, and whether the server halts.\<close>

definition MailTest_turn :: "int \<Rightarrow> string \<Rightarrow> Registry \<Rightarrow> (Registry \<times> Reply list \<times> bool) res" where
  "MailTest_turn m text r =
     (case strtok text of
        None \<Rightarrow> Inl NullDereference
      | Some (requestType, args) \<Rightarrow>
          if hd requestType = CHR ''n'' then
            if sumThread r \<noteq> 0 then Inr (r, [], False)
            else (case strtok args of
                    None \<Rightarrow> Inl NullDereference
                  | Some (arg1, _) \<Rightarrow> Inr (r\<lparr>sumThread := atoi arg1\<rparr>, [], False))
          else if hd requestType = CHR ''m'' then
            if sumThread r = 0 then Inr (r, [], True)
            else
              bindE (case find_machine m r of Some i \<Rightarrow> old_machine i r | None \<Rightarrow> new_machine m args r) (\<lambda>r.
                let r = r\<lparr>tIDCounter := tIDCounter r + 1\<rparr> in
                if tIDCounter r = sumThread r then Inr (r, start_replies r, True) else Inr (r, [], False))
          else Inr (r, [], False))"

text \<open>The server takes messages, of which it sees the machine of the sender and the text, until it halts.\<close>

fun MailTest :: "(int \<times> string) list \<Rightarrow> Registry \<Rightarrow> (Registry \<times> Reply list \<times> bool) res" where
  "MailTest [] r = Inr (r, [], False)"
| "MailTest ((m, text) # ms) r =
     bindE (MailTest_turn m text r) (\<lambda>(r', out, halt).
       if halt then Inr (r', out, True)
       else bindE (MailTest ms r') (\<lambda>(r'', out', halt'). Inr (r'', out @ out', halt')))"

section \<open>The network thread\<close>

text \<open>What a network thread tells the server: the number of threads, if the command line gives it, and itself. The machine
  number in the second message comes from a header that is not set; the server does not use it.\<close>

definition register_messages :: "nat \<Rightarrow> string \<Rightarrow> nat \<Rightarrow> string list" where
  "register_messages tt sender mailBox =
     (if tt \<noteq> 0 then [tagged ''n'' tt] else []) @ [''m,'' @ sender @ '','' @ decimal mailBox]"

text \<open>\<open>strtok\<close> on a buffer: from an offset on, the start of the token, the offset to go on from, and the buffer with the
  comma behind the token overwritten.\<close>

definition strtok_at :: "nat \<Rightarrow> string \<Rightarrow> (nat \<times> nat \<times> string) option" where
  "strtok_at pos buf =
     (let i = pos + length (takeWhile (\<lambda>c. c = CHR '','') (drop pos buf));
          j = i + length (takeWhile (\<lambda>c. c \<noteq> CHR '','' \<and> c \<noteq> CHR 0x00) (drop i buf)) in
      if i = j then None
      else if j < length buf \<and> buf ! j = CHR '','' then Some (i, j + 1, buf[j := CHR 0x00])
      else Some (i, j, buf))"

definition info_byte :: "string \<Rightarrow> nat \<Rightarrow> int res" where
  "info_byte buf i = (if i < length buf then Inr (of_char (buf ! i)) else Inl OutOfRange)"

definition machine_ids :: "int \<Rightarrow> int \<Rightarrow> int list" where
  "machine_ids mid n = map (\<lambda>k. mid * 100 + (2 * (k + 1) - 1)) [0..n - 1]"

fun read_table :: "nat \<Rightarrow> nat \<Rightarrow> string \<Rightarrow> int list res" where
  "read_table 0 info buf = Inr []"
| "read_table (Suc n) info buf =
     bindE (info_byte buf info) (\<lambda>mid.
     bindE (info_byte buf (info + 1)) (\<lambda>infol.
     bindE (info_byte buf (info + 2)) (\<lambda>infor.
     bindE (read_table n (info + 3) buf) (\<lambda>ids.
       Inr (machine_ids mid (infol * 2 ^ 8 + infor) @ ids)))))"

definition read_ids :: "string \<Rightarrow> int list res" where
  "read_ids buf =
     (case strtok_at 0 buf of
        None \<Rightarrow> Inl NullDereference
      | Some (b, save, buf) \<Rightarrow>
          bindE (info_byte buf b) (\<lambda>tMachine.
            case strtok_at save buf of
              None \<Rightarrow> if tMachine = 0 then Inr [] else Inl NullDereference
            | Some (info, _, buf) \<Rightarrow> read_table (nat tMachine) info buf))"

text \<open>Receiving a mail overwrites the beginning of the buffer.\<close>

definition receive_into :: "string \<Rightarrow> string \<Rightarrow> string" where
  "receive_into dat buf = dat @ drop (length dat) buf"

text \<open>Where a message for a thread goes.\<close>

definition id_address :: "int \<Rightarrow> int \<times> int" where
  "id_address i = (i div 100, i mod 100)"

section \<open>Registration\<close>

text \<open>The machines in the order in which they first registered.\<close>

definition machines_of :: "int list \<Rightarrow> int list" where
  "machines_of ms = rev (remdups (rev ms))"

lemma machines_of_simps [simp]:
  "machines_of [] = []"
  "machines_of (ms @ [m]) = (if m \<in> set ms then machines_of ms else machines_of ms @ [m])"
  "set (machines_of ms) = set ms" "distinct (machines_of ms)"
  by (simp_all add: machines_of_def)

definition counts_of :: "int list \<Rightarrow> int list" where
  "counts_of ms = map (\<lambda>m. int (count_list ms m)) (machines_of ms)"

definition registered :: "int list \<Rightarrow> Registry \<Rightarrow> bool" where
  "registered ms r \<longleftrightarrow> mIDCounter r = int (length (machines_of ms)) \<and> tIDCounter r = int (length ms) \<and>
     machineID r = machines_of ms @ replicate (10 - length (machines_of ms)) (-1) \<and>
     ThreadTable r = counts_of ms @ replicate (10 - length (machines_of ms)) 0"

definition init_text :: "string \<Rightarrow> bool" where
  "init_text t \<longleftrightarrow> (\<exists>a b. t = ''m,'' @ a @ '','' @ b \<and> a \<noteq> [] \<and> b \<noteq> [] \<and> CHR '','' \<notin> set a \<and> CHR '','' \<notin> set b)"

lemma length_counts_of [simp]: "length (counts_of ms) = length (machines_of ms)"
  by (simp add: counts_of_def)

lemma start_registered: "registered [] MailTest_start"
  by (simp add: registered_def MailTest_start_def counts_of_def)

lemma find_machine_None:
  assumes "registered ms r" and "m \<notin> set ms"
  shows "find_machine m r = None"
proof -
  have "machineID r ! nat i \<in> set ms" if "i \<in> set [0..mIDCounter r - 1]" for i
    using that assms(1) nth_mem [of "nat i" "machines_of ms"] by (simp add: registered_def nth_append nat_less_iff)
  then show ?thesis
    using assms(2) by (auto simp: find_machine_def find_None_iff)
qed

lemma find_machine_Some:
  assumes "registered ms r" and "m \<in> set ms"
  obtains i where "find_machine m r = Some (int i)" "i < length (machines_of ms)" "machines_of ms ! i = m"
proof (cases "find_machine m r")
  case None
  obtain i where i: "i < length (machines_of ms)" "machines_of ms ! i = m"
    using assms(2) by (metis in_set_conv_nth machines_of_simps(3))
  then have "int i \<in> set [0..mIDCounter r - 1]" "machineID r ! nat (int i) = m"
    using assms(1) by (auto simp: registered_def nth_append)
  with None show ?thesis
    unfolding find_machine_def find_None_iff by blast
next
  case (Some i)
  then have "i \<in> set [0..mIDCounter r - 1]" "machineID r ! nat i = m"
    by (auto simp: find_machine_def find_Some_iff)
  then show ?thesis
    using Some that [of "nat i"] assms(1) by (simp add: registered_def nth_append nat_less_iff)
qed

lemma counts_old:
  assumes "i < length (machines_of ms)" and "machines_of ms ! i = m"
  shows "counts_of (ms @ [m]) = (counts_of ms)[i := counts_of ms ! i + 1]"
proof (rule nth_equalityI)
  have m: "m \<in> set ms"
    using assms nth_mem machines_of_simps(3) by metis
  then show "length (counts_of (ms @ [m])) = length ((counts_of ms)[i := counts_of ms ! i + 1])"
    by simp
  fix j
  assume "j < length (counts_of (ms @ [m]))"
  then have j: "j < length (machines_of ms)"
    using m by simp
  then have "machines_of ms ! j = m \<longleftrightarrow> j = i"
    using assms nth_eq_iff_index_eq [OF machines_of_simps(4) j assms(1)] by simp
  with m j assms show "counts_of (ms @ [m]) ! j = (counts_of ms)[i := counts_of ms ! i + 1] ! j"
    by (auto simp: counts_of_def nth_list_update)
qed

lemma counts_new:
  assumes "m \<notin> set ms"
  shows "counts_of (ms @ [m]) = counts_of ms @ [1]"
  using assms by (auto simp: counts_of_def)

lemma init_text_strtok:
  assumes "init_text t"
  obtains a b where "strtok t = Some (''m'', a @ '','' @ b)" "strtok (a @ '','' @ b) = Some (a, b)" "strtok b = Some (b, [])"
proof -
  obtain a b where t: "t = ''m,'' @ a @ '','' @ b" and ab: "a \<noteq> []" "b \<noteq> []" "CHR '','' \<notin> set a" "CHR '','' \<notin> set b"
    using assms by (auto simp: init_text_def)
  show thesis
    using that [of a b] strtok_first [of "''m''" "a @ '','' @ b"] strtok_first [OF ab(3,1), of b] strtok_whole [OF ab(4,2)]
    by (simp add: t)
qed

text \<open>A registration counts its thread.\<close>

lemma register_step:
  assumes r: "registered ms r" and "sumThread r \<noteq> 0" and t: "init_text t" and few: "length (machines_of (ms @ [m])) \<le> 10"
  obtains r' where "registered (ms @ [m]) r'" "sumThread r' = sumThread r"
    "MailTest_turn m t r =
       (if int (length ms) + 1 = sumThread r then Inr (r', start_replies r', True) else Inr (r', [], False))"
proof -
  obtain a b where ab: "strtok t = Some (''m'', a @ '','' @ b)" "strtok (a @ '','' @ b) = Some (a, b)" "strtok b = Some (b, [])"
    using init_text_strtok [OF t] .
  show thesis
  proof (cases "m \<in> set ms")
    case True
    obtain i where i: "find_machine m r = Some (int i)" "i < length (machines_of ms)" "machines_of ms ! i = m"
      using find_machine_Some [OF r True] .
    have "old_machine (int i) r = Inr (r\<lparr>ThreadTable := (ThreadTable r)[i := counts_of ms ! i + 1]\<rparr>)"
      using r i(2) few True by (simp add: old_machine_def array_get_def array_set_def registered_def nth_append)
    then show thesis
      using that [of "r\<lparr>ThreadTable := (ThreadTable r)[i := counts_of ms ! i + 1], tIDCounter := tIDCounter r + 1\<rparr>"] r i ab assms(2) True
      by (simp add: MailTest_turn_def registered_def Let_def counts_old list_update_append)
  next
    case False
    have n: "length (machines_of ms) < 10"
      using few False by simp
    then have "replicate (10 - length (machines_of ms)) x = x # replicate (10 - Suc (length (machines_of ms))) x" for x :: int
      by (simp flip: replicate_Suc)
    then have "new_machine m (a @ '','' @ b) r = Inr (r\<lparr>machineID := machines_of (ms @ [m]) @ replicate (10 - Suc (length (machines_of ms))) (-1),
        ThreadTable := counts_of (ms @ [m]) @ replicate (10 - Suc (length (machines_of ms))) 0, mIDCounter := mIDCounter r + 1\<rparr>)"
      using r ab False n
      by (simp add: new_machine_def array_get_def array_set_def registered_def list_update_append nth_append counts_new)
    then show thesis
      using that [of "r\<lparr>machineID := machines_of (ms @ [m]) @ replicate (10 - Suc (length (machines_of ms))) (-1),
        ThreadTable := counts_of (ms @ [m]) @ replicate (10 - Suc (length (machines_of ms))) 0, mIDCounter := mIDCounter r + 1,
        tIDCounter := tIDCounter r + 1\<rparr>"] r ab assms(2) False find_machine_None [OF r False]
      by (simp add: MailTest_turn_def registered_def Let_def)
  qed
qed

text \<open>The last registration makes the server answer and halt.\<close>

lemma register_all:
  assumes "registered ms r" and "ts \<noteq> []" and "\<forall>t\<in>set ts. init_text (snd t)" and "sumThread r = int (length ms + length ts)"
    and "length (machines_of (ms @ map fst ts)) \<le> 10"
  shows "\<exists>r'. registered (ms @ map fst ts) r' \<and> MailTest ts r = Inr (r', start_replies r', True)"
  using assms
proof (induction ts arbitrary: ms r)
  case (Cons t ts)
  obtain m x where t: "t = (m, x)"
    by (cases t)
  have "set (machines_of (ms @ [m])) \<subseteq> set (machines_of (ms @ map fst (t # ts)))"
    by (auto simp: t)
  then have "length (machines_of (ms @ [m])) \<le> 10"
    using Cons.prems(5) card_mono distinct_card machines_of_simps(4) by (metis List.finite_set le_trans)
  moreover have "sumThread r \<noteq> 0" "init_text x"
    using Cons.prems(3,4) t by auto
  ultimately obtain r' where r': "registered (ms @ [m]) r'" "sumThread r' = sumThread r"
    "MailTest_turn m x r =
       (if int (length ms) + 1 = sumThread r then Inr (r', start_replies r', True) else Inr (r', [], False))"
    using register_step [OF Cons.prems(1)] by metis
  show ?case
  proof (cases ts)
    case Nil
    then show ?thesis
      using r' Cons.prems(4) by (intro exI [of _ r']) (simp add: t)
  next
    case (Cons u us)
    have "\<exists>r''. registered ((ms @ [m]) @ map fst ts) r'' \<and> MailTest ts r' = Inr (r'', start_replies r'', True)"
      by (rule Cons.IH [OF r'(1)]) (use Cons.prems r'(2) Cons t in auto)
    then show ?thesis
      using r' Cons.prems(4) Cons by (auto simp: t)
  qed
qed simp

section \<open>The table and its readers\<close>

text \<open>Machine numbers that survive as one character of the text, and counts that fit into a byte.\<close>

definition good_machine :: "int list \<Rightarrow> int \<Rightarrow> bool" where
  "good_machine ms m \<longleftrightarrow> 0 < m \<and> m < 256 \<and> m \<noteq> 44 \<and> count_list ms m < 256"

definition all_ids :: "int list \<Rightarrow> int list" where
  "all_ids ms = concat (map (\<lambda>m. machine_ids m (int (count_list ms m))) (machines_of ms))"

lemma zip_tables:
  assumes "registered ms r" and "length (machines_of ms) \<le> 10"
  shows "zip (machineID r) (ThreadTable r) =
           map (\<lambda>m. (m, int (count_list ms m))) (machines_of ms) @ replicate (10 - length (machines_of ms)) (-1, 0)"
  using assms by (simp add: registered_def counts_of_def zip_append zip_map2 zip_same_conv_map)

lemma takeWhile_prefix: "\<forall>x\<in>set xs. P x \<Longrightarrow> \<not> P y \<Longrightarrow> takeWhile P (xs @ replicate n y) = xs"
  by (cases n) (auto simp: takeWhile_append2)

lemma make_package_eq:
  assumes "registered ms r" and "length (machines_of ms) \<le> 10"
  shows "make_package r = to_byte (int (length (machines_of ms))) # CHR '','' #
           concat (map (\<lambda>m. table_entry m (int (count_list ms m))) (machines_of ms)) @ [CHR 0x00]"
proof -
  let ?n = "length (machines_of ms)"
  let ?es = "concat (map (\<lambda>m. table_entry m (int (count_list ms m))) (machines_of ms))"
  have "takeWhile (\<lambda>(mid, tt). tt \<noteq> 0) (zip (machineID r) (ThreadTable r)) = map (\<lambda>m. (m, int (count_list ms m))) (machines_of ms)"
    unfolding zip_tables [OF assms] by (rule takeWhile_prefix) (auto simp: count_list_0_iff)
  moreover have len: "length ?es = 3 * ?n"
    by (simp add: length_concat table_entry_def comp_def sum_list_triv)
  moreover have "replicate (38 - 3 * ?n) (CHR 0x00) = CHR 0x00 # replicate (37 - 3 * ?n) (CHR 0x00)"
    using assms(2) by (simp add: Suc_diff_le flip: replicate_Suc)
  ultimately show ?thesis
    using assms by (simp add: make_package_def Let_def itob_def registered_def comp_def nat_mult_distrib nat_add_distrib mult.commute)
qed

lemma start_replies_eq:
  assumes "registered ms r" and "length (machines_of ms) \<le> 10" and "-1 \<notin> set ms"
  shows "start_replies r = concat (map (\<lambda>m. map (\<lambda>j. \<lparr>r_machine = m, r_box = (j + 1) * 2 - 1, r_data = make_package r\<rparr>)
           [0..int (count_list ms m) - 1]) (machines_of ms))"
proof -
  have "takeWhile (\<lambda>(mid, tt). mid \<noteq> -1) (zip (machineID r) (ThreadTable r)) = map (\<lambda>m. (m, int (count_list ms m))) (machines_of ms)"
    unfolding zip_tables [OF assms(1,2)] using assms(3) by (intro takeWhile_prefix) auto
  then show ?thesis
    by (simp add: start_replies_def comp_def)
qed

lemma of_char_byte [simp]: "0 \<le> n \<Longrightarrow> n < 256 \<Longrightarrow> (of_char (to_byte n) :: int) = n"
  by (simp add: to_byte_def)

lemma byte_eq_iff: "0 \<le> n \<Longrightarrow> n < 256 \<Longrightarrow> to_byte n = c \<longleftrightarrow> n = of_char c"
  by (metis to_byte_def char_of_char mod_pos_pos_trivial of_char_byte)

lemma info_byte_drop:
  assumes "drop info buf = xs" and "k < length xs"
  shows "info_byte buf (info + k) = Inr (of_char (xs ! k))"
  using assms by (auto simp: info_byte_def)

lemma read_table_entries:
  assumes "drop info buf = concat (map (\<lambda>m. table_entry m (c m)) xs) @ rest"
    and "\<forall>m\<in>set xs. 0 \<le> m \<and> m < 256 \<and> 0 \<le> c m \<and> c m < 256"
  shows "read_table (length xs) info buf = Inr (concat (map (\<lambda>m. machine_ids m (c m)) xs))"
  using assms
proof (induction xs arbitrary: info)
  case (Cons m xs)
  have d: "drop info buf = to_byte m # to_byte 0 # to_byte (c m) # concat (map (\<lambda>m. table_entry m (c m)) xs) @ rest"
    using Cons.prems by (simp add: table_entry_def)
  then have "drop (info + 3) buf = concat (map (\<lambda>m. table_entry m (c m)) xs) @ rest"
    by (metis (no_types, lifting) add.commute drop_drop drop_Suc_Cons drop0 numeral_3_eq_3)
  then have "read_table (length xs) (info + 3) buf = Inr (concat (map (\<lambda>m. machine_ids m (c m)) xs))"
    using Cons.prems(2) by (intro Cons.IH) auto
  moreover have "info_byte buf info = Inr m" "info_byte buf (info + 1) = Inr 0" "info_byte buf (info + 2) = Inr (c m)"
    using info_byte_drop [OF d, of 0] info_byte_drop [OF d, of 1] info_byte_drop [OF d, of 2] Cons.prems(2) by simp_all
  ultimately show ?case
    by simp
qed simp

lemma strtok_at_first:
  assumes "buf = x # CHR '','' # rest" and "x \<noteq> CHR '',''" and "x \<noteq> CHR 0x00"
  shows "strtok_at 0 buf = Some (0, 2, x # CHR 0x00 # rest)"
  using assms by (simp add: strtok_at_def Let_def)

lemma strtok_at_second:
  assumes "buf = x # y # z # CHR 0x00 # rest" and "z \<noteq> CHR '',''" and "z \<noteq> CHR 0x00"
  shows "strtok_at 2 buf = Some (2, 3, buf)"
  using assms by (simp add: strtok_at_def Let_def eval_nat_numeral)

lemma read_ids_package:
  assumes r: "registered ms r" and few: "length (machines_of ms) \<le> 10" and ms: "ms \<noteq> []" and good: "\<forall>m\<in>set ms. good_machine ms m"
  shows "read_ids (receive_into (make_package r) buf) = Inr (all_ids ms)"
proof -
  let ?n = "length (machines_of ms)"
  let ?es = "\<lambda>xs. concat (map (\<lambda>m. table_entry m (int (count_list ms m))) xs)"
  obtain m xs where m: "machines_of ms = m # xs"
    using ms machines_of_simps(3) by (metis list.set_cases list.set_intros(1) neq_Nil_conv set_empty)
  then have gm: "good_machine ms m"
    using good machines_of_simps(3) by (metis list.set_intros(1))
  define rest where "rest = CHR 0x00 # drop (length (make_package r)) buf"
  have buf: "receive_into (make_package r) buf = to_byte (int ?n) # CHR '','' # ?es (machines_of ms) @ rest"
    by (simp add: receive_into_def make_package_eq [OF r few] rest_def)
  have n: "0 < int ?n" "int ?n < 256"
    using few m by auto
  then have b: "to_byte (int ?n) \<noteq> CHR '',''" "to_byte (int ?n) \<noteq> CHR 0x00" "to_byte m \<noteq> CHR '',''" "to_byte m \<noteq> CHR 0x00"
    using gm few by (simp_all add: byte_eq_iff good_machine_def)
  let ?buf = "to_byte (int ?n) # CHR 0x00 # ?es (machines_of ms) @ rest"
  have 1: "strtok_at 0 (receive_into (make_package r) buf) = Some (0, 2, ?buf)"
    unfolding buf by (rule strtok_at_first) (simp_all add: b)
  have "to_byte 0 = CHR 0x00"
    by (simp add: byte_eq_iff)
  with gm have "?buf = to_byte (int ?n) # CHR 0x00 # to_byte m # CHR 0x00 # to_byte (int (count_list ms m)) # ?es xs @ rest"
    by (simp add: m table_entry_def good_machine_def)
  then have 2: "strtok_at 2 ?buf = Some (2, 3, ?buf)"
    by (rule strtok_at_second) (simp_all add: b)
  have 3: "read_table ?n 2 ?buf = Inr (all_ids ms)"
    unfolding all_ids_def using good by (intro read_table_entries [where rest = rest]) (auto simp: good_machine_def)
  have "info_byte ?buf 0 = Inr (int ?n)"
    using n by (simp add: info_byte_def)
  with 1 2 3 show ?thesis
    by (simp add: read_ids_def)
qed

text \<open>Two threads of a machine answer to different boxes: a machine has at most fifty of them.\<close>

lemma machine_ids_addresses:
  assumes "n \<le> 50"
  shows "map id_address (machine_ids m n) = map (\<lambda>j. (m, (j + 1) * 2 - 1)) [0..n - 1]"
  using assms by (auto simp: machine_ids_def id_address_def)

lemma all_ids_addresses:
  assumes "\<forall>m\<in>set ms. count_list ms m \<le> 50"
  shows "map id_address (all_ids ms) =
    concat (map (\<lambda>m. map (\<lambda>j. (m, (j + 1) * 2 - 1)) [0..int (count_list ms m) - 1]) (machines_of ms))"
  using assms by (auto simp: all_ids_def map_concat comp_def machine_ids_addresses intro!: arg_cong [where f = concat])

lemma few_threads:
  assumes "length (machines_of ms) \<le> 10" and "\<forall>m\<in>set ms. count_list ms m \<le> 50"
  shows "length ms \<le> 500"
proof -
  have "length ms = sum (count_list ms) (set ms)"
    by (simp add: sum_count_set)
  also have "\<dots> \<le> card (set ms) * 50"
    using sum_bounded_above [of "set ms" "count_list ms" 50] assms(2) by simp
  also have "card (set ms) \<le> 10"
    using card_length [of "machines_of ms"] assms(1) by (simp add: machines_of_simps(3))
  finally show ?thesis
    by simp
qed

text \<open>C17. When every network thread has registered, the server sends each of them one message, to its own box, and halts;
  all read from it the same list, that of the identities of all threads, and a thread is reached at the
  address its identity stands for. There are at most ten machines, with numbers from 1 to 255 other than 44 (the code of the
  comma), and at most fifty threads on each, whose boxes are 1, 3, 5 and so on.\<close>

theorem all_threads_agree:
  assumes ts: "ts \<noteq> []" "\<forall>t\<in>set ts. init_text (snd t)" and ms: "ms = map fst ts"
    and few: "length (machines_of ms) \<le> 10" and good: "\<forall>m\<in>set ms. good_machine ms m \<and> count_list ms m \<le> 50"
  shows "\<exists>r replies. MailTest ((m0, tagged ''n'' (length ts)) # ts) MailTest_start = Inr (r, replies, True) \<and>
    map (\<lambda>x. (r_machine x, r_box x)) replies = map id_address (all_ids ms) \<and>
    (\<forall>x\<in>set replies. read_ids (receive_into (r_data x) buf) = Inr (all_ids ms))"
proof -
  have "strtok (tagged ''n'' (length ts)) = Some (''n'', decimal (length ts))"
    by (simp add: strtok_tagged)
  moreover have "length ts < 2 ^ 31"
    using few_threads [of ms] few good ms by simp
  ultimately have turn: "MailTest_turn m0 (tagged ''n'' (length ts)) MailTest_start = Inr (MailTest_start\<lparr>sumThread := int (length ts)\<rparr>, [], False)"
    by (simp add: MailTest_turn_def MailTest_start_def)
  have "registered [] (MailTest_start\<lparr>sumThread := int (length ts)\<rparr>)"
    using start_registered by (simp add: registered_def)
  from register_all [OF this ts] few ms obtain r where r: "registered ms r"
    "MailTest ts (MailTest_start\<lparr>sumThread := int (length ts)\<rparr>) = Inr (r, start_replies r, True)"
    by auto
  have m1: "-1 \<notin> set ms" and ne: "ms \<noteq> []"
    using good ts(1) ms by (auto simp: good_machine_def)
  note replies = start_replies_eq [OF r(1) few m1]
  have "map (\<lambda>x. (r_machine x, r_box x)) (start_replies r) = map id_address (all_ids ms)"
    using good by (simp add: replies all_ids_addresses map_concat comp_def)
  moreover have "read_ids (receive_into (r_data x) buf) = Inr (all_ids ms)" if "x \<in> set (start_replies r)" for x
    using that read_ids_package [OF r(1) few ne] good by (auto simp: replies)
  ultimately show ?thesis
    using turn r(2) by (intro exI [of _ r] exI [of _ "start_replies r"]) simp
qed

theorem all_threads_agree_witness:
  "\<exists>r replies. MailTest [(1, ''n,3''), (1, ''m,0,1''), (2, ''m,0,1''), (1, ''m,0,3'')] MailTest_start = Inr (r, replies, True) \<and>
    map (\<lambda>x. (r_machine x, r_box x)) replies = [(1, 1), (1, 3), (2, 1)] \<and>
    map (\<lambda>x. read_ids (receive_into (r_data x) [])) replies = replicate 3 (Inr [101, 103, 201])"
proof -
  let ?ts = "[(1, ''m,0,1''), (2, ''m,0,1''), (1, ''m,0,3'')] :: (int \<times> string) list"
  have i: "init_text ''m,0,1''" "init_text ''m,0,3''"
    unfolding init_text_def by (rule exI [of _ "''0''"], rule exI [of _ "''1''"], simp) (rule exI [of _ "''0''"], rule exI [of _ "''3''"], simp)
  have n: "''n,3'' = tagged ''n'' (length ?ts)"
    by code_simp
  have ids: "all_ids [1, 2, 1] = [101, 103, 201]" "length (machines_of [1, 2, 1]) \<le> 10" "map id_address [101, 103, 201] = [(1, 1), (1, 3), (2, 1)]"
    by code_simp+
  obtain r replies where r: "MailTest ((1, ''n,3'') # ?ts) MailTest_start = Inr (r, replies, True)"
    "map (\<lambda>x. (r_machine x, r_box x)) replies = [(1, 1), (1, 3), (2, 1)]"
    "\<forall>x\<in>set replies. read_ids (receive_into (r_data x) []) = Inr [101, 103, 201]"
    using all_threads_agree [of ?ts "[1, 2, 1]" 1 "[]"] i ids unfolding n by (auto simp: good_machine_def)
  have "length replies = 3"
    using arg_cong [OF r(2), of length] by simp
  with r show ?thesis
    by (intro exI [of _ r] exI [of _ replies]) (simp add: map_replicate_const list_eq_iff_nth_eq)
qed

text \<open>The count of a machine keeps only its lower byte: the conversion to a byte comes before the shift that should give
  the upper one.\<close>

theorem count_loses_upper_byte:
  assumes "0 \<le> m" and "m < 256"
  shows "read_table 1 0 (table_entry m n) = Inr (machine_ids m (n mod 256))"
  using assms by (simp add: table_entry_def info_byte_def to_byte_def)

end
