(* ===== verification/Nachos_NetThread.thy ===== *)
theory Nachos_NetThread
  imports Nachos_Register Nachos_List
begin

text \<open>
  The network threads: the loop of \<open>network_thread\<close> in \<^verbatim>\<open>userprog/exception.cc\<close>. Every user program has a network thread
  with a copy of all locks, conditions and monitors. A request goes to all network threads; each of them keeps it until
  it has heard from every thread a time stamp that is not smaller, and then carries out the requests that are ready in an order
  meant to be the same everywhere.

  This theory has the turn of the loop up to the requests that are carried out: parsing, the table of time stamps, the two queues of
  messages and the answers to the other threads. A message in a queue does not contain its request: it has pointers
  into the buffer into which every later message is received. The buffer is therefore part of the state; it is
  declared inside the loop and taken to keep its place and its bytes from one turn to the next. The time of day is a parameter.
\<close>

section \<open>State\<close>

text \<open>\<open>Wild\<close> is a pointer that was never set.\<close>

datatype pointer = Null | Buf nat | Wild

record MessageEntry =
  me_ntID :: int
  me_time :: int
  me_message :: string
  me_RT :: pointer
  me_argument1 :: pointer
  me_argument2 :: pointer

record TimeStamp =
  ts_ntID :: int
  ts_time :: int

record NetThread =
  nt_self :: int
  nt_buffer :: string
  nt_arg1 :: pointer
  nt_arg2 :: pointer
  TimeStampList :: "TimeStamp list"
  QueuedMessages :: "MessageEntry nlist"
  ProcessableMSG :: "MessageEntry nlist"

text \<open>The state before the loop: no thread has been heard of.\<close>

definition network_thread_start :: "int \<Rightarrow> string \<Rightarrow> int list \<Rightarrow> NetThread" where
  "network_thread_start self buf ids =
     \<lparr>nt_self = self, nt_buffer = buf, nt_arg1 = Wild, nt_arg2 = Wild, TimeStampList = map (\<lambda>i. \<lparr>ts_ntID = i, ts_time = -1\<rparr>) ids,
      QueuedMessages = List_new, ProcessableMSG = List_new\<rparr>"

text \<open>What a request turns out to be when it is carried out; a missing argument is \<open>None\<close>.\<close>

record Request =
  rq_ntID :: int
  rq_type :: char
  rq_arg1 :: "string option"
  rq_arg2 :: "string option"

section \<open>Parsing\<close>

definition chars_at :: "string \<Rightarrow> nat \<Rightarrow> string" where
  "chars_at buf i = takeWhile (\<lambda>c. c \<noteq> CHR 0x00) (drop i buf)"

definition tok :: "nat \<Rightarrow> string \<Rightarrow> pointer \<times> nat \<times> string" where
  "tok pos buf = (case strtok_at pos buf of None \<Rightarrow> (Null, pos, buf) | Some (i, save, buf') \<Rightarrow> (Buf i, save, buf'))"

fun atoi_at :: "string \<Rightarrow> pointer \<Rightarrow> int res" where
  "atoi_at buf (Buf i) = Inr (atoi (chars_at buf i))"
| "atoi_at buf _ = Inl NullDereference"

record Parsed =
  ps_timeStamp :: int
  ps_ID :: int
  ps_requestType :: pointer
  ps_arg1 :: pointer
  ps_arg2 :: pointer

definition nt_parse :: "string \<Rightarrow> pointer \<Rightarrow> pointer \<Rightarrow> (Parsed \<times> string) res" where
  "nt_parse buf arg1 arg2 =
     (let (charTimeStamp, pos, buf) = tok 0 buf in
      bindE (atoi_at buf charTimeStamp) (\<lambda>timeStamp.
        let (charID, pos, buf) = tok pos buf in
        bindE (atoi_at buf charID) (\<lambda>ID.
          let (requestType, pos, buf) = tok pos buf;
              (arg1, pos, buf) = (if requestType \<noteq> Null then tok pos buf else (arg1, pos, buf));
              (arg2, pos, buf) = (if arg1 \<noteq> Null then tok pos buf else (arg2, pos, buf))
          in Inr (\<lparr>ps_timeStamp = timeStamp, ps_ID = ID, ps_requestType = requestType, ps_arg1 = arg1, ps_arg2 = arg2\<rparr>, buf))))"

section \<open>Time stamps and queues\<close>

fun update_stamp :: "int \<Rightarrow> int \<Rightarrow> TimeStamp list \<Rightarrow> TimeStamp list" where
  "update_stamp ID t [] = []"
| "update_stamp ID t (x # xs) = (if ts_ntID x = ID then x\<lparr>ts_time := t\<rparr> # xs else x # update_stamp ID t xs)"

fun smallestTS :: "TimeStamp list \<Rightarrow> int res" where
  "smallestTS [] = Inl NullDereference"
| "smallestTS (x # xs) = Inr (foldl (\<lambda>s y. if s > ts_time y then ts_time y else s) (ts_time x) (x # xs))"

definition new_entry :: "Parsed \<Rightarrow> string \<Rightarrow> MessageEntry" where
  "new_entry ps msg =
     \<lparr>me_ntID = ps_ID ps, me_time = ps_timeStamp ps, me_message = msg, me_RT = ps_requestType ps,
      me_argument1 = (if ps_arg1 ps \<noteq> Null then ps_arg1 ps else Wild),
      me_argument2 = (if ps_arg2 ps \<noteq> Null then ps_arg2 ps else Wild)\<rparr>"

definition enqueue :: "Parsed \<Rightarrow> string \<Rightarrow> MessageEntry nlist \<Rightarrow> MessageEntry nlist" where
  "enqueue ps msg q =
     (if ps_requestType ps \<noteq> Null then SortedInsert q (new_entry ps msg) (ps_timeStamp ps) else q)"

text \<open>The key of a message that is ready; the code computes it in an \<^verbatim>\<open>int\<close>.\<close>

definition process_key :: "MessageEntry \<Rightarrow> int" where
  "process_key m = me_time m * 10 + me_ntID m"

definition key_fits :: "MessageEntry \<Rightarrow> bool" where
  "key_fits m \<longleftrightarrow> - (2 ^ 31) \<le> me_time m * 10 \<and> me_time m * 10 < 2 ^ 31 \<and> - (2 ^ 31) \<le> process_key m \<and> process_key m < 2 ^ 31"

text \<open>One message of the walk through the queue, and the walk. The walk goes on behind the message it looks at; what is removed is the first of
  the queue.\<close>

definition move_one :: "int \<Rightarrow> MessageEntry \<Rightarrow> MessageEntry nlist \<times> MessageEntry nlist \<Rightarrow> MessageEntry nlist \<times> MessageEntry nlist" where
  "move_one s m = (\<lambda>(queued, ready).
     if me_time m \<le> s then (snd (Remove queued), SortedInsert ready m (process_key m)) else (queued, ready))"

definition move_processable :: "int \<Rightarrow> MessageEntry nlist \<Rightarrow> MessageEntry nlist \<Rightarrow> (MessageEntry nlist \<times> MessageEntry nlist) res" where
  "move_processable s queued ready =
     (if list_all (\<lambda>m. me_time m \<le> s \<longrightarrow> key_fits m) (items queued)
      then Inr (fold (move_one s) (items queued) (queued, ready)) else Inl UndefinedArithmetic)"

section \<open>Answers\<close>

record Outgoing =
  og_machine :: int
  og_box :: int
  og_text :: string

definition write_text :: "string \<Rightarrow> string \<Rightarrow> string" where
  "write_text t buf = receive_into (t @ [CHR 0x00]) buf"

text \<open>The loop over the other threads: the time stamp of this thread when the request is another thread's, the message itself when
  it comes from the user program of this one. \<open>clock k\<close> is what the \<open>k\<close>-th call of \<open>getTimeStamp\<close> returns.\<close>

definition stamp_text :: "int \<Rightarrow> nat \<Rightarrow> string" where
  "stamp_text self t = decimal t @ '','' @ decimal (nat self)"

fun answer_all :: "(nat \<Rightarrow> nat) \<Rightarrow> int \<Rightarrow> int \<Rightarrow> string \<Rightarrow> TimeStamp list \<Rightarrow> string \<Rightarrow> string \<times> Outgoing list" where
  "answer_all clock self ID msg [] buf = (buf, [])"
| "answer_all clock self ID msg (x # xs) buf =
     (let out = \<lambda>t. \<lparr>og_machine = fst (id_address (ts_ntID x)), og_box = snd (id_address (ts_ntID x)), og_text = t\<rparr>;
          (buf, sent) = (if ID \<noteq> self then (write_text (stamp_text self (clock 0)) buf, [out (stamp_text self (clock 0))])
                         else (buf, if ts_ntID x \<noteq> self then [out msg] else []));
          (buf, rest) = answer_all (\<lambda>k. clock (Suc k)) self ID msg xs (buf[0 := CHR 0x00])
      in (buf, sent @ rest))"

section \<open>Carrying out what is ready\<close>

definition resolve :: "string \<Rightarrow> pointer \<Rightarrow> string option" where
  "resolve buf p = (case p of Buf i \<Rightarrow> Some (chars_at buf i) | _ \<Rightarrow> None)"

text \<open>The variables \<open>arg1\<close> and \<open>arg2\<close> keep their values when a message has no argument of its own.\<close>

definition request_of :: "string \<Rightarrow> pointer \<Rightarrow> pointer \<Rightarrow> MessageEntry \<Rightarrow> (Request \<times> pointer \<times> pointer) res" where
  "request_of buf arg1 arg2 m =
     (let a1 = (if me_argument1 m \<noteq> Null then me_argument1 m else arg1);
          a2 = (if me_argument2 m \<noteq> Null then me_argument2 m else arg2) in
      case me_RT m of
        Buf i \<Rightarrow> if i < length buf
                 then Inr (\<lparr>rq_ntID = me_ntID m, rq_type = buf ! i, rq_arg1 = resolve buf a1, rq_arg2 = resolve buf a2\<rparr>, a1, a2)
                 else Inl OutOfRange
      | _ \<Rightarrow> Inl NullDereference)"

fun requests_of :: "string \<Rightarrow> pointer \<Rightarrow> pointer \<Rightarrow> MessageEntry list \<Rightarrow> (Request list \<times> pointer \<times> pointer) res" where
  "requests_of buf arg1 arg2 [] = Inr ([], arg1, arg2)"
| "requests_of buf arg1 arg2 (m # ms) =
     bindE (request_of buf arg1 arg2 m) (\<lambda>(rq, a1, a2).
     bindE (requests_of buf a1 a2 ms) (\<lambda>(rqs, a1, a2). Inr (rq # rqs, a1, a2)))"

section \<open>The turn\<close>

record Turn =
  tu_thread :: NetThread
  tu_sent :: "Outgoing list"
  tu_entries :: "MessageEntry list"
  tu_requests :: "Request list"

definition nt_turn :: "(nat \<Rightarrow> nat) \<Rightarrow> string \<Rightarrow> NetThread \<Rightarrow> Turn res" where
  "nt_turn clock dat n =
     (let buf = receive_into dat (nt_buffer n);
          currentMSG = chars_at buf 0 in
      bindE (nt_parse buf (nt_arg1 n) (nt_arg2 n)) (\<lambda>(ps, buf).
        let stamps = update_stamp (ps_ID ps) (ps_timeStamp ps) (TimeStampList n);
            queued = enqueue ps currentMSG (QueuedMessages n) in
        bindE (smallestTS stamps) (\<lambda>s.
          bindE (move_processable s queued (ProcessableMSG n)) (\<lambda>(queued, ready).
            let (buf, sent) = (if ps_requestType ps \<noteq> Null then answer_all clock (nt_self n) (ps_ID ps) currentMSG stamps buf else (buf, [])) in
            bindE (requests_of buf (ps_arg1 ps) (ps_arg2 ps) (items ready)) (\<lambda>(rqs, a1, a2).
              Inr \<lparr>tu_thread = n\<lparr>nt_buffer := buf, nt_arg1 := a1, nt_arg2 := a2, TimeStampList := stamps, QueuedMessages := queued,
                                 ProcessableMSG := ((\<lambda>q. snd (Remove q)) ^^ length (items ready)) ready\<rparr>,
                   tu_sent = sent, tu_entries = items ready, tu_requests = rqs\<rparr>)))))"

fun nt_turns :: "(nat \<Rightarrow> nat) \<Rightarrow> string list \<Rightarrow> NetThread \<Rightarrow> (NetThread \<times> (MessageEntry \<times> Request) list) res" where
  "nt_turns clock [] n = Inr (n, [])"
| "nt_turns clock (d # ds) n =
     bindE (nt_turn clock d n) (\<lambda>t.
     bindE (nt_turns clock ds (tu_thread t)) (\<lambda>(n', rs). Inr (n', zip (tu_entries t) (tu_requests t) @ rs)))"

section \<open>Which messages are carried out\<close>

lemma items_Removes: "items (((\<lambda>q. snd (Remove q)) ^^ k) q) = drop k (items q)"
  by (induction k arbitrary: q) (simp_all add: Remove_items funpow_Suc_right drop_Suc del: funpow.simps)

lemma Remove_elems: "elems (snd (Remove q)) = tl (elems q)"
  by (simp add: Remove_def SortedRemove_def split: list.splits)

text \<open>On a sorted queue the walk moves exactly the messages that are ready, a prefix of the queue.\<close>

lemma move_none: "\<forall>m\<in>set ms. s < me_time m \<Longrightarrow> fold (move_one s) ms qr = qr"
  by (induction ms arbitrary: qr) (auto simp: move_one_def split: prod.splits)

abbreviation ready_at :: "int \<Rightarrow> MessageEntry \<times> int \<Rightarrow> bool" where
  "ready_at s e \<equiv> me_time (fst e) \<le> s"

abbreviation insert_ready :: "MessageEntry nlist \<Rightarrow> MessageEntry \<Rightarrow> MessageEntry nlist" where
  "insert_ready r m \<equiv> SortedInsert r m (process_key m)"

lemma move_all:
  assumes "sorted (map (\<lambda>e. me_time (fst e)) es)" and "elems q = es"
  shows "elems (fst (fold (move_one s) (map fst es) (q, r))) = dropWhile (ready_at s) es \<and>
    snd (fold (move_one s) (map fst es) (q, r)) = foldl insert_ready r (map fst (takeWhile (ready_at s) es))"
  using assms
proof (induction es arbitrary: q r)
  case (Cons e es)
  show ?case
  proof (cases "ready_at s e")
    case True
    have "elems (snd (Remove q)) = es"
      using Cons.prems(2) by (simp add: Remove_elems)
    with True Cons show ?thesis
      by (simp add: move_one_def)
  next
    case False
    then have "\<forall>m\<in>set (map fst (e # es)). s < me_time m"
      using Cons.prems(1) by auto
    with False Cons.prems(2) show ?thesis
      by (simp only: move_none) simp
  qed
qed simp

lemma move_processable_eq:
  assumes "sorted (map (\<lambda>e. me_time (fst e)) (elems q))" and "move_processable s q r = Inr (q', r')"
  shows "elems q' = dropWhile (ready_at s) (elems q)" "r' = foldl insert_ready r (map fst (takeWhile (ready_at s) (elems q)))"
  using move_all [OF assms(1) refl, of s r] assms(2) by (simp_all add: move_processable_def split: if_splits)

lemma items_insert: "mset (items (SortedInsert r m k)) = add_mset m (mset (items r))"
  using arg_cong [OF nlk.insert_perm [of r m k], of "image_mset fst"] by simp

lemma items_ready:
  "mset (items (foldl insert_ready r ms)) = mset (items r) + mset ms"
  "\<forall>e\<in>set (elems r). snd e = process_key (fst e) \<Longrightarrow> sorted (map snd (elems r)) \<Longrightarrow>
     sorted (map process_key (items (foldl insert_ready r ms)))"
proof -
  show "mset (items (foldl insert_ready r ms)) = mset (items r) + mset ms"
    by (induction ms arbitrary: r) (simp_all add: items_insert del: mset_map)
  show "sorted (map process_key (items (foldl insert_ready r ms)))"
    if "\<forall>e\<in>set (elems r). snd e = process_key (fst e)" "sorted (map snd (elems r))"
    using that
  proof (induction ms arbitrary: r)
    case Nil
    then have "map process_key (items r) = map snd (elems r)"
      by simp
    with Nil(2) show ?case
      by (simp only: foldl_Nil)
  next
    case (Cons m ms)
    have "set (elems (insert_ready r m)) = insert (m, process_key m) (set (elems r))"
      using arg_cong [OF nlk.insert_perm [of r m "process_key m"], of set_mset] by simp
    then show ?case
      using Cons by (simp add: nlk.insert_sorted)
  qed
qed

text \<open>The invariant of a thread between two turns.\<close>

definition entry_wf :: "MessageEntry \<Rightarrow> bool" where
  "entry_wf m \<longleftrightarrow> me_argument1 m \<noteq> Null \<and> me_argument2 m \<noteq> Null"

definition nt_ok :: "NetThread \<Rightarrow> bool" where
  "nt_ok n \<longleftrightarrow> (\<forall>e\<in>set (elems (QueuedMessages n)). snd e = me_time (fst e) \<and> entry_wf (fst e)) \<and>
     sorted (map snd (elems (QueuedMessages n))) \<and> elems (ProcessableMSG n) = []"

lemma start_nt_ok: "nt_ok (network_thread_start self buf ids)"
  by (simp add: nt_ok_def network_thread_start_def)

lemma enqueue_ok:
  assumes "\<forall>e\<in>set (elems q). snd e = me_time (fst e) \<and> entry_wf (fst e)" and "sorted (map snd (elems q))"
  shows "\<forall>e\<in>set (elems (enqueue ps msg q)). snd e = me_time (fst e) \<and> entry_wf (fst e)"
    "sorted (map snd (elems (enqueue ps msg q)))"
    "mset (items (enqueue ps msg q)) = mset (items q) + (if ps_requestType ps \<noteq> Null then {#new_entry ps msg#} else {#})"
proof -
  let ?e = "(new_entry ps msg, ps_timeStamp ps)"
  have i: "mset (elems (SortedInsert q (fst ?e) (snd ?e))) = add_mset ?e (mset (elems q))"
    by (simp add: nlk.insert_perm)
  show "\<forall>e\<in>set (elems (enqueue ps msg q)). snd e = me_time (fst e) \<and> entry_wf (fst e)"
    using assms(1) arg_cong [OF i, of set_mset] by (auto simp: enqueue_def new_entry_def entry_wf_def)
  show "sorted (map snd (elems (enqueue ps msg q)))"
    using assms(2) by (simp add: enqueue_def nlk.insert_sorted)
  show "mset (items (enqueue ps msg q)) = mset (items q) + (if ps_requestType ps \<noteq> Null then {#new_entry ps msg#} else {#})"
    using arg_cong [OF i, of "image_mset fst"] by (simp add: enqueue_def)
qed

lemma foldl_min:
  fixes ys :: "TimeStamp list"
  defines "f \<equiv> \<lambda>s y. if s > ts_time y then ts_time y else s"
  shows "foldl f a ys \<le> a" "\<forall>y\<in>set ys. foldl f a ys \<le> ts_time y" "foldl f a ys = a \<or> foldl f a ys \<in> ts_time ` set ys"
proof -
  have "foldl f a ys \<le> a \<and> (\<forall>y\<in>set ys. foldl f a ys \<le> ts_time y) \<and> (foldl f a ys = a \<or> foldl f a ys \<in> ts_time ` set ys)"
  proof (induction ys arbitrary: a)
    case (Cons y ys)
    show ?case
      using Cons.IH [of "f a y"] by (auto simp: f_def split: if_splits)
  qed simp
  then show "foldl f a ys \<le> a" "\<forall>y\<in>set ys. foldl f a ys \<le> ts_time y" "foldl f a ys = a \<or> foldl f a ys \<in> ts_time ` set ys"
    by auto
qed

lemma smallestTS_is_min:
  assumes "smallestTS xs = Inr s"
  shows "\<forall>x\<in>set xs. s \<le> ts_time x" "\<exists>x\<in>set xs. ts_time x = s"
proof -
  obtain y ys where xs: "xs = y # ys"
    using assms by (cases xs) auto
  then show "\<forall>x\<in>set xs. s \<le> ts_time x" "\<exists>x\<in>set xs. ts_time x = s"
    using foldl_min [where a = "ts_time y" and ys = xs] assms by auto
qed

lemma nt_turn_parts:
  assumes "nt_turn clock dat n = Inr t"
  obtains ps buf0 s queued ready buf sent rqs a1 a2 where
    "nt_parse (receive_into dat (nt_buffer n)) (nt_arg1 n) (nt_arg2 n) = Inr (ps, buf0)"
    "smallestTS (update_stamp (ps_ID ps) (ps_timeStamp ps) (TimeStampList n)) = Inr s"
    "move_processable s (enqueue ps (chars_at (receive_into dat (nt_buffer n)) 0) (QueuedMessages n)) (ProcessableMSG n) = Inr (queued, ready)"
    "(if ps_requestType ps \<noteq> Null then answer_all clock (nt_self n) (ps_ID ps) (chars_at (receive_into dat (nt_buffer n)) 0)
        (update_stamp (ps_ID ps) (ps_timeStamp ps) (TimeStampList n)) buf0 else (buf0, [])) = (buf, sent)"
    "requests_of buf (ps_arg1 ps) (ps_arg2 ps) (items ready) = Inr (rqs, a1, a2)"
    "t = \<lparr>tu_thread = n\<lparr>nt_buffer := buf, nt_arg1 := a1, nt_arg2 := a2,
            TimeStampList := update_stamp (ps_ID ps) (ps_timeStamp ps) (TimeStampList n), QueuedMessages := queued,
            ProcessableMSG := ((\<lambda>q. snd (Remove q)) ^^ length (items ready)) ready\<rparr>,
          tu_sent = sent, tu_entries = items ready, tu_requests = rqs\<rparr>"
proof -
  obtain ps buf0 where 1: "nt_parse (receive_into dat (nt_buffer n)) (nt_arg1 n) (nt_arg2 n) = Inr (ps, buf0)"
    using assms by (auto simp: nt_turn_def Let_def bindE_Inr_iff)
  obtain s where 2: "smallestTS (update_stamp (ps_ID ps) (ps_timeStamp ps) (TimeStampList n)) = Inr s"
    using assms by (auto simp: nt_turn_def Let_def bindE_Inr_iff 1)
  obtain queued ready where 3: "move_processable s (enqueue ps (chars_at (receive_into dat (nt_buffer n)) 0) (QueuedMessages n)) (ProcessableMSG n) = Inr (queued, ready)"
    using assms by (auto simp: nt_turn_def Let_def bindE_Inr_iff 1 2)
  obtain buf sent where 4: "(if ps_requestType ps \<noteq> Null then answer_all clock (nt_self n) (ps_ID ps) (chars_at (receive_into dat (nt_buffer n)) 0)
        (update_stamp (ps_ID ps) (ps_timeStamp ps) (TimeStampList n)) buf0 else (buf0, [])) = (buf, sent)"
    by (metis surj_pair)
  obtain rqs a1 a2 where 5: "requests_of buf (ps_arg1 ps) (ps_arg2 ps) (items ready) = Inr (rqs, a1, a2)"
    using assms unfolding nt_turn_def Let_def by (auto simp: bindE_Inr_iff 1 2 3 4)
  show thesis
    using assms unfolding nt_turn_def Let_def by (intro that [OF 1 2 3 4 5]) (simp add: 1 2 3 4 5)
qed

text \<open>The entry a message leaves in the queue: none for an answer without a request.\<close>

definition arrived :: "Parsed \<Rightarrow> string \<Rightarrow> MessageEntry multiset" where
  "arrived ps msg = (if ps_requestType ps \<noteq> Null then {#new_entry ps msg#} else {#})"

lemma requests_senders: "requests_of buf a b ms = Inr (rqs, a1, a2) \<Longrightarrow> map rq_ntID rqs = map me_ntID ms"
proof (induction ms arbitrary: a b rqs a1 a2)
  case (Cons m ms)
  then show ?case
    by (fastforce simp: bindE_Inr_iff request_of_def Let_def split: pointer.splits if_splits)
qed simp

lemma turn_effect:
  assumes ok: "nt_ok n" and t: "nt_turn clock dat n = Inr t"
  obtains q s ps buf0 where "\<forall>e\<in>set (elems q). snd e = me_time (fst e) \<and> entry_wf (fst e)" "sorted (map snd (elems q))"
    "nt_parse (receive_into dat (nt_buffer n)) (nt_arg1 n) (nt_arg2 n) = Inr (ps, buf0)"
    "TimeStampList (tu_thread t) = update_stamp (ps_ID ps) (ps_timeStamp ps) (TimeStampList n)"
    "mset (items q) = mset (items (QueuedMessages n)) + arrived ps (chars_at (receive_into dat (nt_buffer n)) 0)"
    "smallestTS (TimeStampList (tu_thread t)) = Inr s"
    "elems (QueuedMessages (tu_thread t)) = dropWhile (ready_at s) (elems q)"
    "tu_entries t = items (foldl insert_ready (ProcessableMSG n) (map fst (takeWhile (ready_at s) (elems q))))"
    "elems (ProcessableMSG (tu_thread t)) = []" "map rq_ntID (tu_requests t) = map me_ntID (tu_entries t)"
proof -
  obtain ps buf0 s queued ready buf sent rqs a1 a2 where
    p: "nt_parse (receive_into dat (nt_buffer n)) (nt_arg1 n) (nt_arg2 n) = Inr (ps, buf0)"
    and s: "smallestTS (update_stamp (ps_ID ps) (ps_timeStamp ps) (TimeStampList n)) = Inr s"
    and mv: "move_processable s (enqueue ps (chars_at (receive_into dat (nt_buffer n)) 0) (QueuedMessages n)) (ProcessableMSG n) = Inr (queued, ready)"
    and rq: "requests_of buf (ps_arg1 ps) (ps_arg2 ps) (items ready) = Inr (rqs, a1, a2)"
    and t': "t = \<lparr>tu_thread = n\<lparr>nt_buffer := buf, nt_arg1 := a1, nt_arg2 := a2,
            TimeStampList := update_stamp (ps_ID ps) (ps_timeStamp ps) (TimeStampList n), QueuedMessages := queued,
            ProcessableMSG := ((\<lambda>q. snd (Remove q)) ^^ length (items ready)) ready\<rparr>,
          tu_sent = sent, tu_entries = items ready, tu_requests = rqs\<rparr>"
    by (rule nt_turn_parts [OF t])
  define q where "q = enqueue ps (chars_at (receive_into dat (nt_buffer n)) 0) (QueuedMessages n)"
  have "\<forall>e\<in>set (elems (QueuedMessages n)). snd e = me_time (fst e) \<and> entry_wf (fst e)" "sorted (map snd (elems (QueuedMessages n)))"
    using ok by (simp_all add: nt_ok_def)
  note q = enqueue_ok [OF this, of ps "chars_at (receive_into dat (nt_buffer n)) 0", folded q_def]
  have "map (\<lambda>e. me_time (fst e)) (elems q) = map snd (elems q)"
    using q(1) by simp
  then have "sorted (map (\<lambda>e. me_time (fst e)) (elems q))"
    using q(2) by (simp only:)
  note mv' = move_processable_eq [OF this mv [folded q_def]]
  have "elems (ProcessableMSG (tu_thread t)) = []"
    using items_Removes [of "length (items ready)" ready] t' by simp
  with q s mv' t' p requests_senders [OF rq] show thesis
    by (intro that [of q ps buf0 s]) (simp_all add: arrived_def)
qed

lemma late_rest:
  assumes "\<forall>e\<in>set es. snd e = me_time (fst e)" and "sorted (map snd (dropWhile (ready_at s) es))" and "e \<in> set (dropWhile (ready_at s) es)"
  shows "s < me_time (fst e)"
proof -
  obtain x xs where d: "dropWhile (ready_at s) es = x # xs"
    using assms(3) by (cases "dropWhile (ready_at s) es") auto
  then have "s < me_time (fst x)"
    using hd_dropWhile [of "ready_at s" es] by simp
  moreover have "me_time (fst x) \<le> me_time (fst e)"
    using assms d set_dropWhileD [of _ "ready_at s" es] by (auto simp: d)
  ultimately show ?thesis
    by simp
qed

lemma takeWhile_dropWhile_mset: "mset (items (foldl insert_ready r (map fst (takeWhile P es)))) + mset (map fst (dropWhile P es)) = mset (items r) + mset (map fst es)"
proof -
  have "mset (map fst (takeWhile P es)) + mset (map fst (dropWhile P es)) = mset (map fst es)"
    by (metis map_append mset_append takeWhile_dropWhile_id)
  then show ?thesis
    by (simp add: items_ready(1) ac_simps del: mset_map)
qed

text \<open>C18. A turn carries out exactly the entries whose time no thread's stamp is below, in the order of their keys, and keeps the others. The
  entries it carries out or keeps are those that waited and the entry of the message that arrived, if it is a request: none is lost,
  none is carried out twice, and none before every thread has been heard of at a time that is not earlier. The requests it carries out are one for each entry, in the
  name of the thread that sent it; their type and arguments are read from the shared buffer.\<close>

theorem turn_carries_out_ready:
  assumes ok: "nt_ok n" and t: "nt_turn clock dat n = Inr t"
  shows "nt_ok (tu_thread t) \<and>
    (\<forall>m\<in>set (tu_entries t). \<forall>x\<in>set (TimeStampList (tu_thread t)). me_time m \<le> ts_time x) \<and>
    (\<forall>m\<in>set (items (QueuedMessages (tu_thread t))). \<exists>x\<in>set (TimeStampList (tu_thread t)). ts_time x < me_time m) \<and>
    (\<exists>ps buf0. nt_parse (receive_into dat (nt_buffer n)) (nt_arg1 n) (nt_arg2 n) = Inr (ps, buf0) \<and>
      TimeStampList (tu_thread t) = update_stamp (ps_ID ps) (ps_timeStamp ps) (TimeStampList n) \<and>
      mset (tu_entries t) + mset (items (QueuedMessages (tu_thread t))) = mset (items (QueuedMessages n)) +
        (if ps_requestType ps \<noteq> Null then {#new_entry ps (chars_at (receive_into dat (nt_buffer n)) 0)#} else {#})) \<and>
    sorted (map process_key (tu_entries t)) \<and> map rq_ntID (tu_requests t) = map me_ntID (tu_entries t)"
proof -
  obtain q s ps buf0 where q: "\<forall>e\<in>set (elems q). snd e = me_time (fst e) \<and> entry_wf (fst e)" "sorted (map snd (elems q))"
    and p: "nt_parse (receive_into dat (nt_buffer n)) (nt_arg1 n) (nt_arg2 n) = Inr (ps, buf0)"
      "TimeStampList (tu_thread t) = update_stamp (ps_ID ps) (ps_timeStamp ps) (TimeStampList n)"
    and new: "mset (items q) = mset (items (QueuedMessages n)) + arrived ps (chars_at (receive_into dat (nt_buffer n)) 0)"
    and s: "smallestTS (TimeStampList (tu_thread t)) = Inr s"
    and q': "elems (QueuedMessages (tu_thread t)) = dropWhile (ready_at s) (elems q)"
    and en: "tu_entries t = items (foldl insert_ready (ProcessableMSG n) (map fst (takeWhile (ready_at s) (elems q))))"
    and pr: "elems (ProcessableMSG (tu_thread t)) = []" and rq: "map rq_ntID (tu_requests t) = map me_ntID (tu_entries t)"
    using turn_effect [OF assms] .
  have p0: "elems (ProcessableMSG n) = []"
    using ok by (simp add: nt_ok_def)
  have set_en: "set (tu_entries t) = set (map fst (takeWhile (ready_at s) (elems q)))"
    using arg_cong [OF items_ready(1) [of "ProcessableMSG n" "map fst (takeWhile (ready_at s) (elems q))"], of set_mset] p0 en by simp
  have sq: "sorted (map snd (dropWhile (ready_at s) (elems q)))"
    using sorted_wrt_drop [OF q(2)] by (simp add: dropWhile_eq_drop drop_map)
  then have "nt_ok (tu_thread t)"
    using q pr unfolding nt_ok_def q' by (auto dest: set_dropWhileD)
  moreover have "me_time m \<le> ts_time x" if "m \<in> set (tu_entries t)" "x \<in> set (TimeStampList (tu_thread t))" for m x
    using that smallestTS_is_min(1) [OF s] unfolding set_en by (fastforce dest: set_takeWhileD)
  moreover have "\<exists>x\<in>set (TimeStampList (tu_thread t)). ts_time x < me_time m" if "m \<in> set (items (QueuedMessages (tu_thread t)))" for m
  proof -
    have "s < me_time m"
      using that late_rest [OF _ sq] q(1) by (auto simp: q')
    then show ?thesis
      using smallestTS_is_min(2) [OF s] by auto
  qed
  moreover have "mset (tu_entries t) + mset (items (QueuedMessages (tu_thread t))) = mset (items (QueuedMessages n)) +
      (if ps_requestType ps \<noteq> Null then {#new_entry ps (chars_at (receive_into dat (nt_buffer n)) 0)#} else {#})"
    using new takeWhile_dropWhile_mset [of "ProcessableMSG n" "ready_at s" "elems q"] p0 by (simp add: en q' arrived_def)
  moreover have "sorted (map process_key (tu_entries t))"
    unfolding en using p0 by (intro items_ready(2)) simp_all
  ultimately show ?thesis
    using p rq by blast
qed

section \<open>Requests and the buffer\<close>

text \<open>Parsing changes the buffer only before the end of the text that was received.\<close>

lemma length_takeWhile_le: "k < length xs \<Longrightarrow> \<not> P (xs ! k) \<Longrightarrow> length (takeWhile P xs) \<le> k"
  by (metis leI nth_mem set_takeWhileD takeWhile_nth)

lemma strtok_at_tail:
  assumes "k < length buf" "buf ! k = CHR 0x00" "pos \<le> k" and "strtok_at pos buf = Some (i, save, buf')"
  shows "length buf' = length buf \<and> drop k buf' = drop k buf \<and> save \<le> k"
proof -
  define i where "i = pos + length (takeWhile (\<lambda>c. c = CHR '','') (drop pos buf))"
  define j where "j = i + length (takeWhile (\<lambda>c. c \<noteq> CHR '','' \<and> c \<noteq> CHR 0x00) (drop i buf))"
  have "i \<le> k"
    using length_takeWhile_le [of "k - pos" "drop pos buf" "\<lambda>c. c = CHR '',''"] assms(1-3) diff_less_mono [OF assms(1,3)] by (simp add: i_def)
  then have "j \<le> k"
    using length_takeWhile_le [of "k - i" "drop i buf" "\<lambda>c. c \<noteq> CHR '','' \<and> c \<noteq> CHR 0x00"] assms(1,2) diff_less_mono [OF assms(1) \<open>i \<le> k\<close>]
    by (simp add: j_def)
  moreover have "j \<noteq> k" if "buf ! j = CHR '',''"
    using that assms(2) by auto
  ultimately show ?thesis
    using assms(4) by (auto simp: strtok_at_def Let_def i_def [symmetric] j_def [symmetric] split: if_splits)
qed

lemma tok_tail:
  assumes "k < length buf" "buf ! k = CHR 0x00" "pos \<le> k" and "tok pos buf = (p, save, buf')"
  shows "length buf' = length buf \<and> drop k buf' = drop k buf \<and> save \<le> k \<and> buf' ! k = CHR 0x00"
proof -
  have "length buf' = length buf \<and> drop k buf' = drop k buf \<and> save \<le> k"
    using assms strtok_at_tail [OF assms(1-3)] by (auto simp: tok_def split: option.splits)
  moreover from this have "buf' ! k = buf ! k"
    using assms(1) by (metis hd_drop_conv_nth)
  ultimately show ?thesis
    using assms(2) by simp
qed

lemma nt_parse_tail:
  assumes "k < length buf" "buf ! k = CHR 0x00" and "nt_parse buf arg1 arg2 = Inr (ps, buf')"
  shows "length buf' = length buf \<and> drop k buf' = drop k buf"
proof -
  obtain t1 p1 b1 where 1: "tok 0 buf = (t1, p1, b1)"
    by (metis surj_pair)
  note k1 = tok_tail [OF assms(1,2) _ 1]
  obtain t2 p2 b2 where 2: "tok p1 b1 = (t2, p2, b2)"
    by (metis surj_pair)
  have k2: "length b2 = length buf" "drop k b2 = drop k buf" "p2 \<le> k" "b2 ! k = CHR 0x00"
    using tok_tail [OF _ _ _ 2, of k] k1 assms(1) by auto
  obtain t3 p3 b3 where 3: "tok p2 b2 = (t3, p3, b3)"
    by (metis surj_pair)
  have k3: "length b3 = length buf" "drop k b3 = drop k buf" "p3 \<le> k" "b3 ! k = CHR 0x00"
    using tok_tail [OF _ _ _ 3, of k] k2 assms(1) by auto
  obtain t4 p4 b4 where 4: "(if t3 \<noteq> Null then tok p3 b3 else (arg1, p3, b3)) = (t4, p4, b4)"
    by (metis surj_pair)
  have k4: "length b4 = length buf" "drop k b4 = drop k buf" "p4 \<le> k" "b4 ! k = CHR 0x00"
    using tok_tail [of k b3 p3 t4 p4 b4] 4 k3 assms(1) by (auto split: if_splits)
  obtain t5 p5 b5 where 5: "(if t4 \<noteq> Null then tok p4 b4 else (arg2, p4, b4)) = (t5, p5, b5)"
    by (metis surj_pair)
  have k5: "length b5 = length buf" "drop k b5 = drop k buf"
    using tok_tail [of k b4 p4 t5 p5 b5] 5 k4 assms(1) by (auto split: if_splits)
  have "buf' = b5"
    using assms(3) unfolding nt_parse_def Let_def by (auto simp: 1 2 3 4 5 bindE_Inr_iff)
  with k5 show ?thesis
    by simp
qed

text \<open>A pointer into a part of the buffer that is the same denotes the same text.\<close>

definition points_from :: "nat \<Rightarrow> pointer \<Rightarrow> bool" where
  "points_from k p \<longleftrightarrow> (case p of Buf i \<Rightarrow> k \<le> i | _ \<Rightarrow> True)"

definition entry_from :: "nat \<Rightarrow> MessageEntry \<Rightarrow> bool" where
  "entry_from k m \<longleftrightarrow> entry_wf m \<and> points_from k (me_RT m) \<and> points_from k (me_argument1 m) \<and> points_from k (me_argument2 m)"

lemma drop_eq_mono: "drop k xs = drop k ys \<Longrightarrow> k \<le> i \<Longrightarrow> drop i xs = drop i ys"
  by (metis drop_drop le_add_diff_inverse2)

lemma resolve_same: "drop k buf' = drop k buf \<Longrightarrow> points_from k p \<Longrightarrow> resolve buf' p = resolve buf p"
  using drop_eq_mono [of k buf' buf] by (auto simp: resolve_def points_from_def chars_at_def split: pointer.splits)

lemma request_same:
  assumes "drop k buf' = drop k buf" "length buf' = length buf" "entry_from k m"
  shows "map_sum id fst (request_of buf' a b m) = map_sum id fst (request_of buf c d m)"
proof -
  have "buf' ! i = buf ! i" if "k \<le> i" "i < length buf" for i
    using drop_eq_mono [OF assms(1) that(1)] that(2) assms(2) by (metis hd_drop_conv_nth)
  then show ?thesis
    using assms resolve_same [OF assms(1)]
    by (auto simp: request_of_def entry_from_def entry_wf_def Let_def points_from_def split: pointer.splits)
qed

lemma requests_same:
  assumes "drop k buf' = drop k buf" "length buf' = length buf" "\<forall>m\<in>set ms. entry_from k m"
  shows "map_sum id fst (requests_of buf' a b ms) = map_sum id fst (requests_of buf c d ms)"
  using assms(3)
proof (induction ms arbitrary: a b c d)
  case (Cons m ms)
  have 1: "map_sum id fst (request_of buf' a b m) = map_sum id fst (request_of buf c d m)"
    using request_same [OF assms(1,2)] Cons.prems by simp
  have 2: "map_sum id fst (requests_of buf' x y ms) = map_sum id fst (requests_of buf z u ms)" for x y z u
    using Cons.prems by (intro Cons.IH) simp
  show ?case
  proof (cases "request_of buf' a b m")
    case (Inl e)
    with 1 show ?thesis
      by (cases "request_of buf c d m") auto
  next
    case (Inr r)
    then obtain r' where r': "request_of buf c d m = Inr r'" "fst r' = fst r"
      using 1 by (cases "request_of buf c d m") auto
    show ?thesis
      using Inr r' 2 [of "fst (snd r)" "snd (snd r)" "fst (snd r')" "snd (snd r')"]
      by (cases r; cases r'; cases "requests_of buf' (fst (snd r)) (snd (snd r)) ms"; cases "requests_of buf (fst (snd r')) (snd (snd r')) ms") auto
  qed
qed simp

lemma tok_word:
  assumes "w \<noteq> []" "CHR '','' \<notin> set w" "CHR 0x00 \<notin> set w" and "pos = length pre"
  shows "tok pos (pre @ w @ CHR '','' # rest) = (Buf pos, pos + length w + 1, pre @ w @ CHR 0x00 # rest)"
    and "tok pos (pre @ w @ CHR 0x00 # rest) = (Buf pos, pos + length w, pre @ w @ CHR 0x00 # rest)"
    and "tok pos (pre @ CHR 0x00 # rest) = (Null, pos, pre @ CHR 0x00 # rest)"
proof -
  have 1: "takeWhile (\<lambda>c. c = CHR '','') (w @ xs) = []" for xs
    using assms(1,2) by (cases w) auto
  have "\<forall>c\<in>set w. c \<noteq> CHR '','' \<and> c \<noteq> CHR 0x00"
    using assms(2,3) by auto
  then have 2: "takeWhile (\<lambda>c. c \<noteq> CHR '','' \<and> c \<noteq> CHR 0x00) (w @ xs) = w @ takeWhile (\<lambda>c. c \<noteq> CHR '','' \<and> c \<noteq> CHR 0x00) xs" for xs
    by (simp add: takeWhile_append2)
  show "tok pos (pre @ w @ CHR '','' # rest) = (Buf pos, pos + length w + 1, pre @ w @ CHR 0x00 # rest)"
    "tok pos (pre @ w @ CHR 0x00 # rest) = (Buf pos, pos + length w, pre @ w @ CHR 0x00 # rest)"
    using assms(1) by (simp_all add: tok_def strtok_at_def Let_def 1 2 assms(4) nth_append list_update_append)
  show "tok pos (pre @ CHR 0x00 # rest) = (Null, pos, pre @ CHR 0x00 # rest)"
    by (simp add: tok_def strtok_at_def Let_def assms(4))
qed

lemma decimal_no_NUL [simp]: "CHR 0x00 \<notin> set (decimal n)"
  using decimal_digits [of "CHR 0x00"] by (auto simp: is_digit_def)

lemma stamp_text_no_request:
  assumes "nt_parse (receive_into (stamp_text self t @ [CHR 0x00]) buf) a1 a2 = Inr (ps, buf')"
  shows "ps_requestType ps = Null"
proof -
  let ?d1 = "decimal t" and ?d2 = "decimal (nat self)"
  obtain rest where buf: "receive_into (stamp_text self t @ [CHR 0x00]) buf = ?d1 @ CHR '','' # ?d2 @ CHR 0x00 # rest"
    by (simp add: receive_into_def stamp_text_def)
  have 1: "tok 0 (?d1 @ CHR '','' # ?d2 @ CHR 0x00 # rest) = (Buf 0, length ?d1 + 1, ?d1 @ CHR 0x00 # ?d2 @ CHR 0x00 # rest)"
    using tok_word(1) [of ?d1 0 "[]"] by simp
  have 2: "tok (Suc (length ?d1)) (?d1 @ CHR 0x00 # ?d2 @ CHR 0x00 # rest) =
      (Buf (Suc (length ?d1)), Suc (length ?d1) + length ?d2, ?d1 @ CHR 0x00 # ?d2 @ CHR 0x00 # rest)"
    using tok_word(2) [of ?d2 "Suc (length ?d1)" "?d1 @ [CHR 0x00]"] by simp
  have 3: "tok (Suc (length ?d1) + length ?d2) (?d1 @ CHR 0x00 # ?d2 @ CHR 0x00 # rest) =
      (Null, Suc (length ?d1) + length ?d2, ?d1 @ CHR 0x00 # ?d2 @ CHR 0x00 # rest)"
    using tok_word(3) [of "''x''" "Suc (length ?d1) + length ?d2" "?d1 @ CHR 0x00 # ?d2"] by simp
  show ?thesis
    using assms unfolding nt_parse_def Let_def buf 1
    by (auto simp: 1 2 3 [simplified] bindE_Inr_iff split: if_splits prod.splits)
qed

text \<open>The answer of another thread does not disturb the requests that wait, if they lie behind it in the buffer, as they do when all
  time stamps and identities have the same number of digits: what the turn carries out is what
  the pointers of the messages denoted before.\<close>

theorem answer_keeps_requests:
  assumes ok: "nt_ok n" and dat: "dat = stamp_text self t @ [CHR 0x00]" "length dat \<le> length (nt_buffer n)"
    and behind: "\<forall>m\<in>set (items (QueuedMessages n)). entry_from (length dat) m"
    and turn: "nt_turn clock dat n = Inr tu"
  shows "map_sum id fst (requests_of (nt_buffer n) Null Null (tu_entries tu)) = Inr (tu_requests tu)"
proof -
  obtain ps buf0 s queued ready buf sent rqs a1 a2 where
    p: "nt_parse (receive_into dat (nt_buffer n)) (nt_arg1 n) (nt_arg2 n) = Inr (ps, buf0)"
    and mv: "move_processable s (enqueue ps (chars_at (receive_into dat (nt_buffer n)) 0) (QueuedMessages n)) (ProcessableMSG n) = Inr (queued, ready)"
    and an: "(if ps_requestType ps \<noteq> Null then answer_all clock (nt_self n) (ps_ID ps) (chars_at (receive_into dat (nt_buffer n)) 0)
        (update_stamp (ps_ID ps) (ps_timeStamp ps) (TimeStampList n)) buf0 else (buf0, [])) = (buf, sent)"
    and rq: "requests_of buf (ps_arg1 ps) (ps_arg2 ps) (items ready) = Inr (rqs, a1, a2)"
    and tu: "tu_entries tu = items ready" "tu_requests tu = rqs"
    by (rule nt_turn_parts [OF turn]) simp
  have null: "ps_requestType ps = Null"
    using stamp_text_no_request p dat(1) by metis
  let ?k = "length dat - 1"
  have "receive_into dat (nt_buffer n) ! ?k = CHR 0x00" "?k < length (receive_into dat (nt_buffer n))"
    by (simp_all add: receive_into_def dat(1) nth_append)
  note tail = nt_parse_tail [OF this(2,1) p]
  have buf: "buf = buf0"
    using an null by simp
  have same: "drop (length dat) buf = drop (length dat) (nt_buffer n)" "length buf = length (nt_buffer n)"
    using drop_eq_mono [of ?k buf0 "receive_into dat (nt_buffer n)" "length dat"] tail dat(2) by (simp_all add: buf receive_into_def)
  have "map (\<lambda>e. me_time (fst e)) (elems (QueuedMessages n)) = map snd (elems (QueuedMessages n))"
    using ok by (simp add: nt_ok_def)
  then have "sorted (map (\<lambda>e. me_time (fst e)) (elems (QueuedMessages n)))"
    using ok unfolding nt_ok_def by (simp only:)
  then have "ready = foldl insert_ready (ProcessableMSG n) (map fst (takeWhile (ready_at s) (elems (QueuedMessages n))))"
    using move_processable_eq(2) mv null by (simp add: enqueue_def)
  then have "set (items ready) = set (map fst (takeWhile (ready_at s) (elems (QueuedMessages n))))"
    using arg_cong [OF items_ready(1), of set_mset] ok by (simp add: nt_ok_def)
  then have "set (items ready) \<subseteq> set (items (QueuedMessages n))"
    by (auto dest: set_takeWhileD)
  then have "\<forall>m\<in>set (items ready). entry_from (length dat) m"
    using behind by blast
  from requests_same [OF same this, of "ps_arg1 ps" "ps_arg2 ps" Null Null] show ?thesis
    by (simp add: rq tu)
qed

section \<open>Concrete runs\<close>

definition three_threads :: "int \<Rightarrow> NetThread" where
  "three_threads self = network_thread_start self (replicate 40 (CHR 0x00)) [101, 201, 301]"

definition mails :: "string list \<Rightarrow> string list" where
  "mails = map (\<lambda>s. s @ [CHR 0x00])"

definition noon :: "nat \<Rightarrow> nat" where
  "noon k = 53"

definition carried_out :: "int \<Rightarrow> string list \<Rightarrow> (int \<times> char \<times> string option) list res" where
  "carried_out self ds = map_sum id (\<lambda>(n, rs). map (\<lambda>(m, r). (me_ntID m, rq_type r, rq_arg1 r)) rs) (nt_turns noon (mails ds) (three_threads self))"

lemma run_own_request: "carried_out 101 [''50,101,j,A'', ''51,201'', ''52,301''] = Inr [(101, CHR ''j'', Some ''A'')]"
  by code_simp

text \<open>When the request of another thread arrives while a request waits, the one that waits is carried out as the other: thread 101 asked to create
  monitor A, thread 201 to read monitor 7, and monitor 7 is read twice.\<close>

lemma run_overwritten:
  "carried_out 101 [''50,101,j,A'', ''49,201,k,7'', ''52,301'', ''51,201''] =
     Inr [(201, CHR ''k'', Some ''7''), (101, CHR ''k'', Some ''7'')]"
  by code_simp

definition sent_by :: "string \<Rightarrow> string list \<Rightarrow> string list" where
  "sent_by i = filter (\<lambda>d. map_option (\<lambda>(_, r). map_option fst (strtok r)) (strtok d) = Some (Some i))"

definition run_a :: "string list" where
  "run_a = [''50,301,l,0,7'', ''50,101'', ''51,101,l,0,8'', ''55,301'', ''56,201'']"

definition run_b :: "string list" where
  "run_b = [''50,301,l,0,7'', ''56,201'', ''50,101'', ''51,101,l,0,8'', ''55,301'']"

text \<open>Two threads that receive the same messages, those of each thread in the order they were sent, can carry them out in different orders:
  the key adds the identity to ten times the time, so that a later message of a thread with a small identity comes
  before an earlier one, but only when both become ready in the same turn.\<close>

lemma threads_disagree_on_order:
  "sent_by ''101'' run_a = sent_by ''101'' run_b \<and> sent_by ''201'' run_a = sent_by ''201'' run_b \<and> sent_by ''301'' run_a = sent_by ''301'' run_b \<and>
   map_sum id (map fst) (carried_out 201 run_a) = Inr [101, 301] \<and> map_sum id (map fst) (carried_out 301 run_b) = Inr [301, 101]"
  by code_simp

definition waiting_thread :: NetThread where
  "waiting_thread = (case nt_turns noon (mails [''50,101,j,A'', ''51,201'']) (three_threads 101) of Inr (n, _) \<Rightarrow> n | Inl _ \<Rightarrow> three_threads 101)"

lemma waiting_thread_ok: "nt_ok waiting_thread"
  unfolding nt_ok_def by code_simp

lemma waiting_thread_behind:
  "list_all (entry_from (length (stamp_text 301 52 @ [CHR 0x00]))) (items (QueuedMessages waiting_thread)) \<and>
   length (stamp_text 301 52 @ [CHR 0x00]) \<le> length (nt_buffer waiting_thread)"
  by code_simp

lemma waiting_thread_turn:
  obtains t where "nt_turn noon (stamp_text 301 52 @ [CHR 0x00]) waiting_thread = Inr t" "map me_ntID (tu_entries t) = [101]"
    "map rq_type (tu_requests t) = [CHR ''j'']"
proof -
  have "case nt_turn noon (stamp_text 301 52 @ [CHR 0x00]) waiting_thread of
      Inl _ \<Rightarrow> False | Inr t \<Rightarrow> map me_ntID (tu_entries t) = [101] \<and> map rq_type (tu_requests t) = [CHR ''j'']"
    by code_simp
  then show thesis
    using that by (auto split: sum.splits)
qed

theorem turn_carries_out_ready_witness:
  "\<exists>t. nt_turn noon (stamp_text 301 52 @ [CHR 0x00]) waiting_thread = Inr t \<and> nt_ok (tu_thread t) \<and> map me_ntID (tu_entries t) = [101] \<and>
     map rq_ntID (tu_requests t) = [101]"
proof -
  obtain t where "nt_turn noon (stamp_text 301 52 @ [CHR 0x00]) waiting_thread = Inr t" "map me_ntID (tu_entries t) = [101]"
    using waiting_thread_turn .
  with turn_carries_out_ready [OF waiting_thread_ok this(1)] show ?thesis
    by (intro exI [of _ t]) simp
qed

theorem answer_keeps_requests_witness:
  "\<exists>t. nt_turn noon (stamp_text 301 52 @ [CHR 0x00]) waiting_thread = Inr t \<and> map rq_type (tu_requests t) = [CHR ''j''] \<and>
     map_sum id fst (requests_of (nt_buffer waiting_thread) Null Null (tu_entries t)) = Inr (tu_requests t)"
proof -
  obtain t where t: "nt_turn noon (stamp_text 301 52 @ [CHR 0x00]) waiting_thread = Inr t" "map rq_type (tu_requests t) = [CHR ''j'']"
    using waiting_thread_turn .
  with answer_keeps_requests [OF waiting_thread_ok refl _ _ t(1)] waiting_thread_behind show ?thesis
    by (simp add: list_all_iff)
qed

end
