(* ===== verification/Nachos_NtServer.thy ===== *)
theory Nachos_NtServer
  imports Nachos_NetThread Nachos_Table
begin

text \<open>
  What a network thread does with a request (the \<open>switch\<close> of \<open>network_thread\<close> in \<^verbatim>\<open>userprog/exception.cc\<close>): the
  tables of locks, conditions and monitors, one copy in each thread, and the replies to the user program of the thread.

  Replies are C strings that \<open>ack\<close> points to. The numbers among them are written by \<open>itoa\<close> into whatever string
  literal \<open>ack\<close> points to at that time; the build has \<^verbatim>\<open>-fwritable-strings\<close>, so that every
  literal of the program is a place of its own whose bytes can change. Writing behind the end of a literal is an error of the model.
\<close>

section \<open>State\<close>

datatype nt_state = NtFree | NtBusy

record ntLockEntry =
  lk_waitQueue :: "int list"
  lk_state :: nt_state
  lk_owner :: int
  lk_deleteCounter :: int

record ntConditionEntry =
  cv_waitQueue :: "int list"
  cv_lock :: int
  cv_deleteCounter :: int

record ntMonitorEntry =
  mv_value :: int

text \<open>The literals assigned to \<open>ack\<close>, in the order of the program.\<close>

datatype literal = Empty | ReleaseDone | NextDone | LockDeleted | LockNotyet | SignalNobody | SignalDone | SignalWakeup
  | Wronglock | WaitDone | BroadcastNobody | BroadcastDone | BroadcastWakeup | CVDeleted | CVNotyet | SetDone

fun literal_text :: "literal \<Rightarrow> string" where
  "literal_text Empty = ''''"
| "literal_text ReleaseDone = ''done''"
| "literal_text NextDone = ''done''"
| "literal_text LockDeleted = ''deleted''"
| "literal_text LockNotyet = ''notyet''"
| "literal_text SignalNobody = ''done''"
| "literal_text SignalDone = ''done''"
| "literal_text SignalWakeup = ''wakeup''"
| "literal_text Wronglock = ''wronglock''"
| "literal_text WaitDone = ''done''"
| "literal_text BroadcastNobody = ''done''"
| "literal_text BroadcastDone = ''done''"
| "literal_text BroadcastWakeup = ''wakeup''"
| "literal_text CVDeleted = ''deleted''"
| "literal_text CVNotyet = ''notyet''"
| "literal_text SetDone = ''done''"

record Server =
  sv_self :: int
  sv_ack :: literal
  sv_bytes :: "literal \<Rightarrow> string"
  ntLockTable :: "ntLockEntry Table"
  ntConditionTable :: "ntConditionEntry Table"
  ntMonitorTable :: "ntMonitorEntry Table"
  lockName :: "string list"
  conditionName :: "string list"
  monitorName :: "string list"
  lockNameNumber :: int
  conditionNameNumber :: int
  monitorNameNumber :: int

text \<open>The literal that \<open>ack\<close> starts with is empty; \<open>pad\<close> are the bytes behind it that nothing else uses.\<close>

definition Server_start :: "(nat \<Rightarrow> 32 word) \<Rightarrow> string \<Rightarrow> int \<Rightarrow> Server res" where
  "Server_start gbits pad self =
     bindE (Table_new gbits (\<lambda>_. None) 50) (\<lambda>locks.
     bindE (Table_new gbits (\<lambda>_. None) 50) (\<lambda>conditions.
     bindE (Table_new gbits (\<lambda>_. None) 50) (\<lambda>monitors.
       Inr \<lparr>sv_self = self, sv_ack = Empty, sv_bytes = (\<lambda>l. literal_text l @ [CHR 0x00] @ (if l = Empty then pad else [])),
            ntLockTable = locks, ntConditionTable = conditions, ntMonitorTable = monitors,
            lockName = replicate 50 '''', conditionName = replicate 50 '''', monitorName = replicate 50 '''',
            lockNameNumber = 0, conditionNameNumber = 0, monitorNameNumber = 0\<rparr>)))"

section \<open>Numbers as text\<close>

definition myexp :: "nat \<Rightarrow> int" where
  "myexp n = ((\<lambda>val. val * 10) ^^ n) 1"

text \<open>The digits, from the highest position on; when no highest position is found the variable that holds it has no value.\<close>

definition itoa_max :: "int \<Rightarrow> nat res" where
  "itoa_max val = (if val sdiv myexp 1 = 0 then Inr 0 else if val sdiv myexp 2 = 0 then Inr 1 else Inl UndefinedArithmetic)"

fun itoa_digits :: "nat \<Rightarrow> nat \<Rightarrow> int \<Rightarrow> int \<Rightarrow> string" where
  "itoa_digits mx 0 val subval = [to_byte (48 + (val - subval) sdiv myexp 0)]"
| "itoa_digits mx (Suc i) val subval =
     (let dig = 48 + (val - subval) sdiv myexp (Suc i) in to_byte dig # itoa_digits mx i val ((dig - 48) * myexp mx))"

definition itoa :: "string \<Rightarrow> nat \<Rightarrow> int \<Rightarrow> string res" where
  "itoa arr n val =
     (if length arr < n then Inl OutOfRange
      else bindE (itoa_max val) (\<lambda>mx.
        let digits = itoa_digits mx mx val 0 in
        Inr (receive_into digits (receive_into (replicate n (CHR 0x00)) arr))))"

section \<open>Replies\<close>

definition set_ack :: "literal \<Rightarrow> Server \<Rightarrow> Server" where
  "set_ack l sv = sv\<lparr>sv_ack := l\<rparr>"

definition ack_number :: "int \<Rightarrow> Server \<Rightarrow> Server res" where
  "ack_number val sv =
     bindE (itoa (sv_bytes sv (sv_ack sv)) 3 val) (\<lambda>b. Inr (sv\<lparr>sv_bytes := (sv_bytes sv)(sv_ack sv := b)\<rparr>))"

text \<open>A reply to the user program of this thread.\<close>

definition reply_to :: "int \<Rightarrow> Server \<Rightarrow> Outgoing list" where
  "reply_to machine sv = [\<lparr>og_machine = machine, og_box = sv_self sv mod 100 - 1, og_text = chars_at (sv_bytes sv (sv_ack sv)) 0\<rparr>]"

definition reply :: "Server \<Rightarrow> Outgoing list" where
  "reply sv = reply_to (sv_self sv div 100) sv"

definition reply_if :: "bool \<Rightarrow> Server \<Rightarrow> Outgoing list" where
  "reply_if b sv = (if b then reply sv else [])"

section \<open>Tables\<close>

definition entry_at :: "'a Table \<Rightarrow> int \<Rightarrow> 'a res" where
  "entry_at t i = bindE (Table_Get t i) (\<lambda>e. case e of None \<Rightarrow> Inl NullDereference | Some x \<Rightarrow> Inr x)"

text \<open>An object changes through the pointer the table has to it.\<close>

definition put_entry :: "int \<Rightarrow> 'a \<Rightarrow> 'a Table \<Rightarrow> 'a Table" where
  "put_entry i x t = t\<lparr>ttable := (ttable t)[nat i := Some x]\<rparr>"

definition find_name :: "string \<Rightarrow> int \<Rightarrow> string list \<Rightarrow> int res" where
  "find_name nm number names = search_from (\<lambda>i. bindE (array_get names i) (\<lambda>s. Inr (s = nm))) number 0"

definition arg_text :: "string option \<Rightarrow> string res" where
  "arg_text a = (case a of None \<Rightarrow> Inl NullDereference | Some s \<Rightarrow> Inr s)"

definition arg_number :: "string option \<Rightarrow> int res" where
  "arg_number a = bindE (arg_text a) (\<lambda>s. Inr (atoi s))"

section \<open>Locks\<close>

abbreviation own_request :: "Request \<Rightarrow> Server \<Rightarrow> bool" where
  "own_request rq sv \<equiv> rq_ntID rq = sv_self sv"

definition create_lock :: "int \<Rightarrow> string \<Rightarrow> Server \<Rightarrow> (int \<times> Server) res" where
  "create_lock owner arg1 sv =
     bindE (find_name arg1 (lockNameNumber sv) (lockName sv)) (\<lambda>i.
       if i \<noteq> -1 then
         bindE (entry_at (ntLockTable sv) i) (\<lambda>sle.
           Inr (i, sv\<lparr>ntLockTable := put_entry i (sle\<lparr>lk_deleteCounter := lk_deleteCounter sle + 1\<rparr>) (ntLockTable sv)\<rparr>))
       else
         bindE (Table_Put (ntLockTable sv) (Some \<lparr>lk_waitQueue = [], lk_state = NtFree, lk_owner = owner, lk_deleteCounter = 1\<rparr>)) (\<lambda>(i, t).
         bindE (array_set (lockName sv) i arg1) (\<lambda>names.
           Inr (i, sv\<lparr>ntLockTable := t, lockName := names, lockNameNumber := lockNameNumber sv + 1\<rparr>))))"

definition CREATE_LOCK :: "Request \<Rightarrow> Server \<Rightarrow> (Server \<times> Outgoing list) res" where
  "CREATE_LOCK rq sv =
     bindE (arg_text (rq_arg1 rq)) (\<lambda>arg1.
     bindE (create_lock (rq_ntID rq) arg1 sv) (\<lambda>(lockIndex, sv).
     bindE (ack_number lockIndex sv) (\<lambda>sv. Inr (sv, reply_if (own_request rq sv) sv))))"

definition RELEASE :: "Request \<Rightarrow> Server \<Rightarrow> (Server \<times> Outgoing list) res" where
  "RELEASE rq sv =
     bindE (arg_number (rq_arg1 rq)) (\<lambda>lockIndex.
     bindE (entry_at (ntLockTable sv) lockIndex) (\<lambda>sle.
       let sv = set_ack ReleaseDone sv;
           out = reply_if (own_request rq sv) sv in
       case lk_waitQueue sle of
         re # q \<Rightarrow>
           let sv = set_ack NextDone (sv\<lparr>ntLockTable := put_entry lockIndex (sle\<lparr>lk_waitQueue := q, lk_owner := re\<rparr>) (ntLockTable sv)\<rparr>)
           in Inr (sv, out @ reply_if (re = sv_self sv) sv)
       | [] \<Rightarrow> Inr (sv\<lparr>ntLockTable := put_entry lockIndex (sle\<lparr>lk_state := NtFree, lk_owner := 0\<rparr>) (ntLockTable sv)\<rparr>, out)))"

definition DESTROY_LOCK :: "Request \<Rightarrow> Server \<Rightarrow> (Server \<times> Outgoing list) res" where
  "DESTROY_LOCK rq sv =
     bindE (arg_number (rq_arg1 rq)) (\<lambda>lockIndex.
     bindE (entry_at (ntLockTable sv) lockIndex) (\<lambda>sle.
       let sle = sle\<lparr>lk_deleteCounter := lk_deleteCounter sle - 1\<rparr>;
           sv = sv\<lparr>ntLockTable := put_entry lockIndex sle (ntLockTable sv)\<rparr> in
       if lk_deleteCounter sle = 0 then
         bindE (array_set (lockName sv) lockIndex ''/0'') (\<lambda>names.
         bindE (Table_Remove (ntLockTable sv) lockIndex) (\<lambda>(_, t).
           let sv = set_ack LockDeleted (sv\<lparr>lockName := names, ntLockTable := t\<rparr>) in Inr (sv, reply sv)))
       else let sv = set_ack LockNotyet sv in Inr (sv, reply sv)))"

section \<open>Conditions\<close>

definition create_cv :: "string \<Rightarrow> Server \<Rightarrow> (int \<times> Server) res" where
  "create_cv arg1 sv =
     bindE (find_name arg1 (conditionNameNumber sv) (conditionName sv)) (\<lambda>i.
       if i \<noteq> -1 then
         bindE (entry_at (ntConditionTable sv) i) (\<lambda>sce.
           Inr (i, sv\<lparr>ntConditionTable := put_entry i (sce\<lparr>cv_deleteCounter := cv_deleteCounter sce + 1\<rparr>) (ntConditionTable sv)\<rparr>))
       else
         bindE (Table_Put (ntConditionTable sv) (Some \<lparr>cv_waitQueue = [], cv_lock = 0, cv_deleteCounter = 1\<rparr>)) (\<lambda>(i, t).
         bindE (array_set (conditionName sv) i arg1) (\<lambda>names.
           Inr (i, sv\<lparr>ntConditionTable := t, conditionName := names, conditionNameNumber := conditionNameNumber sv + 1\<rparr>))))"

definition CREATE_CV :: "Request \<Rightarrow> Server \<Rightarrow> (Server \<times> Outgoing list) res" where
  "CREATE_CV rq sv =
     bindE (arg_text (rq_arg1 rq)) (\<lambda>arg1.
     bindE (create_cv arg1 sv) (\<lambda>(conditionIndex, sv).
     bindE (ack_number conditionIndex sv) (\<lambda>sv. Inr (sv, reply_if (own_request rq sv) sv))))"

text \<open>The thread that is woken up gets the lock or waits for it. What is put into the queue of the lock is the identity of this thread, not of the one
  that was woken up.\<close>

definition SIGNAL :: "Request \<Rightarrow> Server \<Rightarrow> (Server \<times> Outgoing list) res" where
  "SIGNAL rq sv =
     bindE (arg_number (rq_arg1 rq)) (\<lambda>conditionIndex.
     bindE (arg_number (rq_arg2 rq)) (\<lambda>lockIndex.
     bindE (entry_at (ntConditionTable sv) conditionIndex) (\<lambda>sce.
       case cv_waitQueue sce of
         [] \<Rightarrow> let sv = set_ack SignalNobody sv in Inr (sv, reply sv)
       | re # q \<Rightarrow>
           let sv = set_ack SignalDone sv;
               out = reply_if (own_request rq sv) sv;
               sv = sv\<lparr>ntConditionTable := put_entry conditionIndex (sce\<lparr>cv_waitQueue := q\<rparr>) (ntConditionTable sv)\<rparr> in
           bindE (entry_at (ntLockTable sv) lockIndex) (\<lambda>sle.
             if lk_state sle = NtFree then
               let sv = set_ack SignalWakeup (sv\<lparr>ntLockTable := put_entry lockIndex (sle\<lparr>lk_owner := re, lk_state := NtBusy\<rparr>) (ntLockTable sv)\<rparr>)
               in Inr (sv, out @ reply_if (re = sv_self sv) sv)
             else Inr (sv\<lparr>ntLockTable := put_entry lockIndex (sle\<lparr>lk_waitQueue := lk_waitQueue sle @ [sv_self sv]\<rparr>) (ntLockTable sv)\<rparr>, out)))))"

definition WAIT :: "Request \<Rightarrow> Server \<Rightarrow> (Server \<times> Outgoing list) res" where
  "WAIT rq sv =
     bindE (arg_number (rq_arg1 rq)) (\<lambda>conditionIndex.
     bindE (arg_number (rq_arg2 rq)) (\<lambda>lockIndex.
     bindE (entry_at (ntConditionTable sv) conditionIndex) (\<lambda>sce.
       let sce = (if cv_lock sce = 0 \<and> lockIndex \<noteq> 0 then sce\<lparr>cv_lock := lockIndex\<rparr> else sce);
           sv = (if cv_lock sce \<noteq> lockIndex then set_ack Wronglock sv else sv);
           out = reply_if (cv_lock sce \<noteq> lockIndex) sv;
           sce = sce\<lparr>cv_waitQueue := cv_waitQueue sce @ [sv_self sv]\<rparr>;
           sv = sv\<lparr>ntConditionTable := put_entry conditionIndex sce (ntConditionTable sv)\<rparr> in
       bindE (entry_at (ntLockTable sv) lockIndex) (\<lambda>sle.
         case lk_waitQueue sle of
           re # q \<Rightarrow>
             let sv = set_ack WaitDone (sv\<lparr>ntLockTable := put_entry lockIndex (sle\<lparr>lk_waitQueue := q, lk_owner := re mod 100\<rparr>) (ntLockTable sv)\<rparr>)
             in Inr (sv, out @ reply_if (re = sv_self sv) sv)
         | [] \<Rightarrow> Inr (sv\<lparr>ntLockTable := put_entry lockIndex (sle\<lparr>lk_state := NtFree, lk_owner := 0\<rparr>) (ntLockTable sv)\<rparr>, out)))))"

text \<open>The loop of a broadcast. The machine a wake-up goes to is the identity in the queue as a whole.\<close>

fun broadcast_loop :: "int \<Rightarrow> int list \<Rightarrow> Server \<Rightarrow> (Server \<times> Outgoing list) res" where
  "broadcast_loop lockIndex [] sv = Inr (sv, [])"
| "broadcast_loop lockIndex (re # q) sv =
     bindE (entry_at (ntLockTable sv) lockIndex) (\<lambda>sle.
       let (sv, out) =
         (if lk_state sle = NtFree then
            let sv = set_ack BroadcastWakeup (sv\<lparr>ntLockTable := put_entry lockIndex (sle\<lparr>lk_owner := re, lk_state := NtBusy\<rparr>) (ntLockTable sv)\<rparr>)
            in (sv, reply_to re sv)
          else (sv\<lparr>ntLockTable := put_entry lockIndex (sle\<lparr>lk_waitQueue := lk_waitQueue sle @ [re]\<rparr>) (ntLockTable sv)\<rparr>, [])) in
       bindE (broadcast_loop lockIndex q sv) (\<lambda>(sv, out'). Inr (sv, out @ out')))"

definition BROADCAST :: "Request \<Rightarrow> Server \<Rightarrow> (Server \<times> Outgoing list) res" where
  "BROADCAST rq sv =
     bindE (arg_number (rq_arg1 rq)) (\<lambda>conditionIndex.
     bindE (arg_number (rq_arg2 rq)) (\<lambda>lockIndex.
     bindE (entry_at (ntConditionTable sv) conditionIndex) (\<lambda>sce.
       if cv_waitQueue sce = [] then let sv = set_ack BroadcastNobody sv in Inr (sv, reply sv)
       else
         let sv = set_ack BroadcastDone sv;
             out = reply sv;
             sv = sv\<lparr>ntConditionTable := put_entry conditionIndex (sce\<lparr>cv_waitQueue := []\<rparr>) (ntConditionTable sv)\<rparr> in
         bindE (broadcast_loop lockIndex (cv_waitQueue sce) sv) (\<lambda>(sv, out'). Inr (sv, out @ out')))))"

definition DESTROY_CV :: "Request \<Rightarrow> Server \<Rightarrow> (Server \<times> Outgoing list) res" where
  "DESTROY_CV rq sv =
     bindE (arg_number (rq_arg1 rq)) (\<lambda>conditionIndex.
     bindE (entry_at (ntConditionTable sv) conditionIndex) (\<lambda>sce.
       let sce = sce\<lparr>cv_deleteCounter := cv_deleteCounter sce - 1\<rparr>;
           sv = sv\<lparr>ntConditionTable := put_entry conditionIndex sce (ntConditionTable sv)\<rparr> in
       if cv_deleteCounter sce = 0 then
         bindE (array_set (conditionName sv) conditionIndex ''/0'') (\<lambda>names.
         bindE (Table_Remove (ntConditionTable sv) conditionIndex) (\<lambda>(_, t).
           let sv = set_ack CVDeleted (sv\<lparr>conditionName := names, ntConditionTable := t\<rparr>) in Inr (sv, reply sv)))
       else let sv = set_ack CVNotyet sv in Inr (sv, reply sv)))"

section \<open>Monitors\<close>

definition create_monitor :: "string \<Rightarrow> Server \<Rightarrow> (int \<times> Server) res" where
  "create_monitor arg1 sv =
     bindE (find_name arg1 (monitorNameNumber sv) (monitorName sv)) (\<lambda>i.
       if i \<noteq> -1 then Inr (i, sv)
       else
         bindE (Table_Put (ntMonitorTable sv) (Some \<lparr>mv_value = 0\<rparr>)) (\<lambda>(i, t).
         bindE (array_set (monitorName sv) i arg1) (\<lambda>names.
           Inr (i, sv\<lparr>ntMonitorTable := t, monitorName := names, monitorNameNumber := monitorNameNumber sv + 1\<rparr>))))"

definition number_if_own :: "Request \<Rightarrow> int \<Rightarrow> Server \<Rightarrow> (Server \<times> Outgoing list) res" where
  "number_if_own rq val sv =
     (if own_request rq sv then bindE (ack_number val sv) (\<lambda>sv. Inr (sv, reply sv)) else Inr (sv, []))"

definition CREATE_MONITOR :: "Request \<Rightarrow> Server \<Rightarrow> (Server \<times> Outgoing list) res" where
  "CREATE_MONITOR rq sv =
     bindE (arg_text (rq_arg1 rq)) (\<lambda>arg1.
     bindE (create_monitor arg1 sv) (\<lambda>(monitorIndex, sv). number_if_own rq monitorIndex sv))"

definition RETRIEVE_MONITOR :: "Request \<Rightarrow> Server \<Rightarrow> (Server \<times> Outgoing list) res" where
  "RETRIEVE_MONITOR rq sv =
     bindE (arg_number (rq_arg1 rq)) (\<lambda>monitorIndex.
     bindE (entry_at (ntMonitorTable sv) monitorIndex) (\<lambda>sme. number_if_own rq (mv_value sme) sv))"

definition SET_MONITOR :: "Request \<Rightarrow> Server \<Rightarrow> (Server \<times> Outgoing list) res" where
  "SET_MONITOR rq sv =
     bindE (arg_number (rq_arg1 rq)) (\<lambda>monitorIndex.
     bindE (arg_number (rq_arg2 rq)) (\<lambda>monitorValue.
     bindE (entry_at (ntMonitorTable sv) monitorIndex) (\<lambda>sme.
       let sv = set_ack SetDone (sv\<lparr>ntMonitorTable := put_entry monitorIndex (sme\<lparr>mv_value := monitorValue\<rparr>) (ntMonitorTable sv)\<rparr>)
       in Inr (sv, reply_if (own_request rq sv) sv))))"

section \<open>Dispatch\<close>

text \<open>There is no case for \<open>ACQUIRE\<close>, \<^verbatim>\<open>b\<close>.\<close>

definition serve :: "Request \<Rightarrow> Server \<Rightarrow> (Server \<times> Outgoing list) res" where
  "serve rq sv =
     (if rq_type rq = CHR ''a'' then CREATE_LOCK rq sv
      else if rq_type rq = CHR ''c'' then RELEASE rq sv
      else if rq_type rq = CHR ''d'' then DESTROY_LOCK rq sv
      else if rq_type rq = CHR ''e'' then CREATE_CV rq sv
      else if rq_type rq = CHR ''f'' then SIGNAL rq sv
      else if rq_type rq = CHR ''g'' then WAIT rq sv
      else if rq_type rq = CHR ''h'' then BROADCAST rq sv
      else if rq_type rq = CHR ''i'' then DESTROY_CV rq sv
      else if rq_type rq = CHR ''j'' then CREATE_MONITOR rq sv
      else if rq_type rq = CHR ''k'' then RETRIEVE_MONITOR rq sv
      else if rq_type rq = CHR ''l'' then SET_MONITOR rq sv
      else Inr (sv, []))"

fun serve_all :: "Request list \<Rightarrow> Server \<Rightarrow> (Server \<times> Outgoing list) res" where
  "serve_all [] sv = Inr (sv, [])"
| "serve_all (rq # rqs) sv =
     bindE (serve rq sv) (\<lambda>(sv, out). bindE (serve_all rqs sv) (\<lambda>(sv, out'). Inr (sv, out @ out')))"

section \<open>Numbers can be read back\<close>

lemma myexp_simps [simp]: "myexp 0 = 1" "myexp (Suc 0) = 10" "myexp 2 = 100"
  by (simp_all add: myexp_def eval_nat_numeral)

lemma decimal_two: "10 \<le> n \<Longrightarrow> n < 100 \<Longrightarrow> decimal n = [char_of (48 + n div 10), char_of (48 + n mod 10)]"
  using decimal.simps [of n] decimal.simps [of "n div 10"] by simp

lemma byte_nat: "n < 256 \<Longrightarrow> to_byte (int n) = char_of n"
  using byte_eq_iff [of "int n" "char_of n"] of_nat_of_char [where 'a = int, of "char_of n"] by (simp add: of_char_of)

lemma itoa_chars:
  assumes "n < 100"
  obtains mx where "itoa_max (int n) = Inr mx" "itoa_digits mx mx (int n) 0 = decimal n"
proof (cases "n < 10")
  case True
  then have "itoa_max (int n) = Inr 0" "itoa_digits 0 0 (int n) 0 = decimal n"
    using byte_nat [of "48 + n"] by (simp_all add: itoa_max_def sdiv_nonneg_eq decimal.simps [of n])
  then show thesis
    by (rule that)
next
  case False
  have d: "48 + int n div 10 = int (48 + n div 10)" "48 + (int n - int n div 10 * 10) = int (48 + n mod 10)"
    by (simp_all add: zdiv_int zmod_int minus_div_mult_eq_mod)
  have "48 + n div 10 < 256" "48 + n mod 10 < 256"
    using assms by auto
  note b = this [THEN byte_nat]
  have "itoa_max (int n) = Inr 1"
    using False assms by (simp add: itoa_max_def sdiv_nonneg_eq)
  moreover have "itoa_digits 1 1 (int n) 0 = [to_byte (48 + int n div 10), to_byte (48 + (int n - int n div 10 * 10))]"
    by (simp add: sdiv_nonneg_eq Let_def)
  then have "itoa_digits 1 1 (int n) 0 = decimal n"
    unfolding d b using False assms decimal_two [of n] by (simp only: not_less)
  ultimately show thesis
    by (rule that)
qed

lemma length_decimal: "n < 100 \<Longrightarrow> length (decimal n) \<le> 2"
  using decimal_two [of n] decimal.simps [of n] by (cases "n < 10") auto

lemma itoa_writes_decimal:
  assumes "n < 100" and "3 \<le> length arr"
  obtains b where "itoa arr 3 (int n) = Inr b" "chars_at b 0 = decimal n" "length b = length arr"
proof -
  obtain mx where mx: "itoa_max (int n) = Inr mx" "itoa_digits mx mx (int n) 0 = decimal n"
    using itoa_chars [OF assms(1)] .
  define b where "b = receive_into (decimal n) (receive_into (replicate 3 (CHR 0x00)) arr)"
  have "itoa arr 3 (int n) = Inr b"
    using assms(2) by (simp add: itoa_def mx Let_def b_def)
  moreover obtain k where "3 - length (decimal n) = Suc k"
    using length_decimal [OF assms(1)] by (metis Suc_diff_le numeral_3_eq_3 diff_Suc_Suc numeral_2_eq_2)
  then have "chars_at b 0 = decimal n"
    using takeWhile_eq_all_conv [of "\<lambda>c. c \<noteq> CHR 0x00" "decimal n"]
    by (auto simp: b_def receive_into_def chars_at_def takeWhile_append)
  moreover have "length b = length arr"
    using assms(2) length_decimal [OF assms(1)] by (simp add: b_def receive_into_def)
  ultimately show thesis
    by (rule that)
qed

text \<open>From one hundred on the number of digits has no value.\<close>

lemma itoa_large: "100 \<le> v \<Longrightarrow> 3 \<le> length arr \<Longrightarrow> itoa arr 3 v = Inl UndefinedArithmetic"
proof -
  assume "100 \<le> v" "3 \<le> length arr"
  moreover from this have "v div 100 \<noteq> 0" "v div 10 \<noteq> 0"
    by presburger+
  ultimately show ?thesis
    by (simp add: itoa_def itoa_max_def sdiv_nonneg_eq)
qed

section \<open>What all threads share\<close>

text \<open>
  The part of the tables that does not depend on the thread: which locks, conditions and monitors exist under which names and
  numbers, how often they were created, and the values of the monitors.
\<close>

definition table_view :: "('a \<Rightarrow> 'b) \<Rightarrow> 'a Table \<Rightarrow> 'b Table" where
  "table_view f t = \<lparr>tmap = tmap t, ttable = map (map_option f) (ttable t), tsize = tsize t\<rparr>"

record Shared =
  sh_locks :: "int Table"
  sh_conditions :: "int Table"
  sh_monitors :: "ntMonitorEntry Table"
  sh_lockName :: "string list"
  sh_conditionName :: "string list"
  sh_monitorName :: "string list"
  sh_lockNumber :: int
  sh_conditionNumber :: int
  sh_monitorNumber :: int

definition share :: "Server \<Rightarrow> Shared" where
  "share sv = \<lparr>sh_locks = table_view lk_deleteCounter (ntLockTable sv), sh_conditions = table_view cv_deleteCounter (ntConditionTable sv),
     sh_monitors = ntMonitorTable sv, sh_lockName = lockName sv, sh_conditionName = conditionName sv, sh_monitorName = monitorName sv,
     sh_lockNumber = lockNameNumber sv, sh_conditionNumber = conditionNameNumber sv, sh_monitorNumber = monitorNameNumber sv\<rparr>"

text \<open>Creation and destruction of an object that counts its creations.\<close>

definition create_counted :: "string \<Rightarrow> int Table \<times> string list \<times> int \<Rightarrow> (int Table \<times> string list \<times> int) res" where
  "create_counted nm = (\<lambda>(t, names, number).
     bindE (find_name nm number names) (\<lambda>i.
       if i \<noteq> -1 then bindE (entry_at t i) (\<lambda>n. Inr (put_entry i (n + 1) t, names, number))
       else bindE (Table_Put t (Some 1)) (\<lambda>(i, t). bindE (array_set names i nm) (\<lambda>names. Inr (t, names, number + 1)))))"

definition destroy_counted :: "int \<Rightarrow> int Table \<times> string list \<Rightarrow> (int Table \<times> string list) res" where
  "destroy_counted i = (\<lambda>(t, names).
     bindE (entry_at t i) (\<lambda>n.
       let t = put_entry i (n - 1) t in
       if n = 1 then bindE (array_set names i ''/0'') (\<lambda>names. bindE (Table_Remove t i) (\<lambda>(_, t). Inr (t, names)))
       else Inr (t, names)))"

definition shared_step :: "Request \<Rightarrow> Shared \<Rightarrow> Shared res" where
  "shared_step rq sh =
     (if rq_type rq = CHR ''a'' then
        bindE (arg_text (rq_arg1 rq)) (\<lambda>nm.
        bindE (create_counted nm (sh_locks sh, sh_lockName sh, sh_lockNumber sh)) (\<lambda>(t, names, number).
          Inr (sh\<lparr>sh_locks := t, sh_lockName := names, sh_lockNumber := number\<rparr>)))
      else if rq_type rq = CHR ''d'' then
        bindE (arg_number (rq_arg1 rq)) (\<lambda>i.
        bindE (destroy_counted i (sh_locks sh, sh_lockName sh)) (\<lambda>(t, names). Inr (sh\<lparr>sh_locks := t, sh_lockName := names\<rparr>)))
      else if rq_type rq = CHR ''e'' then
        bindE (arg_text (rq_arg1 rq)) (\<lambda>nm.
        bindE (create_counted nm (sh_conditions sh, sh_conditionName sh, sh_conditionNumber sh)) (\<lambda>(t, names, number).
          Inr (sh\<lparr>sh_conditions := t, sh_conditionName := names, sh_conditionNumber := number\<rparr>)))
      else if rq_type rq = CHR ''i'' then
        bindE (arg_number (rq_arg1 rq)) (\<lambda>i.
        bindE (destroy_counted i (sh_conditions sh, sh_conditionName sh)) (\<lambda>(t, names). Inr (sh\<lparr>sh_conditions := t, sh_conditionName := names\<rparr>)))
      else if rq_type rq = CHR ''j'' then
        bindE (arg_text (rq_arg1 rq)) (\<lambda>nm.
        bindE (find_name nm (sh_monitorNumber sh) (sh_monitorName sh)) (\<lambda>i.
          if i \<noteq> -1 then Inr sh
          else bindE (Table_Put (sh_monitors sh) (Some \<lparr>mv_value = 0\<rparr>)) (\<lambda>(i, t).
               bindE (array_set (sh_monitorName sh) i nm) (\<lambda>names.
                 Inr (sh\<lparr>sh_monitors := t, sh_monitorName := names, sh_monitorNumber := sh_monitorNumber sh + 1\<rparr>)))))
      else if rq_type rq = CHR ''l'' then
        bindE (arg_number (rq_arg1 rq)) (\<lambda>i.
        bindE (arg_number (rq_arg2 rq)) (\<lambda>v.
        bindE (entry_at (sh_monitors sh) i) (\<lambda>e. Inr (sh\<lparr>sh_monitors := put_entry i (e\<lparr>mv_value := v\<rparr>) (sh_monitors sh)\<rparr>))))
      else Inr sh)"

lemma array_get_map: "array_get (map f xs) i = map_sum id f (array_get xs i)"
  by (auto simp: array_get_def)

lemma array_set_map: "array_set (map f xs) i (f v) = map_sum id (map f) (array_set xs i v)"
  by (auto simp: array_set_def map_update)

lemma Table_Get_view: "Table_Get (table_view f t) i = map_sum id (map_option f) (Table_Get t i)"
  by (auto simp: Table_Get_def table_view_def array_get_map bindE_def split: sum.splits)

lemma entry_at_view: "entry_at (table_view f t) i = map_sum id f (entry_at t i)"
  by (auto simp: entry_at_def Table_Get_view bindE_def split: sum.splits option.splits)

lemma put_entry_view: "table_view f (put_entry i x t) = put_entry i (f x) (table_view f t)"
  by (simp add: table_view_def put_entry_def map_update)

lemma Table_Put_view: "Table_Put (table_view f t) (Some (f x)) = map_sum id (\<lambda>(i, t). (i, table_view f t)) (Table_Put t (Some x))"
  using array_set_map [of "map_option f" "ttable t" _ "Some x"]
  by (auto simp: Table_Put_def Table_Put_find_def Table_Put_store_def table_view_def bindE_def split: sum.splits prod.splits)

lemma Table_Remove_view: "Table_Remove (table_view f t) i = map_sum id (\<lambda>(e, t). (map_option f e, table_view f t)) (Table_Remove t i)"
proof -
  have "array_set (map (map_option f) (ttable t)) i None = map_sum id (map (map_option f)) (array_set (ttable t) i None)"
    using array_set_map [of "map_option f" "ttable t" i None] by simp
  then show ?thesis
    by (cases "Test (tmap t) i"; cases "Clear (tmap t) i"; cases "array_get (ttable t) i"; cases "array_set (ttable t) i None")
      (simp_all add: Table_Remove_def table_view_def array_get_map)
qed

lemma entry_at_Inr:
  assumes "entry_at t i = Inr e"
  shows "0 \<le> i" "i < tsize t" "Test (tmap t) i = Inr True" "nat i < length (ttable t)" "ttable t ! nat i = Some e"
proof -
  have get: "Table_Get t i = Inr (Some e)"
    using assms by (simp add: entry_at_def bindE_def split: sum.splits option.splits)
  then show i: "0 \<le> i" "i < tsize t"
    by (simp_all add: Table_Get_def split: if_splits)
  then have "array_get (ttable t) i = Inr (Some e)" and T: "Test (tmap t) i = Inr True"
    using get by (simp_all add: Table_Get_def bindE_def split: sum.splits if_splits)
  from T show "Test (tmap t) i = Inr True" .
  from \<open>array_get (ttable t) i = Inr (Some e)\<close> show "nat i < length (ttable t)" "ttable t ! nat i = Some e"
    by (simp_all add: array_get_Inr_iff nat_less_iff)
qed

lemma entry_at_set:
  assumes "entry_at t i = Inr e"
  shows "entry_at (put_entry i x t) i = Inr x"
proof -
  note e = entry_at_Inr [OF assms]
  have "array_get (ttable (put_entry i x t)) i = Inr (Some x)"
    using e(1,4) by (simp add: array_get_Inr_iff put_entry_def nat_less_iff)
  then have "Table_Get (put_entry i x t) i = Inr (Some x)"
    using e(1,2,3) by (simp add: Table_Get_def put_entry_def)
  then show ?thesis
    by (simp add: entry_at_def)
qed

lemma view_unchanged: "entry_at t i = Inr e \<Longrightarrow> f x = f e \<Longrightarrow> table_view f (put_entry i x t) = table_view f t"
  using entry_at_Inr [of t i e] by (simp add: table_view_def put_entry_def map_update list_update_same_conv)

lemma share_ack [simp]: "share (set_ack l sv) = share sv" "share (sv\<lparr>sv_bytes := b\<rparr>) = share sv"
  by (simp_all add: share_def set_ack_def)

lemma set_ack_simps [simp]:
  "ntLockTable (set_ack l sv) = ntLockTable sv" "ntConditionTable (set_ack l sv) = ntConditionTable sv"
  "ntMonitorTable (set_ack l sv) = ntMonitorTable sv" "sv_self (set_ack l sv) = sv_self sv" "sv_bytes (set_ack l sv) = sv_bytes sv"
  "sv_ack (set_ack l sv) = l" "lockName (set_ack l sv) = lockName sv" "conditionName (set_ack l sv) = conditionName sv"
  by (simp_all add: set_ack_def)

text \<open>Release, signal, wait and broadcast leave what is shared alone.\<close>

lemmas nt_share = bindE_def Let_def share_def set_ack_def view_unchanged

lemma RELEASE_share: "RELEASE rq sv = Inr (sv', out) \<Longrightarrow> share sv' = share sv"
  by (auto simp: RELEASE_def nt_share split: sum.splits list.splits)

lemma SIGNAL_share: "SIGNAL rq sv = Inr (sv', out) \<Longrightarrow> share sv' = share sv"
  by (auto simp: SIGNAL_def nt_share split: sum.splits list.splits if_splits)

lemma WAIT_share: "WAIT rq sv = Inr (sv', out) \<Longrightarrow> share sv' = share sv"
  by (auto simp: WAIT_def nt_share split: sum.splits list.splits if_splits)

lemma broadcast_loop_share: "broadcast_loop l q sv = Inr (sv', out) \<Longrightarrow> share sv' = share sv"
proof (induction q arbitrary: sv out)
  case (Cons re q)
  then obtain sle sv1 out1 out2 where sle: "entry_at (ntLockTable sv) l = Inr sle"
    and sv1: "(if lk_state sle = NtFree then
            let sv = set_ack BroadcastWakeup (sv\<lparr>ntLockTable := put_entry l (sle\<lparr>lk_owner := re, lk_state := NtBusy\<rparr>) (ntLockTable sv)\<rparr>)
            in (sv, reply_to re sv)
          else (sv\<lparr>ntLockTable := put_entry l (sle\<lparr>lk_waitQueue := lk_waitQueue sle @ [re]\<rparr>) (ntLockTable sv)\<rparr>, [])) = (sv1, out1)"
    and more: "broadcast_loop l q sv1 = Inr (sv', out2)"
    by (auto simp: bindE_def split: sum.splits prod.splits)
  have "share sv1 = share sv"
    using sv1 sle by (auto simp: nt_share split: if_splits)
  with Cons.IH [OF more] show ?case
    by simp
qed simp

lemma BROADCAST_share: "BROADCAST rq sv = Inr (sv', out) \<Longrightarrow> share sv' = share sv"
proof -
  assume "BROADCAST rq sv = Inr (sv', out)"
  then show ?thesis
    by (auto simp: BROADCAST_def bindE_def Let_def split: sum.splits if_splits dest!: broadcast_loop_share)
      (auto simp: nt_share)
qed

text \<open>The other requests change it in the same way everywhere.\<close>

lemma create_lock_share:
  assumes "create_lock owner nm sv = Inr (i, sv')"
  obtains t names number where "create_counted nm (sh_locks (share sv), sh_lockName (share sv), sh_lockNumber (share sv)) = Inr (t, names, number)"
    "share sv' = (share sv)\<lparr>sh_locks := t, sh_lockName := names, sh_lockNumber := number\<rparr>"
proof -
  let ?new = "\<lparr>lk_waitQueue = [], lk_state = NtFree, lk_owner = owner, lk_deleteCounter = 1\<rparr>"
  have new: "Table_Put (table_view lk_deleteCounter (ntLockTable sv)) (Some 1) =
      map_sum id (\<lambda>(i, t). (i, table_view lk_deleteCounter t)) (Table_Put (ntLockTable sv) (Some ?new))"
    using Table_Put_view [of lk_deleteCounter "ntLockTable sv" ?new] by simp
  show thesis
    using assms that
    by (auto simp: create_lock_def create_counted_def share_def entry_at_view put_entry_view new bindE_def split: sum.splits if_splits prod.splits)
qed

lemma create_cv_share:
  assumes "create_cv nm sv = Inr (i, sv')"
  obtains t names number where "create_counted nm (sh_conditions (share sv), sh_conditionName (share sv), sh_conditionNumber (share sv)) = Inr (t, names, number)"
    "share sv' = (share sv)\<lparr>sh_conditions := t, sh_conditionName := names, sh_conditionNumber := number\<rparr>"
proof -
  let ?new = "\<lparr>cv_waitQueue = [], cv_lock = 0, cv_deleteCounter = 1\<rparr>"
  have new: "Table_Put (table_view cv_deleteCounter (ntConditionTable sv)) (Some 1) =
      map_sum id (\<lambda>(i, t). (i, table_view cv_deleteCounter t)) (Table_Put (ntConditionTable sv) (Some ?new))"
    using Table_Put_view [of cv_deleteCounter "ntConditionTable sv" ?new] by simp
  show thesis
    using assms that
    by (auto simp: create_cv_def create_counted_def share_def entry_at_view put_entry_view new bindE_def split: sum.splits if_splits prod.splits)
qed

lemma DESTROY_LOCK_share:
  assumes "DESTROY_LOCK rq sv = Inr (sv', out)"
  obtains i t names where "arg_number (rq_arg1 rq) = Inr i" "destroy_counted i (sh_locks (share sv), sh_lockName (share sv)) = Inr (t, names)"
    "share sv' = (share sv)\<lparr>sh_locks := t, sh_lockName := names\<rparr>"
proof -
  obtain i e where i: "arg_number (rq_arg1 rq) = Inr i" and e: "entry_at (ntLockTable sv) i = Inr e"
    using assms by (auto simp: DESTROY_LOCK_def bindE_def split: sum.splits)
  have "Table_Remove (put_entry i (lk_deleteCounter e - 1) (table_view lk_deleteCounter (ntLockTable sv))) i =
      map_sum id (\<lambda>(x, t). (map_option lk_deleteCounter x, table_view lk_deleteCounter t))
        (Table_Remove (put_entry i (e\<lparr>lk_deleteCounter := lk_deleteCounter e - 1\<rparr>) (ntLockTable sv)) i)"
    using Table_Remove_view [of lk_deleteCounter "put_entry i (e\<lparr>lk_deleteCounter := lk_deleteCounter e - 1\<rparr>) (ntLockTable sv)" i] by (simp add: put_entry_view)
  then show thesis
    using assms that [OF i] i e
    by (auto simp: DESTROY_LOCK_def destroy_counted_def share_def set_ack_def entry_at_view put_entry_view bindE_def Let_def
        split: sum.splits if_splits prod.splits)
qed

lemma DESTROY_CV_share:
  assumes "DESTROY_CV rq sv = Inr (sv', out)"
  obtains i t names where "arg_number (rq_arg1 rq) = Inr i" "destroy_counted i (sh_conditions (share sv), sh_conditionName (share sv)) = Inr (t, names)"
    "share sv' = (share sv)\<lparr>sh_conditions := t, sh_conditionName := names\<rparr>"
proof -
  obtain i e where i: "arg_number (rq_arg1 rq) = Inr i" and e: "entry_at (ntConditionTable sv) i = Inr e"
    using assms by (auto simp: DESTROY_CV_def bindE_def split: sum.splits)
  have "Table_Remove (put_entry i (cv_deleteCounter e - 1) (table_view cv_deleteCounter (ntConditionTable sv))) i =
      map_sum id (\<lambda>(x, t). (map_option cv_deleteCounter x, table_view cv_deleteCounter t))
        (Table_Remove (put_entry i (e\<lparr>cv_deleteCounter := cv_deleteCounter e - 1\<rparr>) (ntConditionTable sv)) i)"
    using Table_Remove_view [of cv_deleteCounter "put_entry i (e\<lparr>cv_deleteCounter := cv_deleteCounter e - 1\<rparr>) (ntConditionTable sv)" i] by (simp add: put_entry_view)
  then show thesis
    using assms that [OF i] i e
    by (auto simp: DESTROY_CV_def destroy_counted_def share_def set_ack_def entry_at_view put_entry_view bindE_def Let_def
        split: sum.splits if_splits prod.splits)
qed

lemma ack_number_share: "ack_number v sv = Inr sv' \<Longrightarrow> share sv' = share sv"
  by (auto simp: ack_number_def bindE_Inr_iff)

lemma number_if_own_share: "number_if_own rq v sv = Inr (sv', out) \<Longrightarrow> share sv' = share sv"
  by (auto simp: number_if_own_def bindE_Inr_iff ack_number_share split: if_splits)

lemma CREATE_LOCK_share:
  assumes "CREATE_LOCK rq sv = Inr (sv', out)"
  obtains nm i sv1 where "arg_text (rq_arg1 rq) = Inr nm" "create_lock (rq_ntID rq) nm sv = Inr (i, sv1)" "share sv' = share sv1"
  using assms that by (auto simp: CREATE_LOCK_def bindE_def dest!: ack_number_share split: sum.splits)

lemma CREATE_CV_share:
  assumes "CREATE_CV rq sv = Inr (sv', out)"
  obtains nm i sv1 where "arg_text (rq_arg1 rq) = Inr nm" "create_cv nm sv = Inr (i, sv1)" "share sv' = share sv1"
  using assms that by (auto simp: CREATE_CV_def bindE_def dest!: ack_number_share split: sum.splits)

text \<open>Serving a request is, for the shared part, a step that does not depend on the thread.\<close>

lemma serve_share:
  assumes "serve rq sv = Inr (sv', out)"
  shows "shared_step rq (share sv) = Inr (share sv')"
proof -
  consider "rq_type rq = CHR ''a''" | "rq_type rq = CHR ''d''" | "rq_type rq = CHR ''e''" | "rq_type rq = CHR ''i''"
    | "rq_type rq = CHR ''j''" | "rq_type rq = CHR ''l''" | "rq_type rq \<notin> set ''adeijl''"
    by auto
  then show ?thesis
  proof cases
    case 1
    then have "CREATE_LOCK rq sv = Inr (sv', out)"
      using assms by (simp add: serve_def)
    with 1 show ?thesis
      by (elim CREATE_LOCK_share create_lock_share) (simp add: shared_step_def)
  next
    case 2
    then have "DESTROY_LOCK rq sv = Inr (sv', out)"
      using assms by (simp add: serve_def)
    with 2 show ?thesis
      by (elim DESTROY_LOCK_share) (simp add: shared_step_def)
  next
    case 3
    then have "CREATE_CV rq sv = Inr (sv', out)"
      using assms by (simp add: serve_def)
    with 3 show ?thesis
      by (elim CREATE_CV_share create_cv_share) (simp add: shared_step_def)
  next
    case 4
    then have "DESTROY_CV rq sv = Inr (sv', out)"
      using assms by (simp add: serve_def)
    with 4 show ?thesis
      by (elim DESTROY_CV_share) (simp add: shared_step_def)
  next
    case 5
    then have "CREATE_MONITOR rq sv = Inr (sv', out)"
      using assms by (simp add: serve_def)
    with 5 show ?thesis
      by (auto simp: CREATE_MONITOR_def create_monitor_def shared_step_def bindE_def dest!: number_if_own_share
          split: sum.splits if_splits prod.splits) (auto simp: share_def)
  next
    case 6
    then have "SET_MONITOR rq sv = Inr (sv', out)"
      using assms by (simp add: serve_def)
    with 6 show ?thesis
      by (auto simp: SET_MONITOR_def shared_step_def bindE_def Let_def share_def set_ack_def split: sum.splits)
  next
    case 7
    then have "share sv' = share sv"
      using assms RELEASE_share SIGNAL_share WAIT_share BROADCAST_share
      by (auto simp: serve_def RETRIEVE_MONITOR_def bindE_def dest: number_if_own_share split: if_splits sum.splits)
    with 7 show ?thesis
      by (simp add: shared_step_def)
  qed
qed

fun shared_steps :: "Request list \<Rightarrow> Shared \<Rightarrow> Shared res" where
  "shared_steps [] sh = Inr sh"
| "shared_steps (rq # rqs) sh = bindE (shared_step rq sh) (shared_steps rqs)"

lemma serve_all_share: "serve_all rqs sv = Inr (sv', out) \<Longrightarrow> shared_steps rqs (share sv) = Inr (share sv')"
  by (induction rqs arbitrary: sv out) (auto simp: bindE_Inr_iff dest: serve_share)

section \<open>Properties\<close>

text \<open>C19. Network threads that serve the same requests in the same order agree on everything that is shared: which locks, conditions and monitors
  exist under which names and numbers, how often each was created, and the values of the monitors; for this part each
  thread implements one sequential server.\<close>

theorem threads_agree_on_shared:
  assumes "share s1 = share s2" and "serve_all rqs s1 = Inr (s1', out1)" and "serve_all rqs s2 = Inr (s2', out2)"
  shows "share s1' = share s2' \<and> shared_steps rqs (share s1) = Inr (share s1')"
  using serve_all_share [OF assms(2)] serve_all_share [OF assms(3)] assms(1) by simp

definition request :: "int \<Rightarrow> char \<Rightarrow> string list \<Rightarrow> Request" where
  "request i c args = \<lparr>rq_ntID = i, rq_type = c, rq_arg1 = (case args of [] \<Rightarrow> None | a # _ \<Rightarrow> Some a),
     rq_arg2 = (case args of _ # b # _ \<Rightarrow> Some b | _ \<Rightarrow> None)\<rparr>"

text \<open>A value set by the user program is what it reads: after \<open>SetMonitor\<close> a \<open>RetrieveMonitor\<close> of the same thread is answered with the
  decimal digits of the value, if the value is below one hundred.\<close>

theorem monitor_set_then_retrieved:
  assumes m: "entry_at (ntMonitorTable sv) (int i) = Inr e" and i: "i < 2 ^ 31" and v: "v < 100" and room: "3 \<le> length (sv_bytes sv SetDone)"
  shows "\<exists>sv' r1 r2. serve_all [request (sv_self sv) (CHR ''l'') [decimal i, decimal v], request (sv_self sv) (CHR ''k'') [decimal i]] sv = Inr (sv', [r1, r2]) \<and>
    og_text r2 = decimal v \<and> og_machine r2 = sv_self sv div 100 \<and> og_box r2 = sv_self sv mod 100 - 1"
proof -
  define t where "t = put_entry (int i) (e\<lparr>mv_value := int v\<rparr>) (ntMonitorTable sv)"
  define sv1 where "sv1 = set_ack SetDone (sv\<lparr>ntMonitorTable := t\<rparr>)"
  have self: "sv_self sv1 = sv_self sv"
    by (simp add: sv1_def)
  have 1: "serve (request (sv_self sv) (CHR ''l'') [decimal i, decimal v]) sv = Inr (sv1, reply sv1)"
    using m i v by (simp add: serve_def SET_MONITOR_def request_def arg_number_def arg_text_def Let_def sv1_def t_def reply_if_def)
  obtain b where b: "itoa (sv_bytes sv SetDone) 3 (int v) = Inr b" "chars_at b 0 = decimal v"
    using itoa_writes_decimal [OF v room] .
  have "entry_at (ntMonitorTable sv1) (int i) = Inr (e\<lparr>mv_value := int v\<rparr>)"
    using entry_at_set [OF m] by (simp add: sv1_def t_def)
  moreover have "ack_number (int v) sv1 = Inr (sv1\<lparr>sv_bytes := (sv_bytes sv1)(SetDone := b)\<rparr>)"
    using b(1) by (simp add: ack_number_def sv1_def)
  ultimately have 2: "serve (request (sv_self sv) (CHR ''k'') [decimal i]) sv1 =
      Inr (sv1\<lparr>sv_bytes := (sv_bytes sv1)(SetDone := b)\<rparr>, reply (sv1\<lparr>sv_bytes := (sv_bytes sv1)(SetDone := b)\<rparr>))"
    using i by (simp add: serve_def RETRIEVE_MONITOR_def request_def arg_number_def arg_text_def number_if_own_def self)
  show ?thesis
    using 1 2 b(2) self by (simp add: reply_def reply_to_def) (simp add: sv1_def)
qed

definition fresh_table :: "'a Table \<Rightarrow> bool" where
  "fresh_table t \<longleftrightarrow> table_wf t \<and> tsize t = 50 \<and> table_map t = Map.empty"

lemma fresh_Table_new: "Table_new gbits garbage 50 = Inr t \<Longrightarrow> fresh_table t"
  using Table_new_empty [of 50 gbits garbage] by (auto simp: fresh_table_def)

lemma fresh_Put:
  assumes "fresh_table t"
  shows "\<exists>i t'. Table_Put t f = Inr (i, t') \<and> 0 \<le> i \<and> i < 50"
proof -
  have "\<not> {0..<tsize t} \<subseteq> dom (table_map t)"
    using assms by (simp add: fresh_table_def)
  with Table_Put_free [of t f] assms show ?thesis
    by (fastforce simp: fresh_table_def)
qed

text \<open>C28. The number of a new lock, condition or monitor is written into the empty string literal that \<open>ack\<close> starts with: unless two more bytes behind it are
  unused, the first request of a user program to create something writes over other data.\<close>

theorem first_create_writes_past_literal:
  assumes "Server_start gbits pad self = Inr sv" and "length pad < 2" and "c \<in> {CHR ''a'', CHR ''e'', CHR ''j''}"
  shows "serve (request self c [nm]) sv = Inl OutOfRange"
proof -
  have start: "fresh_table (ntLockTable sv)" "fresh_table (ntConditionTable sv)" "fresh_table (ntMonitorTable sv)"
    "sv_self sv = self" "sv_ack sv = Empty" "sv_bytes sv Empty = CHR 0x00 # pad"
    "length (lockName sv) = 50" "length (conditionName sv) = 50" "length (monitorName sv) = 50"
    "lockNameNumber sv = 0" "conditionNameNumber sv = 0" "monitorNameNumber sv = 0"
    using assms(1) by (auto simp: Server_start_def bindE_def fresh_Table_new split: sum.splits)
  have full: "ack_number i sv' = Inl OutOfRange" if "sv_ack sv' = Empty" "sv_bytes sv' Empty = CHR 0x00 # pad" for i sv'
    using that assms(2) by (simp add: ack_number_def itoa_def)
  have none: "find_name nm 0 names = Inr (-1)" for names
    by (simp add: find_name_def search_from.simps)
  obtain i1 t1 where 1: "Table_Put (ntLockTable sv) (Some \<lparr>lk_waitQueue = [], lk_state = NtFree, lk_owner = self, lk_deleteCounter = 1\<rparr>) = Inr (i1, t1)"
    "0 \<le> i1" "i1 < 50"
    using fresh_Put [OF start(1)] by metis
  obtain i2 t2 where 2: "Table_Put (ntConditionTable sv) (Some \<lparr>cv_waitQueue = [], cv_lock = 0, cv_deleteCounter = 1\<rparr>) = Inr (i2, t2)"
    "0 \<le> i2" "i2 < 50"
    using fresh_Put [OF start(2)] by metis
  obtain i3 t3 where 3: "Table_Put (ntMonitorTable sv) (Some \<lparr>mv_value = 0\<rparr>) = Inr (i3, t3)" "0 \<le> i3" "i3 < 50"
    using fresh_Put [OF start(3)] by metis
  show ?thesis
    using assms(3)
    by (auto simp: serve_def CREATE_LOCK_def CREATE_CV_def CREATE_MONITOR_def create_lock_def create_cv_def create_monitor_def
        number_if_own_def request_def arg_text_def none start full array_set_def 1 2 3)
qed

definition after :: "string \<Rightarrow> Request list \<Rightarrow> int \<Rightarrow> (ntLockEntry \<times> string list) res" where
  "after pad rqs self =
     bindE (Server_start (\<lambda>_. 0) pad self) (\<lambda>sv.
     bindE (serve_all rqs sv) (\<lambda>(sv, out).
     bindE (entry_at (ntLockTable sv) 0) (\<lambda>sle. Inr (sle, map og_text out))))"

definition wait_and_signal :: "Request list" where
  "wait_and_signal = [request 101 (CHR ''a'') [''L''], request 101 (CHR ''e'') [''C''], request 101 (CHR ''g'') [''0'', ''0''],
     request 201 (CHR ''f'') [''0'', ''0'']]"

definition view_after :: "int \<Rightarrow> (int \<times> nt_state \<times> string list) res" where
  "view_after self = map_sum id (\<lambda>(sle, out). (lk_owner sle, lk_state sle, out)) (after [CHR 0x00, CHR 0x00] wait_and_signal self)"

text \<open>A thread that waits puts its own identity into its copy of the queue of the condition, whoever the request comes from. When thread 101 waits
  and thread 201 signals, both user programs are told to wake up and both threads have given the lock to
  themselves.\<close>

theorem wait_wakes_everyone:
  "view_after 101 = Inr (101, NtBusy, [''0'', ''0'', ''wakeup'']) \<and> view_after 201 = Inr (201, NtBusy, [''done'', ''wakeup''])"
  by code_simp

section \<open>Witnesses\<close>

definition small_server :: "int \<Rightarrow> Server" where
  "small_server self = (case bindE (Server_start (\<lambda>_. 0) [CHR 0x00, CHR 0x00] self) (serve_all [request 101 (CHR ''j'') [''M'']]) of
     Inr (sv, _) \<Rightarrow> sv | Inl _ \<Rightarrow> undefined)"

lemma small_server_monitor: "entry_at (ntMonitorTable (small_server 101)) 0 = Inr \<lparr>mv_value = 0\<rparr>"
  by code_simp

theorem monitor_set_then_retrieved_witness:
  "\<exists>sv' r1 r2. serve_all [request 101 (CHR ''l'') [decimal 0, decimal 42], request 101 (CHR ''k'') [decimal 0]] (small_server 101) = Inr (sv', [r1, r2]) \<and>
    og_text r2 = decimal 42"
proof -
  have "sv_self (small_server 101) = 101" "3 \<le> length (sv_bytes (small_server 101) SetDone)"
    by code_simp+
  with monitor_set_then_retrieved [of "small_server 101" 0 _ 42] small_server_monitor show ?thesis
    by (simp only: of_nat_0) auto
qed

definition set_minus_5 :: "Request list" where
  "set_minus_5 = [request 201 (CHR ''l'') [''0'', ''-5'']]"

lemma set_minus_5_served:
  "case serve_all set_minus_5 (small_server 101) of Inl _ \<Rightarrow> False | Inr (sv, _) \<Rightarrow> entry_at (ntMonitorTable sv) 0 = Inr \<lparr>mv_value = -5\<rparr>"
  "case serve_all set_minus_5 (small_server 201) of Inl _ \<Rightarrow> False | Inr _ \<Rightarrow> True"
  "share (small_server 101) = share (small_server 201)"
  by code_simp+

theorem threads_agree_on_shared_witness:
  "\<exists>s1 s2 o1 o2. serve_all set_minus_5 (small_server 101) = Inr (s1, o1) \<and> serve_all set_minus_5 (small_server 201) = Inr (s2, o2) \<and> share s1 = share s2 \<and>
    entry_at (ntMonitorTable s1) 0 = Inr \<lparr>mv_value = -5\<rparr>"
proof -
  obtain s1 o1 s2 o2 where r: "serve_all set_minus_5 (small_server 101) = Inr (s1, o1)" "serve_all set_minus_5 (small_server 201) = Inr (s2, o2)"
    using set_minus_5_served(1,2) by (auto split: sum.splits)
  with threads_agree_on_shared [OF set_minus_5_served(3) r] set_minus_5_served(1) show ?thesis
    by auto
qed

theorem first_create_writes_past_literal_witness:
  "\<exists>sv. Server_start (\<lambda>_. 0) [] 101 = Inr sv \<and> serve (request 101 (CHR ''a'') [''L'']) sv = Inl OutOfRange"
proof -
  have "case Server_start (\<lambda>_. 0) [] 101 of Inl _ \<Rightarrow> False | Inr _ \<Rightarrow> True"
    by code_simp
  then obtain sv where "Server_start (\<lambda>_. 0) [] 101 = Inr sv"
    by (auto split: sum.splits)
  with first_create_writes_past_literal [of "\<lambda>_. 0" "[]" 101 sv "CHR ''a''" "''L''"] show ?thesis
    by simp
qed

end
