(* ===== verification/Nachos_Client.thy ===== *)
theory Nachos_Client
  imports Nachos_NtServer
begin

text \<open>
  The network system calls of \<^verbatim>\<open>userprog/exception.cc\<close>: a user program writes its request as text, sends it to its network thread and waits
  for a mail with the answer. A call is modelled by the mail it sends and the box in which it waits; \<open>call_result\<close> is the
  value it returns for the answer. The name of an object to create is what \<open>copyin\<close> has read from
  user memory, or \<open>None\<close> when it fails. Parameters of a call are the time of day, whether the host accepts the packet, and how many bytes
  behind an allocated array belong to it; a call whose packet is refused halts the machine.
\<close>

section \<open>Texts\<close>

text \<open>\<^verbatim>\<open>%d\<close> of an integer.\<close>

definition decimal_int :: "int \<Rightarrow> string" where
  "decimal_int z = (if z < 0 then CHR ''-'' # decimal (nat (- z)) else decimal (nat z))"

text \<open>A request with its arguments; time and identity are computed as \<^verbatim>\<open>int\<close>, and the buffer the text is written into has 40 bytes.\<close>

fun fields :: "string list \<Rightarrow> string" where
  "fields [] = []"
| "fields (a # as) = CHR '','' # a @ fields as"

definition request_text :: "nat \<Rightarrow> int \<Rightarrow> char \<Rightarrow> string list \<Rightarrow> string" where
  "request_text now ID c args = decimal now @ '','' @ decimal_int ID @ '','' @ [c] @ fields args"

definition print_request :: "nat \<Rightarrow> int \<Rightarrow> char \<Rightarrow> string list \<Rightarrow> string res" where
  "print_request now ID c args =
     (if int now < 2 ^ 31 \<and> - (2 ^ 31) \<le> ID \<and> ID < 2 ^ 31
      then (let t = request_text now ID c args in if length t < 40 then Inr t else Inl OutOfRange)
      else Inl UndefinedArithmetic)"

section \<open>Calls\<close>

record Call =
  ca_mail :: Outgoing
  ca_reply_box :: int

record User =
  us_now :: nat
  us_net :: int
  us_mailBox :: int
  us_success :: bool
  us_slack :: nat

definition sendPacket :: "User \<Rightarrow> string \<Rightarrow> Outgoing res" where
  "sendPacket u dat = (if us_success u then Inr \<lparr>og_machine = us_net u, og_box = us_mailBox u + 1, og_text = dat\<rparr> else Inl Halted)"

abbreviation thread_id :: "User \<Rightarrow> int" where
  "thread_id u \<equiv> us_net u * 100 + us_mailBox u + 1"

definition call :: "User \<Rightarrow> int \<Rightarrow> char \<Rightarrow> string list \<Rightarrow> int \<Rightarrow> Call res" where
  "call u ID c args box =
     bindE (print_request (us_now u) ID c args) (\<lambda>t.
     bindE (sendPacket u t) (\<lambda>mail. Inr \<lparr>ca_mail = mail, ca_reply_box = box\<rparr>))"

definition call_result :: "string \<Rightarrow> int" where
  "call_result answer = atoi answer"

text \<open>Creation: the call returns -1 at once when the name cannot be read. The name has an array of its length, and its terminator is stored behind it.\<close>

definition create_call :: "char \<Rightarrow> User \<Rightarrow> string option \<Rightarrow> (int + Call) res" where
  "create_call c u copied =
     (case copied of
        None \<Rightarrow> Inr (Inl (-1))
      | Some nm \<Rightarrow>
          if us_slack u = 0 then Inl OutOfRange
          else bindE (call u (thread_id u) c [takeWhile (\<lambda>x. x \<noteq> CHR 0x00) nm] (us_mailBox u)) (\<lambda>ca. Inr (Inr ca)))"

definition CreateLock_Syscall :: "User \<Rightarrow> string option \<Rightarrow> (int + Call) res" where
  "CreateLock_Syscall = create_call (CHR ''a'')"

definition CreateCondition_Syscall :: "User \<Rightarrow> string option \<Rightarrow> (int + Call) res" where
  "CreateCondition_Syscall = create_call (CHR ''e'')"

definition CreateMonitor_Syscall :: "User \<Rightarrow> string option \<Rightarrow> (int + Call) res" where
  "CreateMonitor_Syscall = create_call (CHR ''j'')"

definition DestroyLock_Syscall :: "User \<Rightarrow> int \<Rightarrow> Call res" where
  "DestroyLock_Syscall u LockID =
     call u (thread_id u) (CHR ''d'') [decimal_int LockID] (us_mailBox u + 1)"

definition AcquireLock_Syscall :: "User \<Rightarrow> int \<Rightarrow> Call res" where
  "AcquireLock_Syscall u LockID =
     call u (thread_id u) (CHR ''b'') [decimal_int LockID] (us_mailBox u)"

definition ReleaseLock_Syscall :: "User \<Rightarrow> int \<Rightarrow> Call res" where
  "ReleaseLock_Syscall u LockID =
     call u (thread_id u) (CHR ''c'') [decimal_int LockID] (us_mailBox u)"

definition WaitCondition_Syscall :: "User \<Rightarrow> int \<Rightarrow> int \<Rightarrow> Call res" where
  "WaitCondition_Syscall u ConID LockID =
     call u (thread_id u) (CHR ''g'') [decimal_int ConID, decimal_int LockID] (us_mailBox u)"

definition SignalCondition_Syscall :: "User \<Rightarrow> int \<Rightarrow> int \<Rightarrow> Call res" where
  "SignalCondition_Syscall u ConID LockID =
     call u (thread_id u) (CHR ''f'') [decimal_int ConID, decimal_int LockID] (us_mailBox u)"

text \<open>A broadcast names the box of the user program, not of the network thread.\<close>

definition BroadcastCondition_Syscall :: "User \<Rightarrow> int \<Rightarrow> int \<Rightarrow> Call res" where
  "BroadcastCondition_Syscall u ConID LockID =
     call u (us_net u * 100 + us_mailBox u) (CHR ''h'') [decimal_int ConID, decimal_int LockID] (us_mailBox u)"

definition DestroyCondition_Syscall :: "User \<Rightarrow> int \<Rightarrow> Call res" where
  "DestroyCondition_Syscall u ConID =
     call u (thread_id u) (CHR ''i'') [decimal_int ConID] (us_mailBox u)"

definition RetrieveMonitor_Syscall :: "User \<Rightarrow> int \<Rightarrow> Call res" where
  "RetrieveMonitor_Syscall u mid =
     call u (thread_id u) (CHR ''k'') [decimal_int mid] (us_mailBox u)"

definition SetMonitor_Syscall :: "User \<Rightarrow> int \<Rightarrow> int \<Rightarrow> Call res" where
  "SetMonitor_Syscall u mid mValue =
     call u (thread_id u) (CHR ''l'') [decimal_int mid, decimal_int mValue] (us_mailBox u)"

section \<open>The network thread understands its user program\<close>

definition plain :: "string \<Rightarrow> bool" where
  "plain a \<longleftrightarrow> a \<noteq> [] \<and> CHR '','' \<notin> set a \<and> CHR 0x00 \<notin> set a"

lemma plain_decimal [simp]: "plain (decimal n)"
  by (simp add: plain_def)

lemma plain_char [simp]: "plain [c] \<longleftrightarrow> c \<noteq> CHR '','' \<and> c \<noteq> CHR 0x00"
  by (auto simp: plain_def)

lemma plain_decimal_int [simp]: "plain (decimal_int z)"
  by (simp add: plain_def decimal_int_def)


lemma tok_plain:
  assumes "plain w" and "pos = length pre"
  shows "tok pos (pre @ w @ CHR '','' # rest) = (Buf pos, pos + length w + 1, pre @ w @ CHR 0x00 # rest)"
    and "tok pos (pre @ w @ CHR 0x00 # rest) = (Buf pos, pos + length w, pre @ w @ CHR 0x00 # rest)"
    and "tok pos (pre @ CHR 0x00 # rest) = (Null, pos, pre @ CHR 0x00 # rest)"
  using tok_word [of w pos pre rest] assms by (auto simp: plain_def)

lemma chars_at_at: "plain w \<Longrightarrow> pos = length pre \<Longrightarrow> chars_at (pre @ w @ CHR 0x00 # rest) pos = w"
  by (auto simp: chars_at_def plain_def takeWhile_append takeWhile_eq_all_conv)

lemma parse_one:
  assumes p: "plain w1" "plain w2" "plain w3" "plain w4"
    and buf: "buf = w1 @ CHR '','' # w2 @ CHR '','' # w3 @ CHR '','' # w4 @ CHR 0x00 # rest"
  defines "p2 \<equiv> length w1 + 1" and "p3 \<equiv> length w1 + length w2 + 2" and "p4 \<equiv> length w1 + length w2 + length w3 + 3"
    and "buf' \<equiv> w1 @ CHR 0x00 # w2 @ CHR 0x00 # w3 @ CHR 0x00 # w4 @ CHR 0x00 # rest"
  shows "nt_parse buf a b = Inr (\<lparr>ps_timeStamp = atoi w1, ps_ID = atoi w2, ps_requestType = Buf p3, ps_arg1 = Buf p4, ps_arg2 = Null\<rparr>, buf')"
proof -
  let ?z = "CHR 0x00"
  have 1: "tok 0 buf = (Buf 0, p2, w1 @ ?z # w2 @ CHR '','' # w3 @ CHR '','' # w4 @ ?z # rest)"
    using tok_plain(1) [of w1 0 "[]"] p by (simp add: buf p2_def)
  have 2: "tok p2 (w1 @ ?z # w2 @ CHR '','' # w3 @ CHR '','' # w4 @ ?z # rest) = (Buf p2, p3, w1 @ ?z # w2 @ ?z # w3 @ CHR '','' # w4 @ ?z # rest)"
    using tok_plain(1) [of w2 p2 "w1 @ [?z]"] p by (simp add: p2_def p3_def)
  have 3: "tok p3 (w1 @ ?z # w2 @ ?z # w3 @ CHR '','' # w4 @ ?z # rest) = (Buf p3, p4, buf')"
    using tok_plain(1) [of w3 p3 "w1 @ ?z # w2 @ [?z]"] p by (simp add: p3_def p4_def buf'_def)
  have 4: "tok p4 buf' = (Buf p4, p4 + length w4, buf')"
    using tok_plain(2) [of w4 p4 "w1 @ ?z # w2 @ ?z # w3 @ [?z]"] p by (simp add: p4_def buf'_def)
  have 5: "tok (p4 + length w4) buf' = (Null, p4 + length w4, buf')"
    using tok_plain(3) [of w4 "p4 + length w4" "w1 @ ?z # w2 @ ?z # w3 @ ?z # w4"] p by (simp add: p4_def buf'_def)
  have c1: "chars_at (w1 @ ?z # xs) 0 = w1" and c2: "chars_at (w1 @ ?z # w2 @ ?z # xs) p2 = w2" for xs
    using chars_at_at [of w1 0 "[]"] chars_at_at [of w2 p2 "w1 @ [?z]"] p by (simp_all add: p2_def)
  show ?thesis
    by (simp add: nt_parse_def 1 2 3 4 5 c1 c2)
qed

lemma parse_two:
  assumes p: "plain w1" "plain w2" "plain w3" "plain w4" "plain w5"
    and buf: "buf = w1 @ CHR '','' # w2 @ CHR '','' # w3 @ CHR '','' # w4 @ CHR '','' # w5 @ CHR 0x00 # rest"
  defines "p2 \<equiv> length w1 + 1" and "p3 \<equiv> length w1 + length w2 + 2" and "p4 \<equiv> length w1 + length w2 + length w3 + 3"
    and "p5 \<equiv> length w1 + length w2 + length w3 + length w4 + 4"
    and "buf' \<equiv> w1 @ CHR 0x00 # w2 @ CHR 0x00 # w3 @ CHR 0x00 # w4 @ CHR 0x00 # w5 @ CHR 0x00 # rest"
  shows "nt_parse buf a b = Inr (\<lparr>ps_timeStamp = atoi w1, ps_ID = atoi w2, ps_requestType = Buf p3, ps_arg1 = Buf p4, ps_arg2 = Buf p5\<rparr>, buf')"
proof -
  let ?z = "CHR 0x00"
  have 1: "tok 0 buf = (Buf 0, p2, w1 @ ?z # w2 @ CHR '','' # w3 @ CHR '','' # w4 @ CHR '','' # w5 @ ?z # rest)"
    using tok_plain(1) [of w1 0 "[]"] p by (simp add: buf p2_def)
  have 2: "tok p2 (w1 @ ?z # w2 @ CHR '','' # w3 @ CHR '','' # w4 @ CHR '','' # w5 @ ?z # rest) =
      (Buf p2, p3, w1 @ ?z # w2 @ ?z # w3 @ CHR '','' # w4 @ CHR '','' # w5 @ ?z # rest)"
    using tok_plain(1) [of w2 p2 "w1 @ [?z]"] p by (simp add: p2_def p3_def)
  have 3: "tok p3 (w1 @ ?z # w2 @ ?z # w3 @ CHR '','' # w4 @ CHR '','' # w5 @ ?z # rest) =
      (Buf p3, p4, w1 @ ?z # w2 @ ?z # w3 @ ?z # w4 @ CHR '','' # w5 @ ?z # rest)"
    using tok_plain(1) [of w3 p3 "w1 @ ?z # w2 @ [?z]"] p by (simp add: p3_def p4_def)
  have 4: "tok p4 (w1 @ ?z # w2 @ ?z # w3 @ ?z # w4 @ CHR '','' # w5 @ ?z # rest) = (Buf p4, p5, buf')"
    using tok_plain(1) [of w4 p4 "w1 @ ?z # w2 @ ?z # w3 @ [?z]"] p by (simp add: p4_def p5_def buf'_def)
  have 5: "tok p5 buf' = (Buf p5, p5 + length w5, buf')"
    using tok_plain(2) [of w5 p5 "w1 @ ?z # w2 @ ?z # w3 @ ?z # w4 @ [?z]"] p by (simp add: p5_def buf'_def)
  have c1: "chars_at (w1 @ ?z # xs) 0 = w1" and c2: "chars_at (w1 @ ?z # w2 @ ?z # xs) p2 = w2" for xs
    using chars_at_at [of w1 0 "[]"] chars_at_at [of w2 p2 "w1 @ [?z]"] p by (simp_all add: p2_def)
  show ?thesis
    by (simp add: nt_parse_def 1 2 3 4 5 c1 c2)
qed

lemma request_of_new_entry:
  assumes "ps_requestType ps = Buf i" "i < length buf" "buf ! i = c" "ps_arg1 ps = Buf j" "chars_at buf j = a1"
    and "ps_arg2 ps = Null \<and> args = [a1] \<or> (\<exists>k. ps_arg2 ps = Buf k \<and> args = [a1, chars_at buf k])"
  shows "map_sum id fst (request_of buf x y (new_entry ps msg)) = Inr (request (ps_ID ps) c args)"
  using assms by (auto simp: request_of_def new_entry_def request_def resolve_def Let_def)

lemma request_text_understood:
  assumes "0 \<le> ID" and "plain [c]" and args: "args = [a1] \<or> args = [a1, a2]" and "plain a1" and "plain a2"
    and fits: "int now < 2 ^ 31" "ID < 2 ^ 31"
  shows "\<exists>ps buf'. nt_parse (receive_into (request_text now ID c args @ [CHR 0x00]) buf) x y = Inr (ps, buf') \<and>
    ps_timeStamp ps = int now \<and> ps_ID ps = ID \<and>
    map_sum id fst (request_of buf' (ps_arg1 ps) (ps_arg2 ps) (new_entry ps msg)) = Inr (request ID c args)"
proof -
  obtain rest where rest: "receive_into (request_text now ID c args @ [CHR 0x00]) buf = request_text now ID c args @ CHR 0x00 # rest"
    by (simp add: receive_into_def)
  have ID: "decimal_int ID = decimal (nat ID)" "atoi (decimal (nat ID)) = ID"
    using assms(1) fits(2) atoi_decimal [of "nat ID"] by (simp_all add: decimal_int_def)
  let ?w1 = "decimal now" and ?w2 = "decimal (nat ID)" and ?z = "CHR 0x00"
  let ?pre = "?w1 @ ?z # ?w2 @ [?z]"
  have i: "(?pre @ c # xs) ! (length ?w1 + length ?w2 + 2) = c" for xs
    using nth_append_length [of ?pre c xs] by simp
  have inside: "length ?w1 + length ?w2 + 2 < length (?pre @ c # xs)" for xs
    by simp
  from args show ?thesis
  proof
    assume a: "args = [a1]"
    have tx: "request_text now ID c args @ ?z # rest = ?w1 @ CHR '','' # ?w2 @ CHR '','' # [c] @ CHR '','' # a1 @ ?z # rest"
      by (simp add: request_text_def ID a)
    let ?ps = "\<lparr>ps_timeStamp = int now, ps_ID = ID, ps_requestType = Buf (length ?w1 + length ?w2 + 2),
      ps_arg1 = Buf (length ?w1 + length ?w2 + length [c] + 3), ps_arg2 = Null\<rparr>"
    let ?buf = "?pre @ c # ?z # a1 @ ?z # rest"
    have "nt_parse (receive_into (request_text now ID c args @ [?z]) buf) x y = Inr (?ps, ?buf)"
      unfolding rest using parse_one [OF _ _ assms(2,4) tx] ID(2) fits(1) by simp
    moreover have "chars_at ?buf (length ?w1 + length ?w2 + length [c] + 3) = a1"
      using chars_at_at [OF assms(4), of "length ?w1 + length ?w2 + length [c] + 3" "?pre @ [c, ?z]" rest] by simp
    then have "map_sum id fst (request_of ?buf (ps_arg1 ?ps) (ps_arg2 ?ps) (new_entry ?ps msg)) = Inr (request (ps_ID ?ps) c args)"
      by (intro request_of_new_entry [OF _ inside i]) (simp_all add: a)
    ultimately show ?thesis
      by (intro exI [of _ ?ps] exI [of _ ?buf]) simp
  next
    assume a: "args = [a1, a2]"
    have tx: "request_text now ID c args @ ?z # rest = ?w1 @ CHR '','' # ?w2 @ CHR '','' # [c] @ CHR '','' # a1 @ CHR '','' # a2 @ ?z # rest"
      by (simp add: request_text_def ID a)
    let ?ps = "\<lparr>ps_timeStamp = int now, ps_ID = ID, ps_requestType = Buf (length ?w1 + length ?w2 + 2),
      ps_arg1 = Buf (length ?w1 + length ?w2 + length [c] + 3), ps_arg2 = Buf (length ?w1 + length ?w2 + length [c] + length a1 + 4)\<rparr>"
    let ?buf = "?pre @ c # ?z # a1 @ ?z # a2 @ ?z # rest"
    have "nt_parse (receive_into (request_text now ID c args @ [?z]) buf) x y = Inr (?ps, ?buf)"
      unfolding rest using parse_two [OF _ _ assms(2,4,5) tx] ID(2) fits(1) by simp
    moreover have "chars_at ?buf (length ?w1 + length ?w2 + length [c] + 3) = a1"
      using chars_at_at [OF assms(4), of "length ?w1 + length ?w2 + length [c] + 3" "?pre @ [c, ?z]" "a2 @ ?z # rest"] by simp
    moreover have "chars_at ?buf (length ?w1 + length ?w2 + length [c] + length a1 + 4) = a2"
      using chars_at_at [OF assms(5), of "length ?w1 + length ?w2 + length [c] + length a1 + 4" "?pre @ c # ?z # a1 @ [?z]" rest] by simp
    ultimately have "map_sum id fst (request_of ?buf (ps_arg1 ?ps) (ps_arg2 ?ps) (new_entry ?ps msg)) = Inr (request (ps_ID ?ps) c args)"
      by (intro request_of_new_entry [OF _ inside i]) (simp_all add: a)
    with \<open>nt_parse _ x y = _\<close> show ?thesis
      by (intro exI [of _ ?ps] exI [of _ ?buf]) simp
  qed
qed

text \<open>C20. A system call sends its request to the network thread of the user program, and whatever the buffer held before, the thread reads from the mail what the
  call put in: the time, the identity of the sender, the type and one or two arguments, provided that a name is not empty and contains no
  comma. A call whose text does not fit into its array of 40 bytes does not get that far: \<open>call\<close> is then an error.\<close>

theorem request_understood:
  assumes "call u ID c args box = Inr ca" and "0 \<le> ID" and "plain [c]" and "args = [a1] \<or> args = [a1, a2]" and "plain a1" and "plain a2"
  shows "og_machine (ca_mail ca) = us_net u \<and> og_box (ca_mail ca) = us_mailBox u + 1 \<and>
    (\<exists>ps buf'. nt_parse (receive_into (og_text (ca_mail ca) @ [CHR 0x00]) buf) x y = Inr (ps, buf') \<and>
      ps_timeStamp ps = int (us_now u) \<and> ps_ID ps = ID \<and>
      map_sum id fst (request_of buf' (ps_arg1 ps) (ps_arg2 ps) (new_entry ps msg)) = Inr (request ID c args))"
proof -
  have "ca_mail ca = \<lparr>og_machine = us_net u, og_box = us_mailBox u + 1, og_text = request_text (us_now u) ID c args\<rparr>"
    and fits: "int (us_now u) < 2 ^ 31" "ID < 2 ^ 31"
    using assms(1) by (auto simp: call_def print_request_def sendPacket_def Let_def split: if_splits)
  with request_text_understood [OF assms(2-) fits] show ?thesis
    by simp
qed

theorem request_understood_witness:
  "\<exists>ca ps buf'. SetMonitor_Syscall \<lparr>us_now = 50, us_net = 1, us_mailBox = 0, us_success = True, us_slack = 8\<rparr> 7 42 = Inr ca \<and>
    nt_parse (receive_into (og_text (ca_mail ca) @ [CHR 0x00]) []) Null Null = Inr (ps, buf') \<and>
    map_sum id fst (request_of buf' (ps_arg1 ps) (ps_arg2 ps) (new_entry ps [])) = Inr (request 101 (CHR ''l'') [decimal_int 7, decimal_int 42])"
proof -
  let ?u = "\<lparr>us_now = 50, us_net = 1, us_mailBox = 0, us_success = True, us_slack = 8\<rparr>"
  have "isl (SetMonitor_Syscall ?u 7 42) = False"
    by code_simp
  then obtain ca where ca: "call ?u 101 (CHR ''l'') [decimal_int 7, decimal_int 42] 0 = Inr ca"
    by (cases "call ?u 101 (CHR ''l'') [decimal_int 7, decimal_int 42] 0") (simp_all add: SetMonitor_Syscall_def)
  then have "SetMonitor_Syscall ?u 7 42 = Inr ca"
    by (simp add: SetMonitor_Syscall_def)
  with request_understood [where buf = "[]" and x = Null and y = Null and msg = "[]", OF ca _ _ _ plain_decimal_int plain_decimal_int, of 7 42] show ?thesis
    by (auto simp: plain_def)
qed

section \<open>A request that waits\<close>










end
