(* ===== verification/Nachos_Console.thy ===== *)
theory Nachos_Console
  imports Nachos_Prelude "HOL-Library.Word"
begin

text \<open>
  The console: \<^verbatim>\<open>machine/console.cc\<close>, a keyboard and a display that work one character at a time and interrupt, and \<^verbatim>\<open>userprog/synchconsole.cc\<close>,
  which lets threads read and write whole lines.

  The threads, the keyboard and the interrupts of the device interleave freely: a run is a sequence of events, each what a
  thread does up to its next \<open>P\<close>, \<open>Acquire\<close> or \<open>Release\<close>, an interrupt that was scheduled, or a key. An event whose \<open>P\<close> or \<open>Acquire\<close>
  would wait cannot happen yet. The holder of a mutex is given by the local variables of its call, since it is the only
  call that is past \<open>Acquire\<close>.
\<close>

section \<open>The device\<close>

text \<open>\<open>readFile\<close> is what has been typed and not read yet, \<open>readEnded\<close> whether the file has ended behind it. The interrupts the
  device has scheduled are counted.\<close>

record Console =
  readFile :: "8 word list"
  readEnded :: bool
  writeFile :: "8 word list"
  putBusy :: bool
  incoming :: "8 word"
  read_polls :: nat
  write_interrupts :: nat
  numConsoleCharsRead :: nat
  numConsoleCharsWritten :: nat

text \<open>\<open>EOF\<close> is -1, and \<open>incoming\<close> a \<open>char\<close>.\<close>

definition EOF :: "8 word" where
  "EOF = -1"

definition Console_new :: Console where
  "Console_new = \<lparr>readFile = [], readEnded = False, writeFile = [], putBusy = False, incoming = EOF, read_polls = 1, write_interrupts = 0,
     numConsoleCharsRead = 0, numConsoleCharsWritten = 0\<rparr>"

text \<open>\<open>select\<close> reports a file that has ended as readable.\<close>

definition PollFile :: "Console \<Rightarrow> bool" where
  "PollFile c \<longleftrightarrow> readFile c \<noteq> [] \<or> readEnded c"

text \<open>The poll: whether the read handler is called, and the device.\<close>

definition CheckCharAvail :: "Console \<Rightarrow> (bool \<times> Console) res" where
  "CheckCharAvail c =
     (let c = c\<lparr>read_polls := read_polls c + 1\<rparr> in
      if incoming c \<noteq> EOF \<or> \<not> PollFile c then Inr (False, c)
      else case readFile c of
             [] \<Rightarrow> Inl AssertionFailed
           | ch # rest \<Rightarrow> Inr (True, c\<lparr>readFile := rest, incoming := ch, numConsoleCharsRead := numConsoleCharsRead c + 1\<rparr>))"

definition WriteDone :: "Console \<Rightarrow> Console" where
  "WriteDone c = c\<lparr>putBusy := False, numConsoleCharsWritten := numConsoleCharsWritten c + 1\<rparr>"

definition GetChar :: "Console \<Rightarrow> 8 word \<times> Console" where
  "GetChar c = (incoming c, c\<lparr>incoming := EOF\<rparr>)"

definition PutChar :: "8 word \<Rightarrow> Console \<Rightarrow> Console res" where
  "PutChar ch c =
     bindE (ASSERT (putBusy c = False)) (\<lambda>_.
       Inr (c\<lparr>writeFile := writeFile c @ [ch], putBusy := True, write_interrupts := write_interrupts c + 1\<rparr>))"

section \<open>Lines\<close>

text \<open>The local variables of the call of \<open>WriteLine\<close> and of \<open>ReadLine\<close> that holds the mutex. \<open>ou_waits\<close>: the call is at \<open>outputDone->P()\<close>.\<close>

record Output =
  ou_line :: "8 word list"
  ou_pos :: int
  ou_size :: int
  ou_waits :: bool

record Input =
  in_line :: "8 word list"
  in_c :: "8 word"
  in_size :: int
  num_read :: int

record SynchConsole =
  console :: Console
  inputAvailable :: nat
  outputDone :: nat
  outputMutex :: "Output option"
  inputMutex :: "Input option"

definition SynchConsole_new :: SynchConsole where
  "SynchConsole_new = \<lparr>console = Console_new, inputAvailable = 0, outputDone = 0, outputMutex = None, inputMutex = None\<rparr>"

definition SynchWriteDone :: "SynchConsole \<Rightarrow> SynchConsole" where
  "SynchWriteDone s = s\<lparr>outputDone := outputDone s + 1\<rparr>"

definition SynchReadAvail :: "SynchConsole \<Rightarrow> SynchConsole" where
  "SynchReadAvail s = s\<lparr>inputAvailable := inputAvailable s + 1\<rparr>"

text \<open>\<open>WriteLine\<close> between two waits: the test of the loop and its body up to \<open>P\<close>.\<close>

definition WriteLine_start :: "8 word list \<Rightarrow> int \<Rightarrow> Output" where
  "WriteLine_start line sz = \<lparr>ou_line = line, ou_pos = 0, ou_size = sz, ou_waits = False\<rparr>"

definition WriteLine_put :: "Output \<Rightarrow> SynchConsole \<Rightarrow> SynchConsole res" where
  "WriteLine_put w s =
     (if ou_size w = - (2 ^ 31) then Inl UndefinedArithmetic
      else bindE (array_get (ou_line w) (ou_pos w)) (\<lambda>ch.
           bindE (PutChar ch (console s)) (\<lambda>c.
             Inr (s\<lparr>console := c, outputMutex := Some (w\<lparr>ou_pos := ou_pos w + 1, ou_size := ou_size w - 1, ou_waits := True\<rparr>)\<rparr>))))"

text \<open>\<open>ReadLine\<close>: the condition of the loop and its body behind \<open>P\<close>.\<close>

definition ReadLine_start :: "8 word list \<Rightarrow> int \<Rightarrow> Input" where
  "ReadLine_start line sz = \<lparr>in_line = line, in_c = 0, in_size = sz, num_read = 0\<rparr>"

definition ReadLine_continues :: "Input \<Rightarrow> bool" where
  "ReadLine_continues r \<longleftrightarrow> in_c r \<noteq> 10 \<and> num_read r < in_size r"

definition ReadLine_get :: "Input \<Rightarrow> SynchConsole \<Rightarrow> SynchConsole res" where
  "ReadLine_get r s =
     (let (ch, c) = GetChar (console s) in
      bindE (array_set (in_line r) (num_read r) ch) (\<lambda>line.
        Inr (s\<lparr>console := c, inputMutex := Some (r\<lparr>in_line := line, in_c := ch, num_read := num_read r + 1\<rparr>)\<rparr>)))"

section \<open>Runs\<close>

datatype con_event = WriteLine "8 word list" int | Put | OutputP | OutputRelease
  | ReadLine "8 word list" int | InputP | InputRelease | Typed "8 word list" | Ended | ReadPoll | WriteInterrupt

text \<open>What an event does: \<open>None\<close> if it cannot happen, otherwise the new state and the lines that calls of \<open>ReadLine\<close> have returned.\<close>

definition enabled :: "bool \<Rightarrow> SynchConsole res \<Rightarrow> (SynchConsole \<times> 8 word list list) res option" where
  "enabled b m = (if b then Some (bindE m (\<lambda>s. Inr (s, []))) else None)"

fun con_step :: "con_event \<Rightarrow> SynchConsole \<Rightarrow> (SynchConsole \<times> 8 word list list) res option" where
  "con_step (WriteLine line sz) s = enabled (outputMutex s = None) (Inr (s\<lparr>outputMutex := Some (WriteLine_start line sz)\<rparr>))"
| "con_step Put s = (case outputMutex s of None \<Rightarrow> None | Some w \<Rightarrow> enabled (\<not> ou_waits w \<and> ou_size w \<noteq> 0) (WriteLine_put w s))"
| "con_step OutputP s = (case outputMutex s of None \<Rightarrow> None | Some w \<Rightarrow>
     enabled (ou_waits w \<and> outputDone s > 0) (Inr (s\<lparr>outputDone := outputDone s - 1, outputMutex := Some (w\<lparr>ou_waits := False\<rparr>)\<rparr>)))"
| "con_step OutputRelease s = (case outputMutex s of None \<Rightarrow> None | Some w \<Rightarrow>
     enabled (\<not> ou_waits w \<and> ou_size w = 0) (Inr (s\<lparr>outputMutex := None\<rparr>)))"
| "con_step (ReadLine line sz) s = enabled (inputMutex s = None) (Inr (s\<lparr>inputMutex := Some (ReadLine_start line sz)\<rparr>))"
| "con_step InputP s = (case inputMutex s of None \<Rightarrow> None | Some r \<Rightarrow>
     enabled (ReadLine_continues r \<and> inputAvailable s > 0) (ReadLine_get r (s\<lparr>inputAvailable := inputAvailable s - 1\<rparr>)))"
| "con_step InputRelease s = (case inputMutex s of None \<Rightarrow> None | Some r \<Rightarrow>
     if ReadLine_continues r then None else Some (Inr (s\<lparr>inputMutex := None\<rparr>, [take (nat (num_read r)) (in_line r)])))"
| "con_step (Typed cs) s = enabled (\<not> readEnded (console s)) (Inr (s\<lparr>console := (console s)\<lparr>readFile := readFile (console s) @ cs\<rparr>\<rparr>))"
| "con_step Ended s = enabled True (Inr (s\<lparr>console := (console s)\<lparr>readEnded := True\<rparr>\<rparr>))"
| "con_step ReadPoll s = enabled (read_polls (console s) > 0)
     (bindE (CheckCharAvail ((console s)\<lparr>read_polls := read_polls (console s) - 1\<rparr>)) (\<lambda>(called, c).
        let s = s\<lparr>console := c\<rparr> in Inr (if called then SynchReadAvail s else s)))"
| "con_step WriteInterrupt s = enabled (write_interrupts (console s) > 0)
     (Inr (SynchWriteDone (s\<lparr>console := WriteDone ((console s)\<lparr>write_interrupts := write_interrupts (console s) - 1\<rparr>)\<rparr>)))"

inductive con_runs :: "con_event list \<Rightarrow> 8 word list list \<Rightarrow> SynchConsole \<Rightarrow> bool" where
  con_start: "con_runs [] [] SynchConsole_new"
| con_next: "con_runs es rs s \<Longrightarrow> con_step e s = Some (Inr (s', r)) \<Longrightarrow> con_runs (es @ [e]) (rs @ r) s'"

lemma enabled_Inr_iff [simp]: "enabled b m = Some (Inr (s', r)) \<longleftrightarrow> b \<and> m = Inr s' \<and> r = []"
  by (cases m) (auto simp: enabled_def)

lemma enabled_Inl_iff [simp]: "enabled b m = Some (Inl e) \<longleftrightarrow> b \<and> m = Inl e"
  by (cases m) (auto simp: enabled_def)

section \<open>What the events ask for\<close>

definition written :: "con_event list \<Rightarrow> (8 word list \<times> int) list" where
  "written es = concat (map (\<lambda>e. case e of WriteLine line n \<Rightarrow> [(line, n)] | _ \<Rightarrow> []) es)"

definition asked :: "con_event list \<Rightarrow> (8 word list \<times> int) list" where
  "asked es = concat (map (\<lambda>e. case e of ReadLine line n \<Rightarrow> [(line, n)] | _ \<Rightarrow> []) es)"

definition typed :: "con_event list \<Rightarrow> 8 word list" where
  "typed es = concat (map (\<lambda>e. case e of Typed cs \<Rightarrow> cs | _ \<Rightarrow> []) es)"

text \<open>The array has as many characters as the call is told.\<close>

definition fits :: "8 word list \<times> int \<Rightarrow> bool" where
  "fits x \<longleftrightarrow> 0 \<le> snd x \<and> snd x \<le> int (length (fst x))"

definition text_of :: "8 word list \<times> int \<Rightarrow> 8 word list" where
  "text_of x = take (nat (snd x)) (fst x)"

lemma written_simps [simp]: "written [] = []" "written (es @ [e]) = written es @ (case e of WriteLine line n \<Rightarrow> [(line, n)] | _ \<Rightarrow> [])"
  by (simp_all add: written_def)

lemma asked_simps [simp]: "asked [] = []" "asked (es @ [e]) = asked es @ (case e of ReadLine line n \<Rightarrow> [(line, n)] | _ \<Rightarrow> [])"
  by (simp_all add: asked_def)

lemma typed_simps [simp]: "typed [] = []" "typed (es @ [e]) = typed es @ (case e of Typed cs \<Rightarrow> cs | _ \<Rightarrow> [])"
  by (simp_all add: typed_def)

section \<open>Output\<close>

definition progress :: "Output \<Rightarrow> 8 word list" where
  "progress w = take (nat (ou_pos w)) (ou_line w)"

text \<open>The handshake: while the holder of the mutex waits, the character is on its way or has been announced; at all other times the display is idle.\<close>

definition out_ok :: "(8 word list \<times> int) list \<Rightarrow> SynchConsole \<Rightarrow> bool" where
  "out_ok ls s = (case outputMutex s of
     None \<Rightarrow> outputDone s = 0 \<and> write_interrupts (console s) = 0 \<and> \<not> putBusy (console s) \<and> writeFile (console s) = concat (map text_of ls)
   | Some w \<Rightarrow> (\<exists>pre. ls = pre @ [(ou_line w, ou_pos w + ou_size w)] \<and> writeFile (console s) = concat (map text_of pre) @ progress w) \<and>
       0 \<le> ou_pos w \<and> 0 \<le> ou_size w \<and> ou_pos w + ou_size w \<le> int (length (ou_line w)) \<and>
       outputDone s + write_interrupts (console s) = (if ou_waits w then 1 else 0) \<and> putBusy (console s) = (write_interrupts (console s) > 0))"

lemma out_ok_start: "out_ok [] SynchConsole_new"
  by (simp add: out_ok_def SynchConsole_new_def Console_new_def)

lemma out_ok_cong:
  assumes "outputMutex s' = outputMutex s" "outputDone s' = outputDone s" "writeFile (console s') = writeFile (console s)"
    "putBusy (console s') = putBusy (console s)" "write_interrupts (console s') = write_interrupts (console s)"
  shows "out_ok ls s' = out_ok ls s"
  using assms by (cases "outputMutex s") (simp_all add: out_ok_def)

lemma ReadPoll_E:
  assumes "con_step ReadPoll s = Some (Inr (s', r))"
  obtains b c where "r = []" "CheckCharAvail ((console s)\<lparr>read_polls := read_polls (console s) - 1\<rparr>) = Inr (b, c)"
    "s' = (if b then SynchReadAvail (s\<lparr>console := c\<rparr>) else s\<lparr>console := c\<rparr>)"
  using assms by (auto simp: Let_def elim!: bindE_InrE)

lemma CheckCharAvail_output:
  assumes "CheckCharAvail c = Inr (b, c')"
  shows "writeFile c' = writeFile c" "putBusy c' = putBusy c" "write_interrupts c' = write_interrupts c"
  using assms by (auto simp: CheckCharAvail_def Let_def split: if_splits list.splits)

lemma progress_next:
  assumes "0 \<le> ou_pos w" "ou_pos w < int (length (ou_line w))"
  shows "take (nat (ou_pos w + 1)) (ou_line w) = progress w @ [ou_line w ! nat (ou_pos w)]"
  using assms by (simp add: progress_def nat_add_distrib take_Suc_conv_app_nth)

lemma out_ok_step:
  assumes "out_ok (written es) s" and "con_step e s = Some (Inr (s', r))" and "\<forall>x\<in>set (written (es @ [e])). fits x"
  shows "out_ok (written (es @ [e])) s'"
proof (cases e)
  case (WriteLine line n)
  with assms show ?thesis by (auto simp: out_ok_def WriteLine_start_def fits_def progress_def)
next
  case Put
  with assms obtain w where w: "outputMutex s = Some w" "\<not> ou_waits w" "ou_size w \<noteq> 0" and put: "WriteLine_put w s = Inr s'"
    by (auto split: option.splits)
  with assms(1) have "0 \<le> ou_pos w" "ou_pos w < int (length (ou_line w))"
    by (auto simp: out_ok_def)
  note next' = progress_next [OF this]
  show ?thesis
    using Put assms(1) w put next'
    by (auto simp: out_ok_def WriteLine_put_def PutChar_def array_get_def ASSERT_def progress_def split: if_splits)
next
  case OutputP
  with assms show ?thesis by (auto simp: out_ok_def progress_def split: option.splits)
next
  case OutputRelease
  with assms show ?thesis by (auto simp: out_ok_def progress_def text_of_def split: option.splits)
next
  case ReadPoll
  with assms(2) have "con_step ReadPoll s = Some (Inr (s', r))" by simp
  then show ?thesis
  proof (rule ReadPoll_E)
    fix b c
    assume "CheckCharAvail ((console s)\<lparr>read_polls := read_polls (console s) - 1\<rparr>) = Inr (b, c)"
      and "s' = (if b then SynchReadAvail (s\<lparr>console := c\<rparr>) else s\<lparr>console := c\<rparr>)"
    then have "out_ok (written es) s' = out_ok (written es) s"
      using CheckCharAvail_output by (intro out_ok_cong) (auto simp: SynchReadAvail_def)
    with ReadPoll assms(1) show ?thesis by simp
  qed
next
  case InputRelease
  with assms(2) have "out_ok (written es) s' = out_ok (written es) s"
    by (intro out_ok_cong) (auto split: option.splits if_splits)
  with InputRelease assms(1) show ?thesis by simp
next
  case InputP
  with assms(2) have "out_ok (written es) s' = out_ok (written es) s"
    by (intro out_ok_cong) (auto simp: ReadLine_get_def GetChar_def array_set_def split: option.splits if_splits)
  with InputP assms(1) show ?thesis by simp
next
  case (Typed cs)
  with assms(2) have "out_ok (written es) s' = out_ok (written es) s"
    by (intro out_ok_cong) auto
  with Typed assms(1) show ?thesis by simp
next
  case (ReadLine line n)
  with assms(2) have "out_ok (written es) s' = out_ok (written es) s"
    by (intro out_ok_cong) auto
  with ReadLine assms(1) show ?thesis by simp
next
  case Ended
  with assms(2) have "out_ok (written es) s' = out_ok (written es) s"
    by (intro out_ok_cong) auto
  with Ended assms(1) show ?thesis by simp
qed (use assms in \<open>auto simp: out_ok_def SynchWriteDone_def WriteDone_def split: option.splits\<close>)

lemma out_ok_runs: "con_runs es rs s \<Longrightarrow> \<forall>x\<in>set (written es). fits x \<Longrightarrow> out_ok (written es) s"
proof (induction rule: con_runs.induct)
  case (con_next es rs s e s' r)
  then show ?case
    using out_ok_step [OF con_next.IH con_next.hyps(2)] by simp
qed (simp add: out_ok_start)

section \<open>Input\<close>

definition got :: "Input \<Rightarrow> 8 word list" where
  "got r = take (nat (num_read r)) (in_line r)"

definition con_buffered :: "Console \<Rightarrow> 8 word list" where
  "con_buffered c = (if incoming c = EOF then [] else [incoming c])"

text \<open>A line that a call returns: a newline only at its end, and shorter than the array only if it ends with a newline.\<close>

definition line_read :: "8 word list \<times> int \<Rightarrow> 8 word list \<Rightarrow> bool" where
  "line_read x r \<longleftrightarrow> 10 \<notin> set (butlast r) \<and> (int (length r) = snd x \<or> r \<noteq> [] \<and> last r = 10)"

definition reading :: "Input option \<Rightarrow> 8 word list" where
  "reading i = (case i of None \<Rightarrow> [] | Some r \<Rightarrow> got r)"

definition input_ok :: "Input \<Rightarrow> bool" where
  "input_ok r \<longleftrightarrow> 0 \<le> num_read r \<and> num_read r \<le> in_size r \<and> in_size r \<le> int (length (in_line r)) \<and>
     10 \<notin> set (butlast (got r)) \<and> (in_c r = 10 \<longleftrightarrow> got r \<noteq> [] \<and> last (got r) = 10)"

text \<open>The semaphore counts the buffered character, and no character is lost, repeated or moved.\<close>

definition in_ok :: "con_event list \<Rightarrow> 8 word list list \<Rightarrow> SynchConsole \<Rightarrow> bool" where
  "in_ok es rs s \<longleftrightarrow>
     concat rs @ reading (inputMutex s) @ con_buffered (console s) @ readFile (console s) = typed es \<and>
     inputAvailable s = length (con_buffered (console s)) \<and>
     (case inputMutex s of
        None \<Rightarrow> list_all2 line_read (asked es) rs
      | Some r \<Rightarrow> input_ok r \<and> (\<exists>pre line. asked es = pre @ [(line, in_size r)] \<and> list_all2 line_read pre rs))"

lemma in_ok_start: "in_ok [] [] SynchConsole_new"
  by (simp add: in_ok_def SynchConsole_new_def Console_new_def reading_def con_buffered_def)

lemma in_ok_cong:
  assumes "inputMutex s' = inputMutex s" "inputAvailable s' = inputAvailable s" "readFile (console s') = readFile (console s)"
    "incoming (console s') = incoming (console s)" "typed es' = typed es" "asked es' = asked es"
  shows "in_ok es' rs s' = in_ok es rs s"
  using assms by (cases "inputMutex s") (simp_all add: in_ok_def con_buffered_def)

lemma CheckCharAvail_input:
  assumes "CheckCharAvail c = Inr (b, c')" and "EOF \<notin> set (readFile c)"
  shows "con_buffered c' @ readFile c' = con_buffered c @ readFile c \<and> length (con_buffered c') = length (con_buffered c) + of_bool b"
  using assms by (auto simp: CheckCharAvail_def Let_def con_buffered_def split: if_splits list.splits)

lemma GetChar_buffered:
  assumes "con_buffered c \<noteq> []"
  shows "con_buffered c = [fst (GetChar c)]" "con_buffered (snd (GetChar c)) = []" "readFile (snd (GetChar c)) = readFile c"
  using assms by (auto simp: GetChar_def con_buffered_def split: if_splits)

lemma got_next:
  assumes "input_ok r" "ReadLine_continues r"
  shows "array_set (in_line r) (num_read r) ch = Inr ((in_line r)[nat (num_read r) := ch])"
    and "r' = r\<lparr>in_line := (in_line r)[nat (num_read r) := ch], in_c := ch, num_read := num_read r + 1\<rparr> \<Longrightarrow>
      got r' = got r @ [ch] \<and> input_ok r' \<and> in_size r' = in_size r"
proof -
  from assms have n: "0 \<le> num_read r" "nat (num_read r) < length (in_line r)"
    by (auto simp: input_ok_def ReadLine_continues_def)
  show "array_set (in_line r) (num_read r) ch = Inr ((in_line r)[nat (num_read r) := ch])"
    using n by (simp add: array_set_def)
  assume r': "r' = r\<lparr>in_line := (in_line r)[nat (num_read r) := ch], in_c := ch, num_read := num_read r + 1\<rparr>"
  have g: "got r' = got r @ [ch]"
    using n by (simp add: r' got_def nat_add_distrib take_Suc_conv_app_nth)
  have "10 \<notin> set (got r)"
    using assms by (cases "got r" rule: rev_cases) (auto simp: input_ok_def ReadLine_continues_def)
  then have "input_ok r'"
    using assms g by (auto simp: input_ok_def ReadLine_continues_def r')
  with g r' show "got r' = got r @ [ch] \<and> input_ok r' \<and> in_size r' = in_size r"
    by simp
qed

lemma in_ok_InputP:
  assumes ok: "in_ok es rs s" and step: "con_step InputP s = Some (Inr (s', ls))"
  shows "in_ok (es @ [InputP]) (rs @ ls) s'"
proof -
  from step obtain r where r: "inputMutex s = Some r" "ReadLine_continues r" "inputAvailable s > 0" "ls = []"
    and get: "ReadLine_get r (s\<lparr>inputAvailable := inputAvailable s - 1\<rparr>) = Inr s'"
    by (auto split: option.splits)
  from ok r have rok: "input_ok r" and b: "con_buffered (console s) \<noteq> []"
    by (auto simp: in_ok_def)
  let ?ch = "fst (GetChar (console s))"
  let ?r = "r\<lparr>in_line := (in_line r)[nat (num_read r) := ?ch], in_c := ?ch, num_read := num_read r + 1\<rparr>"
  have s': "s' = s\<lparr>inputAvailable := inputAvailable s - 1, console := snd (GetChar (console s)), inputMutex := Some ?r\<rparr>"
    using get got_next(1) [OF rok r(2)] by (simp add: ReadLine_get_def split: prod.splits)
  show ?thesis
    using ok r got_next(2) [OF rok r(2) refl, of ?ch] GetChar_buffered [OF b] by (simp add: in_ok_def s' reading_def)
qed

lemma in_ok_ReadPoll:
  assumes ok: "in_ok es rs s" and step: "con_step ReadPoll s = Some (Inr (s', ls))" and eof: "EOF \<notin> set (typed es)"
  shows "in_ok (es @ [ReadPoll]) (rs @ ls) s'"
  using step
proof (rule ReadPoll_E)
  fix b c
  assume 1: "ls = []" "CheckCharAvail ((console s)\<lparr>read_polls := read_polls (console s) - 1\<rparr>) = Inr (b, c)"
    "s' = (if b then SynchReadAvail (s\<lparr>console := c\<rparr>) else s\<lparr>console := c\<rparr>)"
  have t: "typed es = concat rs @ reading (inputMutex s) @ con_buffered (console s) @ readFile (console s)"
    using ok by (simp add: in_ok_def)
  have "set (readFile (console s)) \<subseteq> set (typed es)"
    unfolding t by auto
  with eof have "EOF \<notin> set (readFile ((console s)\<lparr>read_polls := read_polls (console s) - 1\<rparr>))"
    by auto
  from CheckCharAvail_input [OF 1(2) this]
  have "con_buffered c @ readFile c = con_buffered (console s) @ readFile (console s)" "length (con_buffered c) = length (con_buffered (console s)) + of_bool b"
    by (auto simp: con_buffered_def)
  with ok 1(1,3) show ?thesis
    by (cases "inputMutex s") (simp_all add: in_ok_def SynchReadAvail_def)
qed

lemma in_ok_step:
  assumes ok: "in_ok es rs s" and step: "con_step e s = Some (Inr (s', ls))" and eof: "EOF \<notin> set (typed es)"
    and fits: "\<forall>x\<in>set (asked (es @ [e])). fits x"
  shows "in_ok (es @ [e]) (rs @ ls) s'"
proof (cases e)
  case InputP
  with assms show ?thesis using in_ok_InputP by simp
next
  case ReadPoll
  with assms show ?thesis using in_ok_ReadPoll by simp
next
  case InputRelease
  with step obtain r where r: "inputMutex s = Some r" "\<not> ReadLine_continues r" "ls = [got r]" "s' = s\<lparr>inputMutex := None\<rparr>"
    by (auto simp: got_def split: option.splits if_splits)
  with ok obtain pre line where rok: "input_ok r" and pre: "asked es = pre @ [(line, in_size r)]" "list_all2 line_read pre rs"
    by (auto simp: in_ok_def)
  have "int (length (got r)) = num_read r"
    using rok by (auto simp: input_ok_def got_def min_def)
  then have "line_read (line, in_size r) (got r)"
    using rok r(2) by (auto simp: line_read_def input_ok_def ReadLine_continues_def)
  with ok pre r InputRelease show ?thesis
    by (simp add: in_ok_def reading_def list_all2_appendI)
next
  case (ReadLine line n)
  with assms show ?thesis
    by (auto simp: in_ok_def ReadLine_start_def reading_def got_def input_ok_def fits_def)
next
  case (Typed cs)
  with step ok show ?thesis
    by (cases "inputMutex s") (auto simp: in_ok_def con_buffered_def)
next
  case (WriteLine line n)
  with step have "in_ok (es @ [e]) rs s' = in_ok es rs s" by (intro in_ok_cong) auto
  with WriteLine step ok show ?thesis by simp
next
  case Put
  with step have "in_ok (es @ [e]) rs s' = in_ok es rs s"
    by (intro in_ok_cong) (auto simp: WriteLine_put_def PutChar_def ASSERT_def split: option.splits if_splits elim!: bindE_InrE)
  with Put step ok show ?thesis by (simp split: option.splits)
next
  case OutputP
  with step have "in_ok (es @ [e]) rs s' = in_ok es rs s" by (intro in_ok_cong) (auto split: option.splits)
  with OutputP step ok show ?thesis by (simp split: option.splits)
next
  case OutputRelease
  with step have "in_ok (es @ [e]) rs s' = in_ok es rs s" by (intro in_ok_cong) (auto split: option.splits)
  with OutputRelease step ok show ?thesis by (simp split: option.splits)
next
  case Ended
  with step have "in_ok (es @ [e]) rs s' = in_ok es rs s" by (intro in_ok_cong) auto
  with Ended step ok show ?thesis by simp
next
  case WriteInterrupt
  with step have "in_ok (es @ [e]) rs s' = in_ok es rs s" by (intro in_ok_cong) (auto simp: SynchWriteDone_def WriteDone_def)
  with WriteInterrupt step ok show ?thesis by simp
qed

lemma in_ok_runs:
  "con_runs es rs s \<Longrightarrow> EOF \<notin> set (typed es) \<Longrightarrow> \<forall>x\<in>set (asked es). fits x \<Longrightarrow> in_ok es rs s"
proof (induction rule: con_runs.induct)
  case (con_next es rs s e s' r)
  then show ?case
    using in_ok_step [OF con_next.IH con_next.hyps(2)] by simp
qed (simp add: in_ok_start)

section \<open>A call of \<open>WriteLine\<close> comes to its end\<close>

lemma char_written:
  assumes "outputMutex s = Some w" "\<not> ou_waits w" "ou_size w > 0" "ou_pos w \<ge> 0" "ou_pos w < int (length (ou_line w))"
    and "outputDone s = 0" "write_interrupts (console s) = 0" "\<not> putBusy (console s)" and run: "con_runs es rs s"
  shows "\<exists>s'. con_runs (es @ [Put, WriteInterrupt, OutputP]) rs s' \<and> outputMutex s' = Some (w\<lparr>ou_pos := ou_pos w + 1, ou_size := ou_size w - 1\<rparr>) \<and>
    outputDone s' = 0 \<and> write_interrupts (console s') = 0 \<and> \<not> putBusy (console s')"
proof -
  let ?w = "\<lambda>b. w\<lparr>ou_pos := ou_pos w + 1, ou_size := ou_size w - 1, ou_waits := b\<rparr>"
  obtain s1 where s1: "con_step Put s = Some (Inr (s1, []))" "outputMutex s1 = Some (?w True)" "outputDone s1 = 0" "write_interrupts (console s1) = 1"
    using assms by (simp add: WriteLine_put_def PutChar_def ASSERT_def array_get_def)
  obtain s2 where s2: "con_step WriteInterrupt s1 = Some (Inr (s2, []))" "outputMutex s2 = Some (?w True)" "outputDone s2 = 1"
    "write_interrupts (console s2) = 0" "\<not> putBusy (console s2)"
    using s1 by (simp add: SynchWriteDone_def WriteDone_def)
  obtain s3 where s3: "con_step OutputP s2 = Some (Inr (s3, []))" "outputMutex s3 = Some (?w False)" "outputDone s3 = 0"
    "write_interrupts (console s3) = 0" "\<not> putBusy (console s3)"
    using s2 by simp
  have "con_runs (es @ [Put]) rs s1"
    using con_next [OF run s1(1)] by simp
  then have "con_runs (es @ [Put, WriteInterrupt]) rs s2"
    using con_next [OF _ s2(1)] by fastforce
  then have "con_runs (es @ [Put, WriteInterrupt, OutputP]) rs s3"
    using con_next [OF _ s3(1)] by fastforce
  moreover have "?w False = w\<lparr>ou_pos := ou_pos w + 1, ou_size := ou_size w - 1\<rparr>"
    using assms(2) by simp
  ultimately show ?thesis
    using s3 by metis
qed

lemma chars_written:
  assumes "outputMutex s = Some w" "\<not> ou_waits w" "ou_size w = int n" "ou_pos w \<ge> 0" "ou_pos w + int n \<le> int (length (ou_line w))"
    and "outputDone s = 0" "write_interrupts (console s) = 0" "\<not> putBusy (console s)" "con_runs es rs s"
  shows "\<exists>s'. con_runs (es @ concat (replicate n [Put, WriteInterrupt, OutputP])) rs s' \<and>
    outputMutex s' = Some (w\<lparr>ou_pos := ou_pos w + int n, ou_size := 0\<rparr>)"
  using assms
proof (induction n arbitrary: s w es)
  case 0
  then show ?case by (intro exI [of _ s]) simp
next
  case (Suc n)
  then obtain s' where s': "con_runs (es @ [Put, WriteInterrupt, OutputP]) rs s'" "outputMutex s' = Some (w\<lparr>ou_pos := ou_pos w + 1, ou_size := ou_size w - 1\<rparr>)"
    "outputDone s' = 0" "write_interrupts (console s') = 0" "\<not> putBusy (console s')"
    using char_written [of s w es rs] by auto
  show ?case
    using Suc.IH [OF s'(2) _ _ _ _ s'(3,4,5,1)] Suc.prems(2-5) by (simp add: ac_simps)
qed

section \<open>Theorems\<close>

text \<open>C37. What appears on the display are the lines of the calls of \<open>WriteLine\<close>, whole and one after the other in the order in which the calls got the mutex;
  of the line that is being written a prefix. No call finds the display busy.\<close>

theorem console_output_whole:
  assumes run: "con_runs es rs s" and fits: "\<forall>x\<in>set (written es). fits x"
  shows "con_step Put s \<noteq> Some (Inl err) \<and>
    (case outputMutex s of
       None \<Rightarrow> writeFile (console s) = concat (map text_of (written es))
     | Some w \<Rightarrow> ou_line w = fst (last (written es)) \<and> writeFile (console s) = concat (map text_of (butlast (written es))) @ progress w)"
proof (cases "outputMutex s")
  case None
  then show ?thesis
    using out_ok_runs [OF assms] by (simp add: out_ok_def)
next
  case (Some w)
  with out_ok_runs [OF assms] have ok: "0 \<le> ou_pos w" "0 \<le> ou_size w" "ou_pos w + ou_size w \<le> int (length (ou_line w))"
    "\<not> ou_waits w \<longrightarrow> \<not> putBusy (console s)"
    "\<exists>pre. written es = pre @ [(ou_line w, ou_pos w + ou_size w)] \<and> writeFile (console s) = concat (map text_of pre) @ progress w"
    by (auto simp: out_ok_def)
  then have "con_step Put s \<noteq> Some (Inl err)"
    using Some by (auto simp: WriteLine_put_def PutChar_def ASSERT_def array_get_def)
  with Some ok(5) show ?thesis
    by auto
qed

text \<open>A call of \<open>WriteLine\<close> comes to its end: whenever the mutex is free, the interrupts of the display and the thread alone bring the whole
  line to the display and free the mutex.\<close>

theorem WriteLine_completes:
  assumes run: "con_runs es rs s" and fits: "\<forall>x\<in>set (written es). fits x" and free: "outputMutex s = None" and len: "n \<le> length line"
  shows "\<exists>s'. con_runs (es @ WriteLine line (int n) # concat (replicate n [Put, WriteInterrupt, OutputP]) @ [OutputRelease]) rs s' \<and>
    outputMutex s' = None \<and> writeFile (console s') = writeFile (console s) @ take n line"
proof -
  let ?start = "WriteLine line (int n)"
  let ?es = "es @ ?start # concat (replicate n [Put, WriteInterrupt, OutputP])"
  have old: "out_ok (written es) s"
    using out_ok_runs [OF run fits] .
  obtain s1 where s1: "con_step ?start s = Some (Inr (s1, []))" "outputMutex s1 = Some (WriteLine_start line (int n))"
    "outputDone s1 = 0" "write_interrupts (console s1) = 0" "\<not> putBusy (console s1)"
    using old free by (simp add: out_ok_def)
  have "con_runs (es @ [?start]) rs s1"
    using con_next [OF run s1(1)] by simp
  from chars_written [OF s1(2) _ _ _ _ s1(3,4,5) this, of n] len obtain s2 w where
    s2: "con_runs ?es rs s2" "outputMutex s2 = Some w" "\<not> ou_waits w" "ou_size w = 0"
    by (auto simp: WriteLine_start_def)
  then have "con_step OutputRelease s2 = Some (Inr (s2\<lparr>outputMutex := None\<rparr>, []))"
    by simp
  from con_next [OF s2(1) this] have s3: "con_runs (?es @ [OutputRelease]) rs (s2\<lparr>outputMutex := None\<rparr>)"
    by simp
  have "concat (map (\<lambda>e. case e of WriteLine line n \<Rightarrow> [(line, n)] | _ \<Rightarrow> []) (concat (replicate n [Put, WriteInterrupt, OutputP]))) = []"
    by (induction n) simp_all
  then have w: "written (?es @ [OutputRelease]) = written es @ [(line, int n)]"
    by (simp add: written_def)
  have "out_ok (written (?es @ [OutputRelease])) (s2\<lparr>outputMutex := None\<rparr>)"
    using fits len by (intro out_ok_runs [OF s3]) (unfold w, simp add: fits_def)
  with old free have "writeFile (console s2) = writeFile (console s) @ take n line"
    unfolding w by (simp add: out_ok_def text_of_def)
  with s3 show ?thesis
    by (intro exI [of _ "s2\<lparr>outputMutex := None\<rparr>"]) simp
qed

text \<open>C38. What the calls of \<open>ReadLine\<close> return are the characters typed, in order, without loss or repetition, if the character with all bits set, which
  stands for the end of the file, is not among them: each call returns what belongs to one line, as far as its array goes,
  and what has been typed and not returned is with the call that reads, in the device or in the file.\<close>

theorem console_input_in_order:
  assumes run: "con_runs es rs s" and eof: "EOF \<notin> set (typed es)" and fits: "\<forall>x\<in>set (asked es). fits x"
  shows "concat rs @ reading (inputMutex s) @ con_buffered (console s) @ readFile (console s) = typed es \<and>
    list_all2 line_read (take (length rs) (asked es)) rs \<and> con_step InputP s \<noteq> Some (Inl err)"
proof -
  have ok: "in_ok es rs s"
    using in_ok_runs [OF assms] .
  then obtain pre x where "asked es = pre @ x" and pre: "list_all2 line_read pre rs"
    by (cases "inputMutex s") (auto simp: in_ok_def)
  then have "list_all2 line_read (take (length rs) (asked es)) rs"
    using list_all2_lengthD [OF pre] by simp
  moreover have "con_step InputP s \<noteq> Some (Inl err)"
    using ok got_next(1)
    by (auto simp: in_ok_def ReadLine_get_def split: option.splits prod.splits)
  ultimately show ?thesis
    using ok by (simp add: in_ok_def)
qed

text \<open>The runs that are executed.\<close>

fun con_run :: "con_event list \<Rightarrow> 8 word list list \<times> SynchConsole \<Rightarrow> (8 word list list \<times> SynchConsole) option" where
  "con_run [] x = Some x"
| "con_run (e # es) x = (case con_step e (snd x) of Some (Inr (s', r)) \<Rightarrow> con_run es (fst x @ r, s') | _ \<Rightarrow> None)"

lemma con_run_runs: "con_run es' x = Some y \<Longrightarrow> con_runs es (fst x) (snd x) \<Longrightarrow> con_runs (es @ es') (fst y) (snd y)"
proof (induction es' arbitrary: es x)
  case (Cons e es')
  then obtain s' r where step: "con_step e (snd x) = Some (Inr (s', r))" and rest: "con_run es' (fst x @ r, s') = Some y"
    by (auto split: option.splits sum.splits)
  show ?case
    using Cons.IH [OF rest, of "es @ [e]"] con_next [OF Cons.prems(2) step] by simp
qed simp

lemmas con_run_start = con_run_runs [of _ "([], SynchConsole_new)" _ "[]", simplified, OF _ con_start]

text \<open>The character with all bits set does not fill the buffer of the device: the next one overtakes it.\<close>

theorem eof_character_overtaken:
  assumes "c \<noteq> EOF" and "c \<noteq> 10"
  shows "map_option fst (con_run [Typed [EOF, c], ReadPoll, ReadPoll, ReadLine [x, y] 2, InputP, InputP, InputRelease] ([], SynchConsole_new)) = Some [[c, EOF]]"
  using assms
  by (simp add: SynchConsole_new_def Console_new_def enabled_def CheckCharAvail_def PollFile_def SynchReadAvail_def ReadLine_start_def
    ReadLine_continues_def ReadLine_get_def GetChar_def array_set_def Let_def)

text \<open>When the input file has ended, the next poll aborts.\<close>

theorem end_of_input_aborts:
  "con_step Ended s = Some (Inr (s', ls)) \<Longrightarrow> readFile (console s) = [] \<Longrightarrow> incoming (console s) = EOF \<Longrightarrow> read_polls (console s) > 0 \<Longrightarrow>
   con_step ReadPoll s' = Some (Inl AssertionFailed)"
  by (auto simp: CheckCharAvail_def PollFile_def Let_def)

section \<open>Witnesses\<close>

definition two_lines :: "con_event list" where
  "two_lines = [WriteLine [72, 105, 10] 3, Put, ReadLine [0, 0, 0, 0] 4, Typed [97, 10, 98], WriteInterrupt, ReadPoll, OutputP, Put, InputP, ReadPoll,
     WriteInterrupt, OutputP, Put, ReadPoll, InputP, WriteInterrupt, InputRelease, OutputP, OutputRelease]"

lemma two_lines_run: "\<exists>s. con_runs two_lines [[97, 10]] s \<and> outputMutex s = None \<and> inputMutex s = None \<and> writeFile (console s) = [72, 105, 10]"
proof -
  have "map_option (\<lambda>(rs, s). (rs, outputMutex s, inputMutex s, writeFile (console s))) (con_run two_lines ([], SynchConsole_new)) =
      Some ([[97, 10]], None, None, [72, 105, 10])"
    by code_simp
  then show ?thesis
    using con_run_start by fastforce
qed

lemma two_lines_fit: "\<forall>x\<in>set (written two_lines). fits x" "\<forall>x\<in>set (asked two_lines). fits x" "typed two_lines = [97, 10, 98]"
  by (simp_all add: two_lines_def written_def asked_def typed_def fits_def)

theorem console_output_whole_witness:
  "\<exists>s. con_runs two_lines [[97, 10]] s \<and> writeFile (console s) = concat (map text_of (written two_lines))"
proof -
  obtain s where s: "con_runs two_lines [[97, 10]] s" "outputMutex s = None"
    using two_lines_run by blast
  from console_output_whole [OF s(1) two_lines_fit(1)] s show ?thesis
    by auto
qed

theorem WriteLine_completes_witness:
  "\<exists>s'. con_runs (two_lines @ WriteLine [111, 107, 10, 0] (int 3) # concat (replicate 3 [Put, WriteInterrupt, OutputP]) @ [OutputRelease]) [[97, 10]] s' \<and>
    outputMutex s' = None \<and> writeFile (console s') = [72, 105, 10, 111, 107, 10]"
proof -
  obtain s where s: "con_runs two_lines [[97, 10]] s" "outputMutex s = None" "writeFile (console s) = [72, 105, 10]"
    using two_lines_run by blast
  from WriteLine_completes [OF s(1) two_lines_fit(1) s(2), of 3 "[111, 107, 10, 0]"] s(3) show ?thesis
    by simp
qed

theorem console_input_in_order_witness:
  "\<exists>s. con_runs two_lines [[97, 10]] s \<and>
    concat [[97, 10]] @ reading (inputMutex s) @ con_buffered (console s) @ readFile (console s) = [97, 10, 98] \<and>
    list_all2 line_read (take 1 (asked two_lines)) [[97, 10]]"
proof -
  obtain s where s: "con_runs two_lines [[97, 10]] s"
    using two_lines_run by blast
  have "EOF \<notin> set (typed two_lines)"
    by (simp add: two_lines_fit EOF_def)
  from console_input_in_order [OF s this two_lines_fit(2)] s show ?thesis
    by (auto simp: two_lines_fit(3))
qed

end
