(* ===== verification/Spec2Isabelle.thy ===== *)
theory Spec2Isabelle
  imports Nachos_Table Nachos_Synch Nachos_Interrupt Nachos_MIPS Nachos_FileSys Nachos_Exception Nachos_Isolation Nachos_Network Nachos_Client Nachos_Console
begin

text \<open>
  Verification of the Nachos operating system of this repository: a kernel written in C++ that runs
  on a simulated MIPS machine, with a disk, a timer and a network interface that are simulated, too.

  \<^bold>\<open>The program and the theories.\<close> Below, a file name is relative to \<^verbatim>\<open>src/\<close>; a definition has the name of
  the function or class it models, with the class in front where two classes share a name
  (\<open>Table_Put\<close>, \<open>MailBox_Put\<close>).

  \<^item> \<open>Nachos_Prelude\<close>: failures as values (\<open>nachos_error\<close>: a failed \<^verbatim>\<open>ASSERT\<close>, a \<open>NULL\<close> dereference, an access
    outside an array, undefined arithmetic, a thread that goes to sleep), sequencing (\<open>bindE\<close>), loops over a known range
    (\<open>foldE\<close> with its invariant rule), searches, array access, and the macros of \<^verbatim>\<open>threads/utility.h\<close>.
  \<^item> \<open>Nachos_List\<close>: \<^verbatim>\<open>threads/list.cc\<close> twice, as a heap of \<open>ListElement\<close>s with pointers and as the sequence it represents; the
    pointer operations refine the sequence operations. The locales \<open>fifo_queue\<close> and \<open>key_queue\<close> are what the
    clients of a list rely on.
  \<^item> \<open>Nachos_Bitmap\<close>, \<open>Nachos_Table\<close>: \<^verbatim>\<open>userprog/bitmap.cc\<close> down to the bits of its words, and \<^verbatim>\<open>userprog/table.h\<close>; the
    locale \<open>slot_allocator\<close> is the contract of an allocator of numbered slots.
  \<^item> \<open>Nachos_Synch\<close>: \<^verbatim>\<open>threads/thread.cc\<close>, \<^verbatim>\<open>threads/scheduler.cc\<close>, \<^verbatim>\<open>threads/synch.cc\<close>. The kernel is a step relation: a step is
    what a thread does up to the next point at which the processor may change hands, so every interleaving is a sequence of
    steps (a call of \<open>Broadcast\<close>, which leaves interrupts enabled between its calls of \<open>Signal\<close>, is several). The invariant is proved by rule induction; mutual exclusion, absence of failures and the uniqueness of each
    thread's place follow from it.
  \<^item> \<open>Nachos_Interrupt\<close>: \<^verbatim>\<open>machine/interrupt.cc\<close>, \<^verbatim>\<open>machine/timer.cc\<close>, \<^verbatim>\<open>machine/stats.cc\<close>: the simulated clock and the list of pending
    interrupts. The interrupt handlers are parameters; the locale \<open>handler_contract\<close> is what the loop that fires them
    relies on, interpreted for the timer and the disk.
  \<^item> \<open>Nachos_Machine\<close>, \<open>Nachos_MIPS\<close>: \<^verbatim>\<open>machine/machine.cc\<close>, \<^verbatim>\<open>machine/translate.cc\<close>, \<^verbatim>\<open>machine/mipssim.cc\<close>: memory on hosts of either byte
    order, address translation with page table or TLB, and every instruction on 32-bit words.
  \<^item> \<open>Nachos_Disk\<close>, \<open>Nachos_OpenFile\<close>, \<open>Nachos_Directory\<close>, \<open>Nachos_FileSys\<close>: \<^verbatim>\<open>machine/disk.cc\<close>, \<^verbatim>\<open>filesys/synchdisk.cc\<close>,
    \<^verbatim>\<open>filesys/filehdr.cc\<close>, \<^verbatim>\<open>filesys/openfile.cc\<close>, \<^verbatim>\<open>filesys/directory.cc\<close>, \<^verbatim>\<open>filesys/filesys.cc\<close>. Each layer is shown to implement
    the abstract view the next one uses: a disk of sectors, a file of bytes, a map of names, a set of disjoint files.
  \<^item> \<open>Nachos_VM\<close>, \<open>Nachos_Paging\<close>, \<open>Nachos_PageFault\<close>, \<open>Nachos_AddrSpace\<close>: \<^verbatim>\<open>userprog/addrspace.cc\<close>, \<^verbatim>\<open>userprog/process.h\<close> and the page-fault
    handler of \<^verbatim>\<open>userprog/exception.cc\<close>: address spaces, the inverted page table, the TLB, replacement and the swap file. The abstract
    view is the contents of each page of each process, wherever it is kept.
  \<^item> \<open>Nachos_Isolation\<close>: runs of several processes over the virtual memory (loads, stores and their faults, context switches, new threads and
    processes), and what they cannot do to each other's pages. The end of a process is not part of these runs: it leaves
    translations to freed frames, as \<open>Nachos_AddrSpace\<close> shows.
  \<^item> \<open>Nachos_Network\<close>: \<^verbatim>\<open>machine/network.cc\<close>, \<^verbatim>\<open>network/post.cc\<close>, \<^verbatim>\<open>threads/synchlist.cc\<close>: several machines as events that
    interleave freely. The abstract view is one queue of mails for each box of each machine.
  \<^item> \<open>Nachos_Console\<close>: \<^verbatim>\<open>machine/console.cc\<close>, \<^verbatim>\<open>userprog/synchconsole.cc\<close>: keyboard and display with their interrupts, and the calls that read
    and write whole lines, as a step relation.
  \<^item> \<open>Nachos_UserMem\<close>, \<open>Nachos_Syscall\<close>, \<open>Nachos_Exception\<close>: \<^verbatim>\<open>userprog/exception.cc\<close>: \<open>copyin\<close> and \<open>copyout\<close>, which reach user memory through the
    TLB and the page-fault handler; the system calls for files, threads and processes over the stub file system of \<^verbatim>\<open>filesys/filesys.h\<close>; the
    dispatch by \<open>ExceptionHandler\<close> in the kernel without the network.
  \<^item> \<open>Nachos_Sender\<close>: \<^verbatim>\<open>network/sender.cc\<close>: numbered messages, acknowledgements and repetition over a network that loses, delays and repeats
    packets; the threads of all machines interleave freely.
  \<^item> \<open>Nachos_Register\<close>, \<open>Nachos_NetThread\<close>, \<open>Nachos_NtServer\<close>, \<open>Nachos_Client\<close>: the locks, conditions and monitors that user programs of several machines
    share. \<open>Nachos_Client\<close> has the system calls of \<^verbatim>\<open>userprog/exception.cc\<close>, which send a text to the network thread of the
    program; \<open>Nachos_Register\<close> the server of \<^verbatim>\<open>network/nettest.cc\<close>, from which every network thread learns of all others;
    \<open>Nachos_NetThread\<close> the loop of \<open>network_thread\<close>, which passes requests on and puts them into an order by time stamps; \<open>Nachos_NtServer\<close> the requests
    themselves. The abstract view of the last is one sequential server; the threads agree with it on names,
    numbers and values, but not on who owns a lock.

  \<^bold>\<open>What the theorems show.\<close> Safety of the kernel under every interleaving (mutual exclusion, no failed assertion, each thread
  in one queue); functional correctness of each component on every branch, errors included; refinement of the
  abstract views above; liveness where the code promises it (the handlers of due interrupts run, a page fault is served, mail reaches
  its box, a lost message is repeated); and where the code does not do what it means to, a theorem that says what it does instead.

  \<^bold>\<open>Bounds and loops.\<close> Loops over a range are folds or structural recursions and total. \<open>Condition::Broadcast\<close> may run for ever, which
  its model has as an outcome. \<open>copyin\<close> retries a byte until its page is there: its model has fuel for each byte, of which
  three attempts are enough for an address of the program, and \<open>None\<close> means that it is still trying; outside the
  address space it is \<open>None\<close> for every fuel. There is no bound on the number of threads, interrupts, files or mails other than the
  bounds of the code (sectors, directory entries, frames, boxes). Machine words and the values of
  user programs are words; addresses, positions in files, the counter of the TLB, numbers read from a message and the keys of the network
  threads are integers whose overflow is an error (or, for \<open>atoi\<close>, the saturation of the library). Plain counters are unbounded integers: the size a list keeps, the value of a
  semaphore, the ticks of the clock and the times computed from them (the latency of the disk included), sequence numbers of messages, and
  the numbers of processes, threads and creations of an object; the theorems speak of runs in which none of these leaves the range of its type.

  \<^bold>\<open>Not modelled.\<close> Tracing and printing; destructors that only free memory (leaks are not observable in the model); the host
  interface \<^verbatim>\<open>machine/sysdep.cc\<close> except what the modelled code uses of it; the context switch in assembly; the command
  line; \<open>StartSimulation_Syscall\<close>, which sends one mail and waits for one; the test drivers; the restaurant simulation in \<^verbatim>\<open>threads/\<close>, a client
  program of the kernel; the stand-alone tools of \<^verbatim>\<open>bin/\<close>; the user programs of \<^verbatim>\<open>test/\<close>.
\<close>

end
